(* ===== verification/Prelude.thy ===== *)
theory Prelude
  imports Main "HOL-Library.Word"
begin

unbundle bit_operations_syntax

text \<open>
  The prelude of the development: the machine integers of Go, the parts of Go's standard
  library that several components call (\<^verbatim>\<open>math/bits\<close>, \<^verbatim>\<open>sort.Search\<close>, the slice
  operations \<^verbatim>\<open>slices.Insert\<close> and \<^verbatim>\<open>slices.Delete\<close>, decimal formatting of integers),
  and the generic lemmas on lists, integers and words that the component theories share.

  Conventions of all theories.
  \<^item> A Go \<^verbatim>\<open>int64\<close> or \<^verbatim>\<open>int32\<close> whose bits matter is a word; one that is only computed
    with is an \<open>int\<close>, and every conversion or addition that can wrap is written with
    \<open>s64\<close>, \<open>s32\<close> or \<open>u64\<close> below.
  \<^item> A function that returns \<^verbatim>\<open>(T, error)\<close> has type \<open>error + T\<close>; \<open>Inl\<close> is the error.
  \<^item> A byte is an \<open>8 word\<close>, a Go string is a \<open>string\<close> (a list of bytes as characters).
\<close>

named_theorems int_width "ranges and conversions of the machine integers"
named_theorems result_simps "elimination rules for fallible computations"

type_synonym byte = "8 word"

section \<open>Machine integers\<close>

definition MaxInt64 :: int where
  "MaxInt64 = 9223372036854775807"

definition MinInt64 :: int where
  "MinInt64 = - 9223372036854775808"

definition MaxInt32 :: int where
  "MaxInt32 = 2147483647"

definition u64 :: "int \<Rightarrow> int" where
  "u64 x = x mod 18446744073709551616"

definition s64 :: "int \<Rightarrow> int" where
  "s64 x = (x + 9223372036854775808) mod 18446744073709551616 - 9223372036854775808"

definition s32 :: "int \<Rightarrow> int" where
  "s32 x = (x + 2147483648) mod 4294967296 - 2147483648"

definition in_int64 :: "int \<Rightarrow> bool" where
  "in_int64 x \<longleftrightarrow> MinInt64 \<le> x \<and> x \<le> MaxInt64"

definition in_int32 :: "int \<Rightarrow> bool" where
  "in_int32 x \<longleftrightarrow> - 2147483648 \<le> x \<and> x \<le> MaxInt32"

lemmas int_range_defs [int_width] =
  MaxInt64_def MinInt64_def MaxInt32_def in_int64_def in_int32_def

lemma u64_id [int_width]: "0 \<le> x \<Longrightarrow> x < 18446744073709551616 \<Longrightarrow> u64 x = x"
  by (simp add: u64_def)

lemma u64_bounds [simp]: "0 \<le> u64 x" "u64 x < 18446744073709551616"
  by (simp_all add: u64_def)

lemma s64_in_range [simp]: "in_int64 (s64 x)"
proof -
  have "0 \<le> (x + 9223372036854775808) mod 18446744073709551616"
    and "(x + 9223372036854775808) mod 18446744073709551616 < 18446744073709551616"
    by simp_all
  then show ?thesis
    unfolding in_int64_def s64_def MaxInt64_def MinInt64_def by linarith
qed

lemma s64_id [int_width]: "in_int64 x \<Longrightarrow> s64 x = x"
  by (simp add: s64_def in_int64_def MaxInt64_def MinInt64_def)

lemma s64_u64 [simp]: "s64 (u64 x) = s64 x"
  by (simp add: s64_def u64_def mod_add_left_eq)

lemma s64_nonneg_iff:
  assumes "0 \<le> x" "x < 18446744073709551616"
  shows "0 \<le> s64 x \<longleftrightarrow> x \<le> MaxInt64"
proof (cases "x \<le> MaxInt64")
  case True
  then show ?thesis using assms by (simp add: s64_id in_int64_def MinInt64_def)
next
  case False
  have "(x + 9223372036854775808) mod 18446744073709551616 = (x - 9223372036854775808) mod 18446744073709551616"
    using mod_add_self2 [of "x - 9223372036854775808" 18446744073709551616] by (simp add: add.commute)
  then show ?thesis using False assms by (simp add: s64_def MaxInt64_def)
qed

lemma s32_id [int_width]: "in_int32 x \<Longrightarrow> s32 x = x"
  by (simp add: s32_def in_int32_def MaxInt32_def)

lemma s32_in_range [simp]: "in_int32 (s32 x)"
proof -
  have "0 \<le> (x + 2147483648) mod 4294967296" and "(x + 2147483648) mod 4294967296 < 4294967296"
    by simp_all
  then show ?thesis
    unfolding in_int32_def s32_def MaxInt32_def by linarith
qed

text \<open>The conversions are the two's complement readings of the words of the same width.\<close>

lemma u64_word: "u64 x = uint (word_of_int x :: 64 word)"
  by (simp add: u64_def uint_word_of_int)

lemma s64_word: "s64 x = sint (word_of_int x :: 64 word)"
  by (simp add: s64_def sint_sbintrunc' signed_take_bit_eq_take_bit_shift take_bit_eq_mod)

section \<open>The package math/bits\<close>

text \<open>
  \<^verbatim>\<open>bits.Mul64\<close>, \<^verbatim>\<open>bits.Add64\<close> and \<^verbatim>\<open>bits.Div64\<close> on unsigned 64-bit values: the full
  product as (high, low), the sum with carry out, and the quotient and remainder of a 128-bit
  value. \<^verbatim>\<open>bits.Div64\<close> panics unless the divisor exceeds the high word; every caller in this
  repository tests that first, so the model returns the pair directly.
\<close>

definition bits_Mul64 :: "int \<Rightarrow> int \<Rightarrow> int \<times> int" where
  "bits_Mul64 x y = ((x * y) div 18446744073709551616, (x * y) mod 18446744073709551616)"

definition bits_Add64 :: "int \<Rightarrow> int \<Rightarrow> int \<Rightarrow> int \<times> int" where
  "bits_Add64 x y carry =
     ((x + y + carry) mod 18446744073709551616, (x + y + carry) div 18446744073709551616)"

definition bits_Div64 :: "int \<Rightarrow> int \<Rightarrow> int \<Rightarrow> int \<times> int" where
  "bits_Div64 hi lo y =
     ((hi * 18446744073709551616 + lo) div y, (hi * 18446744073709551616 + lo) mod y)"

lemma bits_Mul64_split:
  "bits_Mul64 x y = (hi, lo) \<Longrightarrow> hi * 18446744073709551616 + lo = x * y"
  by (auto simp: bits_Mul64_def)

lemma le_div_iff_int:
  fixes a v b :: int
  assumes "0 < b"
  shows "a \<le> v div b \<longleftrightarrow> a * b \<le> v"
proof
  assume "a \<le> v div b"
  then have "a * b \<le> v div b * b" using assms by (simp add: mult_right_mono)
  also have "\<dots> \<le> v" using assms by (metis add.commute div_mult_mod_eq le_add_same_cancel2 pos_mod_sign)
  finally show "a * b \<le> v" .
next
  assume "a * b \<le> v"
  then have "(a * b) div b \<le> v div b" using assms by (rule zdiv_mono1)
  then show "a \<le> v div b" using assms by simp
qed

lemma div_less_iff_int:
  fixes a v b :: int
  assumes "0 < b"
  shows "v div b < a \<longleftrightarrow> v < a * b"
  using le_div_iff_int [OF assms, of a v] by linarith

text \<open>The guard of \<^verbatim>\<open>bits.Div64\<close> is exactly that the quotient fits in 64 bits.\<close>

lemma div_guard_iff:
  fixes v d B :: int
  assumes "0 \<le> v" and "0 < d" and "0 < B"
  shows "d \<le> v div B \<longleftrightarrow> B \<le> v div d"
proof -
  show ?thesis
    using assms by (simp add: le_div_iff_int mult.commute)
qed

section \<open>Slices and searching\<close>

text \<open>\<^verbatim>\<open>slices.Insert(s, i, v)\<close> and \<^verbatim>\<open>slices.Delete(s, i, i+1)\<close> for an index in range.\<close>

definition slices_Insert :: "'a list \<Rightarrow> nat \<Rightarrow> 'a \<Rightarrow> 'a list" where
  "slices_Insert xs i v = take i xs @ v # drop i xs"

definition slices_Delete :: "'a list \<Rightarrow> nat \<Rightarrow> 'a list" where
  "slices_Delete xs i = take i xs @ drop (Suc i) xs"

lemma set_slices_Insert [simp]: "set (slices_Insert xs i v) = insert v (set xs)"
proof -
  have "set (take i xs) \<union> set (drop i xs) = set xs"
    by (metis append_take_drop_id set_append)
  then show ?thesis by (auto simp: slices_Insert_def)
qed

lemma length_slices_Insert [simp]: "length (slices_Insert xs i v) = Suc (length xs)"
  by (simp add: slices_Insert_def)

lemma slices_Delete_append:
  "slices_Delete (xs @ y # ys) (length xs) = xs @ ys"
  by (simp add: slices_Delete_def)

lemma set_slices_Delete_subset: "set (slices_Delete xs i) \<subseteq> set xs"
  by (auto simp: slices_Delete_def dest: in_set_takeD in_set_dropD)

text \<open>
  \<^verbatim>\<open>sort.Search(n, f)\<close> is a binary search: the loop keeps \<open>f (i-1) = False\<close> and
  \<open>f j = True\<close> and halves the interval.
\<close>

function go_search_loop :: "(nat \<Rightarrow> bool) \<Rightarrow> nat \<Rightarrow> nat \<Rightarrow> nat" where
  "go_search_loop f i j =
     (if i < j then
        (let h = (i + j) div 2 in
         if \<not> f h then go_search_loop f (h + 1) j else go_search_loop f i h)
      else i)"
  by pat_completeness auto
termination
  by (relation "measure (\<lambda>(f, i, j). j - i)") auto

declare go_search_loop.simps [simp del]

definition sort_Search :: "nat \<Rightarrow> (nat \<Rightarrow> bool) \<Rightarrow> nat" where
  "sort_Search n f = go_search_loop f 0 n"

lemma go_search_loop_correct:
  assumes mono: "\<And>a b. f a \<Longrightarrow> a \<le> b \<Longrightarrow> b < n \<Longrightarrow> f b"
    and "i \<le> j" "j \<le> n" "\<And>k. k < i \<Longrightarrow> \<not> f k" "\<And>k. j \<le> k \<Longrightarrow> k < n \<Longrightarrow> f k"
  shows "go_search_loop f i j \<le> n \<and> (\<forall>k < go_search_loop f i j. \<not> f k) \<and>
         (\<forall>k. go_search_loop f i j \<le> k \<longrightarrow> k < n \<longrightarrow> f k)"
  using assms
proof (induction f i j rule: go_search_loop.induct)
  case (1 f i j)
  note mono = "1.prems"(1) and ij = "1.prems"(2,3) and below = "1.prems"(4) and above = "1.prems"(5)
  define h where "h = (i + j) div 2"
  show ?case
  proof (cases "i < j")
    case False
    then have "go_search_loop f i j = i" by (simp add: go_search_loop.simps)
    with False ij below above show ?thesis by auto
  next
    case True
    then have h: "i \<le> h" "h < j" by (auto simp: h_def)
    show ?thesis
    proof (cases "f h")
      case True
      then have step: "go_search_loop f i j = go_search_loop f i h"
        using \<open>i < j\<close> by (simp add: go_search_loop.simps [of f i j] h_def Let_def)
      have "f k" if "h \<le> k" "k < n" for k
        using mono [OF True] that by blast
      then show ?thesis
        unfolding step using True mono h ij below
        by (intro "1.IH"(2) [OF \<open>i < j\<close> h_def]) auto
    next
      case False
      then have step: "go_search_loop f i j = go_search_loop f (h + 1) j"
        using \<open>i < j\<close> by (simp add: go_search_loop.simps [of f i j] h_def Let_def)
      have "\<not> f k" if "k < h + 1" for k
        using mono [of k h] that False h ij by auto
      then show ?thesis
        unfolding step using False mono h ij above
        by (intro "1.IH"(1) [OF \<open>i < j\<close> h_def]) auto
    qed
  qed
qed

text \<open>
  For a predicate that is monotone on \<open>{..<n}\<close>, \<^verbatim>\<open>sort.Search\<close> returns the least index
  at which it holds, or \<open>n\<close>.
\<close>

lemma sort_Search_correct:
  assumes "\<And>a b. f a \<Longrightarrow> a \<le> b \<Longrightarrow> b < n \<Longrightarrow> f b"
  shows "sort_Search n f \<le> n"
    and "\<And>k. k < sort_Search n f \<Longrightarrow> \<not> f k"
    and "\<And>k. sort_Search n f \<le> k \<Longrightarrow> k < n \<Longrightarrow> f k"
  using go_search_loop_correct [of f n 0 n] assms by (auto simp: sort_Search_def)

lemma sort_Search_le: "sort_Search n f \<le> n"
proof -
  have "i \<le> j \<Longrightarrow> go_search_loop f i j \<le> j" for i j
  proof (induction f i j rule: go_search_loop.induct)
    case (1 f i j)
    let ?h = "(i + j) div 2"
    show ?case
    proof (cases "i < j \<and> f ?h")
      case True
      then have "i \<le> ?h" by auto
      with True "1.IH"(2) have "go_search_loop f i ?h \<le> ?h" by simp
      also have "?h \<le> j" using True by auto
      finally show ?thesis using True by (simp add: go_search_loop.simps [of f i j] Let_def)
    next
      case False
      with 1 show ?thesis by (auto simp: go_search_loop.simps [of f i j] Let_def)
    qed
  qed
  then show ?thesis by (simp add: sort_Search_def)
qed

section \<open>Fixed-size byte arrays\<close>

text \<open>
  A Go array \<^verbatim>\<open>[n]byte\<close> is a word of \<open>8n\<close> bits, its bytes the most significant first.
\<close>

definition be_bytes :: "nat \<Rightarrow> 'a::len word \<Rightarrow> byte list" where
  "be_bytes n w = map (\<lambda>k. ucast (drop_bit (8 * k) w)) (rev [0..<n])"

definition of_be_bytes :: "byte list \<Rightarrow> 'a::len word" where
  "of_be_bytes bs = foldl (\<lambda>w b. push_bit 8 w OR ucast b) 0 bs"

lemma length_be_bytes [simp]: "length (be_bytes n w) = n"
  by (simp add: be_bytes_def)

lemma be_bytes_fold:
  "foldl (\<lambda>w b. push_bit 8 w OR ucast b) w (be_bytes n i) = push_bit (8 * n) w OR take_bit (8 * n) (i :: 'a::len word)"
proof (induction n arbitrary: w)
  case (Suc n)
  have "foldl (\<lambda>w b. push_bit 8 w OR ucast b) w (be_bytes (Suc n) i) =
      push_bit (8 * n) (push_bit 8 w OR ucast (ucast (drop_bit (8 * n) i) :: byte)) OR take_bit (8 * n) i"
    using Suc.IH by (simp add: be_bytes_def)
  also have "\<dots> = push_bit (8 * Suc n) w OR take_bit (8 * Suc n) i"
    by (rule bit_word_eqI) (auto simp: bit_simps add.commute [of 8] dest: bit_imp_le_length)
  finally show ?case .
qed (simp add: be_bytes_def)

lemma of_be_bytes_inverse: "8 * n = LENGTH('a::len) \<Longrightarrow> of_be_bytes (be_bytes n (w :: 'a word)) = w"
  by (rule bit_word_eqI) (simp add: of_be_bytes_def be_bytes_fold bit_take_bit_iff)

lemma be_bytes_inject:
  assumes "8 * n = LENGTH('a::len)"
  shows "be_bytes n (v :: 'a word) = be_bytes n w \<longleftrightarrow> v = w"
  using of_be_bytes_inverse [OF assms, of v] of_be_bytes_inverse [OF assms, of w] by metis

lemma bit_foldl_be:
  fixes bs :: "byte list"
  shows "8 * length bs \<le> LENGTH('a::len) \<Longrightarrow> n < 8 * length bs \<Longrightarrow>
   bit (foldl (\<lambda>w b. push_bit 8 w OR ucast b) (w :: 'a word) bs) n \<longleftrightarrow> bit (bs ! (length bs - 1 - n div 8)) (n mod 8)"
proof (induction bs arbitrary: n rule: rev_induct)
  case (snoc b bs)
  show ?case
  proof (cases "n < 8")
    case True
    then have "n < LENGTH('a)" using snoc.prems by simp
    with True show ?thesis by (auto simp: bit_simps nth_append)
  next
    case False
    then have m: "n - 8 < 8 * length bs" "(n - 8) mod 8 = n mod 8" "(n - 8) div 8 = n div 8 - 1" "n div 8 \<noteq> 0"
      using snoc.prems by (auto simp: le_mod_geq le_div_geq)
    have "\<not> bit b n" using False bit_imp_le_length [of b n] by auto
    moreover have "length bs - Suc (n div 8 - Suc 0) = length bs - n div 8" using m(4) by (cases "n div 8") auto
    moreover have "length bs - n div 8 < length bs" using m snoc.prems by (cases bs) auto
    ultimately show ?thesis
      using False snoc.prems snoc.IH [of "n - 8"] m by (auto simp: bit_simps nth_append)
  qed
qed simp

lemma be_bytes_of_be_bytes:
  assumes "8 * length bs = LENGTH('a::len)"
  shows "be_bytes (length bs) (of_be_bytes bs :: 'a word) = bs"
proof (rule nth_equalityI)
  fix i assume "i < length (be_bytes (length bs) (of_be_bytes bs :: 'a word))"
  then have i: "i < length bs" by simp
  show "be_bytes (length bs) (of_be_bytes bs :: 'a word) ! i = bs ! i"
  proof (rule bit_word_eqI)
    fix n assume "n < LENGTH(8)"
    then have n: "n < 8" by simp
    define k where "k = length bs - Suc i"
    have k: "k < length bs" "length bs - 1 - k = i" using i by (auto simp: k_def)
    have d: "(8 * k + n) div 8 = k" "(8 * k + n) mod 8 = n" "8 * k + n < 8 * length bs" using n k by auto
    have "be_bytes (length bs) (of_be_bytes bs :: 'a word) ! i = ucast (drop_bit (8 * k) (of_be_bytes bs :: 'a word))"
      using i by (simp add: be_bytes_def rev_nth k_def)
    then show "bit (be_bytes (length bs) (of_be_bytes bs :: 'a word) ! i) n = bit (bs ! i) n"
      using n d k bit_foldl_be [of bs "8 * k + n" "0 :: 'a word"] assms
      by (simp add: of_be_bytes_def bit_simps)
  qed
qed simp

section \<open>Encodings\<close>

text \<open>
  The contract the encodings of this repository share (the packed IDs of \<^verbatim>\<open>toid\<close>, amount
  strings, strkeys, multiplexed addresses): encoding a well-formed value succeeds and decoding
  gives the value back. A canonical encoding has exactly one valid representation per value.
\<close>

locale codec =
  fixes enc :: "'a \<Rightarrow> 'e + 'b"
    and dec :: "'b \<Rightarrow> 'f + 'a"
    and wf :: "'a \<Rightarrow> bool"
  assumes roundtrip: "wf a \<Longrightarrow> \<exists>b. enc a = Inr b \<and> dec b = Inr a"
begin

lemma dec_enc: "wf a \<Longrightarrow> enc a = Inr b \<Longrightarrow> dec b = Inr a"
  using roundtrip by fastforce

lemma enc_inject: "wf a \<Longrightarrow> wf a' \<Longrightarrow> enc a = enc a' \<Longrightarrow> a = a'"
  using roundtrip [of a] dec_enc [of a'] by auto

end

locale canonical_codec = codec enc dec wf
  for enc :: "'a \<Rightarrow> 'e + 'b" and dec :: "'b \<Rightarrow> 'f + 'a" and wf :: "'a \<Rightarrow> bool" +
  fixes valid :: "'b \<Rightarrow> bool"
  assumes canonical: "valid b \<Longrightarrow> dec b = Inr a \<Longrightarrow> wf a \<and> enc a = Inr b"
begin

lemma dec_inject: "valid b \<Longrightarrow> valid b' \<Longrightarrow> dec b = Inr a \<Longrightarrow> dec b' = Inr a \<Longrightarrow> b = b'"
  using canonical [of b a] canonical [of b' a] by simp

lemma dec_iff_enc: "wf a \<Longrightarrow> valid b \<Longrightarrow> dec b = Inr a \<longleftrightarrow> enc a = Inr b"
  using canonical dec_enc by blast

end

section \<open>Step relations with an invariant\<close>

locale step_invariant =
  fixes step :: "'c \<Rightarrow> 'c \<Rightarrow> bool" and inv :: "'c \<Rightarrow> bool"
  assumes preserved: "inv c \<Longrightarrow> step c c' \<Longrightarrow> inv c'"
begin

lemma reachable_inv: "step\<^sup>*\<^sup>* c c' \<Longrightarrow> inv c \<Longrightarrow> inv c'"
  by (induction rule: rtranclp_induct) (auto intro: preserved)

lemma restricted_inv:
  assumes "step0\<^sup>*\<^sup>* c c'" "\<And>x y. step0 x y \<Longrightarrow> step x y" "inv c"
  shows "inv c'"
  using assms(1,3) by (induction rule: rtranclp_induct) (auto intro: preserved assms(2))

end

end
