(* ===== verification/Toid.thy ===== *)
theory Toid
  imports Prelude
begin

text \<open>
  Package \<^verbatim>\<open>toid\<close> (\<^verbatim>\<open>src/toid/main.go\<close>): the total order ID of SEP-35, which packs
  a ledger sequence (32 bits), the application order of a transaction (20 bits) and an
  operation index (12 bits) into one signed 64-bit number. The fields are \<^verbatim>\<open>int32\<close> and the
  packed number is \<^verbatim>\<open>int64\<close>, so both are words; \<open>sint\<close> reads them as the code does.
\<close>

unbundle bit_operations_syntax

section \<open>The model\<close>

record toid =
  LedgerSequence :: "32 word"
  TransactionOrder :: "32 word"
  OperationOrder :: "32 word"

datatype toid_panic = InvalidLedgerSequence | TransactionOrderOverflow | OperationOrderOverflow

datatype toid_error = RangeFromGreaterThanTo | RangeNotPositive | RangePanic toid_panic

definition LedgerMask :: int where "LedgerMask = 2 ^ 32 - 1"
definition TransactionMask :: int where "TransactionMask = 2 ^ 20 - 1"
definition OperationMask :: int where "OperationMask = 2 ^ 12 - 1"

definition LedgerShift :: nat where "LedgerShift = 32"
definition TransactionShift :: nat where "TransactionShift = 12"
definition OperationShift :: nat where "OperationShift = 0"

definition toid_New :: "32 word \<Rightarrow> 32 word \<Rightarrow> 32 word \<Rightarrow> toid" where
  "toid_New ledger tx op =
     \<lparr>LedgerSequence = ledger, TransactionOrder = tx, OperationOrder = op\<rparr>"

definition AfterLedger :: "32 word \<Rightarrow> toid" where
  "AfterLedger seq = toid_New seq (word_of_int TransactionMask) (word_of_int OperationMask)"

definition ToInt64 :: "toid \<Rightarrow> toid_panic + 64 word" where
  "ToInt64 tid =
     (if sint (LedgerSequence tid) < 0 then Inl InvalidLedgerSequence
      else if sint (TransactionOrder tid) > TransactionMask then Inl TransactionOrderOverflow
      else if sint (OperationOrder tid) > OperationMask then Inl OperationOrderOverflow
      else Inr
        (push_bit LedgerShift (scast (LedgerSequence tid) AND word_of_int LedgerMask)
         OR push_bit TransactionShift (scast (TransactionOrder tid) AND word_of_int TransactionMask)
         OR push_bit OperationShift (scast (OperationOrder tid) AND word_of_int OperationMask)))"

definition toid_Parse :: "64 word \<Rightarrow> toid" where
  "toid_Parse tid =
     \<lparr>LedgerSequence = ucast (signed_drop_bit LedgerShift tid AND word_of_int LedgerMask),
      TransactionOrder = ucast (signed_drop_bit TransactionShift tid AND word_of_int TransactionMask),
      OperationOrder = ucast (signed_drop_bit OperationShift tid AND word_of_int OperationMask)\<rparr>"

definition IncOperationOrder :: "toid \<Rightarrow> toid" where
  "IncOperationOrder tid =
     (let id1 = tid\<lparr>OperationOrder := OperationOrder tid + 1\<rparr> in
      if sint (OperationOrder id1) > OperationMask
      then id1\<lparr>OperationOrder := 0, LedgerSequence := LedgerSequence id1 + 1\<rparr>
      else id1)"

definition LedgerRangeInclusive ::
  "32 word \<Rightarrow> 32 word \<Rightarrow> toid_error + 64 word \<times> 64 word" where
  "LedgerRangeInclusive from to =
     (if sint from > sint to then Inl RangeFromGreaterThanTo
      else if sint from \<le> 0 \<or> sint to \<le> 0 then Inl RangeNotPositive
      else
        (case (if from = 1 then Inr 0 else ToInt64 (toid_New from 0 0)) of
           Inl p \<Rightarrow> Inl (RangePanic p)
         | Inr toidFrom \<Rightarrow>
             (case ToInt64 (toid_New (to + 1) 0 0) of
                Inl p \<Rightarrow> Inl (RangePanic p)
              | Inr toidTo \<Rightarrow> Inr (toidFrom, toidTo))))"

section \<open>Well-formed IDs and the numeric value of the packing\<close>

definition toid_wf :: "toid \<Rightarrow> bool" where
  "toid_wf tid \<longleftrightarrow> 0 \<le> sint (LedgerSequence tid)
     \<and> 0 \<le> sint (TransactionOrder tid) \<and> sint (TransactionOrder tid) \<le> TransactionMask
     \<and> 0 \<le> sint (OperationOrder tid) \<and> sint (OperationOrder tid) \<le> OperationMask"

text \<open>The abstract order: lexicographic on (ledger, transaction, operation).\<close>

definition toid_less :: "toid \<Rightarrow> toid \<Rightarrow> bool" where
  "toid_less a b \<longleftrightarrow>
     sint (LedgerSequence a) < sint (LedgerSequence b) \<or>
     sint (LedgerSequence a) = sint (LedgerSequence b) \<and>
       (sint (TransactionOrder a) < sint (TransactionOrder b) \<or>
        sint (TransactionOrder a) = sint (TransactionOrder b) \<and>
        sint (OperationOrder a) < sint (OperationOrder b))"

definition toid_value :: "toid \<Rightarrow> int" where
  "toid_value tid = sint (LedgerSequence tid) * 2 ^ 32
     + sint (TransactionOrder tid) * 2 ^ 12 + sint (OperationOrder tid)"

lemmas toid_consts [simp] =
  LedgerMask_def TransactionMask_def OperationMask_def
  LedgerShift_def TransactionShift_def OperationShift_def

lemma sint32_bounds: "- 2147483648 \<le> sint (w :: 32 word)" "sint (w :: 32 word) < 2147483648"
  using sint_greater_eq [of w] sint_less [of w] by simp_all

lemma sint_word_of_int64: "0 \<le> v \<Longrightarrow> v < 2 ^ 63 \<Longrightarrow> sint (word_of_int v :: 64 word) = v"
  by (simp add: sint_sbintrunc' signed_take_bit_int_eq_self)

lemma sint_word_of_int32: "- 2147483648 \<le> v \<Longrightarrow> v < 2147483648 \<Longrightarrow> sint (word_of_int v :: 32 word) = v"
  by (simp add: sint_sbintrunc' signed_take_bit_int_eq_self)

lemma or_shifted: "0 \<le> b \<Longrightarrow> b < 2 ^ n \<Longrightarrow> push_bit n a OR b = a * 2 ^ n + (b :: int)"
proof -
  assume b: "0 \<le> b" "b < 2 ^ n"
  then have "take_bit n b = b" by (simp add: take_bit_int_eq_self)
  then have "\<not> bit (push_bit n a) m \<or> \<not> bit b m" for m
    by (metis bit_push_bit_iff_int bit_take_bit_iff linorder_not_less)
  then have "push_bit n a + b = push_bit n a OR b" by (rule disjunctive_add)
  then show ?thesis by (simp add: push_bit_eq_mult)
qed

lemma scast_masked:
  assumes "0 \<le> sint w" "sint w < 2 ^ n" "n \<le> 32"
  shows "scast (w :: 32 word) AND word_of_int (2 ^ n - 1) = (word_of_int (sint w) :: 64 word)"
proof -
  have "scast w AND word_of_int (2 ^ n - 1) = (word_of_int (sint w AND (2 ^ n - 1)) :: 64 word)"
    by (simp only: scast_eq word_wi_log_defs)
  moreover have "sint w AND (2 ^ n - 1) = sint w"
    using take_bit_int_eq_self [OF assms(1,2)] by (simp only: take_bit_eq_mask mask_eq_exp_minus_1)
  ultimately show ?thesis by simp
qed

lemma push_bit_word_of_int: "push_bit n (word_of_int v) = (word_of_int (push_bit n v) :: 64 word)"
  by (simp add: push_bit_eq_mult)

lemma toid_value_bounds: "toid_wf tid \<Longrightarrow> 0 \<le> toid_value tid \<and> toid_value tid < 2 ^ 63"
  using sint32_bounds [of "LedgerSequence tid"] by (simp add: toid_wf_def toid_value_def)

lemma ToInt64_value: "toid_wf tid \<Longrightarrow> ToInt64 tid = Inr (word_of_int (toid_value tid))"
proof -
  assume wf: "toid_wf tid"
  let ?l = "sint (LedgerSequence tid)" and ?t = "sint (TransactionOrder tid)"
    and ?o = "sint (OperationOrder tid)"
  have "push_bit 12 ?t OR ?o = ?t * 2 ^ 12 + ?o"
    using wf by (intro or_shifted) (auto simp: toid_wf_def)
  moreover have "push_bit 32 ?l OR (?t * 2 ^ 12 + ?o) = ?l * 2 ^ 32 + (?t * 2 ^ 12 + ?o)"
    using wf by (intro or_shifted) (auto simp: toid_wf_def)
  ultimately have bits: "push_bit 32 ?l OR push_bit 12 ?t OR ?o = toid_value tid"
    by (simp add: toid_value_def or.assoc)
  have "scast (LedgerSequence tid) AND word_of_int (2 ^ 32 - 1) = (word_of_int ?l :: 64 word)"
    "scast (TransactionOrder tid) AND word_of_int (2 ^ 20 - 1) = (word_of_int ?t :: 64 word)"
    "scast (OperationOrder tid) AND word_of_int (2 ^ 12 - 1) = (word_of_int ?o :: 64 word)"
    using wf sint32_bounds [of "LedgerSequence tid"]
    by (intro scast_masked; force simp: toid_wf_def)+
  then show ?thesis
    using wf bits
    by (simp only: ToInt64_def toid_consts push_bit_word_of_int word_wi_log_defs push_bit_0_id id_apply)
      (simp add: toid_wf_def)
qed

lemma sint_ToInt64: "toid_wf tid \<Longrightarrow> ToInt64 tid = Inr r \<Longrightarrow> sint r = toid_value tid"
  using toid_value_bounds [of tid] by (auto simp: ToInt64_value intro: sint_word_of_int64)

lemma pack_less_iff:
  fixes l t p l' t' p' :: int
  assumes "0 \<le> t" "t < 1048576" "0 \<le> p" "p < 4096" "0 \<le> t'" "t' < 1048576" "0 \<le> p'" "p' < 4096"
  shows "l * 4294967296 + t * 4096 + p < l' * 4294967296 + t' * 4096 + p' \<longleftrightarrow>
    l < l' \<or> l = l' \<and> (t < t' \<or> t = t' \<and> p < p')"
proof -
  consider "l < l'" | "l' < l" | "l = l'" "t < t'" | "l = l'" "t' < t" | "l = l'" "t = t'" by linarith
  then show ?thesis using assms by cases linarith+
qed

lemma toid_value_less: "toid_wf a \<Longrightarrow> toid_wf b \<Longrightarrow> toid_value a < toid_value b \<longleftrightarrow> toid_less a b"
  using pack_less_iff [of "sint (TransactionOrder a)" "sint (OperationOrder a)"
      "sint (TransactionOrder b)" "sint (OperationOrder b)"]
  by (simp add: toid_wf_def toid_less_def toid_value_def)


lemma toid_Parse_value:
  assumes "0 \<le> v" "v < 2 ^ 63"
  shows "toid_Parse (word_of_int v) =
    \<lparr>LedgerSequence = word_of_int (v div 2 ^ 32),
     TransactionOrder = word_of_int (v div 2 ^ 12 mod 2 ^ 20),
     OperationOrder = word_of_int (v mod 2 ^ 12)\<rparr>"
proof -
  have field: "ucast (signed_drop_bit n (word_of_int v :: 64 word) AND word_of_int (2 ^ k - 1))
      = (word_of_int (v div 2 ^ n mod 2 ^ k) :: 32 word)" if "k \<le> 32" for n k
  proof -
    have "signed_drop_bit n (word_of_int v :: 64 word)
        = word_of_int (sint (signed_drop_bit n (word_of_int v :: 64 word)))"
      by simp
    also have "\<dots> = word_of_int (v div 2 ^ n)"
      using assms by (simp only: sint_signed_drop_bit_eq sint_word_of_int64 drop_bit_eq_div)
    finally have "signed_drop_bit n (word_of_int v :: 64 word) = word_of_int (v div 2 ^ n)" .
    moreover have "v div 2 ^ n AND (2 ^ k - 1) = v div 2 ^ n mod 2 ^ k"
      by (simp only: take_bit_eq_mod flip: mask_eq_exp_minus_1 take_bit_eq_mask)
    moreover have "ucast (word_of_int (v div 2 ^ n mod 2 ^ k) :: 64 word)
        = (word_of_int (v div 2 ^ n mod 2 ^ k) :: 32 word)"
    proof -
      have "v div 2 ^ n mod 2 ^ k < 2 ^ k" by simp
      also have "(2::int) ^ k \<le> 2 ^ 32" using that by (rule power_increasing) simp
      finally have "take_bit 64 (v div 2 ^ n mod 2 ^ k) = v div 2 ^ n mod 2 ^ k"
        by (intro take_bit_int_eq_self) auto
      then show ?thesis by (simp add: ucast_eq uint_word_of_int take_bit_eq_mod)
    qed
    ultimately show ?thesis by (simp only: word_wi_log_defs)
  qed
  have "v div 2 ^ 32 mod 2 ^ 32 = v div 2 ^ 32"
    using assms by simp
  then show ?thesis
    using field [of 32 32] field [of 20 12] field [of 12 0]
    by (simp only: toid_Parse_def toid_consts) simp
qed

section \<open>Packing and unpacking\<close>

lemma pack_fields:
  fixes l t p :: int
  assumes "0 \<le> t" "t < 1048576" "0 \<le> p" "p < 4096"
  shows "(l * 4294967296 + t * 4096 + p) div 4294967296 = l"
    and "(l * 4294967296 + t * 4096 + p) div 4096 mod 1048576 = t"
    and "(l * 4294967296 + t * 4096 + p) mod 4096 = p"
proof -
  have split: "l * 4294967296 + t * 4096 + p = p + (t + l * 1048576) * 4096" by simp
  have "(l * 4294967296 + t * 4096 + p) div 4096 = t + l * 1048576"
    unfolding split using assms by (subst div_mult_self1) simp_all
  then show "(l * 4294967296 + t * 4096 + p) div 4096 mod 1048576 = t"
    using assms by simp
  show "(l * 4294967296 + t * 4096 + p) mod 4096 = p"
    unfolding split using assms by (subst mod_mult_self1) simp
  have "l * 4294967296 + t * 4096 + p = (t * 4096 + p) + l * 4294967296" by simp
  also have "\<dots> div 4294967296 = l"
    using assms by (subst div_mult_self1) simp_all
  finally show "(l * 4294967296 + t * 4096 + p) div 4294967296 = l" .
qed

lemma pack_unpack:
  fixes v :: int
  shows "v div 4294967296 * 4294967296 + v div 4096 mod 1048576 * 4096 + v mod 4096 = v"
proof -
  have "v div 4294967296 = v div 4096 div 1048576"
    using zdiv_zmult2_eq [of 1048576 v 4096] by simp
  then have "v div 4294967296 * 1048576 + v div 4096 mod 1048576 = v div 4096" by simp
  then show ?thesis using div_mult_mod_eq [of v 4096] by linarith
qed

lemma toid_roundtrip_ex: "toid_wf tid \<Longrightarrow> \<exists>r. ToInt64 tid = Inr r \<and> toid_Parse r = tid"
proof -
  assume wf: "toid_wf tid"
  let ?l = "sint (LedgerSequence tid)" and ?t = "sint (TransactionOrder tid)"
    and ?o = "sint (OperationOrder tid)"
  have b: "0 \<le> ?t" "?t < 1048576" "0 \<le> ?o" "?o < 4096"
    using wf by (auto simp: toid_wf_def)
  have "toid_value tid div 2 ^ 32 = ?l" "toid_value tid div 2 ^ 12 mod 2 ^ 20 = ?t"
    "toid_value tid mod 2 ^ 12 = ?o"
    using pack_fields [OF b] by (simp_all add: toid_value_def)
  then have "toid_Parse (word_of_int (toid_value tid)) = tid"
    using toid_value_bounds [OF wf] by (simp only: toid_Parse_value) simp
  then show ?thesis using ToInt64_value [OF wf] by blast
qed

lemma toid_Parse_pack:
  assumes "0 \<le> sint r"
  shows "toid_wf (toid_Parse r) \<and> ToInt64 (toid_Parse r) = Inr r"
proof -
  define v where "v = sint r"
  have v: "0 \<le> v" "v < 2 ^ 63"
    using assms sint_less [of r] by (simp_all add: v_def)
  have r: "r = word_of_int v" by (simp add: v_def)
  have l: "0 \<le> v div 2 ^ 32" "v div 2 ^ 32 < 2147483648"
    and t: "0 \<le> v div 2 ^ 12 mod 2 ^ 20" "v div 2 ^ 12 mod 2 ^ 20 < 1048576"
    and p: "0 \<le> v mod 2 ^ 12" "v mod 2 ^ 12 < 4096"
    using v by (simp_all add: pos_imp_zdiv_nonneg_iff)
  have fields: "sint (word_of_int (v div 2 ^ 32) :: 32 word) = v div 2 ^ 32"
    "sint (word_of_int (v div 2 ^ 12 mod 2 ^ 20) :: 32 word) = v div 2 ^ 12 mod 2 ^ 20"
    "sint (word_of_int (v mod 2 ^ 12) :: 32 word) = v mod 2 ^ 12"
    using l t p by (intro sint_word_of_int32; linarith)+
  have wf: "toid_wf (toid_Parse r)"
    unfolding r toid_Parse_value [OF v] toid_wf_def toid.simps fields toid_consts
    using l t p by auto
  have "v div 2 ^ 32 * 2 ^ 32 + v div 2 ^ 12 mod 2 ^ 20 * 2 ^ 12 + v mod 2 ^ 12 = v"
    using pack_unpack [of v] by simp
  then have "toid_value (toid_Parse r) = v"
    unfolding r toid_Parse_value [OF v] toid_value_def by (simp only: toid.simps fields)
  with wf show ?thesis by (simp add: ToInt64_value r)
qed

interpretation toid_code: canonical_codec ToInt64 "\<lambda>r. Inr (toid_Parse r)" toid_wf "\<lambda>r. 0 \<le> sint r"
  by unfold_locales (use toid_roundtrip_ex toid_Parse_pack in auto)

section \<open>Properties\<close>

text \<open>
  C22. Packing loses nothing: a well-formed ID packs without panic, and \<^verbatim>\<open>Parse\<close> of the packed
  number is the ID; conversely every non-negative \<^verbatim>\<open>int64\<close> parses to a well-formed ID that
  packs back to the same number. So \<^verbatim>\<open>ToInt64\<close> and \<^verbatim>\<open>Parse\<close> are inverse bijections.
\<close>

theorem toid_pack_parse:
  "(toid_wf tid \<longrightarrow> (\<exists>r. ToInt64 tid = Inr r \<and> 0 \<le> sint r \<and> toid_Parse r = tid)) \<and>
   (0 \<le> sint n \<longrightarrow> toid_wf (toid_Parse n) \<and> ToInt64 (toid_Parse n) = Inr n)"
proof (intro conjI impI)
  assume wf: "toid_wf tid"
  then obtain r where r: "ToInt64 tid = Inr r" "toid_Parse r = tid"
    using toid_code.roundtrip by auto
  with wf have "0 \<le> sint r"
    using sint_ToInt64 toid_value_bounds by metis
  with r show "\<exists>r. ToInt64 tid = Inr r \<and> 0 \<le> sint r \<and> toid_Parse r = tid" by blast
qed (use toid_code.canonical in auto)

theorem toid_pack_parse_witness:
  "toid_wf (toid_New 5 7 9) \<and> 0 \<le> sint (21474865161 :: 64 word) \<and>
   (\<exists>r. ToInt64 (toid_New 5 7 9) = Inr r \<and> 0 \<le> sint r \<and> toid_Parse r = toid_New 5 7 9) \<and>
   toid_wf (toid_Parse 21474865161)"
proof -
  have h: "toid_wf (toid_New 5 7 9)" "0 \<le> sint (21474865161 :: 64 word)"
    by (simp_all add: toid_wf_def toid_New_def)
  then show ?thesis
    using toid_pack_parse [of "toid_New 5 7 9" 21474865161] by blast
qed

text \<open>
  The packed numbers, compared as signed 64-bit integers, are ordered exactly as the IDs are
  ordered lexicographically by ledger, transaction and operation: the ID is a total order of
  the operations of the network.
\<close>

theorem toid_order_embedding:
  assumes "toid_wf a" "toid_wf b" "ToInt64 a = Inr ra" "ToInt64 b = Inr rb"
  shows "sint ra < sint rb \<longleftrightarrow> toid_less a b"
  using assms sint_ToInt64 toid_value_less by metis

theorem toid_order_embedding_witness:
  "\<exists>ra rb. ToInt64 (toid_New 5 7 4095) = Inr ra \<and> ToInt64 (toid_New 5 8 0) = Inr rb \<and>
     (sint ra < sint rb \<longleftrightarrow> toid_less (toid_New 5 7 4095) (toid_New 5 8 0))"
proof -
  have wf: "toid_wf (toid_New 5 7 4095)" "toid_wf (toid_New 5 8 0)"
    by (simp_all add: toid_wf_def toid_New_def)
  then obtain ra rb where "ToInt64 (toid_New 5 7 4095) = Inr ra" "ToInt64 (toid_New 5 8 0) = Inr rb"
    using ToInt64_value by blast
  with toid_order_embedding [OF wf this] show ?thesis by blast
qed

lemma toid_wf_ledger_start: "0 \<le> sint w \<Longrightarrow> toid_wf (toid_New w 0 0)"
  by (simp add: toid_wf_def toid_New_def)

lemma toid_value_ledger_start: "toid_value (toid_New w 0 0) = sint w * 2 ^ 32"
  by (simp add: toid_value_def toid_New_def)

lemma ledger_start_le: "toid_wf tid \<Longrightarrow> l * 2 ^ 32 \<le> toid_value tid \<longleftrightarrow> l \<le> sint (LedgerSequence tid)"
proof -
  assume "toid_wf tid"
  then have "0 \<le> sint (TransactionOrder tid) * 4096 + sint (OperationOrder tid)"
    "sint (TransactionOrder tid) * 4096 + sint (OperationOrder tid) < 4294967296"
    by (auto simp: toid_wf_def)
  then show ?thesis by (simp add: toid_value_def) linarith
qed

lemma sint_plus_one32: "sint (w :: 32 word) < 2147483647 \<Longrightarrow> sint (w + 1) = sint w + 1"
proof -
  assume a: "sint w < 2147483647"
  have "w + 1 = word_of_int (sint w + 1)" by simp
  then show ?thesis
    using a sint32_bounds [of w] by (simp only: sint_word_of_int32)
qed

text \<open>
  C33. \<^verbatim>\<open>LedgerRangeInclusive\<close> returns a half-open interval of packed IDs that holds exactly the
  IDs of the ledgers from \<open>from\<close> to \<open>to\<close> (from ledger 0 when \<open>from\<close> is 1). It reports the
  two documented errors, and for \<open>to\<close> equal to the largest \<^verbatim>\<open>int32\<close> it panics, because
  \<open>to + 1\<close> wraps around to a negative ledger.
\<close>

theorem LedgerRangeInclusive_correct:
  "(sint to < sint from \<longrightarrow> LedgerRangeInclusive from to = Inl RangeFromGreaterThanTo) \<and>
   (sint from \<le> sint to \<longrightarrow> sint from \<le> 0 \<longrightarrow>
      LedgerRangeInclusive from to = Inl RangeNotPositive) \<and>
   (0 < sint from \<longrightarrow> sint to = MaxInt32 \<longrightarrow>
      LedgerRangeInclusive from to = Inl (RangePanic InvalidLedgerSequence)) \<and>
   (0 < sint from \<longrightarrow> sint from \<le> sint to \<longrightarrow> sint to < MaxInt32 \<longrightarrow>
     (\<exists>lo hi. LedgerRangeInclusive from to = Inr (lo, hi) \<and>
       (\<forall>tid r. toid_wf tid \<longrightarrow> ToInt64 tid = Inr r \<longrightarrow>
         ((sint lo \<le> sint r \<and> sint r < sint hi) \<longleftrightarrow>
          ((if from = 1 then 0 else sint from) \<le> sint (LedgerSequence tid) \<and>
           sint (LedgerSequence tid) \<le> sint to)))))"
proof (intro conjI impI)
  assume h: "0 < sint from" "sint to = MaxInt32"
  have "to = word_of_int (sint to)" by simp
  with h(2) have "to = 2147483647" by (simp only: MaxInt32_def) simp
  then have "ToInt64 (toid_New (to + 1) 0 0) = Inl InvalidLedgerSequence"
    by (simp add: ToInt64_def toid_New_def)
  moreover have "sint from \<le> sint to" "0 < sint to"
    using h sint32_bounds [of "from"] by (simp_all add: MaxInt32_def)
  ultimately show "LedgerRangeInclusive from to = Inl (RangePanic InvalidLedgerSequence)"
    using h(1) toid_wf_ledger_start [of "from"] by (simp add: LedgerRangeInclusive_def ToInt64_value)
next
  assume h: "0 < sint from" "sint from \<le> sint to" "sint to < MaxInt32"
  have to1: "sint (to + 1) = sint to + 1" using h by (simp add: sint_plus_one32 MaxInt32_def)
  then have wf: "toid_wf (toid_New from 0 0)" "toid_wf (toid_New (to + 1) 0 0)"
    using h by (simp_all add: toid_wf_ledger_start)
  then obtain start hi where pack: "ToInt64 (toid_New from 0 0) = Inr start"
    "ToInt64 (toid_New (to + 1) 0 0) = Inr hi"
    using ToInt64_value by blast
  define lo where "lo = (if from = 1 then 0 else start)"
  have res: "LedgerRangeInclusive from to = Inr (lo, hi)"
    using h pack by (simp add: LedgerRangeInclusive_def lo_def)
  have "sint lo = (if from = 1 then 0 else sint from) * 2 ^ 32" "sint hi = (sint to + 1) * 2 ^ 32"
    using sint_ToInt64 [OF wf(1) pack(1)] sint_ToInt64 [OF wf(2) pack(2)]
    by (simp_all add: lo_def toid_value_ledger_start to1)
  then have "(sint lo \<le> sint r \<and> sint r < sint hi) \<longleftrightarrow>
      ((if from = 1 then 0 else sint from) \<le> sint (LedgerSequence tid) \<and>
       sint (LedgerSequence tid) \<le> sint to)" if "toid_wf tid" "ToInt64 tid = Inr r" for tid r
    using ledger_start_le [OF that(1), of "if from = 1 then 0 else sint from"]
      ledger_start_le [OF that(1), of "sint to + 1"] sint_ToInt64 [OF that] by auto
  with res show "\<exists>lo hi. LedgerRangeInclusive from to = Inr (lo, hi) \<and>
       (\<forall>tid r. toid_wf tid \<longrightarrow> ToInt64 tid = Inr r \<longrightarrow>
         ((sint lo \<le> sint r \<and> sint r < sint hi) \<longleftrightarrow>
          ((if from = 1 then 0 else sint from) \<le> sint (LedgerSequence tid) \<and>
           sint (LedgerSequence tid) \<le> sint to)))" by blast
qed (simp_all add: LedgerRangeInclusive_def)

theorem LedgerRangeInclusive_correct_witness:
  "0 < sint (3 :: 32 word) \<and> sint (3 :: 32 word) \<le> sint (10 :: 32 word) \<and>
   (\<exists>lo hi. LedgerRangeInclusive 3 10 = Inr (lo, hi)) \<and>
   LedgerRangeInclusive 4 3 = Inl RangeFromGreaterThanTo \<and>
   LedgerRangeInclusive 0 3 = Inl RangeNotPositive \<and>
   LedgerRangeInclusive 4 2147483647 = Inl (RangePanic InvalidLedgerSequence)"
  using LedgerRangeInclusive_correct [of 10 3] LedgerRangeInclusive_correct [of 3 4]
    LedgerRangeInclusive_correct [of 3 0] LedgerRangeInclusive_correct [of 2147483647 4]
  by (simp add: MaxInt32_def) blast

lemma toid_wf_inc:
  assumes "toid_wf tid" "sint (OperationOrder tid) < OperationMask"
  shows "toid_wf (IncOperationOrder tid) \<and> toid_value (IncOperationOrder tid) = toid_value tid + 1"
  using assms by (simp add: IncOperationOrder_def toid_wf_def toid_value_def sint_plus_one32)

lemma inc_operation_rollover:
  assumes "toid_wf tid" "sint (OperationOrder tid) = OperationMask"
  shows "IncOperationOrder tid = tid\<lparr>OperationOrder := 0, LedgerSequence := LedgerSequence tid + 1\<rparr>"
  using assms by (simp add: IncOperationOrder_def sint_plus_one32)

text \<open>
  \<^verbatim>\<open>IncOperationOrder\<close> advances a cursor. Below the last operation index the packed number
  grows by exactly one. At the last index it moves to the next ledger and keeps the transaction
  order, so the new cursor is larger, but the first ID of the next ledger is skipped whenever
  the transaction order is not 0.
\<close>

theorem IncOperationOrder_advances:
  assumes "toid_wf tid" and "sint (LedgerSequence tid) < MaxInt32"
  shows "toid_wf (IncOperationOrder tid) \<and> toid_less tid (IncOperationOrder tid) \<and>
    (sint (OperationOrder tid) < OperationMask \<longrightarrow>
       toid_value (IncOperationOrder tid) = toid_value tid + 1) \<and>
    (sint (OperationOrder tid) = OperationMask \<longrightarrow> 0 < sint (TransactionOrder tid) \<longrightarrow>
       toid_less tid (toid_New (LedgerSequence tid + 1) 0 0) \<and>
       toid_less (toid_New (LedgerSequence tid + 1) 0 0) (IncOperationOrder tid))"
proof (cases "sint (OperationOrder tid) < OperationMask")
  case True
  with assms toid_wf_inc [OF assms(1) True] show ?thesis
    using toid_value_less [of tid "IncOperationOrder tid"] by auto
next
  case False
  with assms(1) have eq: "sint (OperationOrder tid) = OperationMask" by (simp add: toid_wf_def)
  with assms show ?thesis
    unfolding inc_operation_rollover [OF assms(1) eq]
    by (simp add: toid_wf_def toid_less_def toid_New_def sint_plus_one32 MaxInt32_def)
qed

theorem IncOperationOrder_advances_witness:
  "toid_wf (toid_New 5 7 4095) \<and>
   toid_less (toid_New 6 0 0) (IncOperationOrder (toid_New 5 7 4095))"
proof -
  have wf: "toid_wf (toid_New 5 7 4095)" by (simp add: toid_wf_def toid_New_def)
  have "sint (LedgerSequence (toid_New 5 7 4095)) < MaxInt32"
    by (simp add: toid_New_def MaxInt32_def)
  from IncOperationOrder_advances [OF wf this] wf show ?thesis by (simp add: toid_New_def)
qed

end
