(* ===== verification/Decimal.thy ===== *)
theory Decimal
  imports Complex_Main Prelude
begin

text \<open>
  Decimal strings, as the packages \<^verbatim>\<open>amount\<close> and \<^verbatim>\<open>price\<close> use them through Go's standard
  library: \<^verbatim>\<open>big.Int\<close> and \<^verbatim>\<open>strconv\<close> formatting and parsing of integers, and
  \<^verbatim>\<open>big.Rat\<close>'s \<^verbatim>\<open>SetString\<close> and \<^verbatim>\<open>FloatString\<close>. A \<^verbatim>\<open>big.Rat\<close> is a \<open>rat\<close>;
  \<open>quotient_of\<close> gives its reduced numerator and positive denominator, as \<^verbatim>\<open>Num\<close> and
  \<^verbatim>\<open>Denom\<close> do.
\<close>

section \<open>Digits\<close>

definition is_digit :: "char \<Rightarrow> bool" where
  "is_digit c \<longleftrightarrow> 48 \<le> (of_char c :: nat) \<and> (of_char c :: nat) \<le> 57"

definition digit_value :: "char \<Rightarrow> nat" where
  "digit_value c = of_char c - 48"

definition digit_char :: "nat \<Rightarrow> char" where
  "digit_char d = char_of (48 + d)"

fun digits_value :: "nat \<Rightarrow> string \<Rightarrow> nat" where
  "digits_value acc [] = acc"
| "digits_value acc (c # cs) = digits_value (acc * 10 + digit_value c) cs"

fun show_nat :: "nat \<Rightarrow> string" where
  "show_nat n = (if n < 10 then [digit_char n] else show_nat (n div 10) @ [digit_char (n mod 10)])"

declare show_nat.simps [simp del]

definition show_int :: "int \<Rightarrow> string" where
  "show_int v = (if v < 0 then CHR ''-'' # show_nat (nat (- v)) else show_nat (nat v))"

lemma digit_char_simps [simp]:
  assumes "d < 10"
  shows "is_digit (digit_char d)" "digit_value (digit_char d) = d"
  using assms by (simp_all add: is_digit_def digit_value_def digit_char_def of_char_of)

lemma not_digit [simp]: "\<not> is_digit CHR ''-''" "\<not> is_digit CHR ''.''" "\<not> is_digit CHR ''+''"
  by code_simp+

lemma digits_value_append: "digits_value a (xs @ ys) = digits_value (digits_value a xs) ys"
  by (induction xs arbitrary: a) auto

lemma digits_value_acc: "digits_value a xs = a * 10 ^ length xs + digits_value 0 xs"
proof (induction xs arbitrary: a)
  case (Cons x xs)
  have "digits_value a (x # xs) = (a * 10 + digit_value x) * 10 ^ length xs + digits_value 0 xs"
    by (simp add: Cons.IH [of "a * 10 + digit_value x"])
  moreover have "digits_value 0 (x # xs) = digit_value x * 10 ^ length xs + digits_value 0 xs"
    by (simp add: Cons.IH [of "digit_value x"])
  ultimately show ?case by (simp add: algebra_simps)
qed simp

lemma show_nat_digits: "show_nat n \<noteq> [] \<and> (\<forall>c \<in> set (show_nat n). is_digit c)"
proof (induction n rule: show_nat.induct)
  case (1 n)
  then show ?case by (cases "n < 10") (auto simp: show_nat.simps [of n])
qed

lemma digits_value_show_nat [simp]: "digits_value 0 (show_nat n) = n"
proof (induction n rule: show_nat.induct)
  case (1 n)
  then show ?case
    by (cases "n < 10") (simp_all add: show_nat.simps [of n] digits_value_append)
qed

lemma show_nat_length_le: "0 < k \<Longrightarrow> n < 10 ^ k \<Longrightarrow> length (show_nat n) \<le> k"
proof (induction n arbitrary: k rule: show_nat.induct)
  case (1 n)
  show ?case
  proof (cases "n < 10")
    case True
    then show ?thesis using "1.prems" by (simp add: show_nat.simps [of n])
  next
    case False
    with "1.prems" obtain k' where k: "k = Suc k'" "0 < k'"
      by (metis One_nat_def Suc_pred gr0I power_one_right)
    with "1.prems" have "n div 10 < 10 ^ k'" by (simp add: less_mult_imp_div_less mult.commute)
    with "1.IH" [OF False k(2)] k show ?thesis using False by (simp add: show_nat.simps [of n])
  qed
qed

lemma show_nat_length_gt: "10 ^ k \<le> n \<Longrightarrow> k < length (show_nat n)"
proof (induction k arbitrary: n)
  case 0
  then show ?case using show_nat_digits [of n] by simp
next
  case (Suc k)
  then have "10 ^ k \<le> n div 10" by (simp add: less_eq_div_iff_mult_less_eq mult.commute)
  with Suc.IH have "k < length (show_nat (n div 10))" by blast
  moreover have "\<not> n < 10" using Suc.prems by (metis le_trans not_less one_le_numeral one_le_power power_Suc mult.right_neutral mult_le_mono2)
  ultimately show ?case by (simp add: show_nat.simps [of n])
qed

text \<open>A number printed with at least \<open>k\<close> digits, padded with zeros on the left.\<close>

definition pad :: "nat \<Rightarrow> nat \<Rightarrow> string" where
  "pad k r = replicate (k - length (show_nat r)) CHR ''0'' @ show_nat r"

lemma is_digit_zero [simp]: "is_digit CHR ''0''" and digit_value_zero [simp]: "digit_value CHR ''0'' = 0"
  and digit_char_zero [simp]: "digit_char 0 = CHR ''0''"
  by code_simp+

lemma length_pad: "0 < k \<Longrightarrow> r < 10 ^ k \<Longrightarrow> length (pad k r) = k"
  using show_nat_length_le by (simp add: pad_def)

lemma digits_value_replicate_zero [simp]: "digits_value 0 (replicate n CHR ''0'') = 0"
  by (induction n) auto

lemma digits_value_pad [simp]: "digits_value 0 (pad k r) = r"
  by (simp add: pad_def digits_value_append)

lemma pad_digits: "\<forall>c \<in> set (pad k r). is_digit c"
  using show_nat_digits [of r] by (auto simp: pad_def)

lemma pad_Suc:
  assumes "0 < k"
  shows "pad (Suc k) m = pad k (m div 10) @ [digit_char (m mod 10)]"
proof (cases "m < 10")
  case True
  obtain k' where "k = Suc k'" using assms by (cases k) auto
  with True show ?thesis
    by (simp add: pad_def show_nat.simps [of m] show_nat.simps [of 0] replicate_append_same)
next
  case False
  then show ?thesis by (simp add: pad_def show_nat.simps [of m])
qed

lemma show_nat_split:
  assumes "10 ^ k \<le> n" and "0 < k"
  shows "show_nat n = show_nat (n div 10 ^ k) @ pad k (n mod 10 ^ k)"
  using assms(2,1)
proof (induction k arbitrary: n rule: nat_induct_non_zero)
  case 1
  then show ?case by (simp add: show_nat.simps [of n] pad_def show_nat.simps [of "n mod 10"])
next
  case (Suc k)
  have n10: "10 ^ k \<le> n div 10" using Suc.prems by (simp add: less_eq_div_iff_mult_less_eq mult.commute)
  have "(10 :: nat) \<le> 10 ^ Suc k" by simp
  with Suc.prems have "\<not> n < 10" by linarith
  then have "show_nat n = show_nat (n div 10) @ [digit_char (n mod 10)]"
    by (simp add: show_nat.simps [of n])
  also have "show_nat (n div 10) = show_nat (n div 10 ^ Suc k) @ pad k (n div 10 mod 10 ^ k)"
    using Suc.IH [OF n10] by (simp add: div_mult2_eq)
  also have "n div 10 mod 10 ^ k = n mod 10 ^ Suc k div 10"
    by (simp add: mod_mult2_eq)
  also have "n mod 10 = n mod 10 ^ Suc k mod 10"
    by (simp add: mod_mod_cancel)
  finally show ?case
    using pad_Suc [OF Suc.hyps] by simp
qed

section \<open>Parsing and formatting\<close>

text \<open>
  The regular expression \<^verbatim>\<open>^-?[.0-9]{1,20}$\<close> that guards both parsers.
\<close>

definition validAmountSimple :: "string \<Rightarrow> bool" where
  "validAmountSimple v =
     (let m = (case v of [] \<Rightarrow> [] | c # cs \<Rightarrow> if c = CHR ''-'' then cs else v)
      in 1 \<le> length m \<and> length m \<le> 20 \<and> list_all (\<lambda>c. c = CHR ''.'' \<or> is_digit c) m)"

text \<open>
  \<^verbatim>\<open>big.Rat.SetString\<close> on the strings that expression accepts: an optional sign, digits with
  at most one decimal point, and at least one digit. (Fractions, exponents and underscores,
  which \<^verbatim>\<open>SetString\<close> also reads, contain characters the expression excludes.)
\<close>

definition rat_SetString_unsigned :: "string \<Rightarrow> rat option" where
  "rat_SetString_unsigned m =
     (let ip = takeWhile is_digit m in
      case dropWhile is_digit m of
        [] \<Rightarrow> if ip = [] then None else Some (of_nat (digits_value 0 ip))
      | c # fp \<Rightarrow>
          if c = CHR ''.'' \<and> list_all is_digit fp \<and> ip @ fp \<noteq> []
          then Some (of_nat (digits_value 0 (ip @ fp)) / 10 ^ length fp)
          else None)"

definition rat_SetString :: "string \<Rightarrow> rat option" where
  "rat_SetString s =
     (case s of
        [] \<Rightarrow> None
      | c # cs \<Rightarrow>
          if c = CHR ''-'' then map_option uminus (rat_SetString_unsigned cs)
          else rat_SetString_unsigned s)"

text \<open>\<^verbatim>\<open>big.Rat.FloatString(prec)\<close>: rounded half away from zero to \<open>prec\<close> digits.\<close>

definition FloatString :: "rat \<Rightarrow> nat \<Rightarrow> string" where
  "FloatString x prec =
     (let (a, b) = quotient_of x in
      if b = 1 then show_int a @ (if 0 < prec then CHR ''.'' # replicate prec CHR ''0'' else [])
      else
        (let q = nat (\<bar>a\<bar> div b); r0 = \<bar>a\<bar> mod b * 10 ^ prec; r = nat (r0 div b); r2 = 2 * (r0 mod b);
             (q', r') = (if b \<le> r2
                         then (if 10 ^ prec \<le> r + 1 then (q + 1, r + 1 - 10 ^ prec) else (q, r + 1))
                         else (q, r))
         in (if a < 0 then ''-'' else []) @ show_nat q' @
            (if 0 < prec then CHR ''.'' # pad prec r' else [])))"

text \<open>\<^verbatim>\<open>strconv.ParseInt(s, 10, 64)\<close>; \<open>None\<close> is a syntax or range error.\<close>

definition ParseInt10 :: "string \<Rightarrow> int option" where
  "ParseInt10 s =
     (let (neg, m) = (case s of
          [] \<Rightarrow> (False, [])
        | c # cs \<Rightarrow> if c = CHR ''-'' then (True, cs) else if c = CHR ''+'' then (False, cs) else (False, s));
        v = (if neg then - int (digits_value 0 m) else int (digits_value 0 m))
      in if m = [] \<or> \<not> list_all is_digit m then None
         else if in_int64 v then Some v else None)"

lemma show_nat_not_sign: "show_nat n = c # cs \<Longrightarrow> c \<noteq> CHR ''-'' \<and> c \<noteq> CHR ''+''"
  using show_nat_digits [of n] by auto

lemma show_nat_list_all [simp]: "list_all is_digit (show_nat n)" "show_nat n \<noteq> []"
  using show_nat_digits [of n] by (auto simp: list_all_iff)

lemma ParseInt10_show_int: "ParseInt10 (show_int i) = (if in_int64 i then Some i else None)"
proof (cases "i < 0")
  case True
  then show ?thesis by (simp add: ParseInt10_def show_int_def)
next
  case False
  obtain c cs where c: "show_nat (nat i) = c # cs" using show_nat_list_all(2) [of "nat i"] by (cases "show_nat (nat i)") auto
  then have "digits_value 0 (c # cs) = nat i" "list_all is_digit (c # cs)"
    by (metis digits_value_show_nat, metis show_nat_list_all(1))
  with False c show ?thesis
    using show_nat_not_sign [OF c] by (auto simp: ParseInt10_def show_int_def)
qed

lemma FloatString_int: "FloatString (of_int i) 0 = show_int i"
  by (simp add: FloatString_def)

text \<open>A number with exactly \<open>k\<close> decimals is printed exactly.\<close>

lemma quotient_of_scaled:
  assumes "quotient_of (of_int v / 10 ^ k) = (a, b)"
  shows "a * 10 ^ k = v * b" "0 < b" "0 \<le> a \<longleftrightarrow> 0 \<le> v"
proof -
  show b: "0 < b" using assms by (rule quotient_of_denom_pos)
  have "of_int v / 10 ^ k = (of_int a / of_int b :: rat)" using assms by (rule quotient_of_div)
  then have "(of_int a * 10 ^ k :: rat) = of_int v * of_int b"
    using b by (simp add: field_simps)
  then have "(of_int (a * 10 ^ k) :: rat) = of_int (v * b)" by simp
  then show eq: "a * 10 ^ k = v * b" by (simp only: of_int_eq_iff)
  have "0 \<le> a \<longleftrightarrow> 0 \<le> a * 10 ^ k" using mult_le_cancel_right_pos [of "10 ^ k" 0 a] by simp
  also have "\<dots> \<longleftrightarrow> 0 \<le> v" using b by (simp add: eq zero_le_mult_iff)
  finally show "0 \<le> a \<longleftrightarrow> 0 \<le> v" .
qed

lemma FloatString_scaled:
  assumes "0 < k"
  shows "FloatString (of_int v / 10 ^ k) k =
    (if v < 0 then ''-'' else []) @ show_nat (nat (\<bar>v\<bar> div 10 ^ k)) @ CHR ''.'' # pad k (nat (\<bar>v\<bar> mod 10 ^ k))"
proof -
  obtain a b where ab: "quotient_of (of_int v / 10 ^ k) = (a, b)" by force
  note q = quotient_of_scaled [OF ab]
  have abs: "\<bar>a\<bar> * 10 ^ k = \<bar>v\<bar> * b"
    using q by (metis abs_mult abs_of_pos abs_of_nonneg zero_le_numeral zero_le_power)
  have sign: "a < 0 \<longleftrightarrow> v < 0" using q(3) by linarith
  show ?thesis
  proof (cases "b = 1")
    case True
    then have "\<bar>v\<bar> = \<bar>a\<bar> * 10 ^ k" using abs by simp
    then have vd: "\<bar>v\<bar> div 10 ^ k = \<bar>a\<bar>" "\<bar>v\<bar> mod 10 ^ k = 0" by simp_all
    have "pad k 0 = replicate k CHR ''0''"
      using assms by (cases k) (simp_all add: pad_def show_nat.simps [of 0] replicate_append_same)
    then show ?thesis
      using True sign assms ab by (auto simp: FloatString_def show_int_def vd)
  next
    case False
    have rest: "\<bar>a\<bar> mod b * 10 ^ k = (\<bar>v\<bar> - \<bar>a\<bar> div b * 10 ^ k) * b"
    proof -
      have "\<bar>a\<bar> mod b * 10 ^ k = \<bar>a\<bar> * 10 ^ k - \<bar>a\<bar> div b * b * 10 ^ k"
        by (simp add: minus_div_mult_eq_mod [symmetric] algebra_simps)
      then show ?thesis using abs by (simp add: algebra_simps)
    qed
    have "0 \<le> \<bar>v\<bar> - \<bar>a\<bar> div b * 10 ^ k"
    proof -
      have "0 \<le> \<bar>a\<bar> mod b * 10 ^ k" using q(2) by simp
      then show ?thesis using rest q(2) by (metis zero_le_mult_iff less_le_not_le)
    qed
    moreover have "\<bar>v\<bar> - \<bar>a\<bar> div b * 10 ^ k < 10 ^ k"
    proof -
      have "\<bar>a\<bar> mod b * 10 ^ k < b * 10 ^ k" using q(2) by simp
      then show ?thesis using rest q(2) by (simp add: mult.commute)
    qed
    ultimately have dm: "\<bar>v\<bar> div 10 ^ k = \<bar>a\<bar> div b" "\<bar>v\<bar> mod 10 ^ k = \<bar>v\<bar> - \<bar>a\<bar> div b * 10 ^ k"
      by (metis (no_types, opaque_lifting) add_diff_cancel_left' diff_add_cancel div_mult_self1 div_pos_pos_trivial add.right_neutral
          mod_mult_self1 mod_pos_pos_trivial add_0 less_le_not_le zero_less_numeral zero_less_power add.commute)+
    have "\<bar>a\<bar> mod b * 10 ^ k div b = \<bar>v\<bar> mod 10 ^ k" "\<bar>a\<bar> mod b * 10 ^ k mod b = 0"
      unfolding rest dm using q(2) by simp_all
    then show ?thesis
      using False sign assms ab q(2) by (simp add: FloatString_def dm(1))
  qed
qed

lemma takeWhile_digits: "list_all is_digit xs \<Longrightarrow> takeWhile is_digit (xs @ CHR ''.'' # ys) = xs"
  and dropWhile_digits: "list_all is_digit xs \<Longrightarrow> dropWhile is_digit (xs @ CHR ''.'' # ys) = CHR ''.'' # ys"
  by (induction xs) auto

text \<open>Reading back a fixed-point number with \<open>k\<close> decimals.\<close>

lemma rat_SetString_fixed_unsigned:
  assumes "0 < k" "r < 10 ^ k"
  shows "rat_SetString_unsigned (show_nat q @ CHR ''.'' # pad k r) = Some (of_nat (q * 10 ^ k + r) / 10 ^ k)"
proof -
  have "list_all is_digit (pad k r)" using pad_digits by (auto simp: list_all_iff)
  moreover have "digits_value 0 (show_nat q @ pad k r) = q * 10 ^ k + r"
    using digits_value_acc [of q "pad k r"] length_pad [OF assms] by (simp add: digits_value_append)
  ultimately show ?thesis
    using length_pad [OF assms]
    by (simp add: rat_SetString_unsigned_def takeWhile_digits dropWhile_digits)
qed

lemma rat_SetString_fixed:
  assumes "0 < k" "r < 10 ^ k"
  shows "rat_SetString ((if neg then ''-'' else []) @ show_nat q @ CHR ''.'' # pad k r) =
    Some ((if neg then -1 else 1) * (of_nat (q * 10 ^ k + r) / 10 ^ k))"
proof (cases neg)
  case True
  then show ?thesis
    by (simp add: rat_SetString_def rat_SetString_fixed_unsigned [OF assms] del: of_nat_add of_nat_mult of_nat_power)
next
  case False
  obtain c cs where c: "show_nat q = c # cs" using show_nat_list_all(2) [of q] by (cases "show_nat q") auto
  with False show ?thesis
    using show_nat_not_sign [OF c] rat_SetString_fixed_unsigned [OF assms, of q]
    by (simp add: rat_SetString_def del: of_nat_add of_nat_mult of_nat_power)
qed

end
