(* ===== verification/Amount.thy ===== *)
theory Amount
  imports Decimal
begin

text \<open>
  Package \<^verbatim>\<open>amount\<close> (\<^verbatim>\<open>src/amount/main.go\<close>): amounts are 64-bit integers counting units of
  \<open>10\<^sup>-\<^sup>7\<close>, written as decimal strings with seven decimals. The model covers every function;
  the panicking variants return the error as a value.
\<close>

section \<open>The model\<close>

datatype amount_error =
    InvalidAmountFormat string
  | CannotParseAmount string
  | TooManyDigits string
  | AmountOutOfBounds string

definition One :: int where
  "One = 10000000"

definition ParseInt64 :: "string \<Rightarrow> amount_error + int" where
  "ParseInt64 v =
     (if \<not> validAmountSimple v then Inl (InvalidAmountFormat v)
      else case rat_SetString v of
        None \<Rightarrow> Inl (CannotParseAmount v)
      | Some r0 \<Rightarrow>
          (let r = r0 * of_int One in
           if snd (quotient_of r) \<noteq> 1 then Inl (TooManyDigits v)
           else case ParseInt10 (FloatString r 0) of
             None \<Rightarrow> Inl (AmountOutOfBounds v)
           | Some i \<Rightarrow> Inr i))"

definition amount_Parse :: "string \<Rightarrow> amount_error + int" where
  "amount_Parse v = (case ParseInt64 v of Inl e \<Rightarrow> Inl e | Inr i \<Rightarrow> Inr i)"

definition amount_MustParse :: "string \<Rightarrow> amount_error + int" where
  "amount_MustParse v = (case amount_Parse v of Inl e \<Rightarrow> Inl e | Inr ret \<Rightarrow> Inr ret)"

definition negativePositiveNumberOnly :: "string \<Rightarrow> bool" where
  "negativePositiveNumberOnly v =
     (let m = (case v of [] \<Rightarrow> [] | c # cs \<Rightarrow> if c = CHR ''-'' then cs else v)
      in m \<noteq> [] \<and> list_all is_digit m)"

definition IntStringToAmount :: "string \<Rightarrow> amount_error + string" where
  "IntStringToAmount v =
     (if \<not> negativePositiveNumberOnly v then Inl (InvalidAmountFormat v)
      else
        (let negative = (hd v = CHR ''-'');
             v' = (if negative then tl v else v);
             l = length v';
             r = (if l \<le> 7 then ''0.'' @ replicate (7 - l) CHR ''0'' @ v'
                  else take (l - 7) v' @ ''.'' @ drop (l - 7) v')
         in Inr (if negative then CHR ''-'' # r else r)))"

definition StringFromInt64 :: "int \<Rightarrow> string" where
  "StringFromInt64 v = FloatString (of_int v / of_int One) 7"

definition amount_String :: "int \<Rightarrow> string" where
  "amount_String v = StringFromInt64 v"

text \<open>\<open>hi\<close> is the signed upper half and \<open>lo\<close> the unsigned lower half of the 128-bit value.\<close>

definition String128 :: "int \<Rightarrow> int \<Rightarrow> string" where
  "String128 hi lo =
     (let val = hi * 18446744073709551616 + lo
      in FloatString (of_int val / of_int One) 7)"

section \<open>Formatting\<close>

lemma One_power: "(of_int One :: rat) = 10 ^ 7"
  by (simp add: One_def)

lemma StringFromInt64_eq:
  "FloatString (of_int v / of_int One) 7 =
     (if v < 0 then ''-'' else []) @ show_nat (nat (\<bar>v\<bar> div 10 ^ 7)) @ CHR ''.'' # pad 7 (nat (\<bar>v\<bar> mod 10 ^ 7))"
  unfolding One_power by (rule FloatString_scaled) simp

text \<open>The digit string with the decimal point moved seven places to the left.\<close>

definition point7 :: "string \<Rightarrow> string" where
  "point7 d = (if length d \<le> 7 then ''0.'' @ replicate (7 - length d) CHR ''0'' @ d
               else take (length d - 7) d @ ''.'' @ drop (length d - 7) d)"

lemma IntStringToAmount_digits:
  assumes "list_all is_digit d" "d \<noteq> []"
  shows "IntStringToAmount d = Inr (point7 d)"
    and "IntStringToAmount (CHR ''-'' # d) = Inr (CHR ''-'' # point7 d)"
  using assms by (cases d; force simp: IntStringToAmount_def negativePositiveNumberOnly_def point7_def Let_def)+

lemma point7_show_nat: "point7 (show_nat n) = show_nat (n div 10 ^ 7) @ CHR ''.'' # pad 7 (n mod 10 ^ 7)"
proof (cases "n < 10 ^ 7")
  case True
  then have "length (show_nat n) \<le> 7" by (intro show_nat_length_le) simp
  then show ?thesis using True by (simp add: point7_def pad_def show_nat.simps [of 0])
next
  case False
  then have "7 < length (show_nat n)" by (intro show_nat_length_gt) simp
  moreover have "show_nat n = show_nat (n div 10 ^ 7) @ pad 7 (n mod 10 ^ 7)"
    using False by (intro show_nat_split) simp_all
  moreover have "length (pad 7 (n mod 10 ^ 7)) = 7" by (intro length_pad) simp_all
  ultimately show ?thesis by (simp add: point7_def)
qed

text \<open>
  \<^verbatim>\<open>IntStringToAmount\<close>, which works on the digits of the string, agrees with the rational
  arithmetic of \<^verbatim>\<open>StringFromInt64\<close> on the decimal form of every integer, and so with
  \<^verbatim>\<open>String128\<close> on every 128-bit value: shifting the decimal point by string surgery is exact
  at any size, and every other string is refused.
\<close>

theorem IntStringToAmount_eq_division:
  "IntStringToAmount (show_int v) = Inr (StringFromInt64 v) \<and>
   IntStringToAmount (show_int (hi * 2 ^ 64 + lo)) = Inr (String128 hi lo) \<and>
   (IntStringToAmount s = Inl (InvalidAmountFormat s) \<longleftrightarrow> \<not> negativePositiveNumberOnly s)"
proof -
  have main: "IntStringToAmount (show_int w) = Inr (FloatString (of_int w / of_int One) 7)" for w
  proof -
    have "nat (\<bar>w\<bar> div 10 ^ 7) = nat \<bar>w\<bar> div 10 ^ 7" "nat (\<bar>w\<bar> mod 10 ^ 7) = nat \<bar>w\<bar> mod 10 ^ 7"
      by (simp_all add: nat_div_distrib nat_mod_distrib)
    then have "FloatString (of_int w / of_int One) 7 = (if w < 0 then ''-'' else []) @ point7 (show_nat (nat \<bar>w\<bar>))"
      by (simp only: StringFromInt64_eq point7_show_nat)
    then show ?thesis
      by (simp add: show_int_def IntStringToAmount_digits)
  qed
  show ?thesis
    using main [of v] main [of "hi * 2 ^ 64 + lo"]
    by (simp add: StringFromInt64_def String128_def IntStringToAmount_def Let_def)
qed

section \<open>Parsing\<close>

lemma rat_IsInt: "snd (quotient_of r) = 1 \<longleftrightarrow> (\<exists>j. r = of_int j)"
proof
  assume "snd (quotient_of r) = 1"
  then have "quotient_of r = (fst (quotient_of r), 1)" by (metis prod.collapse)
  then have "r = of_int (fst (quotient_of r)) / of_int 1" by (rule quotient_of_div)
  then show "\<exists>j. r = of_int j" by auto
qed auto

lemma ParseInt64_iff:
  "ParseInt64 s = Inr i \<longleftrightarrow>
     validAmountSimple s \<and> (\<exists>r. rat_SetString s = Some r \<and> r * 10 ^ 7 = of_int i) \<and> in_int64 i"
proof -
  have step: "(case ParseInt10 (FloatString r 0) of None \<Rightarrow> Inl (AmountOutOfBounds s) | Some i \<Rightarrow> Inr i) = Inr i
      \<longleftrightarrow> r = of_int i \<and> in_int64 i" if "snd (quotient_of r) = 1" for r
    using that by (auto simp: rat_IsInt FloatString_int ParseInt10_show_int split: if_splits)
  show ?thesis
  proof (cases "rat_SetString s")
    case (Some r0)
    then show ?thesis
      using step [of "r0 * of_int One"] rat_IsInt [of "r0 * of_int One"]
      by (auto simp: ParseInt64_def One_power Let_def)
  qed (auto simp: ParseInt64_def)
qed

lemma ParseInt64_error:
  "ParseInt64 s = Inl e \<longleftrightarrow>
     (\<not> validAmountSimple s \<and> e = InvalidAmountFormat s) \<or>
     (validAmountSimple s \<and> rat_SetString s = None \<and> e = CannotParseAmount s) \<or>
     (\<exists>r. validAmountSimple s \<and> rat_SetString s = Some r \<and>
        ((\<nexists>i. r * 10 ^ 7 = of_int i) \<and> e = TooManyDigits s \<or>
         (\<exists>i. r * 10 ^ 7 = of_int i \<and> \<not> in_int64 i) \<and> e = AmountOutOfBounds s))"
proof (cases "rat_SetString s")
  case (Some r0)
  then show ?thesis
    by (cases "\<exists>j. r0 * 10 ^ 7 = of_int j")
      (auto simp: ParseInt64_def One_power Let_def rat_IsInt FloatString_int ParseInt10_show_int split: if_splits)
qed (auto simp: ParseInt64_def)

lemma StringFromInt64_valid: "in_int64 v \<Longrightarrow> validAmountSimple (StringFromInt64 v)"
proof -
  assume v: "in_int64 v"
  let ?q = "nat (\<bar>v\<bar> div 10 ^ 7)" and ?r = "nat (\<bar>v\<bar> mod 10 ^ 7)"
  have "\<bar>v\<bar> \<le> 9223372036854775808" using v by (auto simp: int_width)
  then have "\<bar>v\<bar> div 10 ^ 7 \<le> 922337203685" using zdiv_mono1 [of "\<bar>v\<bar>" 9223372036854775808 "10 ^ 7"] by simp
  then have "?q < 10 ^ 12" by simp
  then have "length (show_nat ?q) \<le> 12" by (intro show_nat_length_le) simp_all
  moreover have "?r < 10 ^ 7" by (simp add: nat_less_iff)
  then have "length (pad 7 ?r) = 7" by (intro length_pad) simp_all
  moreover have "list_all is_digit (pad 7 ?r)" using pad_digits by (auto simp: list_all_iff)
  moreover obtain c cs where c: "show_nat ?q = c # cs" using show_nat_list_all(2) [of ?q] by (cases "show_nat ?q") auto
  moreover have "list_all is_digit (c # cs)" using c by (metis show_nat_list_all(1))
  ultimately show ?thesis
    using show_nat_not_sign [OF c] unfolding StringFromInt64_def StringFromInt64_eq
    by (auto simp: validAmountSimple_def list_all_iff)
qed

lemma rat_SetString_StringFromInt64: "rat_SetString (StringFromInt64 v) = Some (of_int v / 10 ^ 7)"
proof -
  have "nat (\<bar>v\<bar> mod 10 ^ 7) < 10 ^ 7" by (simp add: nat_less_iff)
  then have "rat_SetString (StringFromInt64 v) = Some ((if v < 0 then -1 else 1) *
      (of_nat (nat (\<bar>v\<bar> div 10 ^ 7) * 10 ^ 7 + nat (\<bar>v\<bar> mod 10 ^ 7)) / 10 ^ 7))"
    unfolding StringFromInt64_def StringFromInt64_eq by (intro rat_SetString_fixed) simp_all
  moreover have "nat (\<bar>v\<bar> div 10 ^ 7) * 10 ^ 7 + nat (\<bar>v\<bar> mod 10 ^ 7) = nat \<bar>v\<bar>"
  proof -
    have "\<bar>v\<bar> div 10 ^ 7 * 10 ^ 7 + \<bar>v\<bar> mod 10 ^ 7 = \<bar>v\<bar>" by simp
    then show ?thesis
      by (metis (no_types, lifting) abs_ge_zero nat_add_distrib nat_mult_distrib nat_numeral nat_power_eq
          pos_imp_zdiv_nonneg_iff pos_mod_sign zero_le_mult_iff zero_le_numeral zero_less_numeral zero_less_power zero_le_power)
  qed
  ultimately show ?thesis by (cases "v < 0") simp_all
qed

interpretation amount_code: codec "\<lambda>v. Inr (StringFromInt64 v) :: amount_error + string" ParseInt64 in_int64
proof
  fix v assume v: "in_int64 v"
  have "\<exists>r. rat_SetString (StringFromInt64 v) = Some r \<and> r * 10 ^ 7 = of_int v"
    using rat_SetString_StringFromInt64 by (intro exI [of _ "of_int v / 10 ^ 7"]) simp
  with v show "\<exists>s. (Inr (StringFromInt64 v) :: amount_error + string) = Inr s \<and> ParseInt64 s = Inr v"
    using StringFromInt64_valid [of v] ParseInt64_iff by blast
qed

text \<open>
  C32. Formatting then parsing an amount is the identity on all 64-bit amounts, the negative ones
  and the extreme ones included; so two amounts with the same string are equal.
\<close>

theorem amount_roundtrip:
  assumes "in_int64 v"
  shows "ParseInt64 (StringFromInt64 v) = Inr v \<and>
    (\<forall>w. in_int64 w \<longrightarrow> StringFromInt64 w = StringFromInt64 v \<longrightarrow> w = v)"
  using assms amount_code.dec_enc [of v] amount_code.enc_inject [of _ v] by auto

theorem amount_roundtrip_witness:
  "in_int64 (- 9223372036854775808) \<and>
   ParseInt64 (StringFromInt64 (- 9223372036854775808)) = Inr (- 9223372036854775808)"
proof -
  have h: "in_int64 (- 9223372036854775808)" by (simp add: int_width)
  with amount_roundtrip [OF h] show ?thesis by blast
qed

text \<open>
  C29. What \<^verbatim>\<open>ParseInt64\<close> accepts and returns: exactly the strings of the guarded syntax whose
  rational value times \<open>10\<^sup>7\<close> is an integer of 64 bits, and that integer. Each of the four
  errors is returned exactly in its case; nothing is rounded.
\<close>

theorem ParseInt64_spec:
  "(ParseInt64 s = Inr i \<longleftrightarrow>
     validAmountSimple s \<and> (\<exists>r. rat_SetString s = Some r \<and> r * 10 ^ 7 = of_int i) \<and> in_int64 i) \<and>
   (ParseInt64 s = Inl (InvalidAmountFormat s) \<longleftrightarrow> \<not> validAmountSimple s) \<and>
   (ParseInt64 s = Inl (CannotParseAmount s) \<longleftrightarrow> validAmountSimple s \<and> rat_SetString s = None) \<and>
   (ParseInt64 s = Inl (TooManyDigits s) \<longleftrightarrow>
     validAmountSimple s \<and> (\<exists>r. rat_SetString s = Some r \<and> (\<nexists>j. r * 10 ^ 7 = of_int j))) \<and>
   (ParseInt64 s = Inl (AmountOutOfBounds s) \<longleftrightarrow>
     validAmountSimple s \<and> (\<exists>r j. rat_SetString s = Some r \<and> r * 10 ^ 7 = of_int j \<and> \<not> in_int64 j))"
  unfolding ParseInt64_iff ParseInt64_error by auto

end
