(* ===== verification/Price.thy ===== *)
theory Price
  imports Decimal
begin

text \<open>
  Package \<^verbatim>\<open>price\<close> (\<^verbatim>\<open>src/price/main.go\<close>) and the methods of \<^verbatim>\<open>xdr.Price\<close>
  (\<^verbatim>\<open>src/xdr/price.go\<close>): prices are fractions of two 32-bit integers; the package parses a
  decimal price into its continued-fraction approximation and converts amounts between the two
  sides of an offer with the rounding rules of the core. Amounts are \<^verbatim>\<open>int64\<close>, modelled as
  \<open>int\<close> with the conversions to \<^verbatim>\<open>uint64\<close> written out.
\<close>

section \<open>The model\<close>

record xdr_Price =
  price_N :: int
  price_D :: int

datatype price_error =
    ErrDivisionByZero
  | ErrOverflow
  | InvalidPriceFormat string
  | CannotParsePrice string
  | NoApproximation

subsection \<open>xdr.Price\<close>

definition Price_Equal :: "xdr_Price \<Rightarrow> xdr_Price \<Rightarrow> bool" where
  "Price_Equal p q \<longleftrightarrow>
     u64 (u64 (price_N p) * u64 (price_D q)) = u64 (u64 (price_N q) * u64 (price_D p))"

definition Cheaper :: "xdr_Price \<Rightarrow> xdr_Price \<Rightarrow> bool" where
  "Cheaper p q \<longleftrightarrow>
     u64 (u64 (price_N p) * u64 (price_D q)) < u64 (u64 (price_N q) * u64 (price_D p))"

text \<open>\<^verbatim>\<open>big.NewRat\<close> panics on a zero denominator: \<open>None\<close>.\<close>

definition Price_Normalize :: "xdr_Price \<Rightarrow> xdr_Price option" where
  "Price_Normalize p =
     (if price_D p = 0 then None
      else (let (n, d) = quotient_of (of_int (price_N p) / of_int (price_D p))
            in Some \<lparr>price_N = s32 (s64 n), price_D = s32 (s64 d)\<rparr>))"

definition Price_Invert :: "xdr_Price \<Rightarrow> xdr_Price" where
  "Price_Invert p = \<lparr>price_N = price_D p, price_D = price_N p\<rparr>"

definition Price_String :: "xdr_Price \<Rightarrow> string option" where
  "Price_String p =
     (if price_D p = 0 then None
      else Some (FloatString (of_int (price_N p) / of_int (price_D p)) 7))"

subsection \<open>Package ordered\<close>

definition ordered_Min :: "'a::linorder \<Rightarrow> 'a \<Rightarrow> 'a" where
  "ordered_Min a b = (if a \<le> b then a else b)"

definition ordered_Max :: "'a::linorder \<Rightarrow> 'a \<Rightarrow> 'a" where
  "ordered_Max a b = (if a > b then a else b)"

fun MinSlice_loop :: "nat \<Rightarrow> 'a::linorder \<Rightarrow> 'a list \<Rightarrow> 'a" where
  "MinSlice_loop i smallest [] = smallest"
| "MinSlice_loop i smallest (x # xs) =
     MinSlice_loop (Suc i) (if i = 0 \<or> x < smallest then x else smallest) xs"

text \<open>\<open>z\<close> is Go's zero value of the element type, returned for an empty slice.\<close>

definition MinSlice :: "'a::linorder \<Rightarrow> 'a list \<Rightarrow> 'a" where
  "MinSlice z xs = MinSlice_loop 0 z xs"

fun MaxSlice_loop :: "nat \<Rightarrow> 'a::linorder \<Rightarrow> 'a list \<Rightarrow> 'a" where
  "MaxSlice_loop i largest [] = largest"
| "MaxSlice_loop i largest (x # xs) =
     MaxSlice_loop (Suc i) (if i = 0 \<or> x > largest then x else largest) xs"

definition MaxSlice :: "'a::linorder \<Rightarrow> 'a list \<Rightarrow> 'a" where
  "MaxSlice z xs = MaxSlice_loop 0 z xs"

subsection \<open>Exchange arithmetic\<close>

definition MulFractionRoundDown :: "int \<Rightarrow> int \<Rightarrow> int \<Rightarrow> price_error + int" where
  "MulFractionRoundDown x n d =
     (if d = 0 then Inl ErrDivisionByZero
      else
        (let (hi, lo) = bits_Mul64 (u64 x) (u64 n);
             denominator = u64 d
         in if denominator \<le> hi then Inl ErrOverflow
            else
              (let (q, _) = bits_Div64 hi lo denominator
               in if q > MaxInt64 then Inl ErrOverflow else Inr (s64 q))))"

definition mulFractionRoundUp :: "int \<Rightarrow> int \<Rightarrow> int \<Rightarrow> price_error + int" where
  "mulFractionRoundUp x n d =
     (if d = 0 then Inl ErrDivisionByZero
      else
        (let (hi, lo) = bits_Mul64 (u64 x) (u64 n);
             (lo', carry) = bits_Add64 lo (u64 (s64 (d - 1))) 0;
             hi' = u64 (hi + carry);
             denominator = u64 d
         in if denominator \<le> hi' then Inl ErrOverflow
            else
              (let (q, _) = bits_Div64 hi' lo' denominator
               in if q > MaxInt64 then Inl ErrOverflow else Inr (s64 q))))"

definition ConvertToBuyingUnits :: "int \<Rightarrow> int \<Rightarrow> int \<Rightarrow> int \<Rightarrow> price_error + int \<times> int" where
  "ConvertToBuyingUnits sellingOfferAmount sellingUnitsNeeded pricen priced =
     (case
        (if pricen \<le> priced
         then (case MulFractionRoundDown sellingOfferAmount pricen priced of
                 Inl e \<Rightarrow> Inl e
               | Inr r \<Rightarrow> mulFractionRoundUp r priced pricen)
         else Inr sellingOfferAmount)
      of Inl e \<Rightarrow> Inl e
       | Inr result \<Rightarrow>
           (let sellingUnitsExtracted = ordered_Min result sellingUnitsNeeded in
            case mulFractionRoundUp sellingUnitsExtracted pricen priced of
              Inl e \<Rightarrow> Inl e
            | Inr bought \<Rightarrow> Inr (bought, sellingUnitsExtracted)))"

subsection \<open>Parsing a price\<close>

text \<open>
  Why the loop below ends: for \<open>number = p / q\<close> reduced, the next number is \<open>q / (p mod q)\<close>.
\<close>

lemma denominator_decreases:
  assumes "x - of_int \<lfloor>x\<rfloor> \<noteq> (0::rat)"
  shows "snd (quotient_of (1 / (x - of_int \<lfloor>x\<rfloor>))) < snd (quotient_of x)"
proof -
  obtain p q where pq: "quotient_of x = (p, q)" by force
  have q: "0 < q" using pq by (rule quotient_of_denom_pos)
  have x: "x = of_int p / of_int q" using pq by (rule quotient_of_div)
  define m where "m = p mod q"
  have fl: "\<lfloor>x\<rfloor> = p div q" unfolding x by (rule floor_divide_of_int_eq)
  have "(of_int p :: rat) = of_int (p div q) * of_int q + of_int m"
    by (metis m_def div_mult_mod_eq of_int_add of_int_mult)
  then have "x - of_int (p div q) = of_int m / of_int q"
    using q unfolding x by (simp add: field_simps)
  then have f: "x - of_int \<lfloor>x\<rfloor> = of_int m / of_int q" by (simp only: fl)
  have "m \<noteq> 0" using assms f by auto
  moreover have "0 \<le> m" "m < q" using q by (simp_all add: m_def)
  ultimately have m: "0 < m" "m < q" by simp_all
  have inv: "1 / (x - of_int \<lfloor>x\<rfloor>) = of_int q / of_int m" unfolding f by simp
  obtain a b where ab: "quotient_of (of_int q / of_int m) = (a, b)" by force
  have b: "0 < b" "coprime a b" using ab quotient_of_denom_pos quotient_of_coprime by blast+
  have "of_int q / of_int m = (of_int a / of_int b :: rat)" using ab by (rule quotient_of_div)
  then have "(of_int (q * b) :: rat) = of_int (a * m)"
    using m b by (simp add: field_simps)
  then have "q * b = a * m" by (simp only: of_int_eq_iff)
  then have "b dvd a * m" by (metis dvd_triv_right)
  then have "b dvd m" using b(2) by (simp add: coprime_commute coprime_dvd_mult_right_iff)
  then have "b \<le> m" using m(1) by (rule zdvd_imp_le)
  then show ?thesis unfolding inv ab pq using m(2) by simp
qed

text \<open>
  The loop of \<^verbatim>\<open>continuedFraction\<close>. The slice \<^verbatim>\<open>fractions\<close> only ever grows and only its last
  two entries are read: they are \<open>(h0, k0)\<close> and \<open>(h1, k1)\<close>. The numerators and denominators
  are integers. The denominator of \<open>number\<close> decreases at every turn, as in Euclid's algorithm.
\<close>

function continuedFraction_loop :: "rat \<Rightarrow> int \<times> int \<Rightarrow> int \<times> int \<Rightarrow> int \<times> int" where
  "continuedFraction_loop number (h0, k0) (h1, k1) =
     (if number > of_int MaxInt32 then (h1, k1)
      else
        (let a = \<lfloor>number\<rfloor>; f = number - of_int a; h = a * h1 + h0; k = a * k1 + k0 in
         if h > MaxInt32 \<or> k > MaxInt32 then (h1, k1)
         else if f = 0 then (h, k)
         else continuedFraction_loop (1 / f) (h1, k1) (h, k)))"
  by pat_completeness auto

termination
proof (relation "measure (\<lambda>(number, _, _). nat (snd (quotient_of number)))")
  fix number :: rat and h0 k0 h1 k1 a h k :: int and f
  assume "a = \<lfloor>number\<rfloor>" "f = number - of_int a" "f \<noteq> 0"
  then have "snd (quotient_of (1 / f)) < snd (quotient_of number)"
    using denominator_decreases by simp
  then show "((1 / f, (h1, k1), h, k), number, (h0, k0), h1, k1)
      \<in> measure (\<lambda>(number, _, _). nat (snd (quotient_of number)))"
    using quotient_of_denom_pos' [of number] by simp
qed simp

declare continuedFraction_loop.simps [simp del]

definition continuedFraction :: "string \<Rightarrow> price_error + xdr_Price" where
  "continuedFraction price =
     (if \<not> validAmountSimple price then Inl (InvalidPriceFormat price)
      else case rat_SetString price of
        None \<Rightarrow> Inl (CannotParsePrice price)
      | Some number \<Rightarrow>
          (let (n, d) = continuedFraction_loop number (0, 1) (1, 0) in
           if n = 0 \<or> d = 0 then Inl NoApproximation
           else Inr \<lparr>price_N = s32 (s64 n), price_D = s32 (s64 d)\<rparr>))"

definition price_Parse :: "string \<Rightarrow> price_error + xdr_Price" where
  "price_Parse v = continuedFraction v"

definition price_MustParse :: "string \<Rightarrow> price_error + xdr_Price" where
  "price_MustParse v = (case price_Parse v of Inl e \<Rightarrow> Inl e | Inr result \<Rightarrow> Inr result)"

section \<open>Exchange arithmetic is exact\<close>

text \<open>Division rounded up, on non-negative operands.\<close>

definition ceil_div :: "int \<Rightarrow> int \<Rightarrow> int" where
  "ceil_div v d = (v + d - 1) div d"

lemma ceil_div_le_iff:
  assumes "0 < d"
  shows "ceil_div v d \<le> c \<longleftrightarrow> v \<le> c * d"
proof -
  have "ceil_div v d \<le> c \<longleftrightarrow> (v + d - 1) div d < c + 1" by (simp add: ceil_div_def)
  also have "\<dots> \<longleftrightarrow> v + d - 1 < (c + 1) * d" using assms by (rule div_less_iff_int)
  also have "\<dots> \<longleftrightarrow> v \<le> c * d" by (auto simp: algebra_simps)
  finally show ?thesis .
qed

lemma ceil_div_ge: "0 < d \<Longrightarrow> v \<le> ceil_div v d * d"
  using ceil_div_le_iff [of d v "ceil_div v d"] by simp

lemma ceil_div_nonneg: "0 \<le> v \<Longrightarrow> 0 < d \<Longrightarrow> 0 \<le> ceil_div v d"
  by (simp add: ceil_div_def pos_imp_zdiv_nonneg_iff)

lemma ceil_div_cases:
  assumes "0 < d"
  shows "ceil_div v d = (if v mod d = 0 then v div d else v div d + 1)"
proof -
  have "v + d - 1 = (v mod d + d - 1) + v div d * d" by simp
  then have "ceil_div v d = v div d + (v mod d + d - 1) div d"
    using assms unfolding ceil_div_def by (metis div_mult_self1 less_irrefl mult.commute)
  moreover have "(v mod d + d - 1) div d = (if v mod d = 0 then 0 else 1)"
  proof (cases "v mod d = 0")
    case False
    then have "0 < v mod d" using assms by (metis less_le pos_mod_sign)
    then have "(v mod d - 1 + d) div d = 1"
      using assms pos_mod_bound [OF assms, of v] by (simp add: div_pos_pos_trivial)
    then show ?thesis using False by (simp add: algebra_simps)
  qed (use assms in \<open>simp add: div_pos_pos_trivial\<close>)
  ultimately show ?thesis by simp
qed

lemma MulFractionRoundDown_exact:
  assumes "0 \<le> x" "x \<le> MaxInt64" "0 \<le> n" "n \<le> MaxInt64" "0 < d" "d \<le> MaxInt64"
  shows "MulFractionRoundDown x n d =
    (if x * n div d \<le> MaxInt64 then Inr (x * n div d) else Inl ErrOverflow)"
proof -
  have u: "u64 x = x" "u64 n = n" "u64 d = d"
    using assms by (simp_all add: u64_id MaxInt64_def)
  have guard: "d \<le> x * n div 18446744073709551616 \<longleftrightarrow> 18446744073709551616 \<le> x * n div d"
    using assms by (intro div_guard_iff) auto
  have "0 \<le> x * n div d" using assms by (simp add: pos_imp_zdiv_nonneg_iff)
  moreover have "x * n div 18446744073709551616 * 18446744073709551616 + x * n mod 18446744073709551616 = x * n"
    by (rule div_mult_mod_eq)
  ultimately show ?thesis
    using assms guard
    by (auto simp: MulFractionRoundDown_def bits_Mul64_def bits_Div64_def u s64_id in_int64_def
        MaxInt64_def MinInt64_def)
qed

lemma mulFractionRoundUp_exact:
  assumes "0 \<le> x" "x \<le> MaxInt64" "0 \<le> n" "n \<le> MaxInt64" "0 < d" "d \<le> MaxInt64"
  shows "mulFractionRoundUp x n d =
    (if ceil_div (x * n) d \<le> MaxInt64 then Inr (ceil_div (x * n) d) else Inl ErrOverflow)"
proof -
  define B :: int where "B = 18446744073709551616"
  define v where "v = x * n + (d - 1)"
  have u: "u64 x = x" "u64 n = n" "u64 d = d" "u64 (s64 (d - 1)) = d - 1"
    using assms by (simp_all add: u64_id s64_id int_width)
  have xn: "0 \<le> x * n" "x * n \<le> MaxInt64 * MaxInt64"
    using assms by (auto intro: mult_mono)
  then have v: "0 \<le> v" "v < B * B" using assms by (simp_all add: v_def B_def MaxInt64_def)
  have veq: "v = (x * n) mod B + (d - 1) + (x * n) div B * B"
    using div_mult_mod_eq [of "x * n" B] by (simp add: v_def)
  have "v mod B = ((x * n) mod B + (d - 1)) mod B" "v div B = (x * n) div B + ((x * n) mod B + (d - 1)) div B"
    by (subst veq, rule mod_mult_self1, subst veq, rule div_mult_self1) (simp add: B_def)
  then have lo: "((x * n) mod B + (d - 1) + 0) mod B = v mod B"
    and "(x * n) div B + ((x * n) mod B + (d - 1) + 0) div B = v div B"
    by (simp_all only: add_0_right)
  moreover have "u64 (v div B) = v div B"
    using v by (intro u64_id) (simp_all add: pos_imp_zdiv_nonneg_iff B_def div_less_iff_int)
  ultimately have hi: "u64 ((x * n) div B + ((x * n) mod B + (d - 1) + 0) div B) = v div B"
    by (simp only:)
  have guard: "d \<le> v div B \<longleftrightarrow> B \<le> v div d"
    using assms v by (intro div_guard_iff) (auto simp: B_def)
  have "0 \<le> v div d" using assms v by (simp add: pos_imp_zdiv_nonneg_iff)
  moreover have "v div B * B + v mod B = v" by (rule div_mult_mod_eq)
  moreover have "ceil_div (x * n) d = v div d" by (simp add: ceil_div_def v_def algebra_simps)
  moreover have "mulFractionRoundUp x n d =
      (if d \<le> v div B then Inl ErrOverflow
       else if (v div B * B + v mod B) div d > MaxInt64 then Inl ErrOverflow
       else Inr (s64 ((v div B * B + v mod B) div d)))"
    using assms(5)
    by (simp only: mulFractionRoundUp_def bits_Mul64_def bits_Add64_def bits_Div64_def u Let_def
        prod.case lo hi B_def [symmetric]) simp
  ultimately show ?thesis
    using guard by (auto simp: s64_id in_int64_def MaxInt64_def MinInt64_def B_def)
qed

text \<open>
  C34. The two 128-bit multiply-and-divide routines are exact: for non-negative 64-bit operands and
  a positive divisor they return the quotient rounded down, respectively up, whenever it fits
  in an \<^verbatim>\<open>int64\<close>, and \<^verbatim>\<open>ErrOverflow\<close> exactly when it does not; a zero divisor is
  \<^verbatim>\<open>ErrDivisionByZero\<close>.
\<close>

theorem mulFraction_exact:
  assumes "0 \<le> x" "x \<le> MaxInt64" "0 \<le> n" "n \<le> MaxInt64" "0 < d" "d \<le> MaxInt64"
  shows "MulFractionRoundDown x n d =
      (if x * n div d \<le> MaxInt64 then Inr (x * n div d) else Inl ErrOverflow) \<and>
    mulFractionRoundUp x n d =
      (if ceil_div (x * n) d \<le> MaxInt64 then Inr (ceil_div (x * n) d) else Inl ErrOverflow) \<and>
    MulFractionRoundDown x n 0 = Inl ErrDivisionByZero \<and>
    mulFractionRoundUp x n 0 = Inl ErrDivisionByZero"
  using MulFractionRoundDown_exact [OF assms] mulFractionRoundUp_exact [OF assms]
  by (simp_all add: MulFractionRoundDown_def mulFractionRoundUp_def)

theorem mulFraction_exact_witness:
  "MulFractionRoundDown 7 3 2 = Inr 10 \<and> mulFractionRoundUp 7 3 2 = Inr 11 \<and>
   MulFractionRoundDown MaxInt64 3 2 = Inl ErrOverflow"
  using mulFraction_exact [of 7 3 2] mulFraction_exact [of MaxInt64 3 2]
  by (simp add: MaxInt64_def ceil_div_def)

text \<open>The part of an offer of \<open>amount\<close> at price \<open>n/d\<close> that can be sold without rounding loss.\<close>

definition selling_bound :: "int \<Rightarrow> int \<Rightarrow> int \<Rightarrow> int" where
  "selling_bound amount n d = (if n \<le> d then ceil_div (amount * n div d * d) n else amount)"

lemma selling_bound_le:
  assumes "0 \<le> amount" "0 < n" "0 < d"
  shows "0 \<le> selling_bound amount n d" "selling_bound amount n d \<le> amount"
proof -
  have "amount * n div d * d \<le> amount * n" using assms by (metis le_div_iff_int order_refl)
  then show "selling_bound amount n d \<le> amount"
    using assms by (simp add: selling_bound_def ceil_div_le_iff)
  have "0 \<le> amount * n div d * d" using assms by (simp add: pos_imp_zdiv_nonneg_iff)
  then show "0 \<le> selling_bound amount n d"
    using assms by (simp add: selling_bound_def ceil_div_nonneg)
qed

lemma ConvertToBuyingUnits_exact:
  assumes "0 \<le> amount" "amount \<le> MaxInt64" "0 \<le> needed" "needed \<le> MaxInt64"
    "0 < n" "n \<le> MaxInt32" "0 < d" "d \<le> MaxInt32"
  shows "ConvertToBuyingUnits amount needed n d =
    (let sold = min (selling_bound amount n d) needed in
     if ceil_div (sold * n) d \<le> MaxInt64 then Inr (ceil_div (sold * n) d, sold)
     else Inl ErrOverflow)"
proof -
  define sold where "sold = min (selling_bound amount n d) needed"
  note sb = selling_bound_le [OF assms(1,5,7)]
  have b: "0 \<le> n" "n \<le> MaxInt64" "0 \<le> d" "d \<le> MaxInt64"
    using assms by (simp_all add: MaxInt64_def MaxInt32_def)
  have bound: "(if n \<le> d then case MulFractionRoundDown amount n d of Inl e \<Rightarrow> Inl e
        | Inr r \<Rightarrow> mulFractionRoundUp r d n else Inr amount) = Inr (selling_bound amount n d)"
  proof (cases "n \<le> d")
    case True
    have "amount * n div d * d \<le> amount * n" using assms by (metis le_div_iff_int order_refl)
    also have "\<dots> \<le> amount * d" using True assms by (simp add: mult_left_mono)
    finally have "amount * n div d \<le> amount" using assms by simp
    then have fl: "0 \<le> amount * n div d" "amount * n div d \<le> MaxInt64"
      using assms by (simp_all add: pos_imp_zdiv_nonneg_iff)
    have "ceil_div (amount * n div d * d) n \<le> MaxInt64"
      using sb True assms by (simp add: selling_bound_def)
    then show ?thesis
      using True fl assms b MulFractionRoundDown_exact [of amount n d] mulFractionRoundUp_exact [of _ d n]
      by (simp add: selling_bound_def)
  qed (simp add: selling_bound_def)
  have "0 \<le> sold" "sold \<le> MaxInt64" using sb assms by (simp_all add: sold_def)
  then have "mulFractionRoundUp sold n d =
      (if ceil_div (sold * n) d \<le> MaxInt64 then Inr (ceil_div (sold * n) d) else Inl ErrOverflow)"
    using assms b by (intro mulFractionRoundUp_exact)
  moreover have "ordered_Min (selling_bound amount n d) needed = sold"
    by (simp add: ordered_Min_def sold_def min_def)
  ultimately show ?thesis
    unfolding ConvertToBuyingUnits_def bound by (simp add: Let_def flip: sold_def)
qed

text \<open>
  C23. Taking from an offer is exact and never favours the taker: for an offer of \<open>amount\<close> at price
  \<open>n/d\<close>, \<^verbatim>\<open>ConvertToBuyingUnits\<close> returns (bought, sold) with \<open>sold\<close> the smaller of what
  is needed and what the offer can sell (at a price of at most one, only as much as is worth a whole number of units), never more than the offer's amount, and \<open>bought\<close> the
  least number of units that pays for it (rounded in favour of the offer's owner); it overflows
  only if that number does not fit in 64 bits.
\<close>

theorem ConvertToBuyingUnits_sound:
  assumes "0 \<le> amount" "amount \<le> MaxInt64" "0 \<le> needed" "needed \<le> MaxInt64"
    "0 < n" "n \<le> MaxInt32" "0 < d" "d \<le> MaxInt32"
  shows "(\<exists>bought sold. ConvertToBuyingUnits amount needed n d = Inr (bought, sold) \<and>
       sold = min (selling_bound amount n d) needed \<and> 0 \<le> sold \<and> sold \<le> amount \<and> sold \<le> needed \<and>
       sold * n \<le> bought * d \<and> (\<forall>b. sold * n \<le> b * d \<longrightarrow> bought \<le> b)) \<or>
     ConvertToBuyingUnits amount needed n d = Inl ErrOverflow \<and>
       MaxInt64 * d < min (selling_bound amount n d) needed * n"
proof -
  define sold where "sold = min (selling_bound amount n d) needed"
  note sb = selling_bound_le [OF assms(1,5,7)]
  have conv: "ConvertToBuyingUnits amount needed n d =
     (if ceil_div (sold * n) d \<le> MaxInt64 then Inr (ceil_div (sold * n) d, sold) else Inl ErrOverflow)"
    using ConvertToBuyingUnits_exact [OF assms] by (simp add: sold_def Let_def)
  show ?thesis
  proof (cases "ceil_div (sold * n) d \<le> MaxInt64")
    case True
    then have "ConvertToBuyingUnits amount needed n d = Inr (ceil_div (sold * n) d, sold)" by (simp add: conv)
    moreover have "sold = min (selling_bound amount n d) needed" "0 \<le> sold" "sold \<le> amount" "sold \<le> needed" using sb assms by (auto simp: sold_def)
    moreover have "sold * n \<le> ceil_div (sold * n) d * d" "\<forall>b. sold * n \<le> b * d \<longrightarrow> ceil_div (sold * n) d \<le> b"
      using ceil_div_ge [OF assms(7), of "sold * n"] ceil_div_le_iff [OF assms(7), of "sold * n"] by simp_all
    ultimately show ?thesis by (intro disjI1 exI [of _ sold] exI [of _ "ceil_div (sold * n) d"] conjI)
  next
    case False
    then have "MaxInt64 * d < sold * n" using ceil_div_le_iff [OF assms(7)] by (simp add: not_le)
    with False conv show ?thesis by (simp add: sold_def)
  qed
qed

theorem ConvertToBuyingUnits_sound_witness:
  "\<exists>bought sold. ConvertToBuyingUnits 10 100 1 3 = Inr (bought, sold) \<and> sold \<le> 10 \<and> sold * 1 \<le> bought * 3"
  using ConvertToBuyingUnits_sound [of 10 100 1 3]
  by (auto simp: MaxInt64_def MaxInt32_def selling_bound_def ceil_div_def)

section \<open>Parsing a price\<close>

lemma det_unit_coprime:
  fixes a b c d :: int
  assumes "\<bar>a * d - b * c\<bar> = 1"
  shows "coprime a c"
proof (rule coprimeI)
  fix e assume "e dvd a" "e dvd c"
  then have "e dvd a * d - b * c" by (simp add: dvd_mult dvd_mult2)
  then show "is_unit e" using assms by (metis dvd_abs_iff)
qed

lemma quotient_of_reciprocal_fraction:
  assumes "quotient_of x = (u, v)" "x - of_int \<lfloor>x\<rfloor> \<noteq> 0"
  shows "quotient_of (1 / (x - of_int \<lfloor>x\<rfloor>)) = (v, u mod v) \<and> \<lfloor>x\<rfloor> = u div v \<and> 0 < u mod v"
proof -
  have v: "0 < v" using assms(1) by (rule quotient_of_denom_pos)
  have x: "x = of_int u / of_int v" using assms(1) by (rule quotient_of_div)
  have fl: "\<lfloor>x\<rfloor> = u div v" unfolding x by (rule floor_divide_of_int_eq)
  have "(of_int u :: rat) = of_int (u div v) * of_int v + of_int (u mod v)"
    by (metis div_mult_mod_eq of_int_add of_int_mult)
  then have "x - of_int (u div v) = of_int (u mod v) / of_int v"
    using v unfolding x by (simp add: field_simps)
  then have f: "x - of_int \<lfloor>x\<rfloor> = of_int (u mod v) / of_int v" by (simp only: fl)
  have m: "0 < u mod v" using assms(2) f v by (metis divide_eq_0_iff of_int_0 order_le_less pos_mod_sign)
  have "coprime v (u mod v)"
    using quotient_of_coprime [OF assms(1)] v by (simp add: coprime_commute)
  then have "quotient_of (Fract v (u mod v)) = (v, u mod v)"
    using m by (simp add: quotient_of_Fract normalize_stable)
  then show ?thesis using f fl m by (simp add: Fract_of_int_quotient)
qed

lemma continuedFraction_loop_correct:
  assumes "continuedFraction_loop number (h0, k0) (h1, k1) = (n, d)"
    and "quotient_of number = (u, v)" "0 \<le> u" "k1 = 0 \<or> v \<le> u"
    and "u * h1 + v * h0 = p" "u * k1 + v * k0 = q" "\<bar>h1 * k0 - h0 * k1\<bar> = 1"
    and "0 \<le> h0" "0 \<le> k0" "0 \<le> h1" "0 \<le> k1" "h1 \<le> MaxInt32" "k1 \<le> MaxInt32"
  shows "0 \<le> n \<and> n \<le> MaxInt32 \<and> 0 \<le> d \<and> d \<le> MaxInt32 \<and> coprime n d \<and>
    (d = 0 \<or> \<bar>p * d - q * n\<bar> * d \<le> q) \<and>
    (p \<le> MaxInt32 \<longrightarrow> q \<le> MaxInt32 \<longrightarrow> n = p \<and> d = q)"
  using assms
proof (induction number "(h0, k0)" "(h1, k1)" arbitrary: h0 k0 h1 k1 u v rule: continuedFraction_loop.induct)
  case (1 number h0 k0 h1 k1)
  note uv = "1.prems"(2) and u0 = "1.prems"(3) and pq = "1.prems"(5,6) and det = "1.prems"(7)
    and nn = "1.prems"(8-11) and le = "1.prems"(12,13)
  define a where "a = \<lfloor>number\<rfloor>"
  define h where "h = a * h1 + h0"
  define k where "k = a * k1 + k0"
  have v: "0 < v" using uv by (rule quotient_of_denom_pos)
  have number: "number = of_int u / of_int v" using uv by (rule quotient_of_div)
  have a: "a = u div v" "0 \<le> a"
    using v u0 unfolding a_def number by (simp_all add: floor_divide_of_int_eq pos_imp_zdiv_nonneg_iff)
  have hk: "0 \<le> h" "0 \<le> k" using a nn by (simp_all add: h_def k_def)
  have split: "v * h + u mod v * h1 = p" "v * k + u mod v * k1 = q"
  proof -
    have "v * (a * y + z) + u mod v * y = (u div v * v + u mod v) * y + v * z" for y z
      unfolding a(1) by algebra
    then show "v * h + u mod v * h1 = p" "v * k + u mod v * k1 = q"
      using pq by (simp_all add: h_def k_def)
  qed
  have grow: "h \<le> p" "k \<le> q"
  proof -
    have "y \<le> v * y + u mod v * z" if "0 \<le> y" "0 \<le> z" for y z
      using that v by (simp add: add_increasing2 mult_le_cancel_right1)
    then show "h \<le> p" "k \<le> q" using hk nn by (simp_all flip: split)
  qed
  have stop: ?case if "(n, d) = (h1, k1)" "of_int MaxInt32 < number \<or> MaxInt32 < h \<or> MaxInt32 < k"
  proof -
    have "\<not> (p \<le> MaxInt32 \<and> q \<le> MaxInt32)"
    proof
      assume b: "p \<le> MaxInt32 \<and> q \<le> MaxInt32"
      with grow that(2) have "of_int MaxInt32 < number" by linarith
      then have "(of_int (MaxInt32 * v) :: rat) < of_int u"
        using v unfolding number by (simp add: field_simps)
      then have "MaxInt32 * v < u" by (simp only: of_int_less_iff)
      moreover have "MaxInt32 * 1 \<le> MaxInt32 * v" using v by (intro mult_left_mono) (simp_all add: MaxInt32_def)
      ultimately have u: "MaxInt32 < u" by simp
      have "h1 \<noteq> 0 \<or> k1 \<noteq> 0" using det by auto
      then have "1 \<le> h1 \<or> 1 \<le> k1" using nn by linarith
      then have "u \<le> u * h1 \<or> u \<le> u * k1" using u0 by (auto simp: mult_le_cancel_left1)
      moreover have "u * h1 \<le> p" "u * k1 \<le> q" using pq nn v by (simp_all flip: pq)
      ultimately show False using u b by linarith
    qed
    moreover have "k1 = 0 \<or> \<bar>p * k1 - q * h1\<bar> * k1 \<le> q"
    proof (cases "k1 = 0")
      case False
      have "p * k1 - q * h1 = v * (h0 * k1 - h1 * k0)" by (simp add: algebra_simps flip: pq)
      then have "\<bar>p * k1 - q * h1\<bar> = v" using det v by (simp add: abs_mult abs_minus_commute)
      moreover have "v * k1 \<le> u * k1" using False "1.prems"(4) nn by (simp add: mult_right_mono)
      moreover have "0 \<le> v * k0" using v nn by simp
      ultimately show ?thesis by (simp flip: pq)
    qed simp
    ultimately show ?thesis
      using that(1) nn le det_unit_coprime [of h1 k0 h0 k1] det by auto
  qed
  show ?case
  proof (cases "of_int MaxInt32 < number \<or> MaxInt32 < h \<or> MaxInt32 < k")
    case True
    then have "(n, d) = (h1, k1)"
      using "1.prems"(1) unfolding continuedFraction_loop.simps [of number h0 k0 h1 k1]
      by (auto simp: Let_def a_def h_def k_def split: if_splits)
    then show ?thesis using True by (rule stop)
  next
    case False
    have det': "\<bar>h * k1 - h1 * k\<bar> = 1"
      using det by (simp add: h_def k_def algebra_simps abs_minus_commute)
    show ?thesis
    proof (cases "number - of_int a = 0")
      case True
      then have "(n, d) = (h, k)"
        using False "1.prems"(1) unfolding continuedFraction_loop.simps [of number h0 k0 h1 k1]
        by (simp add: Let_def a_def h_def k_def)
      moreover have "number = of_int a" using True by simp
      then have "u = a" "v = 1" using uv by simp_all
      with split have "h = p" "k = q" by simp_all
      ultimately show ?thesis
        using hk False det_unit_coprime [OF det'] by (auto simp: not_less)
    next
      case f: False
      have rec: "continuedFraction_loop (1 / (number - of_int a)) (h1, k1) (h, k) = (n, d)"
        using False f "1.prems"(1) unfolding continuedFraction_loop.simps [of number h0 k0 h1 k1]
        by (simp add: Let_def a_def h_def k_def)
      note q' = quotient_of_reciprocal_fraction [OF uv, folded a_def, OF f]
      have le_v: "u mod v \<le> v" using v by (simp add: order_less_imp_le)
      show ?thesis
        using False f
        by (intro "1.hyps" [OF _ a_def refl h_def k_def _ _ rec conjunct1 [OF q']])
          (use q' le_v v split det' nn hk False in \<open>auto simp: algebra_simps\<close>)
    qed
  qed
qed


text \<open>
  C31. Parsing a positive decimal price: the result is a reduced fraction of two positive 32-bit
  integers whose distance from the exact value is at most the inverse square of its
  denominator, and it is the exact value whenever that has a numerator and a denominator of
  32 bits. (The loop terminates on every input: \<open>continuedFraction_loop\<close> is total.)
\<close>

theorem price_Parse_correct:
  assumes "validAmountSimple s" "rat_SetString s = Some x" "0 < x" "quotient_of x = (p, q)"
  shows "(\<forall>P. price_Parse s = Inr P \<longrightarrow>
       1 \<le> price_N P \<and> price_N P \<le> MaxInt32 \<and> 1 \<le> price_D P \<and> price_D P \<le> MaxInt32 \<and>
       coprime (price_N P) (price_D P) \<and>
       \<bar>x - of_int (price_N P) / of_int (price_D P)\<bar> \<le> 1 / (of_int (price_D P))\<^sup>2) \<and>
     (p \<le> MaxInt32 \<longrightarrow> q \<le> MaxInt32 \<longrightarrow> price_Parse s = Inr \<lparr>price_N = p, price_D = q\<rparr>)"
proof -
  obtain n d where nd: "continuedFraction_loop x (0, 1) (1, 0) = (n, d)" by force
  have q: "0 < q" using assms(4) by (rule quotient_of_denom_pos)
  have x: "x = of_int p / of_int q" using assms(4) by (rule quotient_of_div)
  then have p: "0 < p" using assms(3) q by (simp add: zero_less_divide_iff)
  note loop = continuedFraction_loop_correct [OF nd assms(4), of p q, simplified]
  have c: "0 \<le> n" "n \<le> MaxInt32" "0 \<le> d" "d \<le> MaxInt32" "coprime n d"
    "d = 0 \<or> \<bar>p * d - q * n\<bar> * d \<le> q" "p \<le> MaxInt32 \<Longrightarrow> q \<le> MaxInt32 \<Longrightarrow> n = p \<and> d = q"
    using loop p by (auto simp: MaxInt32_def)
  have id: "s32 (s64 n) = n" "s32 (s64 d) = d"
    using c by (simp_all add: s32_id s64_id int_width)
  have parse: "price_Parse s =
      (if n = 0 \<or> d = 0 then Inl NoApproximation else Inr \<lparr>price_N = n, price_D = d\<rparr>)"
    using assms(1,2) by (simp add: price_Parse_def continuedFraction_def nd id)
  have close: "\<bar>x - of_int n / of_int d\<bar> \<le> 1 / (of_int d)\<^sup>2" if "0 < d"
  proof -
    have "x - of_int n / of_int d = of_int (p * d - q * n) / of_int (q * d)"
      using that q by (simp add: x field_simps)
    then have "\<bar>x - of_int n / of_int d\<bar> = of_int \<bar>p * d - q * n\<bar> / of_int (q * d)"
      using that q by (simp add: abs_mult)
    moreover have "(of_int (\<bar>p * d - q * n\<bar> * d) :: rat) \<le> of_int q"
      using c(6) that by (simp only: of_int_le_iff) simp
    then have "of_int (\<bar>p * d - q * n\<bar> * d) / of_int (q * d * d) \<le> (of_int q / of_int (q * d * d) :: rat)"
      using that q by (intro divide_right_mono) simp_all
    ultimately show ?thesis
      using that q by (simp add: power2_eq_square)
  qed
  show ?thesis
  proof (intro conjI allI impI)
    fix P assume "price_Parse s = Inr P"
    with parse c close show "1 \<le> price_N P" "price_N P \<le> MaxInt32" "1 \<le> price_D P" "price_D P \<le> MaxInt32"
      "coprime (price_N P) (price_D P)"
      "\<bar>x - of_int (price_N P) / of_int (price_D P)\<bar> \<le> 1 / (of_int (price_D P))\<^sup>2"
      by (auto split: if_splits)
  next
    assume "p \<le> MaxInt32" "q \<le> MaxInt32"
    with c(7) parse p q show "price_Parse s = Inr \<lparr>price_N = p, price_D = q\<rparr>" by simp
  qed
qed

theorem price_Parse_correct_witness:
  "price_Parse ''0.5'' = Inr \<lparr>price_N = 1, price_D = 2\<rparr>"
proof -
  have "validAmountSimple ''0.5''" by code_simp
  moreover have "rat_SetString ''0.5'' = Some (1 / 2)" by code_simp
  moreover have "quotient_of (1 / 2) = (1, 2)" by code_simp
  ultimately show ?thesis
    using price_Parse_correct [of "''0.5''" "1 / 2" 1 2] by (simp add: MaxInt32_def)
qed

text \<open>
  The bound is not checked on the negative side: a negative price whose magnitude exceeds 32
  bits is accepted and wraps around, here to a large positive price.
\<close>

theorem price_Parse_negative_wraps:
  "price_Parse ''-2147483649'' = Inr \<lparr>price_N = 2147483647, price_D = 1\<rparr>"
proof -
  have valid: "validAmountSimple ''-2147483649''" by code_simp
  have "rat_SetString ''-2147483649'' = Some (- 2147483649)"
    by (simp add: rat_SetString_def rat_SetString_unsigned_def is_digit_def digit_value_def)
  moreover have "continuedFraction_loop (- 2147483649) (0, 1) (1, 0) = (- 2147483649, 1)"
    by (subst continuedFraction_loop.simps) (simp add: MaxInt32_def)
  ultimately show ?thesis
    using valid by (simp add: price_Parse_def continuedFraction_def s32_def s64_def)
qed

section \<open>Comparing prices\<close>

lemma price_cross:
  assumes "0 < a" "a \<le> MaxInt32" "0 < b" "b \<le> MaxInt32"
  shows "u64 (u64 a * u64 b) = a * b"
proof -
  have "a * b \<le> MaxInt32 * MaxInt32" using assms by (intro mult_mono) simp_all
  then show ?thesis using assms by (simp add: u64_id MaxInt32_def)
qed

lemma Cheaper_value:
  assumes "0 < price_N p" "price_N p \<le> MaxInt32" "0 < price_D p" "price_D p \<le> MaxInt32"
    "0 < price_N q" "price_N q \<le> MaxInt32" "0 < price_D q" "price_D q \<le> MaxInt32"
  shows "Cheaper p q \<longleftrightarrow> (of_int (price_N p) / of_int (price_D p) :: rat) < of_int (price_N q) / of_int (price_D q)"
proof -
  have "Cheaper p q \<longleftrightarrow> (of_int (price_N p * price_D q) :: rat) < of_int (price_N q * price_D p)"
    using assms by (simp only: Cheaper_def price_cross of_int_less_iff)
  then show ?thesis using assms by (simp add: field_simps)
qed

lemma Price_Equal_value:
  assumes "0 < price_N p" "price_N p \<le> MaxInt32" "0 < price_D p" "price_D p \<le> MaxInt32"
    "0 < price_N q" "price_N q \<le> MaxInt32" "0 < price_D q" "price_D q \<le> MaxInt32"
  shows "Price_Equal p q \<longleftrightarrow> (of_int (price_N p) / of_int (price_D p) :: rat) = of_int (price_N q) / of_int (price_D q)"
proof -
  have "Price_Equal p q \<longleftrightarrow> (of_int (price_N p * price_D q) :: rat) = of_int (price_N q * price_D p)"
    using assms by (simp only: Price_Equal_def price_cross of_int_eq_iff)
  then show ?thesis using assms by (simp add: field_simps)
qed

text \<open>
  \<^verbatim>\<open>Cheaper\<close> and \<^verbatim>\<open>Equal\<close> compare positive prices by their rational values: the cross
  products of 32-bit operands never wrap around in 64 bits.
\<close>

theorem Price_compare:
  assumes "0 < price_N p" "price_N p \<le> MaxInt32" "0 < price_D p" "price_D p \<le> MaxInt32"
    "0 < price_N q" "price_N q \<le> MaxInt32" "0 < price_D q" "price_D q \<le> MaxInt32"
  shows "(Cheaper p q \<longleftrightarrow> (of_int (price_N p) / of_int (price_D p) :: rat) < of_int (price_N q) / of_int (price_D q)) \<and>
    (Price_Equal p q \<longleftrightarrow> (of_int (price_N p) / of_int (price_D p) :: rat) = of_int (price_N q) / of_int (price_D q)) \<and>
    (Price_Equal p q \<longleftrightarrow> Price_Normalize p = Price_Normalize q)"
proof -
  note less = Cheaper_value [OF assms] and val = Price_Equal_value [OF assms]
  have norm: "Price_Normalize r = Some \<lparr>price_N = n, price_D = d\<rparr>"
    if "quotient_of (of_int (price_N r) / of_int (price_D r)) = (n, d)"
      "0 < price_N r" "price_N r \<le> MaxInt32" "0 < price_D r" "price_D r \<le> MaxInt32" for r n d
  proof -
    have d: "0 < d" "coprime n d"
      using that(1) quotient_of_denom_pos quotient_of_coprime by blast+
    have "(of_int (price_N r) / of_int (price_D r) :: rat) = of_int n / of_int d"
      using that(1) by (rule quotient_of_div)
    then have "(of_int (price_N r * d) :: rat) = of_int (n * price_D r)"
      using that d by (simp add: field_simps)
    then have m: "price_N r * d = n * price_D r" by (simp only: of_int_eq_iff)
    then have n: "0 < n" using that d by (metis zero_less_mult_pos2 mult_pos_pos)
    have "n dvd price_N r * d" "d dvd n * price_D r" using m by (metis dvd_triv_left, metis dvd_triv_right)
    then have "n dvd price_N r" "d dvd price_D r"
      using d(2) by (simp_all add: coprime_dvd_mult_left_iff coprime_dvd_mult_right_iff coprime_commute)
    then have "n \<le> MaxInt32" "d \<le> MaxInt32" using that by (auto dest!: zdvd_imp_le)
    then have "s32 (s64 n) = n" "s32 (s64 d) = d"
      using n d by (simp_all add: s32_id s64_id int_width)
    with that show ?thesis by (simp add: Price_Normalize_def)
  qed
  obtain n d n' d' where r: "quotient_of (of_int (price_N p) / of_int (price_D p)) = (n, d)"
    "quotient_of (of_int (price_N q) / of_int (price_D q)) = (n', d')"
    by (metis surj_pair)
  have "Price_Normalize p = Price_Normalize q \<longleftrightarrow> (n, d) = (n', d')"
    using norm [OF r(1)] norm [OF r(2)] assms by simp
  also have "\<dots> \<longleftrightarrow> Price_Equal p q"
    unfolding val r [symmetric] by (simp add: quotient_of_inject_eq)
  finally show ?thesis using val less by simp
qed

theorem Price_compare_witness:
  "Cheaper \<lparr>price_N = 1, price_D = 3\<rparr> \<lparr>price_N = 2, price_D = 4\<rparr> \<and>
   Price_Equal \<lparr>price_N = 1, price_D = 2\<rparr> \<lparr>price_N = 2, price_D = 4\<rparr>"
  using Price_compare [of "\<lparr>price_N = 1, price_D = 3\<rparr>" "\<lparr>price_N = 2, price_D = 4\<rparr>"]
    Price_compare [of "\<lparr>price_N = 1, price_D = 2\<rparr>" "\<lparr>price_N = 2, price_D = 4\<rparr>"]
  by (simp add: MaxInt32_def)

end
