(* ===== verification/Crc16.thy ===== *)
theory Crc16
  imports Prelude
begin

unbundle bit_operations_syntax

text \<open>
  Package \<^verbatim>\<open>crc16\<close> (\<^verbatim>\<open>src/strkey/internal/crc16/main.go\<close>): the checksum of the strkey format.
  The model is the table-driven loop of the code; the reference it is compared with is the
  bit-serial division by the polynomial \<open>x\<^sup>1\<^sup>6 + x\<^sup>1\<^sup>2 + x\<^sup>5 + 1\<close> that the package's comment names.
\<close>

section \<open>The model\<close>

type_synonym uint16 = "16 word"

datatype crc_error = ErrInvalidChecksum

definition crc16tab :: "uint16 list" where
  "crc16tab =
    [0x0000, 0x1021, 0x2042, 0x3063, 0x4084, 0x50a5, 0x60c6, 0x70e7,
     0x8108, 0x9129, 0xa14a, 0xb16b, 0xc18c, 0xd1ad, 0xe1ce, 0xf1ef,
     0x1231, 0x0210, 0x3273, 0x2252, 0x52b5, 0x4294, 0x72f7, 0x62d6,
     0x9339, 0x8318, 0xb37b, 0xa35a, 0xd3bd, 0xc39c, 0xf3ff, 0xe3de,
     0x2462, 0x3443, 0x0420, 0x1401, 0x64e6, 0x74c7, 0x44a4, 0x5485,
     0xa56a, 0xb54b, 0x8528, 0x9509, 0xe5ee, 0xf5cf, 0xc5ac, 0xd58d,
     0x3653, 0x2672, 0x1611, 0x0630, 0x76d7, 0x66f6, 0x5695, 0x46b4,
     0xb75b, 0xa77a, 0x9719, 0x8738, 0xf7df, 0xe7fe, 0xd79d, 0xc7bc,
     0x48c4, 0x58e5, 0x6886, 0x78a7, 0x0840, 0x1861, 0x2802, 0x3823,
     0xc9cc, 0xd9ed, 0xe98e, 0xf9af, 0x8948, 0x9969, 0xa90a, 0xb92b,
     0x5af5, 0x4ad4, 0x7ab7, 0x6a96, 0x1a71, 0x0a50, 0x3a33, 0x2a12,
     0xdbfd, 0xcbdc, 0xfbbf, 0xeb9e, 0x9b79, 0x8b58, 0xbb3b, 0xab1a,
     0x6ca6, 0x7c87, 0x4ce4, 0x5cc5, 0x2c22, 0x3c03, 0x0c60, 0x1c41,
     0xedae, 0xfd8f, 0xcdec, 0xddcd, 0xad2a, 0xbd0b, 0x8d68, 0x9d49,
     0x7e97, 0x6eb6, 0x5ed5, 0x4ef4, 0x3e13, 0x2e32, 0x1e51, 0x0e70,
     0xff9f, 0xefbe, 0xdfdd, 0xcffc, 0xbf1b, 0xaf3a, 0x9f59, 0x8f78,
     0x9188, 0x81a9, 0xb1ca, 0xa1eb, 0xd10c, 0xc12d, 0xf14e, 0xe16f,
     0x1080, 0x00a1, 0x30c2, 0x20e3, 0x5004, 0x4025, 0x7046, 0x6067,
     0x83b9, 0x9398, 0xa3fb, 0xb3da, 0xc33d, 0xd31c, 0xe37f, 0xf35e,
     0x02b1, 0x1290, 0x22f3, 0x32d2, 0x4235, 0x5214, 0x6277, 0x7256,
     0xb5ea, 0xa5cb, 0x95a8, 0x8589, 0xf56e, 0xe54f, 0xd52c, 0xc50d,
     0x34e2, 0x24c3, 0x14a0, 0x0481, 0x7466, 0x6447, 0x5424, 0x4405,
     0xa7db, 0xb7fa, 0x8799, 0x97b8, 0xe75f, 0xf77e, 0xc71d, 0xd73c,
     0x26d3, 0x36f2, 0x0691, 0x16b0, 0x6657, 0x7676, 0x4615, 0x5634,
     0xd94c, 0xc96d, 0xf90e, 0xe92f, 0x99c8, 0x89e9, 0xb98a, 0xa9ab,
     0x5844, 0x4865, 0x7806, 0x6827, 0x18c0, 0x08e1, 0x3882, 0x28a3,
     0xcb7d, 0xdb5c, 0xeb3f, 0xfb1e, 0x8bf9, 0x9bd8, 0xabbb, 0xbb9a,
     0x4a75, 0x5a54, 0x6a37, 0x7a16, 0x0af1, 0x1ad0, 0x2ab3, 0x3a92,
     0xfd2e, 0xed0f, 0xdd6c, 0xcd4d, 0xbdaa, 0xad8b, 0x9de8, 0x8dc9,
     0x7c26, 0x6c07, 0x5c64, 0x4c45, 0x3ca2, 0x2c83, 0x1ce0, 0x0cc1,
     0xef1f, 0xff3e, 0xcf5d, 0xdf7c, 0xaf9b, 0xbfba, 0x8fd9, 0x9ff8,
     0x6e17, 0x7e36, 0x4e55, 0x5e74, 0x2e93, 0x3eb2, 0x0ed1, 0x1ef0]"

definition crc_update :: "uint16 \<Rightarrow> byte \<Rightarrow> uint16" where
  "crc_update crc b =
     (push_bit 8 crc AND 0xffff) XOR crc16tab ! unat ((drop_bit 8 crc XOR ucast b) AND 0x00FF)"

definition Checksum :: "byte list \<Rightarrow> uint16" where
  "Checksum data = foldl crc_update 0 data"

definition crc_Validate :: "byte list \<Rightarrow> uint16 \<Rightarrow> crc_error option" where
  "crc_Validate data expected =
     (let actual = Checksum data in if actual \<noteq> expected then Some ErrInvalidChecksum else None)"

section \<open>The reference: division by the polynomial, bit by bit\<close>

definition poly_shift :: "uint16 \<Rightarrow> uint16" where
  "poly_shift c = push_bit 1 c XOR (if bit c 15 then 0x1021 else 0)"

definition crc_bitwise :: "uint16 \<Rightarrow> byte \<Rightarrow> uint16" where
  "crc_bitwise crc b = (poly_shift ^^ 8) (crc XOR push_bit 8 (ucast b))"

definition Checksum_bitwise :: "byte list \<Rightarrow> uint16" where
  "Checksum_bitwise data = foldl crc_bitwise 0 data"


section \<open>The table\<close>

lemma funpow_eight: "(f ^^ 8) x = f (f (f (f (f (f (f (f x)))))))"
  by (simp add: eval_nat_numeral)

lemma poly_shift_xor: "poly_shift (a XOR b) = poly_shift a XOR poly_shift b"
  by (auto simp: poly_shift_def bit_xor_iff push_bit_xor xor.assoc xor.left_commute xor.commute)

lemma poly_shift_funpow_xor: "(poly_shift ^^ n) (a XOR b) = (poly_shift ^^ n) a XOR (poly_shift ^^ n) b"
  by (induction n) (simp_all add: poly_shift_xor)

text \<open>The table entry for \<open>v\<close>, and the table as repeated doubling of its first entry.\<close>

definition crc_entry :: "uint16 \<Rightarrow> uint16" where
  "crc_entry v = (poly_shift ^^ 8) (push_bit 8 v)"

lemma crc_entry_xor: "crc_entry (a XOR b) = crc_entry a XOR crc_entry b"
  by (simp add: crc_entry_def push_bit_xor poly_shift_funpow_xor)

fun crc_double :: "uint16 list \<Rightarrow> uint16 list" where
  "crc_double [] = [0]"
| "crc_double (t # ts) = (let r = crc_double ts in r @ map ((XOR) t) r)"

lemma length_crc_double: "length (crc_double ts) = 2 ^ length ts"
  by (induction ts) (simp_all add: Let_def)

lemma crc_entry_zero: "crc_entry 0 = 0"
  by (simp add: crc_entry_def funpow_eight poly_shift_def)

lemma power_plus_xor: "i < 2 ^ k \<Longrightarrow> (2 ^ k + i :: nat) = 2 ^ k XOR i"
proof -
  assume i: "i < 2 ^ k"
  have "2 ^ k AND i = 0"
  proof (rule bit_eqI)
    fix n
    have "\<not> bit i k" using i by (simp add: bit_iff_odd)
    then show "bit (2 ^ k AND i) n \<longleftrightarrow> bit (0::nat) n"
      by (auto simp: bit_and_iff bit_exp_iff)
  qed
  then show ?thesis by (rule disjunctive_add_eq_xor)
qed

lemma crc_double_nth:
  "i < 2 ^ k \<Longrightarrow> crc_double (map (\<lambda>j. crc_entry (2 ^ j)) (rev [0..<k])) ! i = crc_entry (of_nat i)"
proof (induction k arbitrary: i)
  case (Suc k)
  show ?case
  proof (cases "i < 2 ^ k")
    case True
    with Suc.IH [OF True] show ?thesis
      by (simp add: nth_append length_crc_double Let_def)
  next
    case False
    define m where "m = i - 2 ^ k"
    have m: "m < 2 ^ k" "i = 2 ^ k + m" using Suc.prems False by (auto simp: m_def)
    have "(of_nat i :: uint16) = 2 ^ k XOR of_nat m"
      unfolding m(2) power_plus_xor [OF m(1)] by (simp add: of_nat_xor_eq)
    with m Suc.IH [OF m(1)] show ?thesis
      by (simp add: nth_append length_crc_double Let_def crc_entry_xor)
  qed
qed (simp add: crc_entry_zero)

lemma crc16tab_double: "crc16tab = crc_double (map (\<lambda>j. crc_entry (2 ^ j)) (rev [0..<8]))"
proof -
  have "map (\<lambda>j. crc_entry (2 ^ j)) (rev [0..<8]) =
      [0x9188, 0x48c4, 0x2462, 0x1231, 0x8108, 0x4084, 0x2042, 0x1021]"
    by (simp add: upt_rec crc_entry_def funpow_eight poly_shift_def)
  then show ?thesis by (simp add: crc16tab_def)
qed

lemma crc16tab_nth: "i < 256 \<Longrightarrow> crc16tab ! i = crc_entry (of_nat i)"
  unfolding crc16tab_double by (rule crc_double_nth) simp

section \<open>The checksum\<close>

lemma poly_shift_low_byte: "n \<le> 8 \<Longrightarrow> (poly_shift ^^ n) (take_bit 8 c) = push_bit n (take_bit 8 c)"
proof (induction n)
  case (Suc n)
  have "\<not> 15 - n < 8" using Suc.prems by simp
  then have "\<not> bit (push_bit n (take_bit 8 c)) 15" by (simp add: bit_push_bit_iff bit_take_bit_iff)
  then have "poly_shift (push_bit n (take_bit 8 c)) = push_bit 1 (push_bit n (take_bit 8 c))"
    by (simp add: poly_shift_def)
  with Suc show ?case by (simp only: funpow.simps o_apply push_bit_push_bit) simp
qed simp

lemma crc_update_bitwise: "crc_update crc b = crc_bitwise crc b"
proof -
  define hi where "hi = drop_bit 8 crc XOR ucast b"
  define lo where "lo = take_bit 8 crc"
  have mask8: "0xFF = (mask 8 :: uint16)" by (simp add: mask_eq_exp_minus_1)
  have hi8: "hi AND 0xFF = hi"
    unfolding mask8
    by (rule bit_word_eqI) (auto simp: hi_def bit_simps dest: bit_imp_le_length)
  have "hi = take_bit 8 hi" using hi8 by (simp add: take_bit_eq_mask mask8)
  then have "unat hi = take_bit 8 (unat hi)" by (metis unsigned_take_bit_eq)
  then have lt: "unat hi < 256" using take_bit_nat_less_exp [of 8 "unat hi"] by simp
  have split: "crc XOR push_bit 8 (ucast b) = push_bit 8 hi XOR lo"
    by (rule bit_word_eqI) (auto simp: hi_def lo_def bit_simps)
  have lo8: "(poly_shift ^^ 8) lo = push_bit 8 crc"
    unfolding lo_def poly_shift_low_byte [OF order_refl]
    by (rule bit_word_eqI) (auto simp: bit_simps)
  have "crc_bitwise crc b = push_bit 8 crc XOR crc_entry hi"
    by (simp add: crc_bitwise_def split poly_shift_funpow_xor lo8 crc_entry_def xor.commute)
  moreover have "push_bit 8 crc AND 0xffff = push_bit 8 crc"
  proof -
    have "0xffff = (mask 16 :: uint16)" by (simp add: mask_eq_exp_minus_1)
    moreover have "take_bit 16 (push_bit 8 crc) = push_bit 8 crc"
      by (rule bit_word_eqI) (simp add: bit_take_bit_iff)
    ultimately show ?thesis by (simp only: take_bit_eq_mask)
  qed
  ultimately show ?thesis
    using lt by (simp add: crc_update_def hi_def [symmetric] hi8 crc16tab_nth)
qed

text \<open>
  C28. The table-driven checksum is the CRC-16/XMODEM of the package's comment: on every input it
  equals the bit-serial remainder of the division by the polynomial 0x1021, and on the check
  string of the standard it is 0x31C3.
\<close>

theorem Checksum_reference:
  "Checksum data = Checksum_bitwise data \<and> Checksum [0x31, 0x32, 0x33, 0x34, 0x35, 0x36, 0x37, 0x38, 0x39] = 0x31C3"
proof -
  have "Checksum = Checksum_bitwise"
    by (simp add: fun_eq_iff Checksum_def Checksum_bitwise_def crc_update_bitwise [abs_def])
  moreover have "Checksum [0x31, 0x32, 0x33, 0x34, 0x35, 0x36, 0x37, 0x38, 0x39] = 0x31C3"
    by (simp add: Checksum_def crc_update_def crc16tab_def)
  ultimately show ?thesis by simp
qed

lemma xor_cancel: "c XOR a = c XOR b \<longleftrightarrow> a = (b :: 'a::len word)"
proof
  assume "c XOR a = c XOR b"
  then have "c XOR (c XOR a) = c XOR (c XOR b)" by simp
  then show "a = b" by (simp flip: xor.assoc)
qed simp

text \<open>The step of the register is injective, both in the register and in the byte.\<close>

lemma poly_shift_inject: "poly_shift a = poly_shift b \<longleftrightarrow> a = b"
proof
  assume "poly_shift a = poly_shift b"
  then have z: "poly_shift (a XOR b) = 0" by (simp add: poly_shift_xor)
  have "\<not> bit (a XOR b) 15"
  proof
    assume "bit (a XOR b) 15"
    with z have "push_bit 1 (a XOR b) XOR 0x1021 = 0" by (simp add: poly_shift_def)
    then have "\<not> bit (push_bit 1 (a XOR b) XOR 0x1021) 0" by (simp only: bit_0_eq bot_fun_def) simp
    then show False by (simp only: bit_xor_iff bit_push_bit_iff) simp
  qed
  with z have p: "push_bit 1 (a XOR b) = 0" by (simp add: poly_shift_def)
  have "a XOR b = 0"
  proof (rule bit_word_eqI)
    fix n assume "n < LENGTH(16)"
    then show "bit (a XOR b) n \<longleftrightarrow> bit (0::uint16) n"
      using p \<open>\<not> bit (a XOR b) 15\<close> bit_push_bit_iff [of 1 "a XOR b" "Suc n"]
      by (cases "n = 15") auto
  qed
  then show "a = b" using xor_cancel [of b a b] by (simp add: xor.commute)
qed simp

lemma poly_shift_funpow_inject: "(poly_shift ^^ n) a = (poly_shift ^^ n) b \<longleftrightarrow> a = b"
  by (induction n) (simp_all add: poly_shift_inject)

lemma crc_update_inject: "crc_update c b = crc_update c' b' \<longleftrightarrow> c XOR push_bit 8 (ucast b) = c' XOR push_bit 8 (ucast b')"
  by (simp add: crc_update_bitwise crc_bitwise_def poly_shift_funpow_inject)

lemma foldl_crc_update_inject: "foldl crc_update c xs = foldl crc_update c' xs \<longleftrightarrow> c = c'"
proof (induction xs arbitrary: c c')
  case (Cons x xs)
  have "crc_update c x = crc_update c' x \<longleftrightarrow> c = c'"
    unfolding crc_update_inject by (simp add: xor_cancel xor.commute [of _ "push_bit 8 (ucast x)"])
  with Cons.IH show ?case by simp
qed simp

lemma crc_update_two: "crc_update (crc_update c a) b = (poly_shift ^^ 16) (c XOR push_bit 8 (ucast a) XOR ucast b)"
proof -
  have low: "push_bit 8 (ucast b) = (poly_shift ^^ 8) (ucast b :: uint16)"
  proof -
    have "take_bit 8 (ucast b :: uint16) = ucast b"
      by (rule bit_word_eqI) (auto simp: bit_simps dest: bit_imp_le_length)
    then show ?thesis using poly_shift_low_byte [of 8 "ucast b"] by simp
  qed
  have "(poly_shift ^^ 16) x = (poly_shift ^^ 8) ((poly_shift ^^ 8) x)" for x
    by (simp add: funpow_add [symmetric, THEN fun_cong, simplified])
  then show ?thesis
    by (simp only: crc_update_bitwise crc_bitwise_def low poly_shift_funpow_xor xor.assoc)
qed

text \<open>
  The checksum detects every corruption confined to two adjacent bytes (any burst of at most
  sixteen bits aligned to bytes, so every single wrong byte too): replacing the bytes changes the
  checksum, and validation against the original checksum fails.
\<close>

theorem Checksum_detects_burst:
  assumes "(a, b) \<noteq> (a', b')"
  shows "Checksum (xs @ a # b # ys) \<noteq> Checksum (xs @ a' # b' # ys) \<and>
    crc_Validate (xs @ a' # b' # ys) (Checksum (xs @ a # b # ys)) = Some ErrInvalidChecksum \<and>
    crc_Validate (xs @ a # b # ys) (Checksum (xs @ a # b # ys)) = None"
proof -
  let ?c = "foldl crc_update 0 xs"
  have "push_bit 8 (ucast a) XOR ucast b \<noteq> (push_bit 8 (ucast a') XOR ucast b' :: uint16)"
  proof
    assume eq: "push_bit 8 (ucast a) XOR ucast b = (push_bit 8 (ucast a') XOR ucast b' :: uint16)"
    have "bit a n = bit a' n \<and> bit b n = bit b' n" if "n < 8" for n
      using arg_cong [OF eq, of "\<lambda>w. bit w (n + 8)"] arg_cong [OF eq, of "\<lambda>w. bit w n"] that
      by (auto simp: bit_simps dest: bit_imp_le_length)
    then have "a = a'" "b = b'" by (auto intro!: bit_word_eqI)
    with assms show False by simp
  qed
  then have "crc_update (crc_update ?c a) b \<noteq> crc_update (crc_update ?c a') b'"
    unfolding crc_update_two poly_shift_funpow_inject xor.assoc xor_cancel .
  then show ?thesis
    by (simp add: Checksum_def crc_Validate_def foldl_crc_update_inject)
qed

theorem Checksum_detects_burst_witness:
  "Checksum ([0x30] @ 1 # 2 # []) \<noteq> Checksum ([0x30] @ 1 # 3 # [])"
  using Checksum_detects_burst [of 1 2 1 3 "[0x30]" "[]"] by simp

end
