(* ===== verification/Strkey.thy ===== *)
theory Strkey
  imports Crc16
begin

text \<open>
  Package \<^verbatim>\<open>strkey\<close> (\<^verbatim>\<open>src/strkey/main.go\<close>, \<^verbatim>\<open>muxed_account.go\<close>, \<^verbatim>\<open>signed_payload.go\<close>): a strkey is
  a version byte, a payload and the little-endian CRC of both, written in base32 without padding.

  Base32 is Go's \<^verbatim>\<open>encoding/base32\<close> with the standard alphabet and no padding. Its decoder first
  drops the bytes CR and LF, then reads quanta of eight characters; a last quantum of 2, 4, 5 or 7
  characters gives 1, 2, 3 or 4 bytes, and one of 1, 3 or 6 characters gives none. (With
  \<^verbatim>\<open>NoPadding\<close> the padding character is -1, whose byte is 0xFF; the model refuses 0xFF like every
  other byte outside the alphabet, and the theorems about accepted strings exclude it.)

  The XDR library (\<^verbatim>\<open>go-xdr\<close>) that the multiplexed accounts and signed payloads call is a
  parameter of their operations. A Go panic is an \<open>Inl\<close> with the constructor \<open>Panic\<close>.
\<close>

section \<open>The model\<close>

datatype strkey_error =
    ErrInvalidVersionByte
  | TooFewBytes nat
  | LeftoverCharacter
  | LeftoverBits
  | CorruptInput nat
  | DecodedTooShort
  | PayloadTooLarge
  | BadChecksum
  | InvalidKey
  | InvalidBinaryLength nat
  | NoEd25519Key
  | XdrFailure
  | InvalidMuxedAccount
  | InvalidSignedPayload
  | InvalidSignedPayloadPadding
  | SignedPayloadTooLong nat
  | Panic string

subsection \<open>Strings, bits and base32\<close>

definition str_bytes :: "string \<Rightarrow> byte list" where
  "str_bytes s = map (\<lambda>c. word_of_nat (of_char c)) s"

definition bytes_str :: "byte list \<Rightarrow> string" where
  "bytes_str bs = map (\<lambda>b. char_of (unat b)) bs"

text \<open>The \<open>n\<close> low bits of a byte, the most significant first, and back.\<close>

definition low_bits :: "nat \<Rightarrow> byte \<Rightarrow> bool list" where
  "low_bits n b = rev (map (bit b) [0..<n])"

definition of_bits :: "bool list \<Rightarrow> byte" where
  "of_bits bs = horner_sum of_bool 2 (rev bs)"

definition alphabet :: "byte list" where
  "alphabet = str_bytes ''ABCDEFGHIJKLMNOPQRSTUVWXYZ234567''"

definition initDecodingTable :: "byte list" where
  "initDecodingTable =
     foldl (\<lambda>tab (i, ch). tab[unat ch := word_of_nat i]) (replicate 256 0xff) (enumerate 0 alphabet)"

definition decodingTable :: "byte list" where
  "decodingTable = initDecodingTable"

text \<open>The characters of a bit string: five bits each, the last one filled up with zeros.\<close>

function base32_chars :: "bool list \<Rightarrow> byte list" where
  "base32_chars bs =
     (if bs = [] then []
      else alphabet ! unat (of_bits (take 5 (bs @ replicate 4 False))) # base32_chars (drop 5 bs))"
  by pat_completeness auto
termination
  by (relation "measure length") auto

declare base32_chars.simps [simp del]

definition base32_Encode :: "byte list \<Rightarrow> byte list" where
  "base32_Encode raw = base32_chars (concat (map (low_bits 8) raw))"

definition EncodedLen :: "nat \<Rightarrow> nat" where
  "EncodedLen n = (n * 8 + 4) div 5"

text \<open>The bytes of a bit string; fewer than eight left over bits are dropped.\<close>

function bits_to_bytes :: "bool list \<Rightarrow> byte list" where
  "bits_to_bytes bs =
     (if length bs < 8 then [] else of_bits (take 8 bs) # bits_to_bytes (drop 8 bs))"
  by pat_completeness auto
termination
  by (relation "measure length") auto

declare bits_to_bytes.simps [simp del]

definition decode_quantum :: "byte list \<Rightarrow> byte list" where
  "decode_quantum q =
     (if length q \<in> {1, 3, 6} then [] else bits_to_bytes (concat (map (low_bits 5) q)))"

function decode_quanta :: "byte list \<Rightarrow> byte list" where
  "decode_quanta vs =
     (if vs = [] then [] else decode_quantum (take 8 vs) @ decode_quanta (drop 8 vs))"
  by pat_completeness auto
termination
  by (relation "measure length") auto

declare decode_quanta.simps [simp del]

text \<open>The position of the first character outside the alphabet.\<close>

fun first_corrupt :: "nat \<Rightarrow> byte list \<Rightarrow> nat option" where
  "first_corrupt i [] = None"
| "first_corrupt i (c # cs) = (if decodingTable ! unat c = 0xff then Some i else first_corrupt (Suc i) cs)"

definition stripNewlines :: "byte list \<Rightarrow> byte list" where
  "stripNewlines src = filter (\<lambda>c. c \<noteq> 13 \<and> c \<noteq> 10) src"

definition base32_Decode :: "byte list \<Rightarrow> strkey_error + byte list" where
  "base32_Decode src0 =
     (let src = stripNewlines src0 in
      case first_corrupt 0 src of
        Some i \<Rightarrow> Inl (CorruptInput i)
      | None \<Rightarrow> Inr (decode_quanta (map (\<lambda>c. decodingTable ! unat c) src)))"

subsection \<open>main.go\<close>

type_synonym VersionByte = byte

definition VersionByteAccountID :: VersionByte where "VersionByteAccountID = push_bit 3 6"
definition VersionByteSeed :: VersionByte where "VersionByteSeed = push_bit 3 18"
definition VersionByteMuxedAccount :: VersionByte where "VersionByteMuxedAccount = push_bit 3 12"
definition VersionByteHashTx :: VersionByte where "VersionByteHashTx = push_bit 3 19"
definition VersionByteHashX :: VersionByte where "VersionByteHashX = push_bit 3 23"
definition VersionByteSignedPayload :: VersionByte where "VersionByteSignedPayload = push_bit 3 15"
definition VersionByteContract :: VersionByte where "VersionByteContract = push_bit 3 2"

definition maxPayloadSize :: nat where "maxPayloadSize = 100"

definition checkValidVersionByte :: "VersionByte \<Rightarrow> strkey_error option" where
  "checkValidVersionByte version =
     (if version \<in> {VersionByteAccountID, VersionByteMuxedAccount, VersionByteSeed, VersionByteHashTx,
          VersionByteHashX, VersionByteSignedPayload, VersionByteContract}
      then None else Some ErrInvalidVersionByte)"

definition decodeString :: "string \<Rightarrow> strkey_error + byte list" where
  "decodeString src =
     (let srcBytes = str_bytes src; leftoverBits = (length srcBytes * 5) mod 8;
          decodedLastChar = decodingTable ! unat (last srcBytes);
          leftoverBitsMask = drop_bit (4 - leftoverBits) 0x0f
      in if length srcBytes < 5 then Inl (TooFewBytes (length srcBytes))
         else if leftoverBits \<ge> 5 then Inl LeftoverCharacter
         else if leftoverBits > 0 \<and> decodedLastChar = 0xff then Inl (CorruptInput (length srcBytes))
         else if leftoverBits > 0 \<and> decodedLastChar AND leftoverBitsMask \<noteq> 0 then Inl LeftoverBits
         else base32_Decode srcBytes)"

definition binary_LittleEndian_Uint16 :: "byte list \<Rightarrow> uint16" where
  "binary_LittleEndian_Uint16 b = ucast (b ! 0) OR push_bit 8 (ucast (b ! 1))"

definition binary_LittleEndian_PutUint16 :: "uint16 \<Rightarrow> byte list" where
  "binary_LittleEndian_PutUint16 v = [ucast v, ucast (drop_bit 8 v)]"

definition DecodeAny :: "string \<Rightarrow> strkey_error + VersionByte \<times> byte list" where
  "DecodeAny src =
     (case decodeString src of
        Inl err \<Rightarrow> Inl err
      | Inr raw \<Rightarrow>
          if length raw < 3 then Inl (Panic ''slice bounds out of range'')
          else
            (let version = raw ! 0; vp = take (length raw - 2) raw;
                 payload = drop 1 (take (length raw - 2) raw); checksum = drop (length raw - 2) raw
             in case checkValidVersionByte version of
                  Some err \<Rightarrow> Inl err
                | None \<Rightarrow>
                    (case crc_Validate vp (binary_LittleEndian_Uint16 checksum) of
                       Some _ \<Rightarrow> Inl BadChecksum
                     | None \<Rightarrow> Inr (version, payload))))"

definition Decode :: "VersionByte \<Rightarrow> string \<Rightarrow> strkey_error + byte list" where
  "Decode expected src =
     (case checkValidVersionByte expected of
        Some err \<Rightarrow> Inl err
      | None \<Rightarrow>
          (case decodeString src of
             Inl err \<Rightarrow> Inl err
           | Inr raw \<Rightarrow>
               if length raw < 3 then Inl DecodedTooShort
               else
                 (let version = raw ! 0; vp = take (length raw - 2) raw;
                      payload = drop 1 (take (length raw - 2) raw); checksum = drop (length raw - 2) raw
                  in if version \<noteq> expected then Inl ErrInvalidVersionByte
                     else case crc_Validate vp (binary_LittleEndian_Uint16 checksum) of
                         Some _ \<Rightarrow> Inl BadChecksum
                       | None \<Rightarrow> Inr payload)))"

definition Encode :: "VersionByte \<Rightarrow> byte list \<Rightarrow> strkey_error + string" where
  "Encode version src =
     (case checkValidVersionByte version of
        Some err \<Rightarrow> Inl err
      | None \<Rightarrow>
          if length src > maxPayloadSize then Inl PayloadTooLarge
          else
            (let crc = Checksum (version # src);
                 raw = version # src @ binary_LittleEndian_PutUint16 crc
             in Inr (bytes_str (base32_Encode raw))))"

definition MustDecode :: "VersionByte \<Rightarrow> string \<Rightarrow> strkey_error + byte list" where
  "MustDecode expected src =
     (case Decode expected src of Inl err \<Rightarrow> Inl (Panic ''MustDecode'') | Inr d \<Rightarrow> Inr d)"

definition MustEncode :: "VersionByte \<Rightarrow> byte list \<Rightarrow> strkey_error + string" where
  "MustEncode version src =
     (case Encode version src of Inl err \<Rightarrow> Inl (Panic ''MustEncode'') | Inr e \<Rightarrow> Inr e)"

definition Version :: "string \<Rightarrow> strkey_error + VersionByte" where
  "Version src =
     (case decodeString src of
        Inl err \<Rightarrow> Inl err
      | Inr raw \<Rightarrow> if raw = [] then Inl (Panic ''index out of range'') else Inr (raw ! 0))"

text \<open>The Go functions take an \<^verbatim>\<open>interface{}\<close>: \<open>None\<close> is a value that is not a string.\<close>

definition IsValidEd25519PublicKey :: "string option \<Rightarrow> bool" where
  "IsValidEd25519PublicKey i =
     (case i of None \<Rightarrow> False | Some enc \<Rightarrow> \<not> isl (Decode VersionByteAccountID enc))"

definition IsValidMuxedAccountEd25519PublicKey :: "string \<Rightarrow> bool" where
  "IsValidMuxedAccountEd25519PublicKey s = (\<not> isl (Decode VersionByteMuxedAccount s))"

definition IsValidEd25519SecretSeed :: "string option \<Rightarrow> bool" where
  "IsValidEd25519SecretSeed i =
     (case i of None \<Rightarrow> False | Some enc \<Rightarrow> \<not> isl (Decode VersionByteSeed enc))"

subsection \<open>muxed\_account.go\<close>

record strkey_MuxedAccount =
  mux_id :: "64 word"
  mux_ed25519 :: "byte list"

definition SetID :: "64 word \<Rightarrow> strkey_MuxedAccount \<Rightarrow> strkey_MuxedAccount" where
  "SetID i m = m\<lparr>mux_id := i\<rparr>"

definition SetAccountID :: "string \<Rightarrow> strkey_MuxedAccount \<Rightarrow> strkey_error + strkey_MuxedAccount" where
  "SetAccountID address m =
     (case Decode VersionByteAccountID address of
        Inl _ \<Rightarrow> Inl InvalidKey
      | Inr raw \<Rightarrow>
          if length raw \<noteq> 32 then Inl (InvalidBinaryLength (length raw))
          else Inr (m\<lparr>mux_ed25519 := raw\<rparr>))"

definition mux_AccountID :: "strkey_MuxedAccount \<Rightarrow> strkey_error + string" where
  "mux_AccountID m = Encode VersionByteAccountID (mux_ed25519 m)"

definition mux_Address ::
    "(64 word \<Rightarrow> byte list option) \<Rightarrow> strkey_MuxedAccount \<Rightarrow> strkey_error + string" where
  "mux_Address marshal m =
     (if mux_ed25519 m = replicate 32 0 then Inl NoEd25519Key
      else case marshal (mux_id m) of
          None \<Rightarrow> Inl XdrFailure
        | Some b \<Rightarrow> Encode VersionByteMuxedAccount (mux_ed25519 m @ b))"

definition DecodeMuxedAccount ::
    "(byte list \<Rightarrow> (64 word) option) \<Rightarrow> string \<Rightarrow> strkey_error + strkey_MuxedAccount" where
  "DecodeMuxedAccount unmarshal address =
     (case Decode VersionByteMuxedAccount address of
        Inl _ \<Rightarrow> Inl InvalidMuxedAccount
      | Inr raw \<Rightarrow>
          if length raw \<noteq> 40 then Inl (InvalidBinaryLength (length raw))
          else case unmarshal (drop 32 raw) of
              None \<Rightarrow> Inl XdrFailure
            | Some i \<Rightarrow> Inr \<lparr>mux_id = i, mux_ed25519 = take 32 raw\<rparr>)"

subsection \<open>signed\_payload.go\<close>

record SignedPayload =
  sp_signer :: string
  sp_payload :: "byte list"

definition maxPayloadLen :: nat where "maxPayloadLen = 64"

definition NewSignedPayload :: "string \<Rightarrow> byte list \<Rightarrow> strkey_error + SignedPayload" where
  "NewSignedPayload signerPublicKey payload =
     (if length payload > maxPayloadLen then Inl (SignedPayloadTooLong (length payload))
      else Inr \<lparr>sp_signer = signerPublicKey, sp_payload = payload\<rparr>)"

definition sp_Encode :: "(byte list \<Rightarrow> byte list) \<Rightarrow> SignedPayload \<Rightarrow> strkey_error + string" where
  "sp_Encode marshal sp =
     (case Decode VersionByteAccountID (sp_signer sp) of
        Inl err \<Rightarrow> Inl err
      | Inr signerBytes \<Rightarrow> Encode VersionByteSignedPayload (signerBytes @ marshal (sp_payload sp)))"

text \<open>
  \<open>unmarshal\<close> returns the opaque value, the number of bytes it reports as read, and the number of
  bytes it leaves in the reader. \<^verbatim>\<open>raw[signerLen:]\<close> panics when \<^verbatim>\<open>raw\<close> is shorter.
\<close>

definition DecodeSignedPayload ::
    "(byte list \<Rightarrow> (byte list \<times> nat \<times> nat) option) \<Rightarrow> string \<Rightarrow> strkey_error + SignedPayload" where
  "DecodeSignedPayload unmarshal address =
     (case Decode VersionByteSignedPayload address of
        Inl _ \<Rightarrow> Inl InvalidSignedPayload
      | Inr raw0 \<Rightarrow>
          if length raw0 < 32 then Inl (Panic ''slice bounds out of range'')
          else
            (let rawSigner = take 32 raw0; raw = drop 32 raw0 in
             case Encode VersionByteAccountID rawSigner of
               Inl err \<Rightarrow> Inl err
             | Inr signer \<Rightarrow>
                 (case unmarshal raw of
                    None \<Rightarrow> Inl InvalidSignedPayload
                  | Some (payload, readBytes, rest) \<Rightarrow>
                      if length raw \<noteq> readBytes \<or> rest > 0 then Inl InvalidSignedPayloadPadding
                      else NewSignedPayload signer payload)))"

section \<open>Base32\<close>

lemma of_bits_low_bits: "of_bits (low_bits n b) = take_bit n b"
  by (simp add: of_bits_def low_bits_def horner_sum_bit_eq_take_bit)

lemma low_bits_of_bits: "length bs = n \<Longrightarrow> n \<le> 8 \<Longrightarrow> low_bits n (of_bits bs) = bs"
  by (rule nth_equalityI) (auto simp: low_bits_def of_bits_def bit_horner_sum_bit_iff rev_nth)

lemma length_low_bits [simp]: "length (low_bits n b) = n"
  by (simp add: low_bits_def)

lemma of_bits_less: "length bs = n \<Longrightarrow> n \<le> 8 \<Longrightarrow> take_bit n (of_bits bs) = of_bits bs"
  by (metis of_bits_low_bits low_bits_of_bits)

lemma unat_of_bits_less: "length bs = 5 \<Longrightarrow> unat (of_bits bs) < 32"
proof -
  assume "length bs = 5"
  then have "take_bit 5 (of_bits bs) = of_bits bs" by (intro of_bits_less) simp_all
  then have "unat (of_bits bs) = take_bit 5 (unat (of_bits bs))" by (metis unsigned_take_bit_eq)
  then show ?thesis using take_bit_nat_less_exp [of 5 "unat (of_bits bs)"] by simp
qed

lemma alphabet_eval: "alphabet = [65, 66, 67, 68, 69, 70, 71, 72, 73, 74, 75, 76, 77, 78, 79, 80, 81,
    82, 83, 84, 85, 86, 87, 88, 89, 90, 50, 51, 52, 53, 54, 55]"
  by (simp add: alphabet_def str_bytes_def)

lemma alphabet_facts: "distinct alphabet" "length alphabet = 32" "10 \<notin> set alphabet" "13 \<notin> set alphabet" "0xff \<notin> set alphabet"
  by (simp_all add: alphabet_eval)

text \<open>The decoding table inverts the alphabet and maps every other byte to 0xff.\<close>

lemma unat_byte_less: "unat (b :: byte) < 256"
  using unsigned_less [of b, where 'a = nat] by simp

lemma fold_table:
  fixes xs :: "byte list"
  defines "t \<equiv> foldl (\<lambda>tab (i, ch). tab[unat ch := word_of_nat i]) (replicate 256 (0xff :: byte)) (enumerate 0 xs)"
  assumes "distinct xs"
  shows "length t = 256" "i < length xs \<Longrightarrow> t ! unat (xs ! i) = word_of_nat i" "c \<notin> set xs \<Longrightarrow> t ! unat c = 0xff"
  using assms(2) unfolding t_def
proof (induction xs arbitrary: i c rule: rev_induct)
  case Nil
  { case 1 show ?case by simp next case 2 then show ?case by simp
  next case 3 show ?case using unat_byte_less [of c] by (simp add: nth_replicate) }
next
  case (snoc x xs)
  { case 1 then show ?case using snoc.IH(1) by (simp add: enumerate_append_eq)
  next
    case 2
    show ?case
    proof (cases "i = length xs")
      case True
      then show ?thesis using snoc.IH(1) 2 unat_byte_less by (simp add: enumerate_append_eq nth_append)
    next
      case False
      with 2 have "i < length xs" "xs ! i \<noteq> x" by (auto simp: in_set_conv_nth)
      then show ?thesis using snoc.IH(2) [of i] 2 by (simp add: enumerate_append_eq nth_append flip: word_unat_eq_iff)
    qed
  next
    case 3 then show ?case using snoc.IH(3) [of c] by (auto simp: enumerate_append_eq nth_list_update_neq simp flip: word_unat_eq_iff)
  }
qed

lemmas decodingTable_fold = fold_table [OF alphabet_facts(1), folded initDecodingTable_def, folded decodingTable_def]

lemma decodingTable_alphabet: "i < 32 \<Longrightarrow> decodingTable ! unat (alphabet ! i) = word_of_nat i"
  using decodingTable_fold(2) by (simp add: alphabet_facts)

lemma decodingTable_ff: "decodingTable ! unat c = 0xff \<longleftrightarrow> c \<notin> set alphabet"
proof
  show "decodingTable ! unat c = 0xff" if "c \<notin> set alphabet"
    using that by (rule decodingTable_fold(3))
  show "c \<notin> set alphabet" if "decodingTable ! unat c = 0xff"
  proof
    assume "c \<in> set alphabet"
    then obtain i where i: "i < 32" "c = alphabet ! i" by (auto simp: in_set_conv_nth alphabet_facts)
    then have "word_of_nat i = (0xff :: byte)" using that decodingTable_alphabet by simp
    then have "unat (word_of_nat i :: byte) = unat (0xff :: byte)" by (rule arg_cong)
    then show False using i(1) by (simp add: unat_of_nat)
  qed
qed

lemma decodingTable_inverse:
  assumes "c \<in> set alphabet"
  shows "unat (decodingTable ! unat c) < 32" "alphabet ! unat (decodingTable ! unat c) = c"
    "take_bit 5 (decodingTable ! unat c) = decodingTable ! unat c"
proof -
  obtain i where i: "i < 32" "c = alphabet ! i" using assms by (auto simp: in_set_conv_nth alphabet_facts)
  then have d: "decodingTable ! unat c = word_of_nat i" by (simp add: decodingTable_alphabet)
  have u: "unat (word_of_nat i :: byte) = i" using i by (simp add: unat_of_nat)
  show "unat (decodingTable ! unat c) < 32" "alphabet ! unat (decodingTable ! unat c) = c"
    using i u d by simp_all
  have "take_bit 5 i = i" using i by (simp add: take_bit_nat_eq_self_iff)
  then show "take_bit 5 (decodingTable ! unat c) = decodingTable ! unat c"
    unfolding d by (metis of_nat_take_bit)
qed

text \<open>The bits a list of characters of the alphabet stands for.\<close>

definition char_bits :: "byte list \<Rightarrow> bool list" where
  "char_bits cs = concat (map (\<lambda>c. low_bits 5 (decodingTable ! unat c)) cs)"

definition byte_bits :: "byte list \<Rightarrow> bool list" where
  "byte_bits bs = concat (map (low_bits 8) bs)"

lemma char_bits_simps [simp]: "char_bits [] = []"
    "char_bits (c # cs) = low_bits 5 (decodingTable ! unat c) @ char_bits cs"
    "char_bits (cs @ ds) = char_bits cs @ char_bits ds"
  by (simp_all add: char_bits_def)

lemma byte_bits_simps [simp]: "byte_bits [] = []" "byte_bits (b # bs) = low_bits 8 b @ byte_bits bs"
  by (simp_all add: byte_bits_def)

lemma length_char_bits [simp]: "length (char_bits cs) = 5 * length cs"
  by (induction cs) simp_all

lemma length_byte_bits [simp]: "length (byte_bits bs) = 8 * length bs"
  by (induction bs) simp_all

lemma char_bits_inject:
  "set cs \<subseteq> set alphabet \<Longrightarrow> set ds \<subseteq> set alphabet \<Longrightarrow> char_bits cs = char_bits ds \<Longrightarrow> cs = ds"
proof (induction cs arbitrary: ds)
  case Nil
  from arg_cong [OF Nil.prems(3), of length] show ?case by simp
next
  case (Cons c cs)
  from arg_cong [OF Cons.prems(3), of length] have "length ds = Suc (length cs)" by simp
  then obtain d ds' where ds: "ds = d # ds'" by (cases ds) auto
  let ?v = "decodingTable ! unat c" and ?w = "decodingTable ! unat d"
  have "low_bits 5 ?v @ char_bits cs = low_bits 5 ?w @ char_bits ds'"
    using Cons.prems(3) unfolding ds by (simp only: char_bits_simps)
  then have eq: "low_bits 5 ?v = low_bits 5 ?w" "char_bits cs = char_bits ds'"
    by (simp_all only: append_eq_append_conv length_low_bits simp_thms)
  have mem: "c \<in> set alphabet" "d \<in> set alphabet" using Cons.prems(1,2) ds by simp_all
  from eq(1) have "take_bit 5 ?v = take_bit 5 ?w" by (metis of_bits_low_bits)
  then have vw: "?v = ?w"
    unfolding decodingTable_inverse(3) [OF mem(1)] decodingTable_inverse(3) [OF mem(2)] .
  have "c = alphabet ! unat ?v" by (rule decodingTable_inverse(2) [OF mem(1), symmetric])
  also have "\<dots> = d" unfolding vw by (rule decodingTable_inverse(2) [OF mem(2)])
  finally have "c = d" .
  have "cs = ds'" using Cons.prems(1,2) ds by (intro Cons.IH [OF _ _ eq(2)]) simp_all
  with \<open>c = d\<close> show ?case using ds by simp
qed

lemma base32_chars_bits:
  "set (base32_chars bs) \<subseteq> set alphabet \<and>
   (\<exists>k < 5. char_bits (base32_chars bs) = bs @ replicate k False)"
proof (induction bs rule: base32_chars.induct)
  case (1 bs)
  show ?case
  proof (cases "bs = []")
    case True
    then show ?thesis by (simp add: base32_chars.simps)
  next
    case False
    define q where "q = take 5 (bs @ replicate 4 False)"
    have q: "length q = 5" using False by (cases bs) (auto simp: q_def)
    have unfold: "base32_chars bs = alphabet ! unat (of_bits q) # base32_chars (drop 5 bs)"
      using False by (simp add: base32_chars.simps [of bs] q_def)
    have "word_of_nat (unat (of_bits q)) = of_bits q" by simp
    then have bits: "low_bits 5 (decodingTable ! unat (alphabet ! unat (of_bits q))) = q"
      using decodingTable_alphabet [OF unat_of_bits_less [OF q]] low_bits_of_bits [OF q] by simp
    have mem: "alphabet ! unat (of_bits q) \<in> set alphabet"
      using unat_of_bits_less [OF q] by (simp add: alphabet_facts)
    from 1 [OF False] obtain k where k: "set (base32_chars (drop 5 bs)) \<subseteq> set alphabet" "k < 5"
      "char_bits (base32_chars (drop 5 bs)) = drop 5 bs @ replicate k False" by auto
    show ?thesis
    proof (cases "length bs < 5")
      case True
      have min: "min (5 - length bs) 4 = 5 - length bs" using False by (cases bs) auto
      have "char_bits (base32_chars bs) = bs @ replicate (5 - length bs) False" "5 - length bs < 5"
        using True False bits min by (auto simp: unfold q_def base32_chars.simps [of "[]"])
      with k mem unfold show ?thesis by (metis insert_subset list.simps(15))
    next
      case len: False
      then have "char_bits (base32_chars bs) = bs @ replicate k False"
        using bits k(3) by (simp add: unfold q_def)
      with k mem unfold show ?thesis by (metis insert_subset list.simps(15))
    qed
  qed
qed

lemma take_bit_byte: "take_bit 8 (b :: byte) = b"
  by (rule bit_word_eqI) (simp add: bit_take_bit_iff)

lemma bits_to_bytes_bits: "length rest < 8 \<Longrightarrow> bits_to_bytes (byte_bits raw @ rest) = raw"
proof (induction raw)
  case (Cons b raw)
  then show ?case
    by (simp add: bits_to_bytes.simps [of "low_bits 8 b @ byte_bits raw @ rest"] of_bits_low_bits
        take_bit_byte)
qed (simp add: bits_to_bytes.simps)

lemma bits_to_bytes_split: "\<exists>rest. V = byte_bits (bits_to_bytes V) @ rest \<and> length rest < 8"
proof (induction V rule: bits_to_bytes.induct)
  case (1 V)
  show ?case
  proof (cases "length V < 8")
    case False
    with 1 obtain rest where "drop 8 V = byte_bits (bits_to_bytes (drop 8 V)) @ rest" "length rest < 8" by auto
    moreover have "low_bits 8 (of_bits (take 8 V)) = take 8 V" using False by (intro low_bits_of_bits) simp_all
    ultimately have "V = byte_bits (bits_to_bytes V) @ rest"
      using False by (simp add: bits_to_bytes.simps [of V])
    with \<open>length rest < 8\<close> show ?thesis by blast
  qed (simp add: bits_to_bytes.simps [of V])
qed

lemma bits_to_bytes_append: "8 dvd length A \<Longrightarrow> bits_to_bytes (A @ B) = bits_to_bytes A @ bits_to_bytes B"
proof (induction A rule: bits_to_bytes.induct)
  case (1 A)
  show ?case
  proof (cases "length A < 8")
    case True
    with 1 have "A = []" by (auto elim: dvdE)
    then show ?thesis by (simp add: bits_to_bytes.simps [of "[]"])
  next
    case False
    then have "8 dvd length (drop 8 A)" using 1 by (simp add: dvd_diff_nat)
    with 1 False show ?thesis
      by (simp add: bits_to_bytes.simps [of A] bits_to_bytes.simps [of "A @ B"])
  qed
qed

lemma decode_quanta_bits:
  "length vs mod 8 \<notin> {1, 3, 6} \<Longrightarrow> decode_quanta vs = bits_to_bytes (concat (map (low_bits 5) vs))"
proof (induction vs rule: decode_quanta.induct)
  case (1 vs)
  have len: "length (concat (map (low_bits 5) us)) = 5 * length us" for us
    by (induction us) simp_all
  show ?case
  proof (cases "length vs \<le> 8")
    case True
    then have "length vs \<notin> {1, 3, 6}" using 1 by auto
    with True show ?thesis
      by (auto simp: decode_quanta.simps [of vs] decode_quanta.simps [of "[]"] decode_quantum_def bits_to_bytes.simps [of "[]"])
  next
    case False
    then have "length (drop 8 vs) mod 8 = length vs mod 8" "vs \<noteq> []" by (auto simp: le_mod_geq)
    then have IH: "decode_quanta (drop 8 vs) = bits_to_bytes (concat (map (low_bits 5) (drop 8 vs)))"
      using 1 False by auto
    have "concat (map (low_bits 5) vs) = concat (map (low_bits 5) (take 8 vs)) @ concat (map (low_bits 5) (drop 8 vs))"
      by (metis append_take_drop_id concat_append map_append)
    then show ?thesis
      using False IH len [of "take 8 vs"]
      by (auto simp: decode_quanta.simps [of vs] decode_quantum_def bits_to_bytes_append)
  qed
qed

lemma low_bits_zero: "low_bits k v = replicate k False \<longleftrightarrow> take_bit k v = 0"
proof
  assume "low_bits k v = replicate k False"
  then have "of_bits (low_bits k v) = of_bits (replicate k False)" by simp
  moreover have "of_bits (replicate k False) = 0"
    by (rule bit_word_eqI) (simp add: of_bits_def bit_horner_sum_bit_iff)
  ultimately show "take_bit k v = 0" by (simp add: of_bits_low_bits)
next
  assume z: "take_bit k v = 0"
  have "\<not> bit v n" if "n < k" for n
    using arg_cong [OF z, of "\<lambda>w. bit w n"] that by (simp add: bit_take_bit_iff)
  then show "low_bits k v = replicate k False"
    by (intro nth_equalityI) (simp_all add: low_bits_def rev_nth)
qed

lemma drop_low_bits: "k \<le> n \<Longrightarrow> drop (n - k) (low_bits n v) = low_bits k v"
  by (simp add: low_bits_def drop_rev take_map)

lemma last_char_bits:
  assumes "cs \<noteq> []" "k \<le> 5" "char_bits cs = B @ rest" "length rest = k"
  shows "rest = low_bits k (decodingTable ! unat (last cs))"
proof -
  let ?v = "decodingTable ! unat (last cs)"
  have "char_bits cs = char_bits (butlast cs) @ low_bits 5 ?v"
    using assms(1) by (metis append_Nil2 append_butlast_last_id char_bits_simps)
  then have "drop (length (char_bits cs) - k) (char_bits cs) = drop (5 - k) (low_bits 5 ?v)"
    using assms(1,2) by (cases cs rule: rev_cases) auto
  moreover have "drop (length (char_bits cs) - k) (char_bits cs) = rest"
    using assms(3,4) by (simp del: length_char_bits)
  ultimately show ?thesis using assms(2) by (simp add: drop_low_bits)
qed

lemma leftover_mask: "k \<le> 4 \<Longrightarrow> v AND drop_bit (4 - k) 0x0f = take_bit k (v :: byte)"
proof -
  assume "k \<le> 4"
  then have "k \<in> {0, 1, 2, 3, 4}" by auto
  then have "drop_bit (4 - k) 0x0f = (mask k :: byte)" by (auto simp: mask_eq_exp_minus_1)
  then show ?thesis by (simp add: take_bit_eq_mask)
qed

section \<open>Decoding strings\<close>

text \<open>Strings whose bytes the base32 decoder neither drops nor confuses with padding.\<close>

definition clean :: "byte list \<Rightarrow> bool" where
  "clean bs \<longleftrightarrow> list_all (\<lambda>c. c \<noteq> 10 \<and> c \<noteq> 13 \<and> c \<noteq> 0xff) bs"

lemma bytes_str_inverse [simp]: "str_bytes (bytes_str bs) = bs"
  by (induction bs) (simp_all add: str_bytes_def bytes_str_def unat_byte_less)

lemma str_bytes_inverse [simp]: "bytes_str (str_bytes s) = s"
proof (induction s)
  case (Cons c s)
  have "unat (word_of_nat (of_char c) :: byte) = of_char c"
    by (simp add: unat_of_nat take_bit_eq_mod of_char_mod_256)
  with Cons show ?case by (simp add: str_bytes_def bytes_str_def)
qed (simp add: str_bytes_def bytes_str_def)

lemma length_str_bytes [simp]: "length (str_bytes s) = length s"
  by (simp add: str_bytes_def)

lemma stripNewlines_clean: "clean cs \<Longrightarrow> stripNewlines cs = cs"
  by (induction cs) (auto simp: clean_def stripNewlines_def)

lemma clean_alphabet: "set cs \<subseteq> set alphabet \<Longrightarrow> clean cs"
  using alphabet_facts by (auto simp: clean_def list_all_iff)

lemma first_corrupt_None: "first_corrupt i cs = None \<longleftrightarrow> set cs \<subseteq> set alphabet"
  by (induction cs arbitrary: i) (auto simp: decodingTable_ff)

lemma base32_Decode_alphabet:
  assumes "set (stripNewlines cs) \<subseteq> set alphabet" "length (stripNewlines cs) * 5 mod 8 < 5"
  shows "base32_Decode cs = Inr (bits_to_bytes (char_bits (stripNewlines cs)))"
proof -
  have "length (stripNewlines cs) mod 8 \<notin> {1, 3, 6}" using assms(2) by (auto; presburger)
  then have "decode_quanta (map (\<lambda>c. decodingTable ! unat c) (stripNewlines cs)) = bits_to_bytes (char_bits (stripNewlines cs))"
    by (subst decode_quanta_bits) (simp_all add: char_bits_def o_def)
  moreover have "first_corrupt 0 (stripNewlines cs) = None" using assms(1) by (simp only: first_corrupt_None)
  ultimately show ?thesis by (simp add: base32_Decode_def Let_def)
qed

lemma base32_Decode_Inr: "base32_Decode cs = Inr raw \<Longrightarrow> set (stripNewlines cs) \<subseteq> set alphabet"
  using first_corrupt_None [of 0 "stripNewlines cs"]
  by (simp add: base32_Decode_def Let_def split: option.splits)

text \<open>Decoding inverts encoding, and only the encoding of a byte string decodes to it.\<close>

lemma decodeString_encode:
  assumes "3 \<le> length raw"
  shows "decodeString (bytes_str (base32_Encode raw)) = Inr raw"
proof -
  define cs where "cs = base32_Encode raw"
  obtain k where cs: "set cs \<subseteq> set alphabet" and k: "k < 5" "char_bits cs = byte_bits raw @ replicate k False"
    using base32_chars_bits [of "byte_bits raw"] by (auto simp: cs_def base32_Encode_def byte_bits_def)
  have len: "5 * length cs = 8 * length raw + k" using arg_cong [OF k(2), of length] by simp
  then have left: "length cs * 5 mod 8 = k" using k(1) by (simp add: mult.commute [of _ 5])
  have ne: "cs \<noteq> []" "\<not> length cs < 5" using len assms by auto
  have strip: "stripNewlines cs = cs" using cs by (simp add: stripNewlines_clean clean_alphabet)
  have last: "take_bit k (decodingTable ! unat (last cs)) = 0"
    using last_char_bits [OF ne(1) _ k(2)] k(1) by (intro low_bits_zero [THEN iffD1]) simp
  have "last cs \<in> set alphabet" using cs ne by auto
  then have "decodingTable ! unat (last cs) \<noteq> 0xff" by (simp add: decodingTable_ff)
  moreover have "base32_Decode cs = Inr raw"
    using base32_Decode_alphabet [of cs] cs k left by (simp add: strip bits_to_bytes_bits)
  ultimately show ?thesis
    using ne left last k(1) by (simp add: decodeString_def cs_def [symmetric] Let_def leftover_mask)
qed

lemma decodeString_canonical:
  assumes "decodeString s = Inr raw" "clean (str_bytes s)"
  shows "s = bytes_str (base32_Encode raw) \<and> 3 \<le> length raw"
proof -
  define cs k where "cs = str_bytes s" and "k = length cs * 5 mod 8"
  have k: "k < 5" and len: "5 \<le> length cs" and dec: "base32_Decode cs = Inr raw"
    and last: "0 < k \<Longrightarrow> decodingTable ! unat (last cs) AND drop_bit (4 - k) 0x0f = 0"
    using assms(1) unfolding decodeString_def cs_def [symmetric] Let_def k_def [symmetric]
    by (auto split: if_splits)
  have strip: "stripNewlines cs = cs" using assms(2) by (simp add: stripNewlines_clean cs_def)
  have cs: "set cs \<subseteq> set alphabet" using base32_Decode_Inr [OF dec] by (simp add: strip)
  then have raw: "raw = bits_to_bytes (char_bits cs)"
    using dec base32_Decode_alphabet [of cs] k by (simp add: strip k_def)
  then obtain rest where rest: "char_bits cs = byte_bits raw @ rest" "length rest < 8"
    using bits_to_bytes_split [of "char_bits cs"] by auto
  have lens: "5 * length cs = 8 * length raw + length rest" using arg_cong [OF rest(1), of length] by simp
  then have lrest: "length rest = k" using rest(2) by (simp add: k_def mult.commute [of _ 5])
  have zero: "rest = replicate k False"
  proof (cases "k = 0")
    case False
    have ne: "cs \<noteq> []" using len by auto
    have "take_bit k (decodingTable ! unat (last cs)) = 0"
      using last False k by (simp add: leftover_mask)
    then show ?thesis
      using last_char_bits [OF ne _ rest(1) lrest] k by (simp add: low_bits_zero)
  qed (use lrest in simp)
  obtain j where j: "set (base32_Encode raw) \<subseteq> set alphabet" "j < 5"
    "char_bits (base32_Encode raw) = byte_bits raw @ replicate j False"
    using base32_chars_bits [of "byte_bits raw"] by (auto simp: base32_Encode_def byte_bits_def)
  have "5 * length (base32_Encode raw) = 8 * length raw + j" using arg_cong [OF j(3), of length] by simp
  with lens lrest k j(2) have "j = k" by presburger
  then have "base32_Encode raw = cs"
    using j rest(1) zero cs by (intro char_bits_inject) simp_all
  then have "s = bytes_str (base32_Encode raw)" by (metis cs_def str_bytes_inverse)
  moreover have "3 \<le> length raw" using lens len lrest k by linarith
  ultimately show ?thesis by blast
qed

section \<open>Strkeys\<close>

lemma LittleEndian_roundtrip: "binary_LittleEndian_Uint16 (binary_LittleEndian_PutUint16 v) = v"
proof (rule bit_word_eqI)
  fix n assume "n < LENGTH(16)"
  then show "bit (binary_LittleEndian_Uint16 (binary_LittleEndian_PutUint16 v)) n \<longleftrightarrow> bit v n"
    by (auto simp: binary_LittleEndian_Uint16_def binary_LittleEndian_PutUint16_def bit_simps)
qed

lemma LittleEndian_inverse: "binary_LittleEndian_PutUint16 (binary_LittleEndian_Uint16 [a, b]) = [a, b]"
proof -
  have "ucast (binary_LittleEndian_Uint16 [a, b]) = a"
    by (rule bit_word_eqI) (auto simp: binary_LittleEndian_Uint16_def bit_simps)
  moreover have "ucast (drop_bit 8 (binary_LittleEndian_Uint16 [a, b])) = b"
    by (rule bit_word_eqI) (auto simp: binary_LittleEndian_Uint16_def bit_simps dest: bit_imp_le_length)
  ultimately show ?thesis by (simp add: binary_LittleEndian_PutUint16_def)
qed

definition strkey_raw :: "VersionByte \<Rightarrow> byte list \<Rightarrow> byte list" where
  "strkey_raw v p = v # p @ binary_LittleEndian_PutUint16 (Checksum (v # p))"

lemma length_strkey_raw [simp]: "length (strkey_raw v p) = length p + 3"
  by (simp add: strkey_raw_def binary_LittleEndian_PutUint16_def)

lemma strkey_raw_parts:
  "strkey_raw v p ! 0 = v" "take (length p + 1) (strkey_raw v p) = v # p"
  "drop (length p + 1) (strkey_raw v p) = binary_LittleEndian_PutUint16 (Checksum (v # p))"
  by (simp_all add: strkey_raw_def)

lemma Encode_iff:
  "Encode v p = Inr s \<longleftrightarrow>
     checkValidVersionByte v = None \<and> length p \<le> 100 \<and> s = bytes_str (base32_Encode (strkey_raw v p))"
  by (auto simp: Encode_def maxPayloadSize_def strkey_raw_def Let_def split: option.splits)

lemma raw_checksum_ok:
  assumes "3 \<le> length raw"
  shows "crc_Validate (take (length raw - 2) raw) (binary_LittleEndian_Uint16 (drop (length raw - 2) raw)) = None
    \<longleftrightarrow> raw = strkey_raw (raw ! 0) (drop 1 (take (length raw - 2) raw))"
proof -
  let ?vp = "take (length raw - 2) raw" and ?c = "drop (length raw - 2) raw"
  have "length ?c = 2" using assms by simp
  then obtain a b where c: "?c = [a, b]"
    by (cases ?c; cases "tl ?c") (auto simp del: length_drop)
  have "raw ! 0 # drop 1 ?vp = ?vp" using assms by (cases raw) (auto simp: take_Cons')
  then have raw: "strkey_raw (raw ! 0) (drop 1 ?vp) = ?vp @ binary_LittleEndian_PutUint16 (Checksum ?vp)"
    unfolding strkey_raw_def append_Cons [symmetric] by (simp only:)
  have split: "raw = ?vp @ [a, b]" using append_take_drop_id [of "length raw - 2" raw] unfolding c by simp
  have "Checksum ?vp = binary_LittleEndian_Uint16 [a, b] \<longleftrightarrow> [a, b] = binary_LittleEndian_PutUint16 (Checksum ?vp)"
    by (metis LittleEndian_inverse LittleEndian_roundtrip)
  also have "\<dots> \<longleftrightarrow> raw = strkey_raw (raw ! 0) (drop 1 ?vp)"
    unfolding raw using split by (metis same_append_eq)
  finally show ?thesis by (simp add: crc_Validate_def c)
qed

lemma strkey_raw_length_parts:
  "drop (Suc 0) (take (length (strkey_raw v p) - 2) (strkey_raw v p)) = p" "strkey_raw v p ! 0 = v"
  by (simp_all add: strkey_raw_def binary_LittleEndian_PutUint16_def)

lemma DecodeAny_iff:
  "DecodeAny s = Inr (v, p) \<longleftrightarrow> checkValidVersionByte v = None \<and> decodeString s = Inr (strkey_raw v p)"
proof (cases "\<exists>raw. decodeString s = Inr raw \<and> 3 \<le> length raw")
  case True
  then obtain raw where raw: "decodeString s = Inr raw" "3 \<le> length raw" by blast
  have "DecodeAny s = Inr (v, p) \<longleftrightarrow> checkValidVersionByte (raw ! 0) = None \<and>
      raw = strkey_raw (raw ! 0) (drop 1 (take (length raw - 2) raw)) \<and>
      v = raw ! 0 \<and> p = drop 1 (take (length raw - 2) raw)"
    using raw raw_checksum_ok [OF raw(2)] by (auto simp: DecodeAny_def Let_def split: option.splits)
  also have "\<dots> \<longleftrightarrow> checkValidVersionByte v = None \<and> raw = strkey_raw v p"
    using strkey_raw_length_parts [of v p] by auto
  finally show ?thesis using raw by simp
next
  case False
  then have "decodeString s \<noteq> Inr (strkey_raw v p)" by auto
  with False show ?thesis by (cases "decodeString s") (auto simp: DecodeAny_def)
qed

lemma Decode_iff:
  "Decode v s = Inr p \<longleftrightarrow> checkValidVersionByte v = None \<and> decodeString s = Inr (strkey_raw v p)"
proof (cases "\<exists>raw. decodeString s = Inr raw \<and> 3 \<le> length raw")
  case True
  then obtain raw where raw: "decodeString s = Inr raw" "3 \<le> length raw" by blast
  have "Decode v s = Inr p \<longleftrightarrow> checkValidVersionByte v = None \<and>
      raw = strkey_raw (raw ! 0) (drop 1 (take (length raw - 2) raw)) \<and>
      v = raw ! 0 \<and> p = drop 1 (take (length raw - 2) raw)"
    using raw raw_checksum_ok [OF raw(2)] by (auto simp: Decode_def Let_def split: option.splits)
  also have "\<dots> \<longleftrightarrow> checkValidVersionByte v = None \<and> raw = strkey_raw v p"
    using strkey_raw_length_parts [of v p] by auto
  finally show ?thesis using raw by simp
next
  case False
  then have "decodeString s \<noteq> Inr (strkey_raw v p)" by auto
  with False show ?thesis by (cases "decodeString s") (auto simp: Decode_def split: option.splits)
qed

definition strkey_wf :: "VersionByte \<times> byte list \<Rightarrow> bool" where
  "strkey_wf vp \<longleftrightarrow> checkValidVersionByte (fst vp) = None \<and> length (snd vp) \<le> maxPayloadSize"

definition strkey_valid :: "string \<Rightarrow> bool" where
  "strkey_valid s \<longleftrightarrow> clean (str_bytes s) \<and> length s \<le> EncodedLen (1 + maxPayloadSize + 2)"

lemma base32_Encode_length: "length (base32_Encode raw) = EncodedLen (length raw)"
proof -
  obtain k where k: "k < 5" "char_bits (base32_Encode raw) = byte_bits raw @ replicate k False"
    using base32_chars_bits [of "byte_bits raw"] by (auto simp: base32_Encode_def byte_bits_def)
  have "5 * length (base32_Encode raw) = 8 * length raw + k" using arg_cong [OF k(2), of length] by simp
  with k(1) show ?thesis unfolding EncodedLen_def by linarith
qed

interpretation strkey_code: canonical_codec "\<lambda>(v, p). Encode v p" DecodeAny strkey_wf strkey_valid
proof
  fix vp :: "VersionByte \<times> byte list"
  assume "strkey_wf vp"
  then show "\<exists>s. (case vp of (v, p) \<Rightarrow> Encode v p) = Inr s \<and> DecodeAny s = Inr vp"
    by (cases vp) (simp add: strkey_wf_def maxPayloadSize_def Encode_iff DecodeAny_iff decodeString_encode)
next
  fix s vp
  assume valid: "strkey_valid s" and dec: "DecodeAny s = Inr vp"
  obtain v p where vp: "vp = (v, p)" by force
  with dec have d: "checkValidVersionByte v = None" "decodeString s = Inr (strkey_raw v p)"
    by (simp_all add: DecodeAny_iff)
  then have s: "s = bytes_str (base32_Encode (strkey_raw v p))"
    using decodeString_canonical valid by (auto simp: strkey_valid_def)
  have "length s = EncodedLen (length p + 3)"
    by (subst s) (simp add: base32_Encode_length bytes_str_def)
  moreover have "length s \<le> 165" using valid by (simp add: strkey_valid_def EncodedLen_def maxPayloadSize_def)
  ultimately have "length p \<le> 100" unfolding EncodedLen_def by presburger
  then show "strkey_wf vp \<and> (case vp of (v, p) \<Rightarrow> Encode v p) = Inr s"
    using d s by (simp add: vp strkey_wf_def maxPayloadSize_def Encode_iff)
qed

text \<open>
  C30. Encoding a payload of at most 100 bytes under a valid version byte succeeds, with the length
  \<^verbatim>\<open>EncodedLen\<close> promises, and every decoder gives back what was encoded: \<^verbatim>\<open>Decode\<close> the payload for
  that version and an error for any other, \<^verbatim>\<open>DecodeAny\<close> the version and the payload,
  \<^verbatim>\<open>Version\<close> the version.
\<close>

theorem strkey_roundtrip:
  assumes "checkValidVersionByte v = None" "length p \<le> maxPayloadSize"
  shows "\<exists>s. Encode v p = Inr s \<and> length s = EncodedLen (length p + 3) \<and>
    Decode v s = Inr p \<and> DecodeAny s = Inr (v, p) \<and> Version s = Inr v \<and>
    (\<forall>w. w \<noteq> v \<longrightarrow> Decode w s = Inl ErrInvalidVersionByte)"
proof -
  let ?s = "bytes_str (base32_Encode (strkey_raw v p))"
  have dec: "decodeString ?s = Inr (strkey_raw v p)" by (rule decodeString_encode) simp
  have "Decode w ?s = Inl ErrInvalidVersionByte" if "w \<noteq> v" for w
    using that dec strkey_raw_length_parts(2) [of v p]
    by (auto simp: Decode_def Let_def checkValidVersionByte_def)
  moreover have "Version ?s = Inr v"
    using dec strkey_raw_length_parts(2) [of v p] by (auto simp: Version_def strkey_raw_def)
  moreover have "length ?s = EncodedLen (length p + 3)"
    by (simp add: bytes_str_def base32_Encode_length)
  ultimately show ?thesis
    using assms dec by (auto simp: Encode_iff Decode_iff DecodeAny_iff maxPayloadSize_def)
qed

theorem strkey_roundtrip_witness:
  "checkValidVersionByte VersionByteAccountID = None \<and> length (replicate 32 (7 :: byte)) \<le> maxPayloadSize \<and>
   (\<exists>s. Encode VersionByteAccountID (replicate 32 7) = Inr s \<and> Decode VersionByteAccountID s = Inr (replicate 32 7))"
proof -
  have h: "checkValidVersionByte VersionByteAccountID = None" "length (replicate 32 (7 :: byte)) \<le> maxPayloadSize"
    by (simp_all add: checkValidVersionByte_def maxPayloadSize_def)
  with strkey_roundtrip [OF h] show ?thesis by blast
qed

text \<open>
  C21. Strkeys are canonical on inputs of at most 165 characters, the length of the longest encoding (a payload of 100 bytes), that are free of
  newline characters and of the byte 0xFF: such a string decodes to a key exactly if it is the one that \<^verbatim>\<open>Encode\<close> produces for
  the key, so two different such strings never stand for the same key, and \<^verbatim>\<open>DecodeAny\<close> and \<^verbatim>\<open>Version\<close> never index
  out of range on them. The bounds are needed: longer strings may decode to payloads that \<^verbatim>\<open>Encode\<close> refuses, newlines are skipped by Go's
  decoder, and 0xFF is taken for padding.
\<close>

theorem strkey_canonical:
  assumes "clean (str_bytes s)" "length s \<le> EncodedLen (1 + maxPayloadSize + 2)"
  shows "(DecodeAny s = Inr (v, p) \<longleftrightarrow> Encode v p = Inr s) \<and>
    (Decode v s = Inr p \<longleftrightarrow> Encode v p = Inr s) \<and>
    DecodeAny s \<noteq> Inl (Panic x) \<and> Version s \<noteq> Inl (Panic x)"
proof -
  have valid: "strkey_valid s" using assms by (simp add: strkey_valid_def)
  have any: "DecodeAny s = Inr (v, p) \<longleftrightarrow> Encode v p = Inr s"
  proof
    assume "DecodeAny s = Inr (v, p)"
    with strkey_code.canonical [OF valid] show "Encode v p = Inr s" by fastforce
  next
    assume e: "Encode v p = Inr s"
    then have "strkey_wf (v, p)" by (simp add: Encode_iff strkey_wf_def maxPayloadSize_def)
    with e strkey_code.dec_enc [of "(v, p)" s] show "DecodeAny s = Inr (v, p)" by simp
  qed
  have np: "decodeString s \<noteq> Inl (Panic x)"
    by (auto simp: decodeString_def base32_Decode_def Let_def split: option.splits)
  have "3 \<le> length raw" if "decodeString s = Inr raw" for raw
    using decodeString_canonical [OF that assms(1)] by simp
  then have "DecodeAny s \<noteq> Inl (Panic x)" "Version s \<noteq> Inl (Panic x)"
    using np by (auto simp: DecodeAny_def Version_def Let_def checkValidVersionByte_def split: sum.splits if_splits option.splits)
  with any show ?thesis by (simp only: Decode_iff DecodeAny_iff) simp
qed

theorem strkey_canonical_witness:
  "clean (str_bytes ''GAAAAAAA'') \<and> length ''GAAAAAAA'' \<le> EncodedLen (1 + maxPayloadSize + 2) \<and>
   (DecodeAny ''GAAAAAAA'' = Inr (48, []) \<longleftrightarrow> Encode 48 [] = Inr ''GAAAAAAA'')"
proof -
  have h: "clean (str_bytes ''GAAAAAAA'')" "length ''GAAAAAAA'' \<le> EncodedLen (1 + maxPayloadSize + 2)"
    by (simp_all add: clean_def str_bytes_def EncodedLen_def maxPayloadSize_def)
  with strkey_canonical [OF h] show ?thesis by blast
qed

lemma length_bytes_str [simp]: "length (bytes_str bs) = length bs"
  by (simp add: bytes_str_def)

lemma stripNewlines_append: "stripNewlines (a @ b) = stripNewlines a @ stripNewlines b"
  by (simp add: stripNewlines_def)

lemma str_bytes_newlines: "str_bytes (replicate n (CHR 0x0A)) = replicate n 10"
  by (simp add: str_bytes_def)

lemma stripNewlines_newlines: "stripNewlines (replicate n 10) = []"
  by (simp add: stripNewlines_def)

lemma decodeString_newlines: "decodeString (replicate 8 (CHR 0x0A)) = Inr []"
  by (simp add: decodeString_def str_bytes_newlines base32_Decode_def stripNewlines_newlines
      decode_quanta.simps [of "[]"] Let_def)

lemma decodeString_append_newlines:
  assumes "length raw = 35"
  shows "decodeString (bytes_str (base32_Encode raw) @ replicate 8 (CHR 0x0A)) = Inr raw"
proof -
  let ?cs = "base32_Encode raw"
  have len: "length ?cs = 56" using assms by (simp add: base32_Encode_length EncodedLen_def)
  have "decodeString (bytes_str ?cs) = Inr raw" using assms by (intro decodeString_encode) simp
  then have "base32_Decode ?cs = Inr raw" using len by (simp add: decodeString_def Let_def)
  moreover have "stripNewlines (stripNewlines ?cs) = stripNewlines ?cs" by (simp add: stripNewlines_def)
  ultimately have "base32_Decode (?cs @ replicate 8 10) = Inr raw"
    by (simp add: base32_Decode_def stripNewlines_append stripNewlines_newlines)
  moreover have "str_bytes (bytes_str ?cs @ replicate 8 (CHR 0x0A)) = ?cs @ replicate 8 10"
    using str_bytes_newlines [of 8] bytes_str_inverse [of ?cs] unfolding str_bytes_def by simp
  ultimately show ?thesis using len by (simp add: decodeString_def Let_def)
qed

text \<open>
  The decoder drops newline characters after the canonicity checks. So a canonical strkey of a
  32-byte payload followed by eight newlines decodes to the same key although it is not the string
  \<^verbatim>\<open>Encode\<close> produces; and on a string of eight newlines the decoder returns no bytes at all, on
  which \<^verbatim>\<open>DecodeAny\<close> and \<^verbatim>\<open>Version\<close> panic, while \<^verbatim>\<open>Decode\<close>, which checks the length, does not.
\<close>

theorem strkey_newlines:
  assumes "Encode v p = Inr s" "length p = 32"
  shows "Decode v (s @ replicate 8 (CHR 0x0A)) = Inr p \<and> Encode v p \<noteq> Inr (s @ replicate 8 (CHR 0x0A)) \<and>
    DecodeAny (replicate 8 (CHR 0x0A)) = Inl (Panic ''slice bounds out of range'') \<and>
    Version (replicate 8 (CHR 0x0A)) = Inl (Panic ''index out of range'') \<and>
    Decode v (replicate 8 (CHR 0x0A)) = Inl DecodedTooShort"
proof -
  have s: "checkValidVersionByte v = None" "s = bytes_str (base32_Encode (strkey_raw v p))"
    using assms(1) by (simp_all add: Encode_iff)
  have "decodeString (s @ replicate 8 (CHR 0x0A)) = Inr (strkey_raw v p)"
    unfolding s(2) using assms(2) by (intro decodeString_append_newlines) simp
  with s(1) have "Decode v (s @ replicate 8 (CHR 0x0A)) = Inr p" by (simp add: Decode_iff)
  moreover have "Encode v p \<noteq> Inr (s @ replicate 8 (CHR 0x0A))" using assms(1) by simp
  moreover have "DecodeAny (replicate 8 (CHR 0x0A)) = Inl (Panic ''slice bounds out of range'')"
    unfolding DecodeAny_def decodeString_newlines by simp
  moreover have "Version (replicate 8 (CHR 0x0A)) = Inl (Panic ''index out of range'')"
    unfolding Version_def decodeString_newlines by simp
  moreover have "Decode v (replicate 8 (CHR 0x0A)) = Inl DecodedTooShort"
    unfolding Decode_def decodeString_newlines s(1) by simp
  ultimately show ?thesis by blast
qed

theorem strkey_newlines_witness:
  "\<exists>s. Encode VersionByteAccountID (replicate 32 7) = Inr s \<and>
     Decode VersionByteAccountID (s @ replicate 8 (CHR 0x0A)) = Inr (replicate 32 7)"
proof -
  have "checkValidVersionByte VersionByteAccountID = None" by (simp add: checkValidVersionByte_def)
  then obtain s where s: "Encode VersionByteAccountID (replicate 32 7) = Inr s" by (simp add: Encode_iff)
  with strkey_newlines [OF s] show ?thesis by simp
qed

section \<open>Multiplexed accounts and signed payloads\<close>

text \<open>What the code relies on of the XDR library: 64-bit integers take eight bytes and round trip.\<close>

locale xdr_uint64 =
  fixes marshal :: "64 word \<Rightarrow> byte list option" and unmarshal :: "byte list \<Rightarrow> (64 word) option"
  assumes marshal_unmarshal: "\<exists>b. marshal i = Some b \<and> length b = 8 \<and> unmarshal b = Some i"
begin

lemma mux_roundtrip:
  assumes "length (mux_ed25519 m) = 32" "mux_ed25519 m \<noteq> replicate 32 0"
  shows "\<exists>s. mux_Address marshal m = Inr s \<and> DecodeMuxedAccount unmarshal s = Inr m"
proof -
  obtain b where b: "marshal (mux_id m) = Some b" "length b = 8" "unmarshal b = Some (mux_id m)"
    using marshal_unmarshal by blast
  let ?p = "mux_ed25519 m @ b"
  have "checkValidVersionByte VersionByteMuxedAccount = None" "length ?p \<le> maxPayloadSize"
    using assms(1) b(2) by (simp_all add: checkValidVersionByte_def maxPayloadSize_def)
  then have e: "Encode VersionByteMuxedAccount ?p = Inr (bytes_str (base32_Encode (strkey_raw VersionByteMuxedAccount ?p)))"
    "Decode VersionByteMuxedAccount (bytes_str (base32_Encode (strkey_raw VersionByteMuxedAccount ?p))) = Inr ?p"
    by (simp_all add: Encode_iff Decode_iff maxPayloadSize_def decodeString_encode)
  then show ?thesis
    using assms b by (auto simp: mux_Address_def DecodeMuxedAccount_def)
qed

end

text \<open>The XDR form of an unsigned hyper integer: eight bytes, the most significant first.\<close>

definition be64 :: "64 word \<Rightarrow> byte list option" where
  "be64 i = Some (be_bytes 8 i)"

definition of_be64 :: "byte list \<Rightarrow> (64 word) option" where
  "of_be64 bs = (if length bs = 8 then Some (of_be_bytes bs) else None)"

interpretation be64: xdr_uint64 be64 of_be64
  by unfold_locales (simp add: be64_def of_be64_def of_be_bytes_inverse)

text \<open>
  C35. Multiplexed accounts: for every 32-byte key other than the all-zero one, and every ID,
  \<^verbatim>\<open>Address\<close> succeeds and \<^verbatim>\<open>DecodeMuxedAccount\<close> gives the account back, provided the XDR library
  round trips 64-bit integers in eight bytes; the all-zero key is refused.
\<close>

theorem MuxedAccount_roundtrip:
  assumes "\<And>i. \<exists>b. marshal i = Some b \<and> length b = 8 \<and> unmarshal b = Some i"
    and "length (mux_ed25519 m) = 32"
  shows "(if mux_ed25519 m = replicate 32 0 then mux_Address marshal m = Inl NoEd25519Key
     else \<exists>s. mux_Address marshal m = Inr s \<and> DecodeMuxedAccount unmarshal s = Inr m)"
proof (cases "mux_ed25519 m = replicate 32 0")
  case False
  have "xdr_uint64 marshal unmarshal" using assms(1) by unfold_locales
  from xdr_uint64.mux_roundtrip [OF this assms(2) False] False show ?thesis by simp
qed (simp add: mux_Address_def)

theorem MuxedAccount_roundtrip_witness:
  "\<exists>s. mux_Address be64 \<lparr>mux_id = 123456789, mux_ed25519 = replicate 32 7\<rparr> = Inr s \<and>
     DecodeMuxedAccount of_be64 s = Inr \<lparr>mux_id = 123456789, mux_ed25519 = replicate 32 7\<rparr>"
  using MuxedAccount_roundtrip [of be64 of_be64 "\<lparr>mux_id = 123456789, mux_ed25519 = replicate 32 7\<rparr>"]
    be64.marshal_unmarshal by simp

text \<open>
  What the code relies on for byte slices: variable-length opaque data of at most 64 bytes takes at
  most 68 bytes (length and padding included), round trips, and is read to the end.
\<close>

locale xdr_opaque =
  fixes marshal :: "byte list \<Rightarrow> byte list" and unmarshal :: "byte list \<Rightarrow> (byte list \<times> nat \<times> nat) option"
  assumes marshal_length: "length b \<le> 64 \<Longrightarrow> length (marshal b) \<le> 68"
    and opaque_roundtrip: "length b \<le> 64 \<Longrightarrow> unmarshal (marshal b) = Some (b, length (marshal b), 0)"
begin

lemma signed_payload_roundtrip:
  assumes "length key = 32" "length payload \<le> 64" "Encode VersionByteAccountID key = Inr signer"
  shows "\<exists>s. sp_Encode marshal \<lparr>sp_signer = signer, sp_payload = payload\<rparr> = Inr s \<and>
    DecodeSignedPayload unmarshal s = Inr \<lparr>sp_signer = signer, sp_payload = payload\<rparr>"
proof -
  let ?p = "key @ marshal payload"
  have v: "checkValidVersionByte VersionByteSignedPayload = None" "checkValidVersionByte VersionByteAccountID = None"
    by (simp_all add: checkValidVersionByte_def)
  have "Decode VersionByteAccountID signer = Inr key"
    using assms(3) v by (simp add: Encode_iff Decode_iff decodeString_encode)
  moreover have "length ?p \<le> 100" using assms(1,2) marshal_length [of payload] by simp
  then have "Encode VersionByteSignedPayload ?p = Inr (bytes_str (base32_Encode (strkey_raw VersionByteSignedPayload ?p)))"
    "Decode VersionByteSignedPayload (bytes_str (base32_Encode (strkey_raw VersionByteSignedPayload ?p))) = Inr ?p"
    using v by (simp_all add: Encode_iff Decode_iff decodeString_encode)
  ultimately show ?thesis
    using assms opaque_roundtrip [of payload]
    by (auto simp: sp_Encode_def DecodeSignedPayload_def NewSignedPayload_def maxPayloadLen_def)
qed

end

text \<open>XDR opaque data: the length in four bytes, the data, zeros up to a multiple of four.\<close>

definition opaque_marshal :: "byte list \<Rightarrow> byte list" where
  "opaque_marshal b = [0, 0, 0, word_of_nat (length b)] @ b @ replicate (3 - (length b + 3) mod 4) 0"

definition opaque_unmarshal :: "byte list \<Rightarrow> (byte list \<times> nat \<times> nat) option" where
  "opaque_unmarshal bs =
     (if length bs < 4 \<or> take 3 bs \<noteq> [0, 0, 0] then None
      else
        (let n = unat (bs ! 3); total = 4 + n + (3 - (n + 3) mod 4) in
         if length bs < total then None
         else Some (take n (drop 4 bs), total, length bs - total)))"

interpretation opaque: xdr_opaque opaque_marshal opaque_unmarshal
proof
  fix b :: "byte list"
  assume b: "length b \<le> 64"
  then have u: "unat (word_of_nat (length b) :: byte) = length b"
    by (simp add: unat_of_nat take_bit_nat_eq_self_iff)
  have "length b + (3 - (length b + 3) mod 4) \<le> 64" using b by presburger
  then show "length (opaque_marshal b) \<le> 68" by (simp add: opaque_marshal_def)
  define z where "z = 3 - (length b + 3) mod 4"
  show "opaque_unmarshal (opaque_marshal b) = Some (b, length (opaque_marshal b), 0)"
  proof -
    have "(length b + 3) mod 4 \<le> 3" by (simp add: less_Suc_eq_le [symmetric])
    then have "7 + length b - (length b + 3) mod 4 = length b + z + 4" "z + (length b + 3) mod 4 \<le> 3"
      by (simp_all add: z_def)
    then show ?thesis
      unfolding opaque_unmarshal_def opaque_marshal_def z_def [symmetric] by (simp add: Let_def u flip: z_def)
  qed
qed

text \<open>
  Signed payloads: a signer key of 32 bytes and a payload of at most 64 bytes survive
  \<^verbatim>\<open>Encode\<close> and \<^verbatim>\<open>DecodeSignedPayload\<close>, provided the XDR library round trips opaque data in at most
  68 bytes. But a well-formed strkey of this version whose payload has fewer than 32 bytes makes
  \<^verbatim>\<open>DecodeSignedPayload\<close> panic instead of returning an error.
\<close>

theorem SignedPayload_roundtrip:
  assumes "\<And>b. length b \<le> 64 \<Longrightarrow> length (marshal b) \<le> 68"
    and "\<And>b. length b \<le> 64 \<Longrightarrow> unmarshal (marshal b) = Some (b, length (marshal b), 0)"
    and "length key = 32" "length payload \<le> 64" "length short < 32"
    and "Encode VersionByteAccountID key = Inr signer" "Encode VersionByteSignedPayload short = Inr s0"
  shows "(\<exists>s. sp_Encode marshal \<lparr>sp_signer = signer, sp_payload = payload\<rparr> = Inr s \<and>
      DecodeSignedPayload unmarshal s = Inr \<lparr>sp_signer = signer, sp_payload = payload\<rparr>) \<and>
    DecodeSignedPayload unmarshal s0 = Inl (Panic ''slice bounds out of range'')"
proof -
  have "xdr_opaque marshal unmarshal" using assms(1,2) by unfold_locales
  note rt = xdr_opaque.signed_payload_roundtrip [OF this assms(3,4,6)]
  have "Decode VersionByteSignedPayload s0 = Inr short"
    using assms(7) by (simp add: Encode_iff Decode_iff decodeString_encode)
  then have "DecodeSignedPayload unmarshal s0 = Inl (Panic ''slice bounds out of range'')"
    using assms(5) by (simp add: DecodeSignedPayload_def)
  with rt show ?thesis by blast
qed

theorem SignedPayload_roundtrip_witness:
  "\<exists>signer s0 s. Encode VersionByteAccountID (replicate 32 7) = Inr signer \<and>
     sp_Encode opaque_marshal \<lparr>sp_signer = signer, sp_payload = [1, 2, 3]\<rparr> = Inr s \<and>
     Encode VersionByteSignedPayload [] = Inr s0 \<and>
     DecodeSignedPayload opaque_unmarshal s0 = Inl (Panic ''slice bounds out of range'')"
proof -
  have v: "checkValidVersionByte VersionByteSignedPayload = None" "checkValidVersionByte VersionByteAccountID = None"
    by (simp_all add: checkValidVersionByte_def)
  obtain signer s0 where e: "Encode VersionByteAccountID (replicate 32 7) = Inr signer"
    "Encode VersionByteSignedPayload [] = Inr s0"
    using v by (simp add: Encode_iff)
  from SignedPayload_roundtrip [OF opaque.marshal_length opaque.opaque_roundtrip _ _ _ e, of "[1, 2, 3]"] e
  show ?thesis by auto
qed

end
