(* ===== verification/XdrAsset.thy ===== *)
theory XdrAsset
  imports Strkey "HOL-Library.List_Lexorder" "HOL-Library.Char_ord"
begin

text \<open>
  Assets and account IDs of package \<^verbatim>\<open>xdr\<close> (\<^verbatim>\<open>src/xdr/asset.go\<close>, \<^verbatim>\<open>src/xdr/account_id.go\<close>,
  \<^verbatim>\<open>trimRightZeros\<close> of \<^verbatim>\<open>src/xdr/trust_line_asset.go\<close>). The generated XDR unions are datatypes with
  one constructor per arm; the arrays \<^verbatim>\<open>[4]byte\<close>, \<^verbatim>\<open>[12]byte\<close> and \<^verbatim>\<open>[32]byte\<close> are words of 32, 96
  and 256 bits. Go compares strings byte by byte, which is the lexicographic order on \<open>string\<close>.
\<close>

section \<open>The model\<close>

datatype xdr_error =
    StrkeyError strkey_error
  | InvalidAddress
  | AssetCodeLengthInvalid
  | InvalidAssetType
  | NotAValidAsset string
  | InvalidAssetCode string
  | InvalidIssuer string

subsection \<open>account\_id.go\<close>

datatype AccountId = Ed25519 "256 word"

text \<open>\<open>None\<close> is a nil receiver.\<close>

definition GetAddress :: "AccountId option \<Rightarrow> xdr_error + string" where
  "GetAddress aid =
     (case aid of
        None \<Rightarrow> Inr ''''
      | Some (Ed25519 ed) \<Rightarrow>
          (case Encode VersionByteAccountID (be_bytes 32 ed) of
             Inl err \<Rightarrow> Inl (StrkeyError err)
           | Inr address \<Rightarrow> Inr address))"

definition AccountId_Equals :: "AccountId \<Rightarrow> AccountId \<Rightarrow> bool" where
  "AccountId_Equals aid other = (case (aid, other) of (Ed25519 l, Ed25519 r) \<Rightarrow> l = r)"

definition SetAddress :: "string \<Rightarrow> xdr_error + AccountId" where
  "SetAddress address =
     (case Decode VersionByteAccountID address of
        Inl err \<Rightarrow> Inl (StrkeyError err)
      | Inr raw \<Rightarrow>
          if length raw \<noteq> 32 then Inl InvalidAddress else Inr (Ed25519 (of_be_bytes raw)))"

definition AddressToAccountId :: "string \<Rightarrow> xdr_error + AccountId" where
  "AddressToAccountId address = SetAddress address"

definition MustAddress :: "string \<Rightarrow> xdr_error + AccountId" where
  "MustAddress address =
     (case SetAddress address of Inl err \<Rightarrow> Inl (StrkeyError (Panic ''MustAddress'')) | Inr aid \<Rightarrow> Inr aid)"

subsection \<open>asset.go\<close>

datatype AssetType = AssetTypeNative | AssetTypeCreditAlphanum4 | AssetTypeCreditAlphanum12

datatype Asset = Native | AlphaNum4 "32 word" AccountId | AlphaNum12 "96 word" AccountId

datatype AssetCode = AssetCode4 "32 word" | AssetCode12 "96 word"

definition asset_Type :: "Asset \<Rightarrow> AssetType" where
  "asset_Type a = (case a of Native \<Rightarrow> AssetTypeNative | AlphaNum4 _ _ \<Rightarrow> AssetTypeCreditAlphanum4
                   | AlphaNum12 _ _ \<Rightarrow> AssetTypeCreditAlphanum12)"

definition AssetType_int :: "AssetType \<Rightarrow> int" where
  "AssetType_int t = (case t of AssetTypeNative \<Rightarrow> 0 | AssetTypeCreditAlphanum4 \<Rightarrow> 1 | AssetTypeCreditAlphanum12 \<Rightarrow> 2)"

definition AssetTypeToString :: "AssetType \<Rightarrow> string" where
  "AssetTypeToString t = (case t of AssetTypeNative \<Rightarrow> ''native'' | AssetTypeCreditAlphanum4 \<Rightarrow> ''credit_alphanum4''
                          | AssetTypeCreditAlphanum12 \<Rightarrow> ''credit_alphanum12'')"

definition StringToAssetType :: "string \<Rightarrow> AssetType option" where
  "StringToAssetType s =
     (if s = ''native'' then Some AssetTypeNative
      else if s = ''credit_alphanum4'' then Some AssetTypeCreditAlphanum4
      else if s = ''credit_alphanum12'' then Some AssetTypeCreditAlphanum12
      else None)"

text \<open>\<^verbatim>\<open>copy\<close> of the code into a zeroed array of \<open>n\<close> bytes.\<close>

definition padded_code :: "nat \<Rightarrow> string \<Rightarrow> byte list" where
  "padded_code n code = str_bytes code @ replicate (n - length code) 0"

definition NewAssetCodeFromString :: "string \<Rightarrow> xdr_error + AssetCode" where
  "NewAssetCodeFromString code =
     (let l = length code in
      if l \<ge> 1 \<and> l \<le> 4 then Inr (AssetCode4 (of_be_bytes (padded_code 4 code)))
      else if l \<ge> 5 \<and> l \<le> 12 then Inr (AssetCode12 (of_be_bytes (padded_code 12 code)))
      else Inl AssetCodeLengthInvalid)"

definition SetCredit :: "string \<Rightarrow> AccountId \<Rightarrow> xdr_error + Asset" where
  "SetCredit code issuer =
     (let l = length code in
      if l \<ge> 1 \<and> l \<le> 4 then Inr (AlphaNum4 (of_be_bytes (padded_code 4 code)) issuer)
      else if l \<ge> 5 \<and> l \<le> 12 then Inr (AlphaNum12 (of_be_bytes (padded_code 12 code)) issuer)
      else Inl AssetCodeLengthInvalid)"

definition SetNative :: Asset where
  "SetNative = Native"

definition ToAssetCode :: "string \<Rightarrow> xdr_error + AssetCode" where
  "ToAssetCode code =
     (let l = length code in
      if l \<ge> 1 \<and> l \<le> 4 then Inr (AssetCode4 (of_be_bytes (padded_code 4 code)))
      else if l \<ge> 5 \<and> l \<le> 12 then Inr (AssetCode12 (of_be_bytes (padded_code 12 code)))
      else Inl AssetCodeLengthInvalid)"

definition NewCreditAsset :: "string \<Rightarrow> string \<Rightarrow> xdr_error + Asset" where
  "NewCreditAsset code issuer =
     (case SetAddress issuer of
        Inl err \<Rightarrow> Inl err
      | Inr accountID \<Rightarrow> (case SetCredit code accountID of Inl err \<Rightarrow> Inl err | Inr a \<Rightarrow> Inr a))"

definition BuildAsset :: "string \<Rightarrow> string \<Rightarrow> string \<Rightarrow> xdr_error + Asset" where
  "BuildAsset assetType issuer code =
     (case StringToAssetType assetType of
        None \<Rightarrow> Inl InvalidAssetType
      | Some AssetTypeNative \<Rightarrow> Inr SetNative
      | Some _ \<Rightarrow>
          (case SetAddress issuer of
             Inl err \<Rightarrow> Inl err
           | Inr issuerAccountID \<Rightarrow> SetCredit code issuerAccountID))"

text \<open>\<^verbatim>\<open>strings.Split\<close> at a one-byte separator.\<close>

fun strings_Split :: "char \<Rightarrow> string \<Rightarrow> string list" where
  "strings_Split sep [] = [[]]"
| "strings_Split sep (c # cs) =
     (if c = sep then [] # strings_Split sep cs
      else case strings_Split sep cs of [] \<Rightarrow> [[c]] | p # ps \<Rightarrow> (c # p) # ps)"

text \<open>
  \<^verbatim>\<open>strings.ToLower(s) == "native"\<close>: besides the ASCII capitals, the only code point that Go
  lower-cases to one of these letters is U+0130, whose UTF-8 bytes are C4 B0.
\<close>

fun lower_is :: "string \<Rightarrow> string \<Rightarrow> bool" where
  "lower_is [] w \<longleftrightarrow> w = []"
| "lower_is (c # cs) w \<longleftrightarrow>
     (case w of
        [] \<Rightarrow> False
      | l # ls \<Rightarrow>
          if of_char c = (0xC4 :: nat) then
            (case cs of d # ds \<Rightarrow> of_char d = (0xB0 :: nat) \<and> l = CHR ''i'' \<and> lower_is ds ls | [] \<Rightarrow> False)
          else
            (let n = of_char c :: nat in
             (if 65 \<le> n \<and> n \<le> 90 then char_of (n + 32) else c) = l) \<and> lower_is cs ls)"

definition is_alnum :: "char \<Rightarrow> bool" where
  "is_alnum c \<longleftrightarrow> (let n = of_char c :: nat in 48 \<le> n \<and> n \<le> 57 \<or> 65 \<le> n \<and> n \<le> 90 \<or> 97 \<le> n \<and> n \<le> 122)"

definition ValidAssetCode :: "string \<Rightarrow> bool" where
  "ValidAssetCode s \<longleftrightarrow> 1 \<le> length s \<and> length s \<le> 12 \<and> list_all is_alnum s"

definition BuildAssets_one :: "string \<Rightarrow> xdr_error + Asset" where
  "BuildAssets_one assetString =
     (if lower_is assetString ''native'' then Inr SetNative
      else
        (let parts = strings_Split (CHR '':'') assetString in
         if length parts \<noteq> 2 then Inl (NotAValidAsset assetString)
         else
           (let code = parts ! 0 in
            if \<not> ValidAssetCode code then Inl (InvalidAssetCode assetString)
            else
              (case AddressToAccountId (parts ! 1) of
                 Inl _ \<Rightarrow> Inl (InvalidIssuer assetString)
               | Inr issuer \<Rightarrow>
                   (case SetCredit code issuer of
                      Inl _ \<Rightarrow> Inl (NotAValidAsset assetString)
                    | Inr asset \<Rightarrow> Inr asset)))))"

fun BuildAssets_loop :: "string list \<Rightarrow> Asset list \<Rightarrow> xdr_error + Asset list" where
  "BuildAssets_loop [] assets = Inr assets"
| "BuildAssets_loop (s # ss) assets =
     (case BuildAssets_one s of Inl e \<Rightarrow> Inl e | Inr asset \<Rightarrow> BuildAssets_loop ss (assets @ [asset]))"

definition BuildAssets :: "string \<Rightarrow> xdr_error + Asset list" where
  "BuildAssets s = (if s = '''' then Inr [] else BuildAssets_loop (strings_Split (CHR '','') s) [])"

definition trimRightZeros :: "byte list \<Rightarrow> byte list" where
  "trimRightZeros b = rev (dropWhile (\<lambda>x. x = 0) (rev b))"

text \<open>
  \<^verbatim>\<open>Extract\<close> into three strings, as all callers here use it: type, code and issuer (empty for the
  native asset). \<^verbatim>\<open>strkey.MustEncode\<close> cannot panic on a 32-byte key (see \<open>encode_key\<close> below).
\<close>

definition issuer_strkey :: "AccountId \<Rightarrow> string" where
  "issuer_strkey issuer =
     (case issuer of Ed25519 raw \<Rightarrow>
        (case MustEncode VersionByteAccountID (be_bytes 32 raw) of Inl _ \<Rightarrow> '''' | Inr s \<Rightarrow> s))"

definition Extract :: "Asset \<Rightarrow> string \<times> string \<times> string" where
  "Extract a =
     (case a of
        Native \<Rightarrow> (AssetTypeToString AssetTypeNative, '''', '''')
      | AlphaNum4 code issuer \<Rightarrow>
          (AssetTypeToString AssetTypeCreditAlphanum4, bytes_str (trimRightZeros (be_bytes 4 code)), issuer_strkey issuer)
      | AlphaNum12 code issuer \<Rightarrow>
          (AssetTypeToString AssetTypeCreditAlphanum12, bytes_str (trimRightZeros (be_bytes 12 code)), issuer_strkey issuer))"

definition Asset_String :: "Asset \<Rightarrow> string" where
  "Asset_String a =
     (let (t, c, i) = Extract a in if asset_Type a = AssetTypeNative then t else t @ ''/'' @ c @ ''/'' @ i)"

definition StringCanonical :: "Asset \<Rightarrow> string" where
  "StringCanonical a =
     (let (t, c, i) = Extract a in if asset_Type a = AssetTypeNative then t else c @ '':'' @ i)"

definition Asset_Equals :: "Asset \<Rightarrow> Asset \<Rightarrow> bool" where
  "Asset_Equals a other =
     (case (a, other) of
        (Native, Native) \<Rightarrow> True
      | (AlphaNum4 lc li, AlphaNum4 rc ri) \<Rightarrow> lc = rc \<and> AccountId_Equals li ri
      | (AlphaNum12 lc li, AlphaNum12 rc ri) \<Rightarrow> lc = rc \<and> AccountId_Equals li ri
      | _ \<Rightarrow> False)"

definition GetCode :: "Asset \<Rightarrow> string" where
  "GetCode a =
     (case a of
        Native \<Rightarrow> ''''
      | AlphaNum4 code _ \<Rightarrow> bytes_str (be_bytes 4 code)
      | AlphaNum12 code _ \<Rightarrow> bytes_str (be_bytes 12 code))"

definition GetIssuer :: "Asset \<Rightarrow> string" where
  "GetIssuer a =
     (let addr = (\<lambda>issuer. case GetAddress (Some issuer) of Inl _ \<Rightarrow> '''' | Inr address \<Rightarrow> address) in
      case a of Native \<Rightarrow> '''' | AlphaNum4 _ issuer \<Rightarrow> addr issuer | AlphaNum12 _ issuer \<Rightarrow> addr issuer)"

definition LessThan :: "Asset \<Rightarrow> Asset \<Rightarrow> bool" where
  "LessThan a b =
     (if asset_Type a \<noteq> asset_Type b then AssetType_int (asset_Type a) < AssetType_int (asset_Type b)
      else if GetCode a \<noteq> GetCode b then GetCode a < GetCode b
      else GetIssuer a < GetIssuer b)"

section \<open>Account IDs\<close>

definition key_str :: "256 word \<Rightarrow> string" where
  "key_str k = bytes_str (base32_Encode (strkey_raw VersionByteAccountID (be_bytes 32 k)))"

lemma version_account: "checkValidVersionByte VersionByteAccountID = None"
  by (simp add: checkValidVersionByte_def)

lemma encode_key: "Encode VersionByteAccountID (be_bytes 32 k) = Inr (key_str k)"
  by (simp add: Encode_iff version_account key_str_def)

lemma length_key_str [simp]: "length (key_str k) = 56"
  by (simp add: key_str_def base32_Encode_length EncodedLen_def)

lemma decode_key: "Decode VersionByteAccountID (key_str k) = Inr (be_bytes 32 k)"
  by (simp add: Decode_iff version_account key_str_def decodeString_encode)

lemma key_str_inject: "key_str k = key_str l \<longleftrightarrow> k = l"
  using decode_key [of k] decode_key [of l] be_bytes_inject [of 32 k l] by auto

lemma key_str_alphabet: "set (str_bytes (key_str k)) \<subseteq> set alphabet"
  using base32_chars_bits by (simp add: key_str_def base32_Encode_def)

lemma SetAddress_key: "SetAddress (key_str k) = Inr (Ed25519 k)"
  by (simp add: SetAddress_def decode_key of_be_bytes_inverse)

lemma issuer_strkey_key [simp]: "issuer_strkey (Ed25519 k) = key_str k"
  by (simp add: issuer_strkey_def MustEncode_def encode_key)

lemma length_issuer_strkey [simp]: "length (issuer_strkey i) = 56"
  by (cases i) simp

lemma issuer_strkey_inject: "issuer_strkey i = issuer_strkey j \<longleftrightarrow> i = j"
  by (cases i; cases j) (simp add: key_str_inject)

lemma GetAddress_key [simp]: "GetAddress (Some (Ed25519 k)) = Inr (key_str k)"
  by (simp add: GetAddress_def encode_key)

lemma AccountId_Equals_iff [simp]: "AccountId_Equals a b \<longleftrightarrow> a = b"
  by (cases a; cases b) (simp add: AccountId_Equals_def)

section \<open>Asset codes\<close>

lemma trimRightZeros_pad: "trimRightZeros b @ replicate (length b - length (trimRightZeros b)) 0 = b"
proof (induction b rule: rev_induct)
  case (snoc x b)
  have "length (trimRightZeros b) \<le> length b"
    using length_dropWhile_le [of "\<lambda>x. x = 0" "rev b"] by (simp add: trimRightZeros_def)
  then have "replicate (Suc (length b) - length (trimRightZeros b)) 0 = replicate (length b - length (trimRightZeros b)) 0 @ [0 :: byte]"
    by (simp add: Suc_diff_le replicate_append_same)
  with snoc show ?case
    by (cases "x = 0") (simp_all add: trimRightZeros_def flip: append_assoc)
qed (simp add: trimRightZeros_def)

lemma trimRightZeros_inject: "length a = length b \<Longrightarrow> trimRightZeros a = trimRightZeros b \<longleftrightarrow> a = b"
  using trimRightZeros_pad [of a] trimRightZeros_pad [of b] by metis

lemma trimRightZeros_replicate:
  "list_all (\<lambda>x. x \<noteq> 0) bs \<Longrightarrow> trimRightZeros (bs @ replicate n 0) = bs"
proof -
  assume nz: "list_all (\<lambda>x. x \<noteq> 0) bs"
  have "dropWhile (\<lambda>x. x = 0) (replicate n 0 @ rev bs) = rev bs"
    using nz by (cases "rev bs") (auto simp: dropWhile_append list_all_iff simp flip: set_rev [of bs])
  then show ?thesis by (simp add: trimRightZeros_def)
qed

lemma bytes_str_inject: "bytes_str a = bytes_str b \<longleftrightarrow> a = b"
  by (metis bytes_str_inverse)

lemma code4_inject: "be_bytes 4 (c :: 32 word) = be_bytes 4 d \<longleftrightarrow> c = d"
  by (rule be_bytes_inject) simp

lemma code12_inject: "be_bytes 12 (c :: 96 word) = be_bytes 12 d \<longleftrightarrow> c = d"
  by (rule be_bytes_inject) simp

lemmas code_inject = trimRightZeros_inject bytes_str_inject code4_inject code12_inject

lemma Asset_Equals_iff [simp]: "Asset_Equals a b \<longleftrightarrow> a = b"
  by (cases a; cases b) (simp_all add: Asset_Equals_def)

lemma suffix_split: "length i = length j \<Longrightarrow> c @ x # i = d @ x # j \<longleftrightarrow> c = d \<and> i = j"
  by (metis append_eq_append_conv length_Cons list.inject)

lemma Asset_String_inject: "Asset_String a = Asset_String b \<longleftrightarrow> a = b"
  by (cases a; cases b)
    (auto simp: Asset_String_def Extract_def asset_Type_def AssetTypeToString_def suffix_split code_inject issuer_strkey_inject)

text \<open>
  C36. The string form that the order book uses as the key of its asset tables identifies the
  asset: two assets have the same string exactly when \<^verbatim>\<open>Equals\<close> holds, which is equality of type,
  code and issuer.
\<close>

theorem Asset_String_identifies:
  "(Asset_String a = Asset_String b \<longleftrightarrow> Asset_Equals a b) \<and> (Asset_Equals a b \<longleftrightarrow> a = b) \<and> Asset_String a \<noteq> ''''"
proof -
  have "Asset_String a \<noteq> ''''"
    by (cases a) (simp_all add: Asset_String_def Extract_def asset_Type_def AssetTypeToString_def)
  then show ?thesis by (simp add: Asset_String_inject)
qed

section \<open>The order of assets\<close>

lemma GetIssuer_simps [simp]:
  "GetIssuer Native = ''''" "GetIssuer (AlphaNum4 c i) = issuer_strkey i" "GetIssuer (AlphaNum12 d i) = issuer_strkey i"
  by (cases i; simp add: GetIssuer_def Let_def)+

text \<open>\<^verbatim>\<open>LessThan\<close> is the order of the triples of type, code and issuer.\<close>

lemma asset_triple: "a = b \<longleftrightarrow> asset_Type a = asset_Type b \<and> GetCode a = GetCode b \<and> GetIssuer a = GetIssuer b"
  by (cases a; cases b) (auto simp: asset_Type_def GetCode_def code_inject issuer_strkey_inject)

lemma LessThan_total: "LessThan a b \<or> LessThan b a \<longleftrightarrow> a \<noteq> b"
proof -
  have "AssetType_int s < AssetType_int t \<or> AssetType_int t < AssetType_int s \<longleftrightarrow> s \<noteq> t" for s t
    by (cases s; cases t) (simp_all add: AssetType_int_def)
  then show ?thesis
    using linorder_neq_iff [of "GetCode a" "GetCode b"] linorder_neq_iff [of "GetIssuer a" "GetIssuer b"]
    unfolding asset_triple [of a b] LessThan_def
    by (cases "asset_Type a = asset_Type b"; cases "GetCode a = GetCode b") auto
qed

lemma LessThan_asym: "LessThan a b \<Longrightarrow> \<not> LessThan b a"
  by (auto simp: LessThan_def split: if_splits)

lemma LessThan_trans:
  assumes "LessThan a b" "LessThan b c"
  shows "LessThan a c"
proof -
  have inj: "AssetType_int s = AssetType_int t \<longleftrightarrow> s = t" for s t
    by (cases s; cases t) (simp_all add: AssetType_int_def)
  consider "AssetType_int (asset_Type a) < AssetType_int (asset_Type b)" | "asset_Type a = asset_Type b"
    using assms(1) by (auto simp: LessThan_def split: if_splits)
  then show ?thesis
    using assms by cases (auto simp: LessThan_def simp flip: inj split: if_splits)
qed

text \<open>
  \<^verbatim>\<open>LessThan\<close>, which decides the order of the two assets of a liquidity pool, is a strict
  total order on assets: of two different assets exactly one is less than the other, and the
  order is transitive.
\<close>

theorem LessThan_strict_total_order:
  "(LessThan a b \<or> LessThan b a \<longleftrightarrow> a \<noteq> b) \<and> \<not> (LessThan a b \<and> LessThan b a) \<and>
   (LessThan a b \<and> LessThan b c \<longrightarrow> LessThan a c)"
  using LessThan_total LessThan_asym LessThan_trans by blast

theorem LessThan_strict_total_order_witness:
  "LessThan Native (AlphaNum4 1 (Ed25519 0)) \<and> LessThan (AlphaNum4 1 (Ed25519 0)) (AlphaNum12 0 (Ed25519 0)) \<and>
   LessThan Native (AlphaNum12 0 (Ed25519 0))"
proof -
  have "LessThan Native (AlphaNum4 1 (Ed25519 0))" "LessThan (AlphaNum4 1 (Ed25519 0)) (AlphaNum12 0 (Ed25519 0))"
    by (simp_all add: LessThan_def asset_Type_def AssetType_int_def)
  with LessThan_strict_total_order [of Native "AlphaNum4 1 (Ed25519 0)" "AlphaNum12 0 (Ed25519 0)"]
  show ?thesis by blast
qed

section \<open>Parsing assets\<close>

definition canonical_asset :: "Asset \<Rightarrow> bool" where
  "canonical_asset a \<longleftrightarrow> a = Native \<or> (\<exists>code issuer. ValidAssetCode code \<and> SetCredit code issuer = Inr a)"

fun strings_Join :: "char \<Rightarrow> string list \<Rightarrow> string" where
  "strings_Join sep [] = []"
| "strings_Join sep [x] = x"
| "strings_Join sep (x # xs) = x @ sep # strings_Join sep xs"

lemma strings_Split_no_sep: "sep \<notin> set x \<Longrightarrow> strings_Split sep x = [x]"
  by (induction x) auto

lemma strings_Split_append: "sep \<notin> set x \<Longrightarrow> strings_Split sep (x @ sep # y) = x # strings_Split sep y"
  by (induction x) auto

lemma strings_Split_Join:
  "xs \<noteq> [] \<Longrightarrow> \<forall>x \<in> set xs. sep \<notin> set x \<Longrightarrow> strings_Split sep (strings_Join sep xs) = xs"
  by (induction sep xs rule: strings_Join.induct) (auto simp: strings_Split_no_sep strings_Split_append)

lemma lower_is_length: "lower_is s w \<Longrightarrow> length s \<le> 2 * length w"
proof (induction s w rule: lower_is.induct)
  case (2 c cs w)
  then show ?case by (fastforce split: list.splits if_splits)
qed simp

lemma key_str_chars: "c \<in> set (key_str k) \<Longrightarrow> c \<noteq> CHR '':'' \<and> c \<noteq> CHR '',''"
proof -
  assume "c \<in> set (key_str k)"
  then have "word_of_nat (of_char c) \<in> set alphabet"
    using key_str_alphabet [of k] by (force simp: str_bytes_def)
  then show ?thesis by (auto simp: alphabet_eval)
qed

lemma issuer_strkey_chars: "c \<in> set (issuer_strkey i) \<Longrightarrow> c \<noteq> CHR '':'' \<and> c \<noteq> CHR '',''"
  using key_str_chars by (cases i) auto

lemma is_alnum_byte: "is_alnum c \<Longrightarrow> word_of_nat (of_char c) \<noteq> (0 :: byte)"
proof
  assume "is_alnum c" and z: "word_of_nat (of_char c) = (0 :: byte)"
  have "unat (word_of_nat (of_char c) :: byte) = of_char c"
    by (simp add: unat_of_nat take_bit_eq_mod of_char_mod_256)
  with z \<open>is_alnum c\<close> show False by (auto simp: is_alnum_def)
qed

lemma SetCredit_Extract:
  assumes "ValidAssetCode code" "SetCredit code issuer = Inr a"
  shows "asset_Type a \<noteq> AssetTypeNative \<and> Extract a = (AssetTypeToString (asset_Type a), code, issuer_strkey issuer)"
proof -
  have len: "1 \<le> length code" "length code \<le> 12" and al: "list_all is_alnum code"
    using assms(1) by (simp_all add: ValidAssetCode_def)
  have "list_all (\<lambda>x. x \<noteq> 0) (str_bytes code)"
    using al is_alnum_byte by (auto simp: list_all_iff str_bytes_def)
  then have trim: "trimRightZeros (padded_code n code) = str_bytes code" for n
    unfolding padded_code_def by (rule trimRightZeros_replicate)
  have "length code \<le> 4 \<Longrightarrow> be_bytes 4 (of_be_bytes (padded_code 4 code) :: 32 word) = padded_code 4 code"
    using be_bytes_of_be_bytes [of "padded_code 4 code", where 'a = 32] by (simp add: padded_code_def)
  moreover have "be_bytes 12 (of_be_bytes (padded_code 12 code) :: 96 word) = padded_code 12 code"
    using len be_bytes_of_be_bytes [of "padded_code 12 code", where 'a = 96] by (simp add: padded_code_def)
  ultimately show ?thesis
    using assms(2) len trim by (auto simp: SetCredit_def Let_def Extract_def asset_Type_def split: if_splits)
qed

lemma BuildAssets_one_canonical:
  assumes "canonical_asset a"
  shows "BuildAssets_one (StringCanonical a) = Inr a" "CHR '','' \<notin> set (StringCanonical a)" "StringCanonical a \<noteq> ''''"
proof -
  have "BuildAssets_one (StringCanonical a) = Inr a \<and> CHR '','' \<notin> set (StringCanonical a) \<and> StringCanonical a \<noteq> ''''"
  proof (cases "a = Native")
    case True
    then show ?thesis
      by (simp add: StringCanonical_def Extract_def asset_Type_def AssetTypeToString_def BuildAssets_one_def SetNative_def)
  next
    case False
    then obtain code issuer where c: "ValidAssetCode code" "SetCredit code issuer = Inr a"
      using assms unfolding canonical_asset_def by blast
    have s: "StringCanonical a = code @ CHR '':'' # issuer_strkey issuer"
      using SetCredit_Extract [OF c] by (simp add: StringCanonical_def)
    have code: "CHR '':'' \<notin> set code" "CHR '','' \<notin> set code"
      using c(1) by (auto simp: ValidAssetCode_def list_all_iff is_alnum_def)
    have iss: "CHR '':'' \<notin> set (issuer_strkey issuer)" "CHR '','' \<notin> set (issuer_strkey issuer)"
      using issuer_strkey_chars by blast+
    have "\<not> lower_is (StringCanonical a) ''native''"
      using lower_is_length [of "StringCanonical a" "''native''"] by (auto simp: s)
    moreover have "strings_Split (CHR '':'') (StringCanonical a) = [code, issuer_strkey issuer]"
      using code iss by (simp add: s strings_Split_append strings_Split_no_sep)
    moreover have "AddressToAccountId (issuer_strkey issuer) = Inr issuer"
      by (cases issuer) (simp add: AddressToAccountId_def SetAddress_key)
    ultimately have "BuildAssets_one (StringCanonical a) = Inr a"
      using c by (simp add: BuildAssets_one_def Let_def)
    then show ?thesis using code iss by (simp add: s)
  qed
  then show "BuildAssets_one (StringCanonical a) = Inr a" "CHR '','' \<notin> set (StringCanonical a)" "StringCanonical a \<noteq> ''''"
    by blast+
qed

lemma BuildAssets_loop_canonical:
  "\<forall>a \<in> set assets. canonical_asset a \<Longrightarrow> BuildAssets_loop (map StringCanonical assets) acc = Inr (acc @ assets)"
  by (induction assets arbitrary: acc) (simp_all add: BuildAssets_one_canonical)

lemma strings_Join_nonempty: "xs \<noteq> [] \<Longrightarrow> hd xs \<noteq> [] \<Longrightarrow> strings_Join sep xs \<noteq> []"
  by (induction sep xs rule: strings_Join.induct) auto

lemma BuildAsset_Extract:
  assumes "canonical_asset a" "Extract a = (t, c, i)"
  shows "BuildAsset t i c = Inr a"
proof (cases "a = Native")
  case False
  then obtain code issuer where ci: "ValidAssetCode code" "SetCredit code issuer = Inr a"
    using assms(1) unfolding canonical_asset_def by blast
  have "SetAddress (issuer_strkey issuer) = Inr issuer" by (cases issuer) (simp add: SetAddress_key)
  with SetCredit_Extract [OF ci] ci(2) assms(2) show ?thesis
    by (cases "asset_Type a") (auto simp: BuildAsset_def StringToAssetType_def AssetTypeToString_def)
qed (use assms(2) in \<open>simp add: Extract_def BuildAsset_def StringToAssetType_def AssetTypeToString_def SetNative_def\<close>)

text \<open>
  Parsing a comma-separated list of canonical asset strings gives back exactly the assets, for
  the native asset and every credit asset with an alphanumeric code of 1 to 12 characters; and
  \<^verbatim>\<open>BuildAsset\<close> rebuilds each of them from its extracted type, code and issuer.
\<close>

theorem BuildAssets_roundtrip:
  assumes "\<forall>a \<in> set assets. canonical_asset a"
  shows "BuildAssets (strings_Join (CHR '','') (map StringCanonical assets)) = Inr assets \<and>
    (\<forall>a \<in> set assets. case Extract a of (t, c, i) \<Rightarrow> BuildAsset t i c = Inr a)"
proof (intro conjI ballI)
  show "BuildAssets (strings_Join (CHR '','') (map StringCanonical assets)) = Inr assets"
  proof (cases "assets = []")
    case False
    then have "hd (map StringCanonical assets) \<noteq> []"
      using assms BuildAssets_one_canonical(3) [of "hd assets"] by (simp add: hd_map)
    then have "strings_Join (CHR '','') (map StringCanonical assets) \<noteq> ''''"
      using False by (intro strings_Join_nonempty) simp_all
    moreover have "\<forall>x \<in> set (map StringCanonical assets). CHR '','' \<notin> set x"
      using assms BuildAssets_one_canonical(2) by (simp only: set_map ball_simps) blast
    then have "strings_Split (CHR '','') (strings_Join (CHR '','') (map StringCanonical assets)) = map StringCanonical assets"
      using False by (intro strings_Split_Join) simp_all
    ultimately show ?thesis
      using BuildAssets_loop_canonical [OF assms, of "[]"] by (simp only: BuildAssets_def) simp
  qed (simp add: BuildAssets_def)
next
  fix a assume "a \<in> set assets"
  then show "case Extract a of (t, c, i) \<Rightarrow> BuildAsset t i c = Inr a"
    using assms BuildAsset_Extract by (cases "Extract a") simp
qed

theorem BuildAssets_roundtrip_witness:
  "\<exists>usd. SetCredit ''USD'' (Ed25519 7) = Inr usd \<and>
     BuildAssets (strings_Join (CHR '','') (map StringCanonical [Native, usd])) = Inr [Native, usd]"
proof -
  obtain usd where usd: "SetCredit ''USD'' (Ed25519 7) = Inr usd" by (simp add: SetCredit_def)
  have "ValidAssetCode ''USD''" by (simp add: ValidAssetCode_def is_alnum_def)
  with usd have "\<forall>a \<in> set [Native, usd]. canonical_asset a" by (auto simp: canonical_asset_def)
  from BuildAssets_roundtrip [OF this] usd show ?thesis by blast
qed

end
