(* ===== verification/Pools.thy ===== *)
theory Pools
  imports Price XdrAsset
begin

text \<open>
  Trading with constant-product liquidity pools (\<^verbatim>\<open>src/exp/orderbook/pools.go\<close>, and the types
  \<^verbatim>\<open>liquidityPool\<close> of \<^verbatim>\<open>search.go\<close> and \<^verbatim>\<open>getPoolAssets\<close> of \<^verbatim>\<open>utils.go\<close>).

  The 256-bit arithmetic is the library \<^verbatim>\<open>holiman/uint256\<close>: a record of operations that is the
  first argument of the functions that use it, with the laws of the locale \<open>uint256\<close>. The
  code computes in place (\<^verbatim>\<open>X.Mul(X, maxBips)\<close>); no variable is read after it was overwritten
  under another name, so the model binds each new value to a name.
\<close>

section \<open>The model\<close>

record 'u uint256_ops =
  u_NewInt :: "int \<Rightarrow> 'u"
  u_Add :: "'u \<Rightarrow> 'u \<Rightarrow> 'u"
  u_Sub :: "'u \<Rightarrow> 'u \<Rightarrow> 'u"
  u_Mul :: "'u \<Rightarrow> 'u \<Rightarrow> 'u"
  u_Div :: "'u \<Rightarrow> 'u \<Rightarrow> 'u"
  u_Mod :: "'u \<Rightarrow> 'u \<Rightarrow> 'u"
  u_Abs :: "'u \<Rightarrow> 'u"
  u_AddUint64 :: "'u \<Rightarrow> int \<Rightarrow> 'u"
  u_IsZero :: "'u \<Rightarrow> bool"
  u_IsUint64 :: "'u \<Rightarrow> bool"
  u_Uint64 :: "'u \<Rightarrow> int"

record PoolParams =
  pp_AssetA :: Asset
  pp_AssetB :: Asset
  pp_Fee :: int

record ConstantProduct =
  cp_Params :: PoolParams
  cp_ReserveA :: int
  cp_ReserveB :: int
  cp_TotalPoolShares :: int
  cp_PoolSharesTrustLineCount :: int

text \<open>\<open>lp_ConstantProduct\<close> is a pointer; \<open>lp_Type\<close> is 0 for a constant-product pool.\<close>

record LiquidityPoolEntry =
  lp_LiquidityPoolId :: "256 word"
  lp_Type :: int
  lp_ConstantProduct :: "ConstantProduct option"

record liquidityPool =
  pool_entry :: LiquidityPoolEntry
  pool_assetA :: nat
  pool_assetB :: nat

datatype pool_error = errPoolOverflows | errBadPoolType | errBadTradeType | errBadAmount | NilPool

definition tradeTypeDeposit :: int where "tradeTypeDeposit = 0"
definition tradeTypeExpectation :: int where "tradeTypeExpectation = 1"

text \<open>The rounding slippage that both calculations share.\<close>

definition poolSlippage :: "'u uint256_ops \<Rightarrow> 'u \<Rightarrow> 'u \<Rightarrow> 'u \<Rightarrow> int \<times> bool" where
  "poolSlippage U numer denom result =
     (let maxBips = u_NewInt U 10000;
          unrounded = u_Div U (u_Mul U numer maxBips) denom;
          rounded = u_Mul U result maxBips;
          S = u_Sub U unrounded rounded;
          S = u_Mul U (u_Abs U S) maxBips;
          S = u_Div U S unrounded;
          S = u_Div U S (u_NewInt U 100);
          bips = s64 (u_Uint64 U S)
      in (bips, u_IsUint64 U S \<and> bips \<ge> 0))"

definition CalculatePoolPayout ::
    "'u uint256_ops \<Rightarrow> int \<Rightarrow> int \<Rightarrow> int \<Rightarrow> int \<Rightarrow> bool \<Rightarrow> int \<times> int \<times> bool" where
  "CalculatePoolPayout U reserveA reserveB received feeBips calculateRoundingSlippage =
     (let X = u_NewInt U (u64 reserveA); Y = u_NewInt U (u64 reserveB);
          F = u_NewInt U (u64 feeBips); x = u_NewInt U (u64 received)
      in if received > s64 (MaxInt64 - reserveA) then (0, 0, False)
         else
           (let maxBips = u_NewInt U 10000;
                f = u_Sub U maxBips F;
                denom = u_Add U (u_Mul U X maxBips) (u_Mul U x f)
            in if u_IsZero U denom then (0, 0, False)
               else
                 (let numer = u_Mul U (u_Mul U Y x) f;
                      result = u_Div U numer denom;
                      (roundingSlippageBips, ok) =
                        (if calculateRoundingSlippage \<and> \<not> u_IsZero U (u_Mod U numer denom)
                         then poolSlippage U numer denom result else (0, True));
                      val = s64 (u_Uint64 U result)
                  in (val, roundingSlippageBips, ok \<and> u_IsUint64 U result \<and> val \<ge> 0))))"

definition CalculatePoolExpectation ::
    "'u uint256_ops \<Rightarrow> int \<Rightarrow> int \<Rightarrow> int \<Rightarrow> int \<Rightarrow> bool \<Rightarrow> int \<times> int \<times> bool" where
  "CalculatePoolExpectation U reserveA reserveB disbursed feeBips calculateRoundingSlippage =
     (let X = u_NewInt U (u64 reserveA); Y = u_NewInt U (u64 reserveB);
          F = u_NewInt U (u64 feeBips); y = u_NewInt U (u64 disbursed)
      in if disbursed \<ge> reserveB then (0, 0, False)
         else
           (let maxBips = u_NewInt U 10000;
                f = u_Sub U maxBips F;
                denom = u_Mul U (u_Sub U Y y) f
            in if u_IsZero U denom then (0, 0, False)
               else
                 (let numer = u_Mul U (u_Mul U X y) maxBips;
                      result0 = u_Div U numer denom;
                      rem = u_Mod U numer denom;
                      result = (if \<not> u_IsZero U rem then u_AddUint64 U result0 1 else result0);
                      (roundingSlippageBips, ok) =
                        (if \<not> u_IsZero U rem \<and> calculateRoundingSlippage
                         then poolSlippage U numer denom result else (0, True));
                      val = s64 (u_Uint64 U result)
                  in (val, roundingSlippageBips, ok \<and> u_IsUint64 U result \<and> val \<ge> 0))))"

definition makeTrade :: "'u uint256_ops \<Rightarrow> liquidityPool \<Rightarrow> nat \<Rightarrow> int \<Rightarrow> int \<Rightarrow> pool_error + int" where
  "makeTrade U pool asset tradeType amount =
     (if lp_Type (pool_entry pool) \<noteq> 0 then Inl errBadPoolType
      else case lp_ConstantProduct (pool_entry pool) of
          None \<Rightarrow> Inl NilPool
        | Some details \<Rightarrow>
            if amount \<le> 0 then Inl errBadAmount
            else
              (let (X, Y) = (if pool_assetA pool \<noteq> asset then (cp_ReserveB details, cp_ReserveA details)
                             else (cp_ReserveA details, cp_ReserveB details));
                   fee = pp_Fee (cp_Params details)
               in if tradeType = tradeTypeDeposit then
                    (let (result, _, ok) = CalculatePoolPayout U X Y amount fee False
                     in if \<not> ok then Inl errPoolOverflows else Inr result)
                  else if tradeType = tradeTypeExpectation then
                    (let (result, _, ok) = CalculatePoolExpectation U X Y amount fee False
                     in if \<not> ok then Inl errPoolOverflows else Inr result)
                  else Inl errBadTradeType))"

definition getOtherAsset :: "nat \<Rightarrow> liquidityPool \<Rightarrow> nat" where
  "getOtherAsset asset pool = (if pool_assetA pool = asset then pool_assetB pool else pool_assetA pool)"

text \<open>\<^verbatim>\<open>MustConstantProduct\<close> panics on a pool without a body: \<open>None\<close>.\<close>

definition getPoolAssets :: "LiquidityPoolEntry \<Rightarrow> (Asset \<times> Asset) option" where
  "getPoolAssets pool =
     (case lp_ConstantProduct pool of
        None \<Rightarrow> None
      | Some cp \<Rightarrow> Some (pp_AssetA (cp_Params cp), pp_AssetB (cp_Params cp)))"

section \<open>The 256-bit integers\<close>

text \<open>What the code relies on of \<^verbatim>\<open>uint256\<close>: unsigned arithmetic modulo \<open>2\<^sup>2\<^sup>5\<^sup>6\<close>.\<close>

locale uint256 =
  fixes U :: "'u uint256_ops" and uval :: "'u \<Rightarrow> int"
  assumes uval_range: "0 \<le> uval a" "uval a < 2 ^ 256"
    and uval_NewInt: "0 \<le> n \<Longrightarrow> n < 2 ^ 64 \<Longrightarrow> uval (u_NewInt U n) = n"
    and uval_Add: "uval (u_Add U a b) = (uval a + uval b) mod 2 ^ 256"
    and uval_Sub: "uval (u_Sub U a b) = (uval a - uval b) mod 2 ^ 256"
    and uval_Mul: "uval (u_Mul U a b) = (uval a * uval b) mod 2 ^ 256"
    and uval_Div: "uval (u_Div U a b) = (if uval b = 0 then 0 else uval a div uval b)"
    and uval_Mod: "uval (u_Mod U a b) = (if uval b = 0 then 0 else uval a mod uval b)"
    and uval_Abs: "uval (u_Abs U a) = (if uval a < 2 ^ 255 then uval a else 2 ^ 256 - uval a)"
    and uval_AddUint64: "0 \<le> n \<Longrightarrow> n < 2 ^ 64 \<Longrightarrow> uval (u_AddUint64 U a n) = (uval a + n) mod 2 ^ 256"
    and IsZero_iff: "u_IsZero U a \<longleftrightarrow> uval a = 0"
    and IsUint64_iff: "u_IsUint64 U a \<longleftrightarrow> uval a < 2 ^ 64"
    and uval_Uint64: "u_Uint64 U a = uval a mod 2 ^ 64"
begin

lemma payout_exact:
  assumes A: "0 \<le> A" "A \<le> MaxInt64" and B: "0 \<le> B" "B \<le> MaxInt64" and x: "0 \<le> x" "x \<le> MaxInt64"
    and fee: "0 \<le> fee" "fee \<le> 10000"
  shows "CalculatePoolPayout U A B x fee False =
    (if A + x > MaxInt64 \<or> A * 10000 + x * (10000 - fee) = 0 then (0, 0, False)
     else ((B * x * (10000 - fee)) div (A * 10000 + x * (10000 - fee)), 0, True))"
proof -
  define f where "f = 10000 - fee"
  have f: "0 \<le> f" "f \<le> 10000" using fee by (simp_all add: f_def)
  have u: "uval (u_NewInt U (u64 a)) = a" if "0 \<le> a" "a \<le> MaxInt64" for a
    using that by (simp add: u64_id MaxInt64_def uval_NewInt)
  have fee64: "uval (u_NewInt U (u64 fee)) = fee" using fee by (intro u) (simp_all add: MaxInt64_def)
  have c: "uval (u_NewInt U 10000) = 10000" by (simp add: uval_NewInt)
  define uf where "uf = u_Sub U (u_NewInt U 10000) (u_NewInt U (u64 fee))"
  have uf: "uval uf = f" using f by (simp add: uf_def uval_Sub c fee64 f_def)
  have M: "0 \<le> MaxInt64" by (simp add: MaxInt64_def)
  have bA: "A * 10000 \<le> MaxInt64 * 10000" using A by simp
  have bx: "x * f \<le> MaxInt64 * 10000" "0 \<le> x * f" using x f M by (auto intro!: mult_mono)
  define d where "d = u_Add U (u_Mul U (u_NewInt U (u64 A)) (u_NewInt U 10000)) (u_Mul U (u_NewInt U (u64 x)) uf)"
  have d: "uval d = A * 10000 + x * f"
    using A x f bA bx by (simp add: d_def uval_Add uval_Mul u c uf MaxInt64_def)
  have "B * x \<le> MaxInt64 * MaxInt64" using B x M by (intro mult_mono) simp_all
  then have bB: "B * x * f \<le> MaxInt64 * MaxInt64 * 10000" "0 \<le> B * x * f"
    using B x f M by (auto intro!: mult_mono)
  have Bx: "0 \<le> B * x" using B x by simp
  define n where "n = u_Mul U (u_Mul U (u_NewInt U (u64 B)) (u_NewInt U (u64 x))) uf"
  have n: "uval n = B * x * f"
    using \<open>B * x \<le> MaxInt64 * MaxInt64\<close> bB Bx B x by (simp add: n_def uval_Mul u uf MaxInt64_def)
  have guard: "x > s64 (MaxInt64 - A) \<longleftrightarrow> A + x > MaxInt64"
    using A by (subst s64_id) (auto simp: int_width)
  have unfold: "CalculatePoolPayout U A B x fee False =
      (if A + x > MaxInt64 \<or> uval d = 0 then (0, 0, False)
       else (s64 (u_Uint64 U (u_Div U n d)), 0, u_IsUint64 U (u_Div U n d) \<and> s64 (u_Uint64 U (u_Div U n d)) \<ge> 0))"
    by (simp add: CalculatePoolPayout_def Let_def guard IsZero_iff d_def n_def uf_def)
  show ?thesis
  proof (cases "A + x > MaxInt64 \<or> A * 10000 + x * f = 0")
    case True
    then show ?thesis by (auto simp: unfold d f_def)
  next
    case False
    then have dpos: "0 < A * 10000 + x * f" using A bx(2) by linarith
    define q where "q = (B * x * f) div (A * 10000 + x * f)"
    have "B * x * f \<le> B * (A * 10000 + x * f)" using A B by (simp add: distrib_left)
    then have "q \<le> (B * (A * 10000 + x * f)) div (A * 10000 + x * f)" unfolding q_def using dpos by (rule zdiv_mono1)
    also have "\<dots> = B" using dpos by simp
    finally have "q \<le> B" .
    moreover have "0 \<le> q" unfolding q_def using bB dpos by (simp add: pos_imp_zdiv_nonneg_iff)
    ultimately have q: "0 \<le> q" "q \<le> MaxInt64" using B by simp_all
    have "uval (u_Div U n d) = q" using dpos by (simp add: uval_Div n d q_def)
    with False q dpos show ?thesis
      by (simp add: unfold d IsUint64_iff uval_Uint64 s64_id int_width q_def f_def)
  qed
qed

lemma expectation_exact:
  assumes A: "0 \<le> A" "A \<le> MaxInt64" and B: "0 \<le> B" "B \<le> MaxInt64" and y: "0 \<le> y"
    and fee: "0 \<le> fee" "fee \<le> 10000"
  shows "CalculatePoolExpectation U A B y fee False =
    (if y \<ge> B \<or> fee = 10000 then (0, 0, False)
     else (let x = ceil_div (A * y * 10000) ((B - y) * (10000 - fee))
           in (s64 (x mod 2 ^ 64), 0, x \<le> MaxInt64)))"
proof -
  define f where "f = 10000 - fee"
  have f: "0 \<le> f" "f \<le> 10000" using fee by (simp_all add: f_def)
  have M: "0 \<le> MaxInt64" by (simp add: MaxInt64_def)
  have u: "uval (u_NewInt U (u64 a)) = a" if "0 \<le> a" "a \<le> MaxInt64" for a
    using that by (simp add: u64_id MaxInt64_def uval_NewInt)
  have fee64: "uval (u_NewInt U (u64 fee)) = fee" using fee by (intro u) (simp_all add: MaxInt64_def)
  have c: "uval (u_NewInt U 10000) = 10000" by (simp add: uval_NewInt)
  define uf where "uf = u_Sub U (u_NewInt U 10000) (u_NewInt U (u64 fee))"
  have uf: "uval uf = f" using f by (simp add: uf_def uval_Sub c fee64 f_def)
  define d where "d = u_Mul U (u_Sub U (u_NewInt U (u64 B)) (u_NewInt U (u64 y))) uf"
  define n where "n = u_Mul U (u_Mul U (u_NewInt U (u64 A)) (u_NewInt U (u64 y))) (u_NewInt U 10000)"
  define q where "q = u_Div U n d"
  define r where "r = (if u_IsZero U (u_Mod U n d) then q else u_AddUint64 U q 1)"
  have unfold: "CalculatePoolExpectation U A B y fee False =
      (if y \<ge> B \<or> uval d = 0 then (0, 0, False)
       else (s64 (u_Uint64 U r), 0, u_IsUint64 U r \<and> s64 (u_Uint64 U r) \<ge> 0))"
    by (simp add: CalculatePoolExpectation_def Let_def IsZero_iff d_def n_def uf_def q_def r_def)
  show ?thesis
  proof (cases "y \<ge> B")
    case False
    then have yb: "y \<le> MaxInt64" "0 < B - y" "B - y \<le> MaxInt64" using B y by simp_all
    have "(B - y) * f \<le> MaxInt64 * 10000" "0 \<le> (B - y) * f" using yb f M by (auto intro!: mult_mono)
    then have d: "uval d = (B - y) * f"
      using yb B y f by (simp add: d_def uval_Mul uval_Sub u uf MaxInt64_def)
    have ay: "A * y \<le> MaxInt64 * MaxInt64" "0 \<le> A * y" using A y yb M by (auto intro!: mult_mono)
    then have n: "uval n = A * y * 10000"
      using A y yb by (simp add: n_def uval_Mul u c MaxInt64_def)
    show ?thesis
    proof (cases "f = 0")
      case True
      then have "fee = 10000" "uval d = 0" by (simp_all add: f_def d)
      then show ?thesis using unfold by simp
    next
      case fpos: False
      then have dpos: "0 < (B - y) * f" using yb f by simp
      let ?x = "ceil_div (A * y * 10000) ((B - y) * f)"
      have x: "?x = (if uval n mod uval d = 0 then uval n div uval d else uval n div uval d + 1)"
        unfolding n d by (rule ceil_div_cases [OF dpos])
      have qb: "0 \<le> uval n div uval d" "uval n div uval d \<le> uval n"
        using dpos ay zdiv_mono2 [of "uval n" 1 "uval d"] by (simp_all add: n d pos_imp_zdiv_nonneg_iff)
      have "uval n \<le> MaxInt64 * MaxInt64 * 10000" using ay by (simp add: n)
      then have small: "uval n div uval d + 1 < 2 ^ 256" using qb(2) by (simp add: MaxInt64_def)
      have dne: "uval d \<noteq> 0" using dpos by (simp only: d)
      have r: "uval r = ?x"
        unfolding x r_def q_def using qb small dne
        by (simp add: IsZero_iff uval_Mod uval_Div uval_AddUint64)
      have xn: "0 \<le> ?x" using dpos ay by (intro ceil_div_nonneg) simp_all
      have "(?x < 2 ^ 64 \<and> s64 (?x mod 2 ^ 64) \<ge> 0) \<longleftrightarrow> ?x \<le> MaxInt64"
        using xn s64_nonneg_iff [of ?x] by (cases "?x < 2 ^ 64") (auto simp: MaxInt64_def)
      then show ?thesis
        using False fpos dpos by (simp add: unfold d uval_Uint64 IsUint64_iff r f_def Let_def)
    qed
  qed (simp add: unfold)
qed

end

text \<open>The library's integers as 256-bit words.\<close>

definition uint256_word :: "256 word uint256_ops" where
  "uint256_word =
     \<lparr>u_NewInt = word_of_int, u_Add = (+), u_Sub = (-), u_Mul = (*), u_Div = (div),
      u_Mod = (\<lambda>a b. if b = 0 then 0 else a mod b), u_Abs = (\<lambda>a. if a < 2 ^ 255 then a else - a),
      u_AddUint64 = (\<lambda>a n. a + word_of_int n), u_IsZero = (\<lambda>a. a = 0),
      u_IsUint64 = (\<lambda>a. a < 2 ^ 64), u_Uint64 = (\<lambda>a. uint (take_bit 64 a))\<rparr>"

interpretation uint256_word: uint256 uint256_word uint
proof
  fix a b :: "256 word" and n :: int
  show "0 \<le> uint a" "uint a < 2 ^ 256" using uint_lt2p [of a] by simp_all
  show "0 \<le> n \<Longrightarrow> n < 2 ^ 64 \<Longrightarrow> uint (u_NewInt uint256_word n) = n"
    by (simp add: uint256_word_def uint_word_of_int)
  show "uint (u_Add uint256_word a b) = (uint a + uint b) mod 2 ^ 256"
    "uint (u_Sub uint256_word a b) = (uint a - uint b) mod 2 ^ 256"
    "uint (u_Mul uint256_word a b) = uint a * uint b mod 2 ^ 256"
    by (simp_all add: uint256_word_def uint_word_ariths)
  have z: "uint b = 0 \<longleftrightarrow> b = 0" by (simp add: uint_0_iff)
  show "uint (u_Div uint256_word a b) = (if uint b = 0 then 0 else uint a div uint b)"
    "uint (u_Mod uint256_word a b) = (if uint b = 0 then 0 else uint a mod uint b)"
    by (simp_all add: uint256_word_def uint_div uint_mod z)
  have "a < 2 ^ 255 \<longleftrightarrow> uint a < 2 ^ 255" by (simp add: word_less_def)
  moreover have "\<not> uint a < 2 ^ 255 \<Longrightarrow> uint (- a) = 2 ^ 256 - uint a"
    using uint_lt2p [of a] by (auto simp: uint_word_ariths zmod_zminus1_eq_if)
  ultimately show "uint (u_Abs uint256_word a) = (if uint a < 2 ^ 255 then uint a else 2 ^ 256 - uint a)"
    by (simp add: uint256_word_def)
  show "0 \<le> n \<Longrightarrow> n < 2 ^ 64 \<Longrightarrow> uint (u_AddUint64 uint256_word a n) = (uint a + n) mod 2 ^ 256"
    by (simp add: uint256_word_def uint_word_ariths uint_word_of_int)
  show "u_IsZero uint256_word a \<longleftrightarrow> uint a = 0" by (simp add: uint256_word_def uint_0_iff)
  show "u_IsUint64 uint256_word a \<longleftrightarrow> uint a < 2 ^ 64" by (simp add: uint256_word_def word_less_def)
  show "u_Uint64 uint256_word a = uint a mod 2 ^ 64"
    by (simp only: uint256_word_def uint256_ops.simps unsigned_take_bit_eq) (rule take_bit_eq_mod)
qed

section \<open>Properties\<close>

text \<open>
  C25. The payout of a pool is the floor of the formula of the comment, with no overflow anywhere in
  the 256-bit computation; it never exceeds the reserve, and is smaller than it if neither reserve is empty. The constant product never
  decreases: the pool does not lose value by rounding or fees. The calculation refuses exactly
  the deposits that would overflow the reserve, and those for which the denominator of the formula is zero: nothing, or anything at a
  fee of 100%, into an empty reserve.
\<close>

theorem CalculatePoolPayout_sound:
  assumes "uint256 U uval"
    and "0 \<le> A" "A \<le> MaxInt64" "0 \<le> B" "B \<le> MaxInt64" "0 \<le> x" "x \<le> MaxInt64" "0 \<le> fee" "fee \<le> 10000"
  shows "(A + x > MaxInt64 \<or> A * 10000 + x * (10000 - fee) = 0 \<longrightarrow>
      CalculatePoolPayout U A B x fee False = (0, 0, False)) \<and>
    (A + x \<le> MaxInt64 \<longrightarrow> A * 10000 + x * (10000 - fee) \<noteq> 0 \<longrightarrow>
      (\<exists>y. CalculatePoolPayout U A B x fee False = (y, 0, True) \<and>
         y = \<lfloor>(of_int (B * x * (10000 - fee)) / of_int (A * 10000 + x * (10000 - fee)) :: rat)\<rfloor> \<and>
         0 \<le> y \<and> y \<le> B \<and> (0 < A \<longrightarrow> 0 < B \<longrightarrow> y < B) \<and> A * B \<le> (A + x) * (B - y)))"
proof -
  define f where "f = 10000 - fee"
  note exact = uint256.payout_exact [OF assms, folded f_def]
  have f: "0 \<le> f" "f \<le> 10000" using assms by (simp_all add: f_def)
  define y where "y = (B * x * f) div (A * 10000 + x * f)"
  have main: "0 \<le> y \<and> y \<le> B \<and> (0 < A \<longrightarrow> 0 < B \<longrightarrow> y < B) \<and> A * B \<le> (A + x) * (B - y)" if "A * 10000 + x * f \<noteq> 0"
  proof -
    have xf: "0 \<le> x * f" "x * f \<le> x * 10000" using f assms by (auto intro: mult_left_mono)
    then have pos: "0 < A * 10000 + x * f" using that assms(2) by linarith
    have nn: "0 \<le> B * x * f" using f assms by simp
    have y0: "0 \<le> y" using pos nn by (simp add: y_def pos_imp_zdiv_nonneg_iff)
    have le: "y * (A * 10000 + x * f) \<le> B * x * f"
      using le_div_iff_int [OF pos, of y "B * x * f"] by (simp add: y_def)
    have "B * x * f \<le> B * (A * 10000 + x * f)" using assms by (simp add: distrib_left)
    with le have "y * (A * 10000 + x * f) \<le> B * (A * 10000 + x * f)" by simp
    then have yB: "y \<le> B" using pos by simp
    have "y * A * 10000 \<le> (B - y) * (x * f)" using le by (simp add: algebra_simps)
    also have "\<dots> \<le> (B - y) * (x * 10000)" using yB by (intro mult_left_mono [OF xf(2)]) simp
    finally have "y * A \<le> (B - y) * x" by simp
    then have "A * B \<le> (A + x) * (B - y)" by (simp add: algebra_simps)
    moreover have "y \<noteq> B" if "0 < A" "0 < B"
    proof
      assume "y = B"
      with le have "B * A * 10000 \<le> 0" by (simp add: algebra_simps)
      moreover have "0 < B * A" using that by simp
      ultimately show False by (simp add: mult.commute)
    qed
    ultimately show ?thesis using y0 yB by auto
  qed
  have fl: "\<lfloor>(of_int (B * x * f) / of_int (A * 10000 + x * f) :: rat)\<rfloor> = y"
    unfolding y_def by (rule floor_divide_of_int_eq)
  show ?thesis
    unfolding f_def [symmetric] fl using exact main by (auto simp: y_def)
qed

theorem CalculatePoolPayout_sound_witness:
  "uint256 uint256_word uint \<and> CalculatePoolPayout uint256_word 1000 2000 100 30 False = (181, 0, True)"
proof -
  have "uint256 uint256_word uint" by (rule uint256_word.uint256_axioms)
  with CalculatePoolPayout_sound [of uint256_word uint 1000 2000 100 30] show ?thesis
    by (auto simp: MaxInt64_def floor_eq_iff)
qed

text \<open>
  C24. The two directions of a trade agree: the deposit that \<^verbatim>\<open>CalculatePoolExpectation\<close> asks for
  \<open>y\<close> is the least deposit whose payout is at least \<open>y\<close>. (So it is enough, and one unit less
  is not.) Its result is refused exactly when the reserve cannot disburse \<open>y\<close> or the deposit
  exceeds 64 bits.
\<close>

theorem CalculatePoolExpectation_least_deposit:
  assumes "uint256 U uval"
    and "0 \<le> A" "A \<le> MaxInt64" "0 \<le> B" "B \<le> MaxInt64" "0 \<le> y" "y < B" "0 \<le> fee" "fee < 10000"
    and "0 \<le> x" "A + x \<le> MaxInt64" "0 < A + x"
    and "CalculatePoolPayout U A B x fee False = (payout, s, ok)"
  shows "\<exists>least. CalculatePoolExpectation U A B y fee False = (s64 (least mod 2 ^ 64), 0, least \<le> MaxInt64) \<and>
    ok \<and> 0 \<le> least \<and> (y \<le> payout \<longleftrightarrow> least \<le> x)"
proof -
  define f where "f = 10000 - fee"
  have f: "0 < f" using assms by (simp add: f_def)
  define least where "least = ceil_div (A * y * 10000) ((B - y) * f)"
  have dpos: "0 < (B - y) * f" using f assms by simp
  have "0 \<le> x * f" using f assms by simp
  then have pos: "0 < A * 10000 + x * f"
    using f assms by (cases "x = 0") (auto intro: add_nonneg_pos add_pos_nonneg)
  have e: "CalculatePoolExpectation U A B y fee False = (s64 (least mod 2 ^ 64), 0, least \<le> MaxInt64)"
    using uint256.expectation_exact [OF assms(1-6), of fee] assms by (simp add: Let_def least_def f_def)
  have p: "payout = (B * x * f) div (A * 10000 + x * f)" "ok"
    using uint256.payout_exact [OF assms(1-5), of x fee] assms pos by (simp_all add: f_def)
  have "y \<le> payout \<longleftrightarrow> y * (A * 10000 + x * f) \<le> B * x * f"
    unfolding p(1) by (rule le_div_iff_int [OF pos])
  also have "\<dots> \<longleftrightarrow> A * y * 10000 \<le> x * ((B - y) * f)" by (simp add: algebra_simps)
  also have "\<dots> \<longleftrightarrow> least \<le> x" unfolding least_def by (rule ceil_div_le_iff [OF dpos, symmetric])
  finally have "y \<le> payout \<longleftrightarrow> least \<le> x" .
  moreover have "0 \<le> least" unfolding least_def using dpos assms by (intro ceil_div_nonneg) simp_all
  ultimately show ?thesis using e p(2) by blast
qed

theorem CalculatePoolExpectation_least_deposit_witness:
  "\<exists>least. CalculatePoolExpectation uint256_word 1000 2000 181 30 False = (s64 (least mod 2 ^ 64), 0, least \<le> MaxInt64) \<and>
     least \<le> 100"
proof -
  have u: "uint256 uint256_word uint" by (rule uint256_word.uint256_axioms)
  have "CalculatePoolPayout uint256_word 1000 2000 100 30 False = (181, 0, True)"
    using uint256.payout_exact [OF u, of 1000 2000 100 30] by (simp add: MaxInt64_def)
  with CalculatePoolExpectation_least_deposit [OF u, of 1000 2000 181 30 100] show ?thesis
    by (auto simp: MaxInt64_def)
qed

text \<open>
  The example in the comments of both calculations (a deposit of 3 rounded up from about 2.03,
  a slippage of 47.78 percent, 4778 basis points) gives 48: the code returns percents.
\<close>

theorem CalculatePoolExpectation_slippage_percent:
  "CalculatePoolExpectation uint256_word 200 300 3 30 True = (3, 48, True)"
  by (simp add: CalculatePoolExpectation_def poolSlippage_def uint256_word_def Let_def u64_def s64_def)

end
