(* ===== verification/Edges.thy ===== *)
theory Edges
  imports Pools
begin

text \<open>
  The adjacency sets of the order book graph (\<^verbatim>\<open>src/exp/orderbook/edges.go\<close>; the types \<^verbatim>\<open>Venues\<close> of
  \<^verbatim>\<open>search.go\<close> and \<^verbatim>\<open>xdr.OfferEntry\<close>). An edge set maps the ID of a neighbouring asset to a venue: a list
  of offers sorted by price and possibly a pool; a pool is absent when its body pointer is nil.

  The locale \<open>venue_table\<close> is the contract between the edge sets and the graph: which venue a
  lookup finds after each operation. The edge sets implement it (\<open>edges\<close> below).
\<close>

section \<open>The model\<close>

record OfferEntry =
  of_SellerId :: AccountId
  of_OfferId :: int
  of_Selling :: Asset
  of_Buying :: Asset
  of_Amount :: int
  of_Price :: xdr_Price
  of_Flags :: int

definition emptyPool :: liquidityPool where
  "emptyPool = \<lparr>pool_entry = \<lparr>lp_LiquidityPoolId = 0, lp_Type = 0, lp_ConstantProduct = None\<rparr>,
                pool_assetA = 0, pool_assetB = 0\<rparr>"

definition hasPool :: "liquidityPool \<Rightarrow> bool" where
  "hasPool pool \<longleftrightarrow> lp_ConstantProduct (pool_entry pool) \<noteq> None"

record Venues =
  v_offers :: "OfferEntry list"
  v_pool :: liquidityPool

record edge =
  e_key :: nat
  e_value :: Venues
  e_reallocate :: bool

type_synonym edgeSet = "edge list"

text \<open>\<open>None\<close> is the result -1.\<close>

fun find_edge_from :: "nat \<Rightarrow> edgeSet \<Rightarrow> nat \<Rightarrow> nat option" where
  "find_edge_from i [] key = None"
| "find_edge_from i (x # xs) key = (if e_key x = key then Some i else find_edge_from (Suc i) xs key)"

definition edge_find :: "edgeSet \<Rightarrow> nat \<Rightarrow> nat option" where
  "edge_find e key = find_edge_from 0 e key"

definition insertIndex :: "OfferEntry list \<Rightarrow> OfferEntry \<Rightarrow> nat" where
  "insertIndex offers offer = sort_Search (length offers) (\<lambda>j. Cheaper (of_Price offer) (of_Price (offers ! j)))"

definition edge_addOffer :: "edgeSet \<Rightarrow> nat \<Rightarrow> OfferEntry \<Rightarrow> edgeSet" where
  "edge_addOffer e key offer =
     (case edge_find e key of
        None \<Rightarrow> e @ [\<lparr>e_key = key, e_value = \<lparr>v_offers = [offer], v_pool = emptyPool\<rparr>, e_reallocate = False\<rparr>]
      | Some i \<Rightarrow>
          (let offers = v_offers (e_value (e ! i));
               offers' = slices_Insert offers (insertIndex offers offer) offer
           in e[i := (e ! i)\<lparr>e_value := \<lparr>v_offers = offers', v_pool = v_pool (e_value (e ! i))\<rparr>\<rparr>]))"

definition edge_addPool :: "edgeSet \<Rightarrow> nat \<Rightarrow> liquidityPool \<Rightarrow> edgeSet" where
  "edge_addPool e key pool =
     (case edge_find e key of
        None \<Rightarrow> e @ [\<lparr>e_key = key, e_value = \<lparr>v_offers = [], v_pool = pool\<rparr>, e_reallocate = False\<rparr>]
      | Some i \<Rightarrow> e[i := (e ! i)\<lparr>e_value := (e_value (e ! i))\<lparr>v_pool := pool\<rparr>\<rparr>])"

text \<open>The index of the first offer with the given ID.\<close>

fun offer_index :: "nat \<Rightarrow> OfferEntry list \<Rightarrow> int \<Rightarrow> nat option" where
  "offer_index i [] offerID = None"
| "offer_index i (x # xs) offerID =
     (if of_OfferId x \<noteq> offerID then offer_index (Suc i) xs offerID else Some i)"

definition edge_removeOffer :: "edgeSet \<Rightarrow> nat \<Rightarrow> int \<Rightarrow> edgeSet \<times> bool" where
  "edge_removeOffer e key offerID =
     (case edge_find e key of
        None \<Rightarrow> (e, False)
      | Some i \<Rightarrow>
          (let offers = v_offers (e_value (e ! i)) in
           case offer_index 0 offers offerID of
             None \<Rightarrow> (e, False)
           | Some j \<Rightarrow>
               (let updatedOffers = slices_Delete offers j in
                if updatedOffers = [] \<and> \<not> hasPool (v_pool (e_value (e ! i))) then (slices_Delete e i, True)
                else (e[i := (e ! i)\<lparr>e_value := (e_value (e ! i))\<lparr>v_offers := updatedOffers\<rparr>, e_reallocate := True\<rparr>],
                      True))))"

definition edge_removePool :: "edgeSet \<Rightarrow> nat \<Rightarrow> edgeSet" where
  "edge_removePool e key =
     (case edge_find e key of
        None \<Rightarrow> e
      | Some i \<Rightarrow>
          if v_offers (e_value (e ! i)) = [] then slices_Delete e i
          else e[i := (e ! i)\<lparr>e_value := \<lparr>v_offers = v_offers (e_value (e ! i)), v_pool = emptyPool\<rparr>\<rparr>])"

text \<open>
  \<^verbatim>\<open>reallocate\<close> copies the offers of the marked edges to a new array and clears the mark; the
  values stay the same.
\<close>

definition edge_reallocate :: "edgeSet \<Rightarrow> edgeSet" where
  "edge_reallocate e = map (\<lambda>x. if e_reallocate x then x\<lparr>e_reallocate := False\<rparr> else x) e"

section \<open>Offer lists\<close>

definition insert_offer :: "OfferEntry \<Rightarrow> OfferEntry list \<Rightarrow> OfferEntry list" where
  "insert_offer offer offers = slices_Insert offers (insertIndex offers offer) offer"

fun remove_offer :: "int \<Rightarrow> OfferEntry list \<Rightarrow> OfferEntry list" where
  "remove_offer oid [] = []"
| "remove_offer oid (x # xs) = (if of_OfferId x = oid then xs else x # remove_offer oid xs)"

definition valid_price :: "xdr_Price \<Rightarrow> bool" where
  "valid_price p \<longleftrightarrow> 0 < price_N p \<and> price_N p \<le> MaxInt32 \<and> 0 < price_D p \<and> price_D p \<le> MaxInt32"

definition offers_sorted :: "OfferEntry list \<Rightarrow> bool" where
  "offers_sorted offers \<longleftrightarrow> sorted_wrt (\<lambda>a b. \<not> Cheaper (of_Price b) (of_Price a)) offers"

lemma offer_index_None: "offer_index i xs oid = None \<longleftrightarrow> oid \<notin> of_OfferId ` set xs"
  by (induction xs arbitrary: i) auto

lemma offer_index_Some:
  "offer_index i xs oid = Some j \<Longrightarrow> i \<le> j \<and> slices_Delete xs (j - i) = remove_offer oid xs"
proof (induction xs arbitrary: i)
  case (Cons x xs)
  show ?case
  proof (cases "of_OfferId x = oid")
    case False
    then have "Suc i \<le> j \<and> slices_Delete xs (j - Suc i) = remove_offer oid xs" using Cons by simp
    moreover from this have "j - i = Suc (j - Suc i)" by linarith
    ultimately show ?thesis using False by (auto simp: slices_Delete_def)
  qed (use Cons.prems in \<open>auto simp: slices_Delete_def\<close>)
qed simp

lemma remove_offer_distinct:
  "distinct (map of_OfferId xs) \<Longrightarrow> remove_offer oid xs = filter (\<lambda>x. of_OfferId x \<noteq> oid) xs"
proof (induction xs)
  case (Cons x xs)
  then show ?case by (auto intro!: filter_True [symmetric] simp: image_iff)
qed simp

lemma remove_offer_absent: "oid \<notin> of_OfferId ` set xs \<Longrightarrow> remove_offer oid xs = xs"
  by (induction xs) auto

lemma set_insert_offer [simp]: "set (insert_offer x xs) = insert x (set xs)"
  by (simp add: insert_offer_def)

lemma distinct_insert_offer:
  "distinct (map of_OfferId (insert_offer x xs)) \<longleftrightarrow> of_OfferId x \<notin> of_OfferId ` set xs \<and> distinct (map of_OfferId xs)"
proof -
  let ?i = "insertIndex xs x"
  have "distinct (map of_OfferId (insert_offer x xs)) \<longleftrightarrow> distinct (of_OfferId x # map of_OfferId (take ?i xs @ drop ?i xs))"
    unfolding insert_offer_def slices_Insert_def map_append list.map
    by (auto simp: distinct_append simp del: append_take_drop_id)
  then show ?thesis by simp
qed

text \<open>For valid prices \<^verbatim>\<open>Cheaper\<close> is the order of the rational values.\<close>

definition price_rat :: "xdr_Price \<Rightarrow> rat" where
  "price_rat p = of_int (price_N p) / of_int (price_D p)"

lemma Cheaper_rat: "valid_price p \<Longrightarrow> valid_price q \<Longrightarrow> Cheaper p q \<longleftrightarrow> price_rat p < price_rat q"
  unfolding valid_price_def price_rat_def by (simp add: Cheaper_value)

lemma offers_sorted_rat:
  "\<forall>x \<in> set xs. valid_price (of_Price x) \<Longrightarrow> offers_sorted xs \<longleftrightarrow> sorted (map (price_rat \<circ> of_Price) xs)"
  unfolding offers_sorted_def sorted_map
  by (intro iffI; rule sorted_wrt_mono_rel; force simp: Cheaper_rat)

lemma insert_offer_sorted:
  assumes valid: "valid_price (of_Price x)" "\<forall>y \<in> set xs. valid_price (of_Price y)"
    and sorted: "offers_sorted xs"
  shows "offers_sorted (insert_offer x xs)"
proof -
  let ?r = "\<lambda>x. price_rat (of_Price x)"
  let ?f = "\<lambda>j. Cheaper (of_Price x) (of_Price (xs ! j))" and ?i = "insertIndex xs x"
  have f: "?f j \<longleftrightarrow> ?r x < ?r (xs ! j)" if "j < length xs" for j
    using valid that by (simp add: Cheaper_rat)
  have le: "?r (xs ! a) \<le> ?r (xs ! b)" if "a \<le> b" "b < length xs" for a b
    using sorted that offers_sorted_rat [OF valid(2)] by (auto simp: sorted_iff_nth_mono)
  have mono: "?f b" if "?f a" "a \<le> b" "b < length xs" for a b
    using that f le [of a b] by fastforce
  have search: "\<not> ?f k" if "k < ?i" for k
    using that unfolding insertIndex_def by - (rule sort_Search_correct(2) [of ?f "length xs"], rule mono)
  have search': "?f k" if "?i \<le> k" "k < length xs" for k
    using that unfolding insertIndex_def by - (rule sort_Search_correct(3) [of ?f "length xs"], rule mono)
  have low: "?r y \<le> ?r x" if y: "y \<in> set (take ?i xs)" for y
  proof -
    obtain k where k: "k < ?i" "k < length xs" "y = xs ! k" using y by (auto simp: in_set_conv_nth)
    show ?thesis using search [OF k(1)] f [OF k(2)] k(3) by simp
  qed
  have high: "?r x \<le> ?r y" if y: "y \<in> set (drop ?i xs)" for y
  proof -
    obtain k where k: "k < length xs - ?i" "y = xs ! (?i + k)" using y by (auto simp: in_set_conv_nth)
    then have l: "?i + k < length xs" by simp
    show ?thesis using search' [OF le_add1 l] f [OF l] k by simp
  qed
  have "sorted (map ?r xs)" using sorted offers_sorted_rat [OF valid(2)] by (simp add: comp_def)
  then have "sorted (map ?r (take ?i xs) @ map ?r (drop ?i xs))" by (simp flip: map_append)
  then have "sorted (map ?r (insert_offer x xs))"
    using low high by (auto simp: insert_offer_def slices_Insert_def sorted_append)
  moreover have "\<forall>y \<in> set (insert_offer x xs). valid_price (of_Price y)" using valid by simp
  ultimately show ?thesis using offers_sorted_rat [of "insert_offer x xs"] by (simp add: comp_def)
qed

lemma remove_offer_subset: "set (remove_offer oid xs) \<subseteq> set xs"
  by (induction xs) auto

lemma offers_sorted_remove: "offers_sorted xs \<Longrightarrow> offers_sorted (remove_offer oid xs)"
  using remove_offer_subset by (induction xs) (auto simp: offers_sorted_def)

section \<open>The contract of the edge sets\<close>

definition emptyVenues :: Venues where
  "emptyVenues = \<lparr>v_offers = [], v_pool = emptyPool\<rparr>"

locale venue_table =
  fixes lookup :: "'t \<Rightarrow> nat \<Rightarrow> Venues" and inv :: "'t \<Rightarrow> bool"
    and empty :: 't and isEmpty :: "'t \<Rightarrow> bool"
    and addOffer :: "'t \<Rightarrow> nat \<Rightarrow> OfferEntry \<Rightarrow> 't" and addPool :: "'t \<Rightarrow> nat \<Rightarrow> liquidityPool \<Rightarrow> 't"
    and removeOffer :: "'t \<Rightarrow> nat \<Rightarrow> int \<Rightarrow> 't \<times> bool" and removePool :: "'t \<Rightarrow> nat \<Rightarrow> 't"
  assumes inv_empty: "inv empty" and lookup_empty: "lookup empty k = emptyVenues"
    and isEmpty_iff: "inv t \<Longrightarrow> isEmpty t \<longleftrightarrow> (\<forall>k. lookup t k = emptyVenues)"
    and addOffer: "inv t \<Longrightarrow> inv (addOffer t k x) \<and>
      lookup (addOffer t k x) = (lookup t)(k := (lookup t k)\<lparr>v_offers := insert_offer x (v_offers (lookup t k))\<rparr>)"
    and addPool: "inv t \<Longrightarrow> hasPool p \<Longrightarrow> inv (addPool t k p) \<and>
      lookup (addPool t k p) = (lookup t)(k := (lookup t k)\<lparr>v_pool := p\<rparr>)"
    and removeOffer: "inv t \<Longrightarrow> removeOffer t k oid = (t', found) \<Longrightarrow> inv t' \<and>
      (found \<longleftrightarrow> oid \<in> of_OfferId ` set (v_offers (lookup t k))) \<and>
      lookup t' = (lookup t)(k := (lookup t k)\<lparr>v_offers := remove_offer oid (v_offers (lookup t k))\<rparr>)"
    and removePool: "inv t \<Longrightarrow> inv (removePool t k) \<and>
      lookup (removePool t k) = (lookup t)(k := (lookup t k)\<lparr>v_pool := emptyPool\<rparr>)"
    and no_pool: "inv t \<Longrightarrow> \<not> hasPool (v_pool (lookup t k)) \<Longrightarrow> v_pool (lookup t k) = emptyPool"
begin

lemma removeOffer_found:
  assumes "inv t" "oid \<in> of_OfferId ` set (v_offers (lookup t k))"
  obtains t' where "removeOffer t k oid = (t', True)" "inv t'"
    "lookup t' = (lookup t)(k := (lookup t k)\<lparr>v_offers := remove_offer oid (v_offers (lookup t k))\<rparr>)"
proof -
  obtain t' found where r: "removeOffer t k oid = (t', found)" by force
  from removeOffer [OF assms(1) r] assms(2) r show thesis by (intro that) auto
qed

lemma addOffer_nonempty: "inv t \<Longrightarrow> \<not> isEmpty (addOffer t k x)"
proof -
  assume t: "inv t"
  have "x \<in> set (v_offers (lookup (addOffer t k x) k))" using addOffer [OF t, of k x] by simp
  then have "lookup (addOffer t k x) k \<noteq> emptyVenues" by (auto simp: emptyVenues_def)
  then show ?thesis using isEmpty_iff addOffer [OF t, of k x] by blast
qed

lemma addPool_nonempty: "inv t \<Longrightarrow> hasPool p \<Longrightarrow> \<not> isEmpty (addPool t k p)"
proof -
  assume t: "inv t" "hasPool p"
  have "v_pool (lookup (addPool t k p) k) = p" using addPool [OF t, of k] by simp
  then have "lookup (addPool t k p) k \<noteq> emptyVenues" using t(2) by (auto simp: emptyVenues_def emptyPool_def hasPool_def)
  then show ?thesis using isEmpty_iff addPool [OF t, of k] by blast
qed

end

section \<open>Edge sets implement the contract\<close>

definition edge_lookup :: "edgeSet \<Rightarrow> nat \<Rightarrow> Venues" where
  "edge_lookup e key = (case edge_find e key of None \<Rightarrow> emptyVenues | Some i \<Rightarrow> e_value (e ! i))"

definition wf_edges :: "edgeSet \<Rightarrow> bool" where
  "wf_edges e \<longleftrightarrow> distinct (map e_key e) \<and>
     (\<forall>x \<in> set e. e_value x \<noteq> emptyVenues \<and> (\<not> hasPool (v_pool (e_value x)) \<longrightarrow> v_pool (e_value x) = emptyPool))"

lemma find_edge_from_shift: "find_edge_from i e k = map_option (\<lambda>j. j + i) (find_edge_from 0 e k)"
proof (induction e arbitrary: i)
  case (Cons x xs)
  show ?case using Cons [of "Suc i"] Cons [of 1] by (simp add: option.map_comp comp_def)
qed simp

lemma edge_find_Cons:
  "edge_find (x # xs) k = (if e_key x = k then Some 0 else map_option Suc (edge_find xs k))"
  using find_edge_from_shift [of 1 xs k] by (simp add: edge_find_def)

lemma edge_find_split:
  obtains "edge_find e k = None" "k \<notin> e_key ` set e" "edge_lookup e k = emptyVenues"
  | pre x post where "e = pre @ x # post" "edge_find e k = Some (length pre)" "e_key x = k" "k \<notin> e_key ` set pre"
    "edge_lookup e k = e_value x"
proof -
  have "edge_find e k = None \<and> k \<notin> e_key ` set e \<or>
      (\<exists>pre x post. e = pre @ x # post \<and> edge_find e k = Some (length pre) \<and> e_key x = k \<and> k \<notin> e_key ` set pre)"
  proof (induction e)
    case (Cons y ys)
    show ?case
    proof (cases "e_key y = k")
      case True
      then show ?thesis by (intro disjI2 exI [of _ "[]"] exI [of _ y] exI [of _ ys]) (simp add: edge_find_Cons)
    next
      case False
      from Cons show ?thesis
      proof
        assume "\<exists>pre x post. ys = pre @ x # post \<and> edge_find ys k = Some (length pre) \<and> e_key x = k \<and> k \<notin> e_key ` set pre"
        then obtain pre x post where "ys = pre @ x # post" "edge_find ys k = Some (length pre)" "e_key x = k" "k \<notin> e_key ` set pre"
          by blast
        with False show ?thesis
          by (intro disjI2 exI [of _ "y # pre"] exI [of _ x] exI [of _ post]) (auto simp: edge_find_Cons)
      qed (use False in \<open>auto simp: edge_find_Cons\<close>)
    qed
  qed (simp add: edge_find_def)
  then show thesis using that by (auto simp: edge_lookup_def)
qed

lemma edge_lookup_append:
  "edge_lookup (a @ b) k = (if k \<in> e_key ` set a then edge_lookup a k else edge_lookup b k)"
  by (induction a) (auto simp: edge_lookup_def edge_find_Cons split: option.splits)

lemma edge_lookup_Cons: "edge_lookup (x # xs) k = (if e_key x = k then e_value x else edge_lookup xs k)"
  by (simp add: edge_lookup_def edge_find_Cons split: option.splits)

lemma edge_lookup_Nil: "edge_lookup [] k = emptyVenues"
  by (simp add: edge_lookup_def edge_find_def)

lemma edge_lookup_absent: "k \<notin> e_key ` set e \<Longrightarrow> edge_lookup e k = emptyVenues"
  by (cases rule: edge_find_split [of e k]) auto

lemmas edge_lookup_simps = edge_lookup_append edge_lookup_Cons edge_lookup_Nil

lemma edge_lookup_replace:
  "k \<notin> e_key ` set pre \<Longrightarrow> e_key x = k \<Longrightarrow> e_key y = k \<Longrightarrow>
   edge_lookup (pre @ y # post) = (edge_lookup (pre @ x # post))(k := e_value y)"
  by (rule ext) (auto simp: edge_lookup_simps)

lemma edge_lookup_delete:
  "wf_edges (pre @ x # post) \<Longrightarrow> edge_lookup (pre @ post) = (edge_lookup (pre @ x # post))(e_key x := emptyVenues)"
  by (rule ext) (auto simp: edge_lookup_simps wf_edges_def edge_lookup_absent)

lemma wf_edges_replace:
  "wf_edges (pre @ x # post) \<Longrightarrow> e_key y = e_key x \<Longrightarrow> e_value y \<noteq> emptyVenues \<Longrightarrow>
   (hasPool (v_pool (e_value y)) \<or> v_pool (e_value y) = emptyPool) \<Longrightarrow> wf_edges (pre @ y # post)"
  by (auto simp: wf_edges_def)

lemma wf_edges_delete: "wf_edges (pre @ x # post) \<Longrightarrow> wf_edges (pre @ post)"
  by (auto simp: wf_edges_def)

lemma wf_edges_append:
  "wf_edges e \<Longrightarrow> e_key x \<notin> e_key ` set e \<Longrightarrow> e_value x \<noteq> emptyVenues \<Longrightarrow>
   (hasPool (v_pool (e_value x)) \<or> v_pool (e_value x) = emptyPool) \<Longrightarrow> wf_edges (e @ [x])"
  by (auto simp: wf_edges_def)

lemma wf_edges_pool:
  "wf_edges (pre @ x # post) \<Longrightarrow> hasPool (v_pool (e_value x)) \<or> v_pool (e_value x) = emptyPool"
  by (auto simp: wf_edges_def)

lemma insert_offer_Nil [simp]: "insert_offer x [] = [x]"
  by (simp add: insert_offer_def slices_Insert_def)

lemma insert_offer_ne [simp]: "insert_offer x xs \<noteq> []"
  by (simp add: insert_offer_def slices_Insert_def)

lemma not_hasPool_empty [simp]: "\<not> hasPool emptyPool"
  by (simp add: hasPool_def emptyPool_def)

lemma edge_lookup_new:
  "k \<notin> e_key ` set e \<Longrightarrow> e_key x = k \<Longrightarrow> edge_lookup (e @ [x]) = (edge_lookup e)(k := e_value x)"
  by (rule ext) (auto simp: edge_lookup_simps edge_lookup_absent)

lemma emptyVenues_iff: "v = emptyVenues \<longleftrightarrow> v_offers v = [] \<and> v_pool v = emptyPool"
  by (cases v) (simp add: emptyVenues_def)

lemma edge_update_contract:
  assumes "wf_edges (pre @ x # post)" "e_key x = k" "k \<notin> e_key ` set pre" "v \<noteq> emptyVenues"
    "hasPool (v_pool v) \<or> v_pool v = emptyPool"
  shows "wf_edges (pre @ x\<lparr>e_value := v, e_reallocate := r\<rparr> # post) \<and>
    edge_lookup (pre @ x\<lparr>e_value := v, e_reallocate := r\<rparr> # post) = (edge_lookup (pre @ x # post))(k := v)"
  using wf_edges_replace [OF assms(1), of "x\<lparr>e_value := v, e_reallocate := r\<rparr>"] assms(4,5)
    edge_lookup_replace [OF assms(3,2), of "x\<lparr>e_value := v, e_reallocate := r\<rparr>" post] assms(2) by simp

lemma edge_addOffer_contract:
  assumes "wf_edges e"
  shows "wf_edges (edge_addOffer e k x) \<and> edge_lookup (edge_addOffer e k x) =
    (edge_lookup e)(k := (edge_lookup e k)\<lparr>v_offers := insert_offer x (v_offers (edge_lookup e k))\<rparr>)"
proof (cases rule: edge_find_split [of e k])
  case 1
  then have "edge_addOffer e k x = e @ [\<lparr>e_key = k, e_value = \<lparr>v_offers = [x], v_pool = emptyPool\<rparr>, e_reallocate = False\<rparr>]"
    by (simp add: edge_addOffer_def)
  with 1 assms show ?thesis by (auto simp: edge_lookup_new emptyVenues_def intro!: wf_edges_append)
next
  case (2 pre y post)
  let ?v = "(e_value y)\<lparr>v_offers := insert_offer x (v_offers (e_value y))\<rparr>"
  have "edge_addOffer e k x = pre @ y\<lparr>e_value := ?v\<rparr> # post"
    using 2 by (simp add: edge_addOffer_def Let_def nth_append insert_offer_def)
  with 2 assms wf_edges_pool [of pre y post] show ?thesis
    using edge_update_contract [of pre y post k ?v "e_reallocate y"] by (simp add: emptyVenues_iff)
qed

lemma edge_addPool_contract:
  assumes "wf_edges e" "hasPool p"
  shows "wf_edges (edge_addPool e k p) \<and>
    edge_lookup (edge_addPool e k p) = (edge_lookup e)(k := (edge_lookup e k)\<lparr>v_pool := p\<rparr>)"
proof (cases rule: edge_find_split [of e k])
  case 1
  then have "edge_addPool e k p = e @ [\<lparr>e_key = k, e_value = \<lparr>v_offers = [], v_pool = p\<rparr>, e_reallocate = False\<rparr>]"
    by (simp add: edge_addPool_def)
  with 1 assms show ?thesis by (auto simp: edge_lookup_new emptyVenues_def intro!: wf_edges_append)
next
  case (2 pre y post)
  have "edge_addPool e k p = pre @ y\<lparr>e_value := (e_value y)\<lparr>v_pool := p\<rparr>\<rparr> # post"
    using 2 by (simp add: edge_addPool_def nth_append)
  moreover have "p \<noteq> emptyPool" using assms(2) by auto
  ultimately show ?thesis
    using 2 assms edge_update_contract [of pre y post k "(e_value y)\<lparr>v_pool := p\<rparr>" "e_reallocate y"]
    by (auto simp: emptyVenues_iff)
qed

lemma edge_removePool_contract:
  assumes "wf_edges e"
  shows "wf_edges (edge_removePool e k) \<and>
    edge_lookup (edge_removePool e k) = (edge_lookup e)(k := (edge_lookup e k)\<lparr>v_pool := emptyPool\<rparr>)"
proof (cases rule: edge_find_split [of e k])
  case 1
  then show ?thesis using assms by (auto simp: edge_removePool_def emptyVenues_def)
next
  case (2 pre y post)
  show ?thesis
  proof (cases "v_offers (e_value y) = []")
    case True
    then have "edge_removePool e k = pre @ post" "(e_value y)\<lparr>v_pool := emptyPool\<rparr> = emptyVenues"
      using 2 by (simp_all add: edge_removePool_def nth_append slices_Delete_append emptyVenues_def)
    with 2 assms show ?thesis
      using edge_lookup_delete [of pre y post] wf_edges_delete [of pre y post] by simp
  next
    case False
    then have "edge_removePool e k = pre @ y\<lparr>e_value := (e_value y)\<lparr>v_pool := emptyPool\<rparr>\<rparr> # post"
      using 2 by (simp add: edge_removePool_def nth_append)
    with 2 assms False show ?thesis
      using edge_update_contract [of pre y post k "(e_value y)\<lparr>v_pool := emptyPool\<rparr>" "e_reallocate y"]
      by (simp add: emptyVenues_iff)
  qed
qed

lemma edge_removeOffer_contract:
  assumes "wf_edges e" "edge_removeOffer e k oid = (e', found)"
  shows "wf_edges e' \<and> (found \<longleftrightarrow> oid \<in> of_OfferId ` set (v_offers (edge_lookup e k))) \<and>
    edge_lookup e' = (edge_lookup e)(k := (edge_lookup e k)\<lparr>v_offers := remove_offer oid (v_offers (edge_lookup e k))\<rparr>)"
proof (cases rule: edge_find_split [of e k])
  case 1
  then show ?thesis using assms by (auto simp: edge_removeOffer_def emptyVenues_def)
next
  case (2 pre y post)
  let ?os = "v_offers (e_value y)"
  show ?thesis
  proof (cases "offer_index 0 ?os oid")
    case None
    then have "oid \<notin> of_OfferId ` set ?os" by (rule offer_index_None [THEN iffD1])
    moreover have "e' = e" "\<not> found" using 2 None assms(2) by (auto simp: edge_removeOffer_def nth_append)
    ultimately show ?thesis using 2 assms(1) by (auto simp: remove_offer_absent fun_eq_iff)
  next
    case (Some j)
    then have mem: "oid \<in> of_OfferId ` set ?os" by (metis offer_index_None option.distinct(1))
    have del: "slices_Delete ?os j = remove_offer oid ?os" using offer_index_Some [OF Some] by simp
    show ?thesis
    proof (cases "remove_offer oid ?os = [] \<and> \<not> hasPool (v_pool (e_value y))")
      case True
      then have r: "e' = pre @ post" "found"
        using 2 Some assms(2) by (simp_all add: edge_removeOffer_def nth_append del slices_Delete_append)
      have "(e_value y)\<lparr>v_offers := []\<rparr> = emptyVenues"
        using True assms(1) 2 by (auto simp: wf_edges_def emptyVenues_def)
      with 2 assms r True mem show ?thesis
        using edge_lookup_delete [of pre y post] wf_edges_delete [of pre y post] by simp
    next
      case False
      then have r: "e' = pre @ y\<lparr>e_value := (e_value y)\<lparr>v_offers := remove_offer oid ?os\<rparr>, e_reallocate := True\<rparr> # post" "found"
        using 2 Some assms(2) by (auto simp: edge_removeOffer_def nth_append del Let_def split: if_splits)
      have "(e_value y)\<lparr>v_offers := remove_offer oid ?os\<rparr> \<noteq> emptyVenues"
        using False by (auto simp: emptyVenues_iff)
      with r 2 assms(1) mem wf_edges_pool [of pre y post] show ?thesis
        using edge_update_contract [of pre y post k "(e_value y)\<lparr>v_offers := remove_offer oid ?os\<rparr>" True] by simp
    qed
  qed
qed

interpretation edges: venue_table edge_lookup wf_edges "[]" "\<lambda>e. e = []"
  edge_addOffer edge_addPool edge_removeOffer edge_removePool
proof
  show "wf_edges []" by (simp add: wf_edges_def)
  show "edge_lookup [] k = emptyVenues" for k by (rule edge_lookup_Nil)
next
  fix e assume e: "wf_edges e"
  show "e = [] \<longleftrightarrow> (\<forall>k. edge_lookup e k = emptyVenues)"
  proof
    assume all: "\<forall>k. edge_lookup e k = emptyVenues"
    show "e = []"
    proof (cases e)
      case (Cons x xs)
      then have "edge_lookup e (e_key x) = e_value x" by (simp add: edge_lookup_Cons)
      with all e Cons show ?thesis by (simp add: wf_edges_def)
    qed simp
  qed (simp add: edge_lookup_Nil)
  show "v_pool (edge_lookup e k) = emptyPool" if "\<not> hasPool (v_pool (edge_lookup e k))" for k
    using that e by (cases rule: edge_find_split [of e k]) (auto simp: emptyVenues_def wf_edges_def)
qed (auto dest: edge_addOffer_contract edge_addPool_contract edge_removeOffer_contract edge_removePool_contract)

lemma edge_reallocate_contract:
  assumes "wf_edges e"
  shows "wf_edges (edge_reallocate e) \<and> edge_lookup (edge_reallocate e) = edge_lookup e"
proof -
  have "edge_lookup (edge_reallocate e) k = edge_lookup e k" for k
    by (induction e) (simp_all add: edge_reallocate_def edge_lookup_simps)
  moreover have "map e_key (edge_reallocate e) = map e_key e" by (simp add: edge_reallocate_def)
  moreover have "\<exists>y \<in> set e. e_value x = e_value y" if "x \<in> set (edge_reallocate e)" for x
    using that by (auto simp: edge_reallocate_def split: if_splits)
  ultimately show ?thesis using assms unfolding wf_edges_def by (metis ext)
qed

end
