(* ===== verification/OrderBook.thy ===== *)
theory OrderBook
  imports Edges
begin

text \<open>
  The order book graph (\<^verbatim>\<open>src/exp/orderbook/graph.go\<close> without the path search, and
  \<^verbatim>\<open>batch.go\<close>). Assets are numbered; two tables of edge sets, indexed by the selling and by the
  buying asset, hold the same venues. Offers and pools are changed by batches of operations.

  Asset IDs (\<^verbatim>\<open>int32\<close>) are natural numbers: they index slices that are in memory. A map is a
  partial function. The locks are not modelled: every operation runs to its end. An operation
  that can fail returns the error with the state it leaves behind; \<open>errBatchAlreadyApplied\<close> and
  \<open>ob_panic\<close> stand for panics. An index into a table that is
  out of range panics in Go; the invariant \<open>ginv\<close> shows that the indices that the operations use,
  all of them read from the graph's own tables, are in range.
\<close>

section \<open>The model\<close>

datatype ob_error =
    errOfferNotPresent
  | errUnexpectedLedger
  | errBatchAlreadyApplied
  | ob_panic string

datatype orderBookOperation =
    addOfferOperation OfferEntry
  | removeOfferOperation int
  | addLiquidityPoolOperation LiquidityPoolEntry
  | removeLiquidityPoolOperation LiquidityPoolEntry

record orderBookBatchedUpdates =
  operations :: "orderBookOperation list"
  committed :: bool

type_synonym tradingPair = "nat \<times> nat" \<comment> \<open>buying asset, selling asset\<close>

record OrderBookGraph =
  idToAssetString :: "string list"
  assetStringToID :: "string \<rightharpoonup> nat"
  vacantIDs :: "nat list"
  venuesForBuyingAsset :: "edgeSet list"
  venuesForSellingAsset :: "edgeSet list"
  liquidityPools :: "tradingPair \<rightharpoonup> LiquidityPoolEntry"
  tradingPairForOffer :: "int \<rightharpoonup> tradingPair"
  batchedUpdates :: orderBookBatchedUpdates
  lastLedger :: int

definition batch :: orderBookBatchedUpdates where
  "batch = \<lparr>operations = [], committed = False\<rparr>"

definition Clear :: "OrderBookGraph \<Rightarrow> OrderBookGraph" where
  "Clear graph =
     graph\<lparr>assetStringToID := Map.empty, idToAssetString := [], vacantIDs := [], venuesForSellingAsset := [],
           venuesForBuyingAsset := [], tradingPairForOffer := Map.empty, liquidityPools := Map.empty,
           batchedUpdates := batch, lastLedger := 0\<rparr>"

definition NewOrderBookGraph :: OrderBookGraph where
  "NewOrderBookGraph =
     Clear \<lparr>idToAssetString = [], assetStringToID = Map.empty, vacantIDs = [], venuesForBuyingAsset = [],
            venuesForSellingAsset = [], liquidityPools = Map.empty, tradingPairForOffer = Map.empty,
            batchedUpdates = batch, lastLedger = 0\<rparr>"

subsection \<open>Assets\<close>

definition getOrCreateAssetID :: "OrderBookGraph \<Rightarrow> Asset \<Rightarrow> nat \<times> OrderBookGraph" where
  "getOrCreateAssetID graph asset =
     (let assetString = Asset_String asset in
      case assetStringToID graph assetString of
        Some i \<Rightarrow> (i, graph)
      | None \<Rightarrow>
          if length (vacantIDs graph) > 0 then
            (let i = last (vacantIDs graph) in
             (i, graph\<lparr>vacantIDs := butlast (vacantIDs graph),
                       idToAssetString := (idToAssetString graph)[i := assetString],
                       assetStringToID := (assetStringToID graph)(assetString \<mapsto> i)\<rparr>))
          else
            (let i = length (idToAssetString graph) in
             (i, graph\<lparr>idToAssetString := idToAssetString graph @ [assetString],
                       venuesForBuyingAsset := venuesForBuyingAsset graph @ [[]],
                       venuesForSellingAsset := venuesForSellingAsset graph @ [[]],
                       assetStringToID := (assetStringToID graph)(assetString \<mapsto> i)\<rparr>)))"

definition maybeDeleteAsset :: "OrderBookGraph \<Rightarrow> nat \<Rightarrow> OrderBookGraph" where
  "maybeDeleteAsset graph asset =
     (if venuesForBuyingAsset graph ! asset = [] \<and> venuesForSellingAsset graph ! asset = []
      then graph\<lparr>assetStringToID := (assetStringToID graph)(idToAssetString graph ! asset := None),
                 idToAssetString := (idToAssetString graph)[asset := ''''],
                 vacantIDs := vacantIDs graph @ [asset]\<rparr>
      else graph)"

subsection \<open>Offers and pools\<close>

definition graph_removeOffer :: "OrderBookGraph \<Rightarrow> int \<Rightarrow> OrderBookGraph \<times> ob_error option" where
  "graph_removeOffer graph offerID =
     (case tradingPairForOffer graph offerID of
        None \<Rightarrow> (graph, Some errOfferNotPresent)
      | Some (buying, selling) \<Rightarrow>
          (let g1 = graph\<lparr>tradingPairForOffer := (tradingPairForOffer graph)(offerID := None)\<rparr>;
               (sset, sok) = edge_removeOffer (venuesForSellingAsset g1 ! selling) buying offerID
           in if \<not> sok then (g1, Some errOfferNotPresent)
              else
                (let g2 = g1\<lparr>venuesForSellingAsset := (venuesForSellingAsset g1)[selling := sset]\<rparr>;
                     (bset, bok) = edge_removeOffer (venuesForBuyingAsset g2 ! buying) selling offerID
                 in if \<not> bok then (g2, Some errOfferNotPresent)
                    else
                      (let g3 = g2\<lparr>venuesForBuyingAsset := (venuesForBuyingAsset g2)[buying := bset]\<rparr>
                       in (maybeDeleteAsset (maybeDeleteAsset g3 buying) selling, None)))))"

definition graph_addOffer :: "OrderBookGraph \<Rightarrow> OfferEntry \<Rightarrow> OrderBookGraph \<times> ob_error option" where
  "graph_addOffer graph offer =
     (let (g0, err) = (if tradingPairForOffer graph (of_OfferId offer) \<noteq> None
                       then graph_removeOffer graph (of_OfferId offer) else (graph, None))
      in case err of
           Some e \<Rightarrow> (g0, Some e)
         | None \<Rightarrow>
             (let (buying, g1) = getOrCreateAssetID g0 (of_Buying offer);
                  (selling, g2) = getOrCreateAssetID g1 (of_Selling offer);
                  g3 = g2\<lparr>tradingPairForOffer := (tradingPairForOffer g2)(of_OfferId offer \<mapsto> (buying, selling))\<rparr>;
                  g4 = g3\<lparr>venuesForSellingAsset := (venuesForSellingAsset g3)
                            [selling := edge_addOffer (venuesForSellingAsset g3 ! selling) buying offer]\<rparr>;
                  g5 = g4\<lparr>venuesForBuyingAsset := (venuesForBuyingAsset g4)
                            [buying := edge_addOffer (venuesForBuyingAsset g4 ! buying) selling offer]\<rparr>
              in (g5, None)))"

text \<open>\<open>None\<close>: \<^verbatim>\<open>getPoolAssets\<close> panics on a pool without a body.\<close>

definition poolFromEntry :: "OrderBookGraph \<Rightarrow> LiquidityPoolEntry \<Rightarrow> (liquidityPool \<times> OrderBookGraph) option" where
  "poolFromEntry graph poolXDR =
     (case getPoolAssets poolXDR of
        None \<Rightarrow> None
      | Some (aXDR, bXDR) \<Rightarrow>
          (let (assetA, g1) = getOrCreateAssetID graph aXDR;
               (assetB, g2) = getOrCreateAssetID g1 bXDR
           in Some (\<lparr>pool_entry = poolXDR, pool_assetA = assetA, pool_assetB = assetB\<rparr>, g2)))"

definition table_addPool :: "liquidityPool \<Rightarrow> edgeSet list \<Rightarrow> edgeSet list" where
  "table_addPool pool table =
     (let t1 = table[pool_assetA pool := edge_addPool (table ! pool_assetA pool) (pool_assetB pool) pool]
      in t1[pool_assetB pool := edge_addPool (t1 ! pool_assetB pool) (pool_assetA pool) pool])"

definition graph_addPool :: "OrderBookGraph \<Rightarrow> LiquidityPoolEntry \<Rightarrow> OrderBookGraph \<times> ob_error option" where
  "graph_addPool graph poolEntry =
     (case poolFromEntry graph poolEntry of
        None \<Rightarrow> (graph, Some (ob_panic ''MustConstantProduct''))
      | Some (pool, g1) \<Rightarrow>
          (let g2 = g1\<lparr>liquidityPools := (liquidityPools g1)((pool_assetA pool, pool_assetB pool) \<mapsto> pool_entry pool)\<rparr>;
               g3 = g2\<lparr>venuesForBuyingAsset := table_addPool pool (venuesForBuyingAsset g2)\<rparr>;
               g4 = g3\<lparr>venuesForSellingAsset := table_addPool pool (venuesForSellingAsset g3)\<rparr>
           in (g4, None)))"

definition table_removePool :: "nat \<Rightarrow> nat \<Rightarrow> edgeSet list \<Rightarrow> edgeSet list" where
  "table_removePool asset otherAsset table = table[asset := edge_removePool (table ! asset) otherAsset]"

definition graph_removePool :: "OrderBookGraph \<Rightarrow> LiquidityPoolEntry \<Rightarrow> OrderBookGraph \<times> ob_error option" where
  "graph_removePool graph poolXDR =
     (case getPoolAssets poolXDR of
        None \<Rightarrow> (graph, Some (ob_panic ''MustConstantProduct''))
      | Some (aXDR, bXDR) \<Rightarrow>
          (let (assetA, g1) = getOrCreateAssetID graph aXDR;
               (assetB, g2) = getOrCreateAssetID g1 bXDR;
               removeIn = (\<lambda>asset g.
                 (let otherAsset = (if asset = assetB then assetA else assetB);
                      g' = g\<lparr>venuesForBuyingAsset := table_removePool asset otherAsset (venuesForBuyingAsset g)\<rparr>
                  in g'\<lparr>venuesForSellingAsset := table_removePool asset otherAsset (venuesForSellingAsset g')\<rparr>));
               g3 = removeIn assetB (removeIn assetA g2);
               g4 = g3\<lparr>liquidityPools := (liquidityPools g3)((assetA, assetB) := None)\<rparr>
           in (maybeDeleteAsset (maybeDeleteAsset g4 assetA) assetB, None)))"

subsection \<open>Batches\<close>

definition enqueue :: "OrderBookGraph \<Rightarrow> orderBookOperation \<Rightarrow> OrderBookGraph" where
  "enqueue graph op =
     graph\<lparr>batchedUpdates := (batchedUpdates graph)\<lparr>operations := operations (batchedUpdates graph) @ [op]\<rparr>\<rparr>"

definition AddOffers :: "OrderBookGraph \<Rightarrow> OfferEntry list \<Rightarrow> OrderBookGraph" where
  "AddOffers graph offers = foldl (\<lambda>g offer. enqueue g (addOfferOperation offer)) graph offers"

definition AddLiquidityPools :: "OrderBookGraph \<Rightarrow> LiquidityPoolEntry list \<Rightarrow> OrderBookGraph" where
  "AddLiquidityPools graph pools = foldl (\<lambda>g lp. enqueue g (addLiquidityPoolOperation lp)) graph pools"

definition RemoveOffer :: "OrderBookGraph \<Rightarrow> int \<Rightarrow> OrderBookGraph" where
  "RemoveOffer graph offerID = enqueue graph (removeOfferOperation offerID)"

definition RemoveLiquidityPool :: "OrderBookGraph \<Rightarrow> LiquidityPoolEntry \<Rightarrow> OrderBookGraph" where
  "RemoveLiquidityPool graph pool = enqueue graph (removeLiquidityPoolOperation pool)"

definition Discard :: "OrderBookGraph \<Rightarrow> OrderBookGraph" where
  "Discard graph = graph\<lparr>batchedUpdates := batch\<rparr>"

text \<open>One turn of the loop of \<^verbatim>\<open>apply\<close>; an error of \<^verbatim>\<open>addOffer\<close> or \<^verbatim>\<open>removeOffer\<close> is a panic there.\<close>

definition apply_op ::
    "orderBookOperation \<Rightarrow> OrderBookGraph \<times> tradingPair list \<Rightarrow> OrderBookGraph \<times> tradingPair list \<times> ob_error option" where
  "apply_op op st =
     (case st of (graph, reallocatePairs) \<Rightarrow>
      (case op of
         addOfferOperation offer \<Rightarrow>
           (case graph_addOffer graph offer of
              (g, None) \<Rightarrow> (g, reallocatePairs, None)
            | (g, Some _) \<Rightarrow> (g, reallocatePairs, Some (ob_panic ''could not apply update in batch'')))
       | removeOfferOperation offerID \<Rightarrow>
           (case tradingPairForOffer graph offerID of
              None \<Rightarrow> (graph, reallocatePairs, None)
            | Some pair \<Rightarrow>
                (case graph_removeOffer graph offerID of
                   (g, None) \<Rightarrow> (g, List.insert pair reallocatePairs, None)
                 | (g, Some _) \<Rightarrow> (g, List.insert pair reallocatePairs, Some (ob_panic ''could not apply update in batch''))))
       | addLiquidityPoolOperation lp \<Rightarrow> (case graph_addPool graph lp of (g, err) \<Rightarrow> (g, reallocatePairs, err))
       | removeLiquidityPoolOperation lp \<Rightarrow> (case graph_removePool graph lp of (g, err) \<Rightarrow> (g, reallocatePairs, err))))"

fun apply_ops ::
    "orderBookOperation list \<Rightarrow> OrderBookGraph \<times> tradingPair list \<Rightarrow> OrderBookGraph \<times> tradingPair list \<times> ob_error option" where
  "apply_ops [] st = (fst st, snd st, None)"
| "apply_ops (op # ops) st =
     (case apply_op op st of
        (g, r, None) \<Rightarrow> apply_ops ops (g, r)
      | (g, r, Some e) \<Rightarrow> (g, r, Some e))"

text \<open>The order in which Go ranges over the map of pairs is unspecified; reallocation commutes.\<close>

definition reallocate_pair :: "tradingPair \<Rightarrow> OrderBookGraph \<Rightarrow> OrderBookGraph" where
  "reallocate_pair pair g =
     (case pair of (buying, selling) \<Rightarrow>
        (let g' = g\<lparr>venuesForSellingAsset := (venuesForSellingAsset g)
                     [selling := edge_reallocate (venuesForSellingAsset g ! selling)]\<rparr>
         in g'\<lparr>venuesForBuyingAsset := (venuesForBuyingAsset g')
                     [buying := edge_reallocate (venuesForBuyingAsset g' ! buying)]\<rparr>))"

definition batch_apply :: "OrderBookGraph \<Rightarrow> int \<Rightarrow> OrderBookGraph \<times> ob_error option" where
  "batch_apply graph ledger =
     (if committed (batchedUpdates graph) then (graph, Some errBatchAlreadyApplied)
      else
        (let g0 = graph\<lparr>batchedUpdates := (batchedUpdates graph)\<lparr>committed := True\<rparr>\<rparr>
         in if lastLedger g0 > 0 \<and> ledger \<le> lastLedger g0 then (g0, Some errUnexpectedLedger)
            else
              (case apply_ops (operations (batchedUpdates g0)) (g0, []) of
                 (g1, pairs, Some e) \<Rightarrow> (g1, Some e)
               | (g1, pairs, None) \<Rightarrow>
                   (let g2 = g1\<lparr>lastLedger := ledger\<rparr> in (fold reallocate_pair pairs g2, None)))))"

definition Apply :: "OrderBookGraph \<Rightarrow> int \<Rightarrow> OrderBookGraph \<times> ob_error option" where
  "Apply graph ledger =
     (case batch_apply graph ledger of
        (g, Some e) \<Rightarrow> (g, Some e)
      | (g, None) \<Rightarrow> (g\<lparr>batchedUpdates := batch\<rparr>, None))"

subsection \<open>Queries\<close>

definition Offers :: "OrderBookGraph \<Rightarrow> OfferEntry list" where
  "Offers graph = concat (map (\<lambda>edges. concat (map (\<lambda>e. v_offers (e_value e)) edges)) (venuesForSellingAsset graph))"

text \<open>Go ranges over a map here: the result is a list of these pools in any order.\<close>

definition LiquidityPools :: "OrderBookGraph \<Rightarrow> LiquidityPoolEntry set" where
  "LiquidityPools graph = ran (liquidityPools graph)"

definition IsEmpty :: "OrderBookGraph \<Rightarrow> bool" where
  "IsEmpty graph \<longleftrightarrow> dom (liquidityPools graph) = {} \<and> dom (tradingPairForOffer graph) = {}"

end
