(* ===== verification/OrderBookInv.thy ===== *)
theory OrderBookInv
  imports OrderBook
begin

text \<open>
  The invariant of the order book graph, that every operation of \<^verbatim>\<open>graph.go\<close> and \<^verbatim>\<open>batch.go\<close> keeps
  it, and that a batch refines the update of two plain sets, the offers and the liquidity pools.
\<close>

section \<open>The invariant\<close>

text \<open>
  Both tables represent one matrix of venues, \<open>M selling buying\<close>. The invariant has three
  parts: the tables agree with the matrix; the numbering of assets is a bijection between the
  asset strings and the IDs in use (and the set \<open>X\<close> of IDs just created or about to be
  released), the other IDs are the vacant ones; the venues agree with the maps of offers and pools.
\<close>

type_synonym matrix = "nat \<Rightarrow> nat \<Rightarrow> Venues"

definition nm :: "string list \<Rightarrow> nat \<Rightarrow> string" where
  "nm ids i = (if i < length ids then ids ! i else '''')"

definition used :: "matrix \<Rightarrow> nat \<Rightarrow> bool" where
  "used M i \<longleftrightarrow> (\<exists>k. M i k \<noteq> emptyVenues \<or> M k i \<noteq> emptyVenues)"

definition represents :: "nat \<Rightarrow> edgeSet list \<Rightarrow> edgeSet list \<Rightarrow> matrix \<Rightarrow> bool" where
  "represents n sell buy M \<longleftrightarrow> length sell = n \<and> length buy = n \<and>
     (\<forall>i < n. wf_edges (sell ! i) \<and> edge_lookup (sell ! i) = M i) \<and>
     (\<forall>i < n. wf_edges (buy ! i) \<and> edge_lookup (buy ! i) = (\<lambda>s. M s i)) \<and>
     (\<forall>s b. M s b \<noteq> emptyVenues \<longrightarrow> s < n \<and> b < n)"

definition names_ok :: "string list \<Rightarrow> (string \<rightharpoonup> nat) \<Rightarrow> nat list \<Rightarrow> matrix \<Rightarrow> nat set \<Rightarrow> bool" where
  "names_ok ids amap vac M X \<longleftrightarrow>
     (\<forall>s i. amap s = Some i \<longleftrightarrow> nm ids i = s \<and> s \<noteq> '''') \<and>
     distinct vac \<and> set vac = {i. i < length ids \<and> nm ids i = ''''} \<and>
     (\<forall>i. nm ids i \<noteq> '''' \<longleftrightarrow> used M i \<or> i \<in> X)"

definition offers_ok :: "matrix \<Rightarrow> (nat \<Rightarrow> string) \<Rightarrow> (int \<rightharpoonup> tradingPair) \<Rightarrow> bool" where
  "offers_ok M nam tp \<longleftrightarrow>
     (\<forall>s b. \<forall>x \<in> set (v_offers (M s b)). tp (of_OfferId x) = Some (b, s) \<and> b \<noteq> s \<and>
        nam b = Asset_String (of_Buying x) \<and> nam s = Asset_String (of_Selling x) \<and> valid_price (of_Price x)) \<and>
     (\<forall>s b. distinct (map of_OfferId (v_offers (M s b))) \<and> offers_sorted (v_offers (M s b))) \<and>
     (\<forall>oid b s. tp oid = Some (b, s) \<longrightarrow> oid \<in> of_OfferId ` set (v_offers (M s b)))"

definition pool_named :: "(nat \<Rightarrow> string) \<Rightarrow> liquidityPool \<Rightarrow> bool" where
  "pool_named nam p \<longleftrightarrow> (\<exists>cp. lp_ConstantProduct (pool_entry p) = Some cp \<and>
     nam (pool_assetA p) = Asset_String (pp_AssetA (cp_Params cp)) \<and>
     nam (pool_assetB p) = Asset_String (pp_AssetB (cp_Params cp)) \<and>
     LessThan (pp_AssetA (cp_Params cp)) (pp_AssetB (cp_Params cp)))"

definition pools_ok :: "matrix \<Rightarrow> (nat \<Rightarrow> string) \<Rightarrow> (tradingPair \<rightharpoonup> LiquidityPoolEntry) \<Rightarrow> bool" where
  "pools_ok M nam lp \<longleftrightarrow>
     (\<forall>s b. hasPool (v_pool (M s b)) \<longrightarrow>
        (let p = v_pool (M s b) in
         ((pool_assetA p = s \<and> pool_assetB p = b) \<or> (pool_assetA p = b \<and> pool_assetB p = s)) \<and>
         lp (pool_assetA p, pool_assetB p) = Some (pool_entry p) \<and> pool_named nam p)) \<and>
     (\<forall>s b. v_pool (M s b) = v_pool (M b s)) \<and>
     (\<forall>a b e. lp (a, b) = Some e \<longrightarrow>
        v_pool (M a b) = \<lparr>pool_entry = e, pool_assetA = a, pool_assetB = b\<rparr> \<and> hasPool (v_pool (M a b)))"

definition ginv :: "OrderBookGraph \<Rightarrow> matrix \<Rightarrow> nat set \<Rightarrow> bool" where
  "ginv g M X \<longleftrightarrow>
     represents (length (idToAssetString g)) (venuesForSellingAsset g) (venuesForBuyingAsset g) M \<and>
     names_ok (idToAssetString g) (assetStringToID g) (vacantIDs g) M X \<and>
     offers_ok M (nm (idToAssetString g)) (tradingPairForOffer g) \<and>
     pools_ok M (nm (idToAssetString g)) (liquidityPools g)"

definition graph_inv :: "OrderBookGraph \<Rightarrow> bool" where
  "graph_inv g \<longleftrightarrow> (\<exists>M. ginv g M {})"

definition valid_offer :: "OfferEntry \<Rightarrow> bool" where
  "valid_offer x \<longleftrightarrow> valid_price (of_Price x) \<and> of_Buying x \<noteq> of_Selling x"

definition valid_pool :: "LiquidityPoolEntry \<Rightarrow> bool" where
  "valid_pool e \<longleftrightarrow> (\<exists>cp. lp_ConstantProduct e = Some cp \<and> LessThan (pp_AssetA (cp_Params cp)) (pp_AssetB (cp_Params cp)))"

lemma nm_append [simp]: "nm (ids @ [s]) = (nm ids)(length ids := s)"
  by (auto simp: nm_def fun_eq_iff nth_append)

lemma nm_update: "i < length ids \<Longrightarrow> nm (ids[i := s]) = (nm ids)(i := s)"
  by (auto simp: nm_def fun_eq_iff)

lemma nm_in_range: "nm ids i \<noteq> '''' \<Longrightarrow> i < length ids"
  by (auto simp: nm_def split: if_splits)

lemma Asset_String_ne [simp]: "Asset_String a \<noteq> ''''"
  by (cases a) (simp_all add: Asset_String_def Extract_def asset_Type_def AssetTypeToString_def)

lemma venue_used: "M s b \<noteq> emptyVenues \<Longrightarrow> used M s \<and> used M b"
  by (auto simp: used_def)

lemma offer_used: "x \<in> set (v_offers (M s b)) \<Longrightarrow> used M s \<and> used M b"
  by (rule venue_used) (auto simp: emptyVenues_def)

lemma pool_used: "hasPool (v_pool (M s b)) \<Longrightarrow> used M s \<and> used M b"
  by (rule venue_used) (auto simp: emptyVenues_def)

text \<open>The contents depend on the names of the used IDs only.\<close>

lemma offers_ok_cong:
  assumes "offers_ok M nam tp" "\<And>i. used M i \<Longrightarrow> nam' i = nam i"
  shows "offers_ok M nam' tp"
  using assms offer_used unfolding offers_ok_def by metis

lemma pools_ok_cong:
  assumes "pools_ok M nam lp" "\<And>i. used M i \<Longrightarrow> nam' i = nam i"
  shows "pools_ok M nam' lp"
proof -
  have "pool_named nam' (v_pool (M s b)) = pool_named nam (v_pool (M s b))" if "hasPool (v_pool (M s b))" for s b
  proof -
    have "used M s" "used M b" using that pool_used by blast+
    moreover have "pool_assetA (v_pool (M s b)) = s \<and> pool_assetB (v_pool (M s b)) = b \<or>
        pool_assetA (v_pool (M s b)) = b \<and> pool_assetB (v_pool (M s b)) = s"
      using assms(1) that unfolding pools_ok_def Let_def by blast
    ultimately have "used M (pool_assetA (v_pool (M s b)))" "used M (pool_assetB (v_pool (M s b)))" by auto
    then show ?thesis using assms(2) by (simp add: pool_named_def)
  qed
  with assms(1) show ?thesis unfolding pools_ok_def Let_def by blast
qed

text \<open>Creating a name.\<close>

lemma names_ok_insert:
  assumes "names_ok ids amap vac M X" "nm ids j \<noteq> ''''"
  shows "names_ok ids amap vac M (insert j X)"
proof -
  have "nm ids i \<noteq> '''' \<longleftrightarrow> used M i \<or> i \<in> insert j X" for i
    using assms unfolding names_ok_def by (cases "i = j") auto
  then show ?thesis using assms(1) unfolding names_ok_def by blast
qed

lemma names_ok_fresh:
  assumes names: "names_ok ids amap vac M X" and s: "amap s = None" "s \<noteq> ''''" and i: "nm ids i = ''''"
    and nm': "nm ids' = (nm ids)(i := s)"
    and vac: "distinct vac'" "set vac' = {j. j < length ids' \<and> nm ids' j = ''''}"
  shows "names_ok ids' (amap(s \<mapsto> i)) vac' M (insert i X)"
proof -
  have map: "amap t = Some j \<longleftrightarrow> nm ids j = t \<and> t \<noteq> ''''" for t j using names by (simp add: names_ok_def)
  have live: "nm ids j \<noteq> '''' \<longleftrightarrow> used M j \<or> j \<in> X" for j using names by (simp add: names_ok_def)
  have fresh: "nm ids j \<noteq> s" for j using map [of s j] s by auto
  have "(amap(s \<mapsto> i)) t = Some j \<longleftrightarrow> nm ids' j = t \<and> t \<noteq> ''''" for t j
    using map [of t j] fresh [of j] i s(2) by (auto simp: nm')
  moreover have "nm ids' j \<noteq> '''' \<longleftrightarrow> used M j \<or> j \<in> insert i X" for j
    using live [of j] s(2) by (auto simp: nm')
  ultimately show ?thesis unfolding names_ok_def using vac by blast
qed

lemma getOrCreateAssetID_ginv:
  assumes inv: "ginv g M X" and get: "getOrCreateAssetID g a = (i, g')"
  shows "ginv g' M (insert i X) \<and> nm (idToAssetString g') i = Asset_String a \<and>
    (\<forall>j. nm (idToAssetString g) j \<noteq> '''' \<longrightarrow> nm (idToAssetString g') j = nm (idToAssetString g) j) \<and>
    tradingPairForOffer g' = tradingPairForOffer g \<and> liquidityPools g' = liquidityPools g \<and>
    batchedUpdates g' = batchedUpdates g \<and> lastLedger g' = lastLedger g"
proof -
  let ?s = "Asset_String a" and ?ids = "idToAssetString g"
  have rep: "represents (length ?ids) (venuesForSellingAsset g) (venuesForBuyingAsset g) M"
    and names: "names_ok ?ids (assetStringToID g) (vacantIDs g) M X"
    and off: "offers_ok M (nm ?ids) (tradingPairForOffer g)" and pools: "pools_ok M (nm ?ids) (liquidityPools g)"
    using inv by (simp_all add: ginv_def)
  have map: "assetStringToID g s = Some j \<longleftrightarrow> nm ?ids j = s \<and> s \<noteq> ''''" for s j
    using names by (auto simp: names_ok_def)
  have live: "nm ?ids j \<noteq> '''' \<longleftrightarrow> used M j \<or> j \<in> X" for j using names by (auto simp: names_ok_def)
  show ?thesis
  proof (cases "assetStringToID g ?s")
    case (Some j)
    then have "i = j" "g' = g" using get by (simp_all add: getOrCreateAssetID_def)
    moreover have "nm ?ids j = ?s" using Some map by blast
    moreover have "names_ok ?ids (assetStringToID g) (vacantIDs g) M (insert j X)"
      using names_ok_insert [OF names, of j] \<open>nm ?ids j = ?s\<close> by simp
    ultimately show ?thesis using inv by (simp add: ginv_def)
  next
    case None
    define ids' where "ids' = idToAssetString g'"
    have new: "nm ids' = (nm ?ids)(i := ?s) \<and> nm ?ids i = '''' \<and>
        names_ok ids' (assetStringToID g') (vacantIDs g') M (insert i X) \<and>
        represents (length ids') (venuesForSellingAsset g') (venuesForBuyingAsset g') M"
    proof (cases "vacantIDs g = []")
      case False
      then have i: "i = last (vacantIDs g)" and g': "g' = g\<lparr>vacantIDs := butlast (vacantIDs g),
          idToAssetString := ?ids[i := ?s], assetStringToID := (assetStringToID g)(?s \<mapsto> i)\<rparr>"
        using get None by (auto simp: getOrCreateAssetID_def Let_def)
      have "i \<in> set (vacantIDs g)" using False i by simp
      then have iv: "i < length ?ids" "nm ?ids i = ''''" using names by (auto simp: names_ok_def)
      have vac: "set (butlast (vacantIDs g)) = set (vacantIDs g) - {i}" "distinct (butlast (vacantIDs g))"
        using False names i distinct_butlast [of "vacantIDs g"]
        by (cases "vacantIDs g" rule: rev_cases; auto simp: names_ok_def)+
      have nm': "nm ids' = (nm ?ids)(i := ?s)" using iv by (simp add: ids'_def g' nm_update)
      have "set (vacantIDs g) = {j. j < length ?ids \<and> nm ?ids j = ''''}" using names by (simp add: names_ok_def)
      then have "set (butlast (vacantIDs g)) = {j. j < length ids' \<and> nm ids' j = ''''}"
        unfolding vac(1) nm' by (auto simp: ids'_def g')
      from names_ok_fresh [OF names None Asset_String_ne iv(2) nm' vac(2) this]
      have "names_ok ids' (assetStringToID g') (vacantIDs g') M (insert i X)" by (simp add: g')
      then show ?thesis using nm' iv rep by (simp add: g' ids'_def)
    next
      case True
      then have i: "i = length ?ids" and g': "g' = g\<lparr>idToAssetString := ?ids @ [?s],
          venuesForBuyingAsset := venuesForBuyingAsset g @ [[]], venuesForSellingAsset := venuesForSellingAsset g @ [[]],
          assetStringToID := (assetStringToID g)(?s \<mapsto> i)\<rparr>"
        using get None by (auto simp: getOrCreateAssetID_def Let_def)
      have iv: "nm ?ids i = ''''" by (simp add: i nm_def)
      have nm': "nm ids' = (nm ?ids)(i := ?s)" by (simp add: ids'_def g' i)
      have "nm ?ids j \<noteq> ''''" if "j < length ?ids" for j using names True that by (auto simp: names_ok_def)
      then have "set [] = {j. j < length ids' \<and> nm ids' j = ''''}"
        unfolding nm' by (auto simp: ids'_def g' i less_Suc_eq)
      from names_ok_fresh [OF names None Asset_String_ne iv nm' distinct.simps(1) [THEN iffD2, OF TrueI] this]
      have "names_ok ids' (assetStringToID g') (vacantIDs g') M (insert i X)" by (simp add: g' True)
      moreover have "M i k = emptyVenues \<and> M k i = emptyVenues" for k
        using rep unfolding represents_def i by (metis less_irrefl)
      then have "edge_lookup [] = M i" "edge_lookup [] = (\<lambda>s. M s i)" "wf_edges []"
        using edges.lookup_empty edges.inv_empty by (simp_all add: fun_eq_iff)
      then have "represents (length ids') (venuesForSellingAsset g') (venuesForBuyingAsset g') M"
        using rep unfolding represents_def by (auto simp: g' ids'_def i nth_append less_Suc_eq)
      ultimately show ?thesis using nm' iv by blast
    qed
    then have keep: "nm ids' j = nm ?ids j" if "nm ?ids j \<noteq> ''''" for j using that by auto
    have fields: "tradingPairForOffer g' = tradingPairForOffer g" "liquidityPools g' = liquidityPools g"
      "batchedUpdates g' = batchedUpdates g" "lastLedger g' = lastLedger g"
      using get by (auto simp: getOrCreateAssetID_def Let_def split: option.splits if_splits)
    have "offers_ok M (nm ids') (tradingPairForOffer g')" "pools_ok M (nm ids') (liquidityPools g')"
      unfolding fields using keep live by (blast intro: offers_ok_cong [OF off] pools_ok_cong [OF pools])+
    then have "ginv g' M (insert i X)" using new by (simp add: ginv_def ids'_def)
    then show ?thesis using new keep fields by (simp add: ids'_def)
  qed
qed

text \<open>Releasing a name.\<close>

lemma tables_empty_iff:
  assumes "represents n sell buy M" "i < n"
  shows "buy ! i = [] \<and> sell ! i = [] \<longleftrightarrow> \<not> used M i"
proof -
  have "wf_edges (buy ! i)" "wf_edges (sell ! i)" "edge_lookup (buy ! i) = (\<lambda>s. M s i)" "edge_lookup (sell ! i) = M i"
    using assms by (auto simp: represents_def)
  then show ?thesis using edges.isEmpty_iff [of "buy ! i"] edges.isEmpty_iff [of "sell ! i"] by (auto simp: used_def)
qed

lemma maybeDeleteAsset_ginv:
  assumes inv: "ginv g M X" and i: "nm (idToAssetString g) i \<noteq> ''''"
  shows "ginv (maybeDeleteAsset g i) M (X - {i}) \<and>
    (\<forall>j. j \<noteq> i \<longrightarrow> nm (idToAssetString (maybeDeleteAsset g i)) j = nm (idToAssetString g) j) \<and>
    tradingPairForOffer (maybeDeleteAsset g i) = tradingPairForOffer g \<and>
    liquidityPools (maybeDeleteAsset g i) = liquidityPools g \<and>
    batchedUpdates (maybeDeleteAsset g i) = batchedUpdates g \<and> lastLedger (maybeDeleteAsset g i) = lastLedger g"
proof -
  let ?ids = "idToAssetString g" and ?g = "maybeDeleteAsset g i"
  have rep: "represents (length ?ids) (venuesForSellingAsset g) (venuesForBuyingAsset g) M"
    and names: "names_ok ?ids (assetStringToID g) (vacantIDs g) M X"
    and off: "offers_ok M (nm ?ids) (tradingPairForOffer g)" and pools: "pools_ok M (nm ?ids) (liquidityPools g)"
    using inv by (simp_all add: ginv_def)
  have len: "i < length ?ids" using i by (rule nm_in_range)
  have map: "assetStringToID g t = Some j \<longleftrightarrow> nm ?ids j = t \<and> t \<noteq> ''''" for t j using names by (simp add: names_ok_def)
  have live: "nm ?ids j \<noteq> '''' \<longleftrightarrow> used M j \<or> j \<in> X" for j using names by (simp add: names_ok_def)
  show ?thesis
  proof (cases "used M i")
    case True
    then have "?g = g" using tables_empty_iff [OF rep len] by (auto simp: maybeDeleteAsset_def)
    moreover have "names_ok ?ids (assetStringToID g) (vacantIDs g) M (X - {i})"
    proof -
      have "nm ?ids j \<noteq> '''' \<longleftrightarrow> used M j \<or> j \<in> X - {i}" for j using live [of j] True by (cases "j = i") auto
      then show ?thesis using names unfolding names_ok_def by blast
    qed
    ultimately show ?thesis using inv by (simp add: ginv_def)
  next
    case False
    then have g: "?g = g\<lparr>assetStringToID := (assetStringToID g)(?ids ! i := None), idToAssetString := ?ids[i := ''''],
        vacantIDs := vacantIDs g @ [i]\<rparr>"
      using tables_empty_iff [OF rep len] by (simp add: maybeDeleteAsset_def)
    have nm': "nm (?ids[i := '''']) = (nm ?ids)(i := '''')" using len by (rule nm_update)
    have ii: "?ids ! i = nm ?ids i" using len by (simp add: nm_def)
    have "i \<notin> set (vacantIDs g)" using i names by (auto simp: names_ok_def)
    then have vac: "distinct (vacantIDs g @ [i])"
      "set (vacantIDs g @ [i]) = {j. j < length (?ids[i := '''']) \<and> nm (?ids[i := '''']) j = ''''}"
      using names len unfolding names_ok_def nm' by auto
    have "((assetStringToID g)(?ids ! i := None)) t = Some j \<longleftrightarrow> nm (?ids[i := '''']) j = t \<and> t \<noteq> ''''" for t j
      unfolding nm' ii using map [of t j] map [of "nm ?ids i" i] map [of "nm ?ids i" j] i by auto
    moreover have "nm (?ids[i := '''']) j \<noteq> '''' \<longleftrightarrow> used M j \<or> j \<in> X - {i}" for j
      unfolding nm' using live [of j] False by (cases "j = i") auto
    ultimately have "names_ok (?ids[i := '''']) ((assetStringToID g)(?ids ! i := None)) (vacantIDs g @ [i]) M (X - {i})"
      unfolding names_ok_def using vac by blast
    moreover have "offers_ok M (nm (?ids[i := ''''])) (tradingPairForOffer g)" "pools_ok M (nm (?ids[i := ''''])) (liquidityPools g)"
      using False unfolding nm' by (auto intro: offers_ok_cong [OF off] pools_ok_cong [OF pools])
    ultimately have "ginv ?g M (X - {i})" using rep by (simp add: g ginv_def)
    then show ?thesis using nm' by (simp add: g)
  qed
qed

lemma maybeDeleteAsset_two:
  assumes inv: "ginv g M {i, j}" and ij: "i \<noteq> j" and nms: "nm (idToAssetString g) i \<noteq> ''''" "nm (idToAssetString g) j \<noteq> ''''"
  shows "ginv (maybeDeleteAsset (maybeDeleteAsset g i) j) M {}"
proof -
  note d1 = maybeDeleteAsset_ginv [OF inv nms(1)]
  have "ginv (maybeDeleteAsset g i) M {j}" using d1 ij by (simp add: insert_Diff_if)
  moreover have "nm (idToAssetString (maybeDeleteAsset g i)) j \<noteq> ''''" using d1 ij nms(2) by simp
  ultimately show ?thesis using maybeDeleteAsset_ginv [of "maybeDeleteAsset g i" M "{j}" j] by simp
qed

lemma maybeDeleteAsset_fields [simp]:
  "tradingPairForOffer (maybeDeleteAsset g i) = tradingPairForOffer g"
  "liquidityPools (maybeDeleteAsset g i) = liquidityPools g"
  "batchedUpdates (maybeDeleteAsset g i) = batchedUpdates g" "lastLedger (maybeDeleteAsset g i) = lastLedger g"
  by (simp_all add: maybeDeleteAsset_def)

text \<open>Changing one venue in both tables.\<close>

definition set_venue :: "matrix \<Rightarrow> nat \<Rightarrow> nat \<Rightarrow> Venues \<Rightarrow> matrix" where
  "set_venue M s b v = M(s := (M s)(b := v))"

lemma set_venue_apply: "set_venue M s b v s' b' = (if s' = s \<and> b' = b then v else M s' b')"
  by (auto simp: set_venue_def)

lemma represents_set_venue:
  assumes rep: "represents n sell buy M" and n: "s < n" "b < n"
    and E1: "wf_edges E1" "edge_lookup E1 = (M s)(b := v)"
    and E2: "wf_edges E2" "edge_lookup E2 = (\<lambda>s'. M s' b)(s := v)"
  shows "represents n (sell[s := E1]) (buy[b := E2]) (set_venue M s b v)"
proof -
  have "edge_lookup (sell[s := E1] ! i) = set_venue M s b v i \<and> wf_edges (sell[s := E1] ! i)" if "i < n" for i
    using that rep E1 by (cases "i = s") (auto simp: represents_def set_venue_apply fun_eq_iff)
  moreover have "edge_lookup (buy[b := E2] ! i) = (\<lambda>s'. set_venue M s b v s' i) \<and> wf_edges (buy[b := E2] ! i)" if "i < n" for i
    using that rep E2 by (cases "i = b") (auto simp: represents_def set_venue_apply fun_eq_iff)
  moreover have "s' < n \<and> b' < n" if "set_venue M s b v s' b' \<noteq> emptyVenues" for s' b'
    using that rep n by (auto simp: represents_def set_venue_apply split: if_splits)
  ultimately show ?thesis using rep by (simp add: represents_def)
qed

lemma used_unchanged: "i \<noteq> s \<Longrightarrow> i \<noteq> b \<Longrightarrow> used (set_venue M s b v) i \<longleftrightarrow> used M i"
  by (auto simp: used_def set_venue_apply)

lemma names_ok_matrix:
  assumes "names_ok ids amap vac M X" "\<And>i. used M i \<or> i \<in> X \<longleftrightarrow> used M' i \<or> i \<in> X'"
  shows "names_ok ids amap vac M' X'"
  using assms(1) unfolding names_ok_def assms(2) .

text \<open>Removing an offer.\<close>

lemma offers_ok_remove:
  assumes ok: "offers_ok M nam tp" and oid: "tp oid = Some (b, s)"
    and v: "v = (M s b)\<lparr>v_offers := remove_offer oid (v_offers (M s b))\<rparr>"
  shows "offers_ok (set_venue M s b v) nam (tp(oid := None))"
proof -
  let ?os = "v_offers (M s b)"
  have dist: "distinct (map of_OfferId ?os)" using ok by (simp add: offers_ok_def)
  note rm = remove_offer_distinct [OF dist, of oid]
  have mem: "tp (of_OfferId x) = Some (b', s')" if "x \<in> set (v_offers (M s' b'))" for x s' b'
    using ok that by (simp add: offers_ok_def)
  have sub: "x \<in> set (v_offers (M s' b')) \<and> of_OfferId x \<noteq> oid"
    if "x \<in> set (v_offers (set_venue M s b v s' b'))" for x s' b'
    using that mem [of x s' b'] oid by (auto simp: set_venue_apply v rm split: if_splits)
  have "distinct (map of_OfferId (v_offers (set_venue M s b v s' b'))) \<and> offers_sorted (v_offers (set_venue M s b v s' b'))" for s' b'
    using ok offers_sorted_remove [of ?os oid] by (auto simp: set_venue_apply v offers_ok_def rm intro: distinct_map_filter)
  moreover have "oid' \<in> of_OfferId ` set (v_offers (set_venue M s b v s' b'))"
    if "(tp(oid := None)) oid' = Some (b', s')" for oid' s' b'
  proof -
    have "oid' \<noteq> oid" "oid' \<in> of_OfferId ` set (v_offers (M s' b'))" using that ok by (auto simp: offers_ok_def split: if_splits)
    then show ?thesis by (auto simp: set_venue_apply v rm)
  qed
  ultimately show ?thesis using ok sub unfolding offers_ok_def by (metis fun_upd_apply)
qed

lemma pools_ok_offers:
  assumes "pools_ok M nam lp" "v_pool v = v_pool (M s b)"
  shows "pools_ok (set_venue M s b v) nam lp"
proof -
  have "v_pool (set_venue M s b v s' b') = v_pool (M s' b')" for s' b' using assms(2) by (simp add: set_venue_apply)
  then show ?thesis using assms(1) by (simp only: pools_ok_def) blast
qed

lemma graph_removeOffer_ginv:
  assumes inv: "ginv g M {}" and oid: "tradingPairForOffer g oid = Some (b, s)"
  shows "\<exists>g'. graph_removeOffer g oid = (g', None) \<and>
    ginv g' (set_venue M s b ((M s b)\<lparr>v_offers := remove_offer oid (v_offers (M s b))\<rparr>)) {} \<and>
    tradingPairForOffer g' = (tradingPairForOffer g)(oid := None) \<and> liquidityPools g' = liquidityPools g \<and>
    batchedUpdates g' = batchedUpdates g \<and> lastLedger g' = lastLedger g"
proof -
  let ?ids = "idToAssetString g" and ?n = "length (idToAssetString g)"
  define v where "v = (M s b)\<lparr>v_offers := remove_offer oid (v_offers (M s b))\<rparr>"
  have rep: "represents ?n (venuesForSellingAsset g) (venuesForBuyingAsset g) M"
    and names: "names_ok ?ids (assetStringToID g) (vacantIDs g) M {}"
    and off: "offers_ok M (nm ?ids) (tradingPairForOffer g)" and pools: "pools_ok M (nm ?ids) (liquidityPools g)"
    using inv by (simp_all add: ginv_def)
  have mem: "oid \<in> of_OfferId ` set (v_offers (M s b))" using off oid by (simp add: offers_ok_def)
  then have ne: "M s b \<noteq> emptyVenues" by (auto simp: emptyVenues_def)
  then have n: "s < ?n" "b < ?n" using rep by (auto simp: represents_def)
  from ne have "used M s" "used M b" using venue_used by blast+
  then have nms: "nm ?ids s \<noteq> ''''" "nm ?ids b \<noteq> ''''" using names by (simp_all add: names_ok_def)
  have "s \<noteq> b"
  proof -
    obtain x where "x \<in> set (v_offers (M s b))" using mem by auto
    then show ?thesis using off unfolding offers_ok_def by blast
  qed
  have sell: "wf_edges (venuesForSellingAsset g ! s)" "edge_lookup (venuesForSellingAsset g ! s) = M s"
    and buy: "wf_edges (venuesForBuyingAsset g ! b)" "edge_lookup (venuesForBuyingAsset g ! b) = (\<lambda>s. M s b)"
    using rep n by (simp_all add: represents_def)
  obtain E1 where E1: "edge_removeOffer (venuesForSellingAsset g ! s) b oid = (E1, True)" "wf_edges E1"
    "edge_lookup E1 = (M s)(b := v)"
    using edges.removeOffer_found [OF sell(1), of oid b] mem by (auto simp: sell(2) v_def)
  obtain E2 where E2: "edge_removeOffer (venuesForBuyingAsset g ! b) s oid = (E2, True)" "wf_edges E2"
    "edge_lookup E2 = (\<lambda>s'. M s' b)(s := v)"
    using edges.removeOffer_found [OF buy(1), of oid s] mem by (auto simp: buy(2) v_def)
  define g3 where "g3 = g\<lparr>tradingPairForOffer := (tradingPairForOffer g)(oid := None),
    venuesForSellingAsset := (venuesForSellingAsset g)[s := E1], venuesForBuyingAsset := (venuesForBuyingAsset g)[b := E2]\<rparr>"
  have "names_ok ?ids (assetStringToID g) (vacantIDs g) (set_venue M s b v) {s, b}"
  proof (rule names_ok_matrix [OF names])
    show "used M i \<or> i \<in> {} \<longleftrightarrow> used (set_venue M s b v) i \<or> i \<in> {s, b}" for i
      using \<open>used M s\<close> \<open>used M b\<close> by (cases "i = s \<or> i = b") (auto simp: used_unchanged)
  qed
  moreover have "represents ?n ((venuesForSellingAsset g)[s := E1]) ((venuesForBuyingAsset g)[b := E2]) (set_venue M s b v)"
    using represents_set_venue [OF rep n E1(2,3) E2(2,3)] .
  moreover note offers_ok_remove [OF off oid v_def] pools_ok_offers [OF pools, of v s b]
  ultimately have "ginv g3 (set_venue M s b v) {b, s}" by (simp add: ginv_def g3_def v_def insert_commute)
  moreover have "nm (idToAssetString g3) = nm ?ids" by (simp add: g3_def)
  ultimately have "ginv (maybeDeleteAsset (maybeDeleteAsset g3 b) s) (set_venue M s b v) {}"
    using nms \<open>s \<noteq> b\<close> by (intro maybeDeleteAsset_two) simp_all
  moreover have "graph_removeOffer g oid = (maybeDeleteAsset (maybeDeleteAsset g3 b) s, None)"
    using oid E1(1) E2(1) by (simp add: graph_removeOffer_def g3_def)
  ultimately show ?thesis by (simp add: v_def g3_def)
qed

text \<open>Adding an offer.\<close>

lemma offers_ok_add:
  assumes ok: "offers_ok M nam tp" and fresh: "tp (of_OfferId x) = None" and valid: "valid_price (of_Price x)" "b \<noteq> s"
    and nam: "nam b = Asset_String (of_Buying x)" "nam s = Asset_String (of_Selling x)"
    and v: "v = (M s b)\<lparr>v_offers := insert_offer x (v_offers (M s b))\<rparr>"
  shows "offers_ok (set_venue M s b v) nam (tp(of_OfferId x \<mapsto> (b, s)))"
proof -
  have mem: "tp (of_OfferId y) = Some (b', s') \<and> b' \<noteq> s' \<and> nam b' = Asset_String (of_Buying y) \<and>
      nam s' = Asset_String (of_Selling y) \<and> valid_price (of_Price y)" if "y \<in> set (v_offers (M s' b'))" for y s' b'
    using ok that by (simp add: offers_ok_def)
  then have other: "of_OfferId y \<noteq> of_OfferId x" if "y \<in> set (v_offers (M s' b'))" for y s' b'
    using that fresh by fastforce
  have "(tp(of_OfferId x \<mapsto> (b, s))) (of_OfferId y) = Some (b', s') \<and> b' \<noteq> s' \<and> nam b' = Asset_String (of_Buying y) \<and>
      nam s' = Asset_String (of_Selling y) \<and> valid_price (of_Price y)"
    if "y \<in> set (v_offers (set_venue M s b v s' b'))" for y s' b'
    using that mem [of y s' b'] other [of y s' b'] nam valid by (auto simp: set_venue_apply v split: if_splits)
  moreover have "distinct (map of_OfferId (v_offers (set_venue M s b v s' b'))) \<and> offers_sorted (v_offers (set_venue M s b v s' b'))" for s' b'
  proof -
    have "distinct (map of_OfferId (v_offers (M s' b')))" "offers_sorted (v_offers (M s' b'))"
      using ok by (simp_all add: offers_ok_def)
    moreover have "of_OfferId x \<notin> of_OfferId ` set (v_offers (M s b))" using other by fastforce
    moreover have "\<forall>y \<in> set (v_offers (M s b)). valid_price (of_Price y)" using mem by blast
    ultimately show ?thesis
      using valid by (auto simp: set_venue_apply v distinct_insert_offer intro!: insert_offer_sorted)
  qed
  moreover have "oid \<in> of_OfferId ` set (v_offers (set_venue M s b v s' b'))"
    if "(tp(of_OfferId x \<mapsto> (b, s))) oid = Some (b', s')" for oid s' b'
    using that ok by (auto simp: set_venue_apply v offers_ok_def split: if_splits)
  ultimately show ?thesis unfolding offers_ok_def by blast
qed

lemma two_assets_ginv:
  assumes "ginv g M {}" "getOrCreateAssetID g a = (i, g1)" "getOrCreateAssetID g1 c = (j, g2)" "a \<noteq> c"
  shows "ginv g2 M {i, j} \<and> i \<noteq> j \<and> nm (idToAssetString g2) i = Asset_String a \<and> nm (idToAssetString g2) j = Asset_String c \<and>
    i < length (idToAssetString g2) \<and> j < length (idToAssetString g2) \<and>
    tradingPairForOffer g2 = tradingPairForOffer g \<and> liquidityPools g2 = liquidityPools g \<and>
    batchedUpdates g2 = batchedUpdates g \<and> lastLedger g2 = lastLedger g"
proof -
  note g1 = getOrCreateAssetID_ginv [OF assms(1,2)]
  then have "ginv g1 M {i}" by simp
  note g2 = getOrCreateAssetID_ginv [OF this assms(3)]
  have i: "nm (idToAssetString g2) i = Asset_String a" using g1 g2 by auto
  have "i \<noteq> j" using i g2 assms(4) Asset_String_inject by auto
  moreover have "{j, i} = {i, j}" by auto
  moreover have "i < length (idToAssetString g2)" "j < length (idToAssetString g2)"
    using i g2 Asset_String_ne by (metis nm_in_range)+
  ultimately show ?thesis using g1 g2 i by simp
qed

lemma graph_addOffer_fresh:
  assumes inv: "ginv g M {}" and fresh: "tradingPairForOffer g (of_OfferId x) = None" and valid: "valid_offer x"
  shows "\<exists>g' s b. graph_addOffer g x = (g', None) \<and>
    ginv g' (set_venue M s b ((M s b)\<lparr>v_offers := insert_offer x (v_offers (M s b))\<rparr>)) {} \<and>
    tradingPairForOffer g' = (tradingPairForOffer g)(of_OfferId x \<mapsto> (b, s)) \<and> liquidityPools g' = liquidityPools g \<and>
    batchedUpdates g' = batchedUpdates g \<and> lastLedger g' = lastLedger g"
proof -
  obtain b g1 s g2 where get: "getOrCreateAssetID g (of_Buying x) = (b, g1)" "getOrCreateAssetID g1 (of_Selling x) = (s, g2)"
    by (metis surj_pair)
  have vp: "valid_price (of_Price x)" and diff: "of_Buying x \<noteq> of_Selling x" using valid by (simp_all add: valid_offer_def)
  have two: "ginv g2 M {b, s}" "b \<noteq> s" "nm (idToAssetString g2) b = Asset_String (of_Buying x)"
    "nm (idToAssetString g2) s = Asset_String (of_Selling x)"
    "s < length (idToAssetString g2)" "b < length (idToAssetString g2)"
    "tradingPairForOffer g2 = tradingPairForOffer g" "liquidityPools g2 = liquidityPools g"
    "batchedUpdates g2 = batchedUpdates g" "lastLedger g2 = lastLedger g"
    using two_assets_ginv [OF inv get diff] by simp_all
  let ?ids = "idToAssetString g2"
  define v where "v = (M s b)\<lparr>v_offers := insert_offer x (v_offers (M s b))\<rparr>"
  have rep: "represents (length ?ids) (venuesForSellingAsset g2) (venuesForBuyingAsset g2) M"
    and names: "names_ok ?ids (assetStringToID g2) (vacantIDs g2) M {b, s}"
    and off: "offers_ok M (nm ?ids) (tradingPairForOffer g2)" and pools: "pools_ok M (nm ?ids) (liquidityPools g2)"
    using two(1) by (simp_all add: ginv_def)
  have sell: "wf_edges (venuesForSellingAsset g2 ! s)" "edge_lookup (venuesForSellingAsset g2 ! s) = M s"
    and buy: "wf_edges (venuesForBuyingAsset g2 ! b)" "edge_lookup (venuesForBuyingAsset g2 ! b) = (\<lambda>s. M s b)"
    using rep two(5,6) by (simp_all add: represents_def)
  have "v \<noteq> emptyVenues" by (simp add: v_def emptyVenues_iff)
  then have "used (set_venue M s b v) s" "used (set_venue M s b v) b"
    using venue_used [of "set_venue M s b v" s b] by (simp_all add: set_venue_apply)
  then have "names_ok ?ids (assetStringToID g2) (vacantIDs g2) (set_venue M s b v) {}"
    by (intro names_ok_matrix [OF names]) (metis empty_iff insert_iff used_unchanged)
  moreover have "represents (length ?ids) ((venuesForSellingAsset g2)[s := edge_addOffer (venuesForSellingAsset g2 ! s) b x])
      ((venuesForBuyingAsset g2)[b := edge_addOffer (venuesForBuyingAsset g2 ! b) s x]) (set_venue M s b v)"
    using edges.addOffer [OF sell(1), of b x] edges.addOffer [OF buy(1), of s x]
    by (intro represents_set_venue [OF rep two(5,6)]) (simp_all add: sell(2) buy(2) v_def)
  moreover have "offers_ok (set_venue M s b v) (nm ?ids) ((tradingPairForOffer g2)(of_OfferId x \<mapsto> (b, s)))"
    using two fresh by (intro offers_ok_add [OF off _ vp two(2) _ _ v_def]) simp_all
  moreover note pools_ok_offers [OF pools, of v s b]
  ultimately show ?thesis
    using fresh two by (auto simp: graph_addOffer_def get Let_def ginv_def v_def)
qed


text \<open>Replacing an offer is removing it and adding the new one.\<close>

lemma graph_addOffer_replace:
  assumes "graph_removeOffer g (of_OfferId x) = (g', None)" "tradingPairForOffer g (of_OfferId x) \<noteq> None"
    "tradingPairForOffer g' (of_OfferId x) = None"
  shows "graph_addOffer g x = graph_addOffer g' x"
proof -
  have "(if tradingPairForOffer g (of_OfferId x) \<noteq> None then graph_removeOffer g (of_OfferId x) else (g, None)) =
      (if tradingPairForOffer g' (of_OfferId x) \<noteq> None then graph_removeOffer g' (of_OfferId x) else (g', None))"
    using assms by simp
  then show ?thesis unfolding graph_addOffer_def by presburger
qed

text \<open>Adding and removing a pool: the venues of both directions change.\<close>

definition set_pool :: "matrix \<Rightarrow> nat \<Rightarrow> nat \<Rightarrow> liquidityPool \<Rightarrow> matrix" where
  "set_pool M a b p = set_venue (set_venue M a b ((M a b)\<lparr>v_pool := p\<rparr>)) b a ((M b a)\<lparr>v_pool := p\<rparr>)"

lemma set_pool_apply:
  "set_pool M a b p s t = (if (s, t) \<in> {(a, b), (b, a)} then (M s t)\<lparr>v_pool := p\<rparr> else M s t)"
proof -
  consider "s = b \<and> t = a" | "\<not> (s = b \<and> t = a)" "s = a \<and> t = b" | "\<not> (s = b \<and> t = a)" "\<not> (s = a \<and> t = b)" by blast
  then show ?thesis
  proof cases
    case 1
    then have "s = b" "t = a" by simp_all
    then show ?thesis unfolding set_pool_def set_venue_apply by hypsubst simp
  next
    case 2
    then have "set_pool M a b p s t = (M s t)\<lparr>v_pool := p\<rparr>" unfolding set_pool_def set_venue_apply by (simp only: if_False if_True refl simp_thms)
    with 2 show ?thesis by simp
  next
    case 3
    then have "set_pool M a b p s t = M s t" unfolding set_pool_def set_venue_apply by (simp only: if_False)
    with 3 show ?thesis by auto
  qed
qed

lemma set_pool_offers [simp]: "v_offers (set_pool M a b p s t) = v_offers (M s t)"
  by (simp add: set_pool_apply)

lemma set_pool_pool: "v_pool (set_pool M a b p s t) = (if (s, t) \<in> {(a, b), (b, a)} then p else v_pool (M s t))"
  by (simp add: set_pool_apply)

lemma offers_ok_pool: "offers_ok (set_pool M a b p) nam tp \<longleftrightarrow> offers_ok M nam tp"
  by (simp add: offers_ok_def)

lemma used_pool: "i \<noteq> a \<Longrightarrow> i \<noteq> b \<Longrightarrow> used (set_pool M a b p) i \<longleftrightarrow> used M i"
  by (auto simp: set_pool_def used_unchanged)

lemma represents_set_pool:
  assumes rep: "represents n sell buy M" and ab: "a < n" "b < n" "a \<noteq> b"
    and op: "\<And>e k. wf_edges e \<Longrightarrow> wf_edges (f k e) \<and> edge_lookup (f k e) = (edge_lookup e)(k := (edge_lookup e k)\<lparr>v_pool := p\<rparr>)"
  shows "represents n (sell[a := f b (sell ! a), b := f a (sell ! b)]) (buy[a := f b (buy ! a), b := f a (buy ! b)]) (set_pool M a b p)"
proof -
  have wf: "wf_edges (sell ! i)" "edge_lookup (sell ! i) = M i" "wf_edges (buy ! i)" "edge_lookup (buy ! i) = (\<lambda>s. M s i)"
    if "i < n" for i using rep that by (simp_all add: represents_def)
  have "represents n (sell[a := f b (sell ! a)]) (buy[b := f a (buy ! b)]) (set_venue M a b ((M a b)\<lparr>v_pool := p\<rparr>))"
    using op [OF wf(1) [OF ab(1)], of b] op [OF wf(3) [OF ab(2)], of a]
    by (intro represents_set_venue [OF rep ab(1,2)]) (simp_all add: wf ab)
  from represents_set_venue [OF this ab(2,1), of "f a (sell ! b)" "(M b a)\<lparr>v_pool := p\<rparr>" "f b (buy ! a)"]
  have "represents n (sell[a := f b (sell ! a), b := f a (sell ! b)]) (buy[b := f a (buy ! b), a := f b (buy ! a)]) (set_pool M a b p)"
    using op [OF wf(1) [OF ab(2)], of a] op [OF wf(3) [OF ab(1)], of b] ab
    by (simp add: wf ab set_venue_apply fun_eq_iff set_pool_def)
  then show ?thesis using ab(3) by (simp add: list_update_swap)
qed

lemma pools_ok_entry:
  "pools_ok M nam lp \<Longrightarrow> lp (a, b) = Some e \<Longrightarrow>
   v_pool (M a b) = \<lparr>pool_entry = e, pool_assetA = a, pool_assetB = b\<rparr> \<and> hasPool (v_pool (M a b))"
  unfolding pools_ok_def by blast

lemma pools_ok_venue:
  "pools_ok M nam lp \<Longrightarrow> hasPool (v_pool (M s t)) \<Longrightarrow>
   (pool_assetA (v_pool (M s t)) = s \<and> pool_assetB (v_pool (M s t)) = t \<or>
    pool_assetA (v_pool (M s t)) = t \<and> pool_assetB (v_pool (M s t)) = s) \<and>
   lp (pool_assetA (v_pool (M s t)), pool_assetB (v_pool (M s t))) = Some (pool_entry (v_pool (M s t))) \<and>
   pool_named nam (v_pool (M s t))"
  unfolding pools_ok_def Let_def by blast

lemma pools_ok_one_direction:
  assumes "pools_ok M nam lp" "pool_named nam \<lparr>pool_entry = e, pool_assetA = a, pool_assetB = b\<rparr>"
  shows "lp (b, a) = None"
proof (cases "lp (b, a)")
  case (Some e')
  from pools_ok_entry [OF assms(1) this] pools_ok_venue [OF assms(1), of b a]
  have "pool_named nam \<lparr>pool_entry = e', pool_assetA = b, pool_assetB = a\<rparr>" by metis
  then show ?thesis using assms(2) LessThan_asym by (auto simp: pool_named_def Asset_String_inject)
qed

lemma pools_ok_add:
  assumes ok: "pools_ok M nam lp" and ab: "a \<noteq> b"
    and p: "p = \<lparr>pool_entry = e, pool_assetA = a, pool_assetB = b\<rparr>" "hasPool p" "pool_named nam p"
  shows "pools_ok (set_pool M a b p) nam (lp((a, b) \<mapsto> e))"
proof -
  let ?M = "set_pool M a b p"
  have "lp (b, a) = None" using pools_ok_one_direction [OF ok] p by simp
  then have other: "(s, t) \<notin> {(a, b), (b, a)}" if "lp (s, t) = Some e'" "(s, t) \<noteq> (a, b)" for s t e'
    using that by auto
  have "((pool_assetA (v_pool (?M s t)) = s \<and> pool_assetB (v_pool (?M s t)) = t) \<or>
       (pool_assetA (v_pool (?M s t)) = t \<and> pool_assetB (v_pool (?M s t)) = s)) \<and>
       (lp((a, b) \<mapsto> e)) (pool_assetA (v_pool (?M s t)), pool_assetB (v_pool (?M s t))) = Some (pool_entry (v_pool (?M s t))) \<and>
       pool_named nam (v_pool (?M s t))"
    if "hasPool (v_pool (?M s t))" for s t
  proof (cases "(s, t) \<in> {(a, b), (b, a)}")
    case True
    then show ?thesis using p by (auto simp: set_pool_pool)
  next
    case False
    then have "hasPool (v_pool (M s t))" using that by (simp only: set_pool_pool if_False)
    from pools_ok_venue [OF ok this] show ?thesis using False by (auto simp: set_pool_pool)
  qed
  moreover have "v_pool (?M s t) = v_pool (?M t s)" for s t
    using ok by (auto simp: set_pool_pool pools_ok_def)
  moreover have "v_pool (?M s t) = \<lparr>pool_entry = e', pool_assetA = s, pool_assetB = t\<rparr> \<and> hasPool (v_pool (?M s t))"
    if lp: "(lp((a, b) \<mapsto> e)) (s, t) = Some e'" for s t e'
  proof (cases "(s, t) = (a, b)")
    case False
    with lp have "lp (s, t) = Some e'" by (auto split: if_splits)
    then show ?thesis using pools_ok_entry [OF ok] other [OF _ False] unfolding set_pool_pool by metis
  qed (use lp p in \<open>simp add: set_pool_pool\<close>)
  ultimately show ?thesis unfolding pools_ok_def Let_def by blast
qed

lemma pools_ok_remove:
  assumes ok: "pools_ok M nam lp" and lp: "lp (b, a) = None"
  shows "pools_ok (set_pool M a b emptyPool) nam (lp((a, b) := None))"
proof -
  let ?M = "set_pool M a b emptyPool"
  have nopool: "\<not> hasPool emptyPool" by (simp add: hasPool_def emptyPool_def)
  have "((pool_assetA (v_pool (?M s t)) = s \<and> pool_assetB (v_pool (?M s t)) = t) \<or>
       (pool_assetA (v_pool (?M s t)) = t \<and> pool_assetB (v_pool (?M s t)) = s)) \<and>
       (lp((a, b) := None)) (pool_assetA (v_pool (?M s t)), pool_assetB (v_pool (?M s t))) = Some (pool_entry (v_pool (?M s t))) \<and>
       pool_named nam (v_pool (?M s t))"
    if hp: "hasPool (v_pool (?M s t))" for s t
  proof -
    have st: "(s, t) \<notin> {(a, b), (b, a)}" using hp nopool by (auto simp: set_pool_pool split: if_splits)
    then have "v_pool (?M s t) = v_pool (M s t)" "hasPool (v_pool (M s t))" using hp by (simp_all only: set_pool_pool if_False)
    moreover note pools_ok_venue [OF ok calculation(2)]
    ultimately show ?thesis using st by auto
  qed
  moreover have "v_pool (?M s t) = v_pool (?M t s)" for s t
    using ok by (auto simp: set_pool_pool pools_ok_def)
  moreover have "v_pool (?M s t) = \<lparr>pool_entry = e', pool_assetA = s, pool_assetB = t\<rparr> \<and> hasPool (v_pool (?M s t))"
    if e': "(lp((a, b) := None)) (s, t) = Some e'" for s t e'
  proof -
    have "(s, t) \<notin> {(a, b), (b, a)}" "lp (s, t) = Some e'" using e' lp by (auto split: if_splits)
    then show ?thesis using pools_ok_entry [OF ok] unfolding set_pool_pool by metis
  qed
  ultimately show ?thesis unfolding pools_ok_def Let_def by blast
qed


text \<open>The IDs \<open>(a, b)\<close> are the place of the pools with the two assets of \<open>e\<close>.\<close>

definition pool_slot :: "(tradingPair \<rightharpoonup> LiquidityPoolEntry) \<Rightarrow> LiquidityPoolEntry \<Rightarrow> nat \<Rightarrow> nat \<Rightarrow> bool" where
  "pool_slot lp e a b \<longleftrightarrow> (\<forall>pair e'. lp pair = Some e' \<longrightarrow> (getPoolAssets e' = getPoolAssets e \<longleftrightarrow> pair = (a, b)))"

lemma names_ok_inj: "names_ok ids amap vac M X \<Longrightarrow> nm ids i = nm ids j \<Longrightarrow> nm ids i \<noteq> '''' \<Longrightarrow> i = j"
  unfolding names_ok_def by (metis option.inject)

lemma pool_slot_named:
  assumes names: "names_ok ids amap vac M X" and pools: "pools_ok M (nm ids) lp"
    and named: "pool_named (nm ids) \<lparr>pool_entry = e, pool_assetA = a, pool_assetB = b\<rparr>"
  shows "pool_slot lp e a b"
  unfolding pool_slot_def
proof (intro allI impI)
  fix pair e' assume "lp pair = Some e'"
  then obtain a' b' where pair: "pair = (a', b')" "lp (a', b') = Some e'" by (cases pair) auto
  have "pool_named (nm ids) \<lparr>pool_entry = e', pool_assetA = a', pool_assetB = b'\<rparr>"
    using pools_ok_entry [OF pools pair(2)] pools_ok_venue [OF pools, of a' b'] by metis
  then show "getPoolAssets e' = getPoolAssets e \<longleftrightarrow> pair = (a, b)"
    using named names_ok_inj [OF names, of a' a] names_ok_inj [OF names, of b' b]
    by (auto simp: pool_named_def getPoolAssets_def pair(1) Asset_String_inject)
qed

lemma ran_pool_slot:
  assumes "pool_slot lp e a b"
  shows "ran (lp((a, b) := None)) = {p \<in> ran lp. getPoolAssets p \<noteq> getPoolAssets e}"
    and "ran (lp((a, b) \<mapsto> e)) = insert e {p \<in> ran lp. getPoolAssets p \<noteq> getPoolAssets e}"
proof -
  show none: "ran (lp((a, b) := None)) = {p \<in> ran lp. getPoolAssets p \<noteq> getPoolAssets e}"
  proof (rule set_eqI)
    fix x
    have "x \<in> ran (lp((a, b) := None)) \<longleftrightarrow> (\<exists>pair. pair \<noteq> (a, b) \<and> lp pair = Some x)" by (auto simp: ran_def)
    also have "\<dots> \<longleftrightarrow> (\<exists>pair. lp pair = Some x \<and> getPoolAssets x \<noteq> getPoolAssets e)"
      using assms unfolding pool_slot_def by blast
    finally show "x \<in> ran (lp((a, b) := None)) \<longleftrightarrow> x \<in> {p \<in> ran lp. getPoolAssets p \<noteq> getPoolAssets e}"
      by (auto simp: ran_def)
  qed
  have "ran (lp((a, b) \<mapsto> e)) = insert e (ran (lp((a, b) := None)))"
    using ran_map_upd [of "lp((a, b) := None)" "(a, b)" e] by simp
  then show "ran (lp((a, b) \<mapsto> e)) = insert e {p \<in> ran lp. getPoolAssets p \<noteq> getPoolAssets e}" by (simp only: none)
qed

lemma graph_addPool_ginv:
  assumes inv: "ginv g M {}" and cp: "lp_ConstantProduct e = Some cp"
    "LessThan (pp_AssetA (cp_Params cp)) (pp_AssetB (cp_Params cp))"
  shows "\<exists>g' a b. graph_addPool g e = (g', None) \<and>
    ginv g' (set_pool M a b \<lparr>pool_entry = e, pool_assetA = a, pool_assetB = b\<rparr>) {} \<and>
    pool_slot (liquidityPools g) e a b \<and>
    tradingPairForOffer g' = tradingPairForOffer g \<and> liquidityPools g' = (liquidityPools g)((a, b) \<mapsto> e) \<and>
    batchedUpdates g' = batchedUpdates g \<and> lastLedger g' = lastLedger g"
proof -
  obtain a g1 b g2 where get: "getOrCreateAssetID g (pp_AssetA (cp_Params cp)) = (a, g1)"
    "getOrCreateAssetID g1 (pp_AssetB (cp_Params cp)) = (b, g2)" by (metis surj_pair)
  have "pp_AssetA (cp_Params cp) \<noteq> pp_AssetB (cp_Params cp)" using cp(2) LessThan_total by blast
  note two = two_assets_ginv [OF inv get this]
  define p where "p = \<lparr>pool_entry = e, pool_assetA = a, pool_assetB = b\<rparr>"
  let ?ids = "idToAssetString g2" and ?M = "set_pool M a b p"
  have rep: "represents (length ?ids) (venuesForSellingAsset g2) (venuesForBuyingAsset g2) M"
    and names: "names_ok ?ids (assetStringToID g2) (vacantIDs g2) M {a, b}"
    and off: "offers_ok M (nm ?ids) (tradingPairForOffer g2)" and pools: "pools_ok M (nm ?ids) (liquidityPools g2)"
    using two [THEN conjunct1] by (simp_all add: ginv_def)
  have ab: "a < length ?ids" "b < length ?ids" "a \<noteq> b" using two by simp_all
  have p: "hasPool p" "pool_named (nm ?ids) p" using two cp by (auto simp: p_def hasPool_def pool_named_def)
  have slot: "pool_slot (liquidityPools g) e a b"
    using pool_slot_named [OF names pools p(2) [unfolded p_def]] two by simp
  have "?M a b \<noteq> emptyVenues" using p(1) by (auto simp: set_pool_apply emptyVenues_iff)
  then have "used ?M a" "used ?M b" using venue_used [of ?M a b] by simp_all
  then have "names_ok ?ids (assetStringToID g2) (vacantIDs g2) ?M {}"
    by (intro names_ok_matrix [OF names]) (metis empty_iff insert_iff used_pool)
  moreover have "represents (length ?ids) (table_addPool p (venuesForSellingAsset g2)) (table_addPool p (venuesForBuyingAsset g2)) ?M"
    using represents_set_pool [OF rep ab, of "\<lambda>k t. edge_addPool t k p" p] edges.addPool [OF _ p(1)] ab(3)
    by (simp add: table_addPool_def p_def Let_def)
  moreover have "pools_ok ?M (nm ?ids) ((liquidityPools g2)((a, b) \<mapsto> e))"
    using pools_ok_add [OF pools ab(3) p_def p] .
  ultimately have "ginv (g2\<lparr>liquidityPools := (liquidityPools g2)((a, b) \<mapsto> e),
      venuesForBuyingAsset := table_addPool p (venuesForBuyingAsset g2),
      venuesForSellingAsset := table_addPool p (venuesForSellingAsset g2)\<rparr>) ?M {}"
    using off by (simp add: ginv_def offers_ok_pool)
  moreover have "graph_addPool g e = (g2\<lparr>liquidityPools := (liquidityPools g2)((a, b) \<mapsto> e),
      venuesForBuyingAsset := table_addPool p (venuesForBuyingAsset g2),
      venuesForSellingAsset := table_addPool p (venuesForSellingAsset g2)\<rparr>, None)"
    by (simp add: graph_addPool_def poolFromEntry_def getPoolAssets_def cp(1) get p_def Let_def)
  ultimately show ?thesis using two slot by (intro exI [of _ a] exI [of _ b] exI) (auto simp: p_def)
qed

lemma graph_removePool_ginv:
  assumes inv: "ginv g M {}" and cp: "lp_ConstantProduct e = Some cp"
    "LessThan (pp_AssetA (cp_Params cp)) (pp_AssetB (cp_Params cp))"
  shows "\<exists>g' a b. graph_removePool g e = (g', None) \<and> ginv g' (set_pool M a b emptyPool) {} \<and>
    pool_slot (liquidityPools g) e a b \<and>
    tradingPairForOffer g' = tradingPairForOffer g \<and> liquidityPools g' = (liquidityPools g)((a, b) := None) \<and>
    batchedUpdates g' = batchedUpdates g \<and> lastLedger g' = lastLedger g"
proof -
  obtain a g1 b g2 where get: "getOrCreateAssetID g (pp_AssetA (cp_Params cp)) = (a, g1)"
    "getOrCreateAssetID g1 (pp_AssetB (cp_Params cp)) = (b, g2)" by (metis surj_pair)
  have "pp_AssetA (cp_Params cp) \<noteq> pp_AssetB (cp_Params cp)" using cp(2) LessThan_total by blast
  note two = two_assets_ginv [OF inv get this]
  let ?ids = "idToAssetString g2" and ?M = "set_pool M a b emptyPool"
  define rm where "rm = (\<lambda>t :: edgeSet list. t[a := edge_removePool (t ! a) b, b := edge_removePool (t ! b) a])"
  have rep: "represents (length ?ids) (venuesForSellingAsset g2) (venuesForBuyingAsset g2) M"
    and names: "names_ok ?ids (assetStringToID g2) (vacantIDs g2) M {a, b}"
    and off: "offers_ok M (nm ?ids) (tradingPairForOffer g2)" and pools: "pools_ok M (nm ?ids) (liquidityPools g2)"
    using two [THEN conjunct1] by (simp_all add: ginv_def)
  have ab: "a < length ?ids" "b < length ?ids" "a \<noteq> b" using two by simp_all
  have named: "pool_named (nm ?ids) \<lparr>pool_entry = e, pool_assetA = a, pool_assetB = b\<rparr>"
    using two cp by (auto simp: pool_named_def)
  have slot: "pool_slot (liquidityPools g) e a b" using pool_slot_named [OF names pools named] two by simp
  have "names_ok ?ids (assetStringToID g2) (vacantIDs g2) ?M {a, b}"
    by (rule names_ok_matrix [OF names]) (metis insert_iff used_pool)
  moreover have "represents (length ?ids) (rm (venuesForSellingAsset g2)) (rm (venuesForBuyingAsset g2)) ?M"
    using represents_set_pool [OF rep ab, of "\<lambda>k t. edge_removePool t k" emptyPool] edges.removePool by (simp add: rm_def)
  moreover have "pools_ok ?M (nm ?ids) ((liquidityPools g2)((a, b) := None))"
    using pools_ok_remove [OF pools pools_ok_one_direction [OF pools named]] .
  ultimately have "ginv (g2\<lparr>venuesForBuyingAsset := rm (venuesForBuyingAsset g2),
      venuesForSellingAsset := rm (venuesForSellingAsset g2), liquidityPools := (liquidityPools g2)((a, b) := None)\<rparr>) ?M {a, b}" (is "ginv ?g _ _")
    using off by (simp add: ginv_def offers_ok_pool)
  moreover have "nm (idToAssetString ?g) a \<noteq> ''''" "nm (idToAssetString ?g) b \<noteq> ''''" using two by simp_all
  ultimately have "ginv (maybeDeleteAsset (maybeDeleteAsset ?g a) b) ?M {}" using ab(3) by (intro maybeDeleteAsset_two)
  moreover have "graph_removePool g e = (maybeDeleteAsset (maybeDeleteAsset ?g a) b, None)"
    using ab(3) by (simp add: graph_removePool_def getPoolAssets_def cp(1) get rm_def Let_def table_removePool_def)
  ultimately show ?thesis using two
    by (intro exI [of _ a] exI [of _ b] exI) (auto simp: slot)
qed

section \<open>Contents\<close>

text \<open>The offers and the pools of the graph, as sets.\<close>

definition matrix_offers :: "matrix \<Rightarrow> OfferEntry set" where
  "matrix_offers M = {x. \<exists>s b. x \<in> set (v_offers (M s b))}"

lemma distinct_concat_disjoint:
  "sorted_wrt (\<lambda>xs ys. set xs \<inter> set ys = {}) xss \<Longrightarrow> \<forall>xs \<in> set xss. distinct xs \<Longrightarrow> distinct (concat xss)"
  by (induction xss) auto

lemma distinct_sorted_wrt:
  "distinct xs \<Longrightarrow> (\<And>x y. x \<in> set xs \<Longrightarrow> y \<in> set xs \<Longrightarrow> x \<noteq> y \<Longrightarrow> P x y) \<Longrightarrow> sorted_wrt P xs"
  by (induction xs) auto

lemma wf_edges_lookup:
  assumes "wf_edges e" "y \<in> set e"
  shows "edge_lookup e (e_key y) = e_value y"
proof -
  from assms(2) obtain pre post where "e = pre @ y # post" by (meson split_list)
  moreover from this have "e_key y \<notin> e_key ` set pre" using assms(1) by (auto simp: wf_edges_def)
  ultimately show ?thesis by (simp add: edge_lookup_simps)
qed

lemma edge_offers:
  assumes "wf_edges e"
  shows "(\<exists>y \<in> set e. x \<in> set (v_offers (e_value y))) \<longleftrightarrow> (\<exists>k. x \<in> set (v_offers (edge_lookup e k)))"
proof
  assume "\<exists>y \<in> set e. x \<in> set (v_offers (e_value y))"
  then obtain y where y: "y \<in> set e" "x \<in> set (v_offers (e_value y))" by blast
  from wf_edges_lookup [OF assms y(1)]
  show "\<exists>k. x \<in> set (v_offers (edge_lookup e k))" using y(2) by metis
next
  assume "\<exists>k. x \<in> set (v_offers (edge_lookup e k))"
  then obtain k where "x \<in> set (v_offers (edge_lookup e k))" by blast
  then show "\<exists>y \<in> set e. x \<in> set (v_offers (e_value y))"
    by (cases rule: edge_find_split [of e k]) (auto simp: emptyVenues_def)
qed

lemma set_Offers:
  assumes "ginv g M X"
  shows "set (Offers g) = matrix_offers M"
proof -
  have rep: "represents (length (idToAssetString g)) (venuesForSellingAsset g) (venuesForBuyingAsset g) M"
    using assms by (simp add: ginv_def)
  let ?n = "length (idToAssetString g)" and ?sell = "venuesForSellingAsset g"
  have "x \<in> set (Offers g) \<longleftrightarrow> (\<exists>s < ?n. \<exists>y \<in> set (?sell ! s). x \<in> set (v_offers (e_value y)))" for x
    using rep by (auto simp: Offers_def represents_def in_set_conv_nth [of _ ?sell]) fastforce+
  moreover have "(\<exists>y \<in> set (?sell ! s). x \<in> set (v_offers (e_value y))) \<longleftrightarrow> (\<exists>b. x \<in> set (v_offers (M s b)))" if "s < ?n" for x s
    using edge_offers [of "?sell ! s" x] rep that by (simp add: represents_def)
  moreover have "s < ?n" if "x \<in> set (v_offers (M s b))" for x s b
  proof -
    have "M s b \<noteq> emptyVenues" using that by (auto simp: emptyVenues_def)
    then show ?thesis using rep unfolding represents_def by blast
  qed
  ultimately show ?thesis unfolding matrix_offers_def by blast
qed

lemma distinct_Offers:
  assumes "ginv g M X"
  shows "distinct (map of_OfferId (Offers g))"
proof -
  let ?n = "length (idToAssetString g)" and ?sell = "venuesForSellingAsset g"
  have rep: "represents ?n ?sell (venuesForBuyingAsset g) M"
    and off: "offers_ok M (nm (idToAssetString g)) (tradingPairForOffer g)"
    using assms by (simp_all add: ginv_def)
  let ?ids = "\<lambda>y. map of_OfferId (v_offers (e_value y))"
  have at: "e_value y = M s (e_key y)" if "s < ?n" "y \<in> set (?sell ! s)" for s y
    using that rep wf_edges_lookup [of "?sell ! s" y] by (simp add: represents_def)
  have wf: "distinct (map e_key (?sell ! s))" if "s < ?n" for s using that rep by (simp add: represents_def wf_edges_def)
  have pair: "tradingPairForOffer g i = Some (e_key y, s)" if "s < ?n" "y \<in> set (?sell ! s)" "i \<in> set (?ids y)" for s y i
    using that off unfolding offers_ok_def by (auto simp: at)
  have row: "distinct (concat (map ?ids (?sell ! s)))" if s: "s < ?n" for s
  proof (rule distinct_concat_disjoint)
    have "y = z" if "y \<in> set (?sell ! s)" "z \<in> set (?sell ! s)" "i \<in> set (?ids y)" "i \<in> set (?ids z)" for y z i
      using pair [OF s that(1,3)] pair [OF s that(2,4)] wf [OF s] that(1,2) by (auto simp: distinct_map inj_on_def)
    then show "sorted_wrt (\<lambda>xs ys. set xs \<inter> set ys = {}) (map ?ids (?sell ! s))"
      using wf [OF s] unfolding sorted_wrt_map by (intro distinct_sorted_wrt) (auto simp: distinct_map)
    show "\<forall>xs \<in> set (map ?ids (?sell ! s)). distinct xs" using off at [OF s] by (auto simp: offers_ok_def)
  qed
  have "distinct (concat (map (\<lambda>es. concat (map ?ids es)) ?sell))"
  proof (rule distinct_concat_disjoint)
    show "\<forall>xs \<in> set (map (\<lambda>es. concat (map ?ids es)) ?sell). distinct xs"
      using row rep by (auto simp: represents_def in_set_conv_nth [of _ ?sell])
    show "sorted_wrt (\<lambda>xs ys. set xs \<inter> set ys = {}) (map (\<lambda>es. concat (map ?ids es)) ?sell)"
      unfolding sorted_wrt_iff_nth_less
    proof (intro allI impI)
      fix i j assume ij: "i < j" "j < length (map (\<lambda>es. concat (map ?ids es)) ?sell)"
      then have n: "i < ?n" "j < ?n" using rep by (auto simp: represents_def)
      show "set (map (\<lambda>es. concat (map ?ids es)) ?sell ! i) \<inter> set (map (\<lambda>es. concat (map ?ids es)) ?sell ! j) = {}"
        using pair [OF n(1)] pair [OF n(2)] ij by fastforce
    qed
  qed
  then show ?thesis by (simp add: Offers_def map_concat comp_def)
qed


section \<open>Batches refine the update of two sets\<close>

type_synonym book = "OfferEntry set \<times> LiquidityPoolEntry set"

definition contents :: "OrderBookGraph \<Rightarrow> book" where
  "contents g = (set (Offers g), LiquidityPools g)"

text \<open>
  The specification: an offer replaces the one with its ID, a pool the one with its pair of
  assets; removing what is not there changes nothing. The comments of the code say that a pool is removed by its ID. The code never compares IDs of
  pools; on the network, where the ID of a constant-product pool is a hash of its assets and the fixed fee, both readings agree (\<open>spec_op_by_id\<close>).
\<close>

fun spec_op :: "orderBookOperation \<Rightarrow> book \<Rightarrow> book" where
  "spec_op (addOfferOperation x) (offers, pools) = (insert x {y \<in> offers. of_OfferId y \<noteq> of_OfferId x}, pools)"
| "spec_op (removeOfferOperation oid) (offers, pools) = ({y \<in> offers. of_OfferId y \<noteq> oid}, pools)"
| "spec_op (addLiquidityPoolOperation e) (offers, pools) =
     (offers, insert e {p \<in> pools. getPoolAssets p \<noteq> getPoolAssets e})"
| "spec_op (removeLiquidityPoolOperation e) (offers, pools) =
     (offers, {p \<in> pools. getPoolAssets p \<noteq> getPoolAssets e})"

lemma spec_op_by_id:
  assumes "\<forall>p \<in> pools. lp_LiquidityPoolId p = lp_LiquidityPoolId e \<longleftrightarrow> getPoolAssets p = getPoolAssets e"
  shows "spec_op (removeLiquidityPoolOperation e) (offers, pools) = (offers, {p \<in> pools. lp_LiquidityPoolId p \<noteq> lp_LiquidityPoolId e})"
  using assms by auto

text \<open>
  What a batch of ledger changes satisfies: offers have positive 32-bit prices and sell an asset
  for another one; pools have a body whose assets are ordered (both are rules of the network).
\<close>

fun valid_op :: "orderBookOperation \<Rightarrow> bool" where
  "valid_op (addOfferOperation x) = valid_offer x"
| "valid_op (removeOfferOperation oid) = True"
| "valid_op (addLiquidityPoolOperation e) = valid_pool e"
| "valid_op (removeLiquidityPoolOperation e) = valid_pool e"

lemma ginv_contents: "ginv g M X \<Longrightarrow> contents g = (matrix_offers M, ran (liquidityPools g))"
  by (simp add: contents_def set_Offers LiquidityPools_def)

lemma matrix_offers_pool [simp]: "matrix_offers (set_pool M a b p) = matrix_offers M"
  by (simp add: matrix_offers_def)

lemma matrix_offers_remove:
  assumes "offers_ok M nam tp" "tp oid = Some (b, s)"
  shows "matrix_offers (set_venue M s b ((M s b)\<lparr>v_offers := remove_offer oid (v_offers (M s b))\<rparr>)) =
    {y \<in> matrix_offers M. of_OfferId y \<noteq> oid}"
proof -
  let ?M = "set_venue M s b ((M s b)\<lparr>v_offers := remove_offer oid (v_offers (M s b))\<rparr>)"
  have dist: "distinct (map of_OfferId (v_offers (M s b)))" using assms(1) by (simp add: offers_ok_def)
  have "tp (of_OfferId x) = Some (b', s')" if "x \<in> set (v_offers (M s' b'))" for x s' b'
    using assms(1) that by (simp add: offers_ok_def)
  then have "x \<in> set (v_offers (?M s' b')) \<longleftrightarrow> x \<in> set (v_offers (M s' b')) \<and> of_OfferId x \<noteq> oid" for x s' b'
    using assms(2) by (auto simp: set_venue_apply remove_offer_distinct [OF dist])
  then show ?thesis by (simp add: matrix_offers_def)
qed

lemma matrix_offers_remove_absent:
  assumes "offers_ok M nam tp" "tp oid = None"
  shows "{y \<in> matrix_offers M. of_OfferId y \<noteq> oid} = matrix_offers M"
  using assms unfolding offers_ok_def matrix_offers_def by fastforce

lemma matrix_offers_add:
  "matrix_offers (set_venue M s b ((M s b)\<lparr>v_offers := insert_offer x (v_offers (M s b))\<rparr>)) = insert x (matrix_offers M)"
proof -
  let ?M = "set_venue M s b ((M s b)\<lparr>v_offers := insert_offer x (v_offers (M s b))\<rparr>)"
  have "y \<in> set (v_offers (?M s' b')) \<longleftrightarrow> y \<in> set (v_offers (M s' b')) \<or> y = x \<and> s' = s \<and> b' = b" for y s' b'
    by (auto simp: set_venue_apply)
  then show ?thesis by (auto simp: matrix_offers_def)
qed

definition same_batch :: "OrderBookGraph \<Rightarrow> OrderBookGraph \<Rightarrow> bool" where
  "same_batch g g' \<longleftrightarrow> batchedUpdates g' = batchedUpdates g \<and> lastLedger g' = lastLedger g"

text \<open>What a successful operation does: \<open>g'\<close> satisfies the invariant and has the specified contents.\<close>

definition op_correct :: "orderBookOperation \<Rightarrow> OrderBookGraph \<Rightarrow> OrderBookGraph \<Rightarrow> bool" where
  "op_correct op g g' \<longleftrightarrow> graph_inv g' \<and> contents g' = spec_op op (contents g) \<and> same_batch g g'"

lemma graph_removeOffer_correct:
  assumes "graph_inv g" "tradingPairForOffer g oid \<noteq> None"
  shows "\<exists>g'. graph_removeOffer g oid = (g', None) \<and> op_correct (removeOfferOperation oid) g g' \<and>
    tradingPairForOffer g' oid = None"
proof -
  obtain M where M: "ginv g M {}" using assms(1) by (auto simp: graph_inv_def)
  obtain b s where bs: "tradingPairForOffer g oid = Some (b, s)" using assms(2) by auto
  have "offers_ok M (nm (idToAssetString g)) (tradingPairForOffer g)" using M by (simp add: ginv_def)
  from matrix_offers_remove [OF this bs] graph_removeOffer_ginv [OF M bs] ginv_contents [OF M]
  show ?thesis by (auto simp: op_correct_def graph_inv_def same_batch_def ginv_contents)
qed

lemma removeOffer_absent_correct:
  assumes "graph_inv g" "tradingPairForOffer g oid = None"
  shows "op_correct (removeOfferOperation oid) g g"
proof -
  obtain M where M: "ginv g M {}" using assms(1) by (auto simp: graph_inv_def)
  then have "offers_ok M (nm (idToAssetString g)) (tradingPairForOffer g)" by (simp add: ginv_def)
  from matrix_offers_remove_absent [OF this assms(2)] assms(1) ginv_contents [OF M]
  show ?thesis by (simp add: op_correct_def same_batch_def)
qed

lemma graph_addOffer_correct:
  assumes "graph_inv g" "valid_offer x"
  shows "\<exists>g'. graph_addOffer g x = (g', None) \<and> op_correct (addOfferOperation x) g g'"
proof -
  let ?rm = "op_correct (removeOfferOperation (of_OfferId x)) g"
  obtain g0 where g0: "?rm g0" "graph_addOffer g x = graph_addOffer g0 x" "tradingPairForOffer g0 (of_OfferId x) = None"
  proof (cases "tradingPairForOffer g (of_OfferId x) = None")
    case True
    then show ?thesis using removeOffer_absent_correct [OF assms(1)] that by blast
  next
    case False
    with graph_removeOffer_correct [OF assms(1) False] show ?thesis using graph_addOffer_replace that by blast
  qed
  obtain M where M: "ginv g0 M {}" using g0(1) by (auto simp: op_correct_def graph_inv_def)
  have c: "contents g0 = spec_op (removeOfferOperation (of_OfferId x)) (contents g)" "same_batch g g0"
    using g0(1) by (simp_all add: op_correct_def)
  have "spec_op (addOfferOperation x) (contents g) = (insert x (fst (contents g0)), snd (contents g0))"
    unfolding c by (cases "contents g") simp
  with graph_addOffer_fresh [OF M g0(3) assms(2)] c(2) ginv_contents [OF M] show ?thesis
    unfolding g0(2) by (auto simp: op_correct_def graph_inv_def same_batch_def ginv_contents matrix_offers_add)
qed

lemma graph_addPool_correct:
  assumes "graph_inv g" "valid_pool e"
  shows "\<exists>g'. graph_addPool g e = (g', None) \<and> op_correct (addLiquidityPoolOperation e) g g'"
proof -
  obtain M cp where M: "ginv g M {}" and cp: "lp_ConstantProduct e = Some cp"
    "LessThan (pp_AssetA (cp_Params cp)) (pp_AssetB (cp_Params cp))"
    using assms by (auto simp: graph_inv_def valid_pool_def)
  from graph_addPool_ginv [OF M cp] ginv_contents [OF M] show ?thesis
    by (auto simp: op_correct_def graph_inv_def same_batch_def ginv_contents ran_pool_slot)
qed

lemma graph_removePool_correct:
  assumes "graph_inv g" "valid_pool e"
  shows "\<exists>g'. graph_removePool g e = (g', None) \<and> op_correct (removeLiquidityPoolOperation e) g g'"
proof -
  obtain M cp where M: "ginv g M {}" and cp: "lp_ConstantProduct e = Some cp"
    "LessThan (pp_AssetA (cp_Params cp)) (pp_AssetB (cp_Params cp))"
    using assms by (auto simp: graph_inv_def valid_pool_def)
  from graph_removePool_ginv [OF M cp] ginv_contents [OF M] show ?thesis
    by (auto simp: op_correct_def graph_inv_def same_batch_def ginv_contents ran_pool_slot)
qed


lemma op_correct_trans:
  "op_correct op g g1 \<Longrightarrow> graph_inv g' \<and> contents g' = fold spec_op ops (contents g1) \<and> same_batch g1 g' \<Longrightarrow>
   graph_inv g' \<and> contents g' = fold spec_op (op # ops) (contents g) \<and> same_batch g g'"
  by (simp add: op_correct_def same_batch_def)

lemma apply_op_correct:
  assumes "graph_inv g" "valid_op op"
  shows "\<exists>g' r'. apply_op op (g, r) = (g', r', None) \<and> op_correct op g g'"
proof (cases op)
  case (removeOfferOperation oid)
  show ?thesis
  proof (cases "tradingPairForOffer g oid")
    case None
    then show ?thesis using removeOffer_absent_correct [OF assms(1)] by (simp add: apply_op_def removeOfferOperation)
  next
    case (Some pair)
    then obtain g' where "graph_removeOffer g oid = (g', None)" "op_correct op g g'"
      using graph_removeOffer_correct [OF assms(1), of oid] removeOfferOperation by auto
    then show ?thesis using Some by (simp add: apply_op_def removeOfferOperation)
  qed
next
  case (addOfferOperation x)
  then show ?thesis using graph_addOffer_correct [OF assms(1), of x] assms(2) by (auto simp: apply_op_def)
next
  case (addLiquidityPoolOperation e)
  then show ?thesis using graph_addPool_correct [OF assms(1), of e] assms(2) by (auto simp: apply_op_def)
next
  case (removeLiquidityPoolOperation e)
  then show ?thesis using graph_removePool_correct [OF assms(1), of e] assms(2) by (auto simp: apply_op_def)
qed

lemma apply_ops_correct:
  assumes "graph_inv g" "\<forall>op \<in> set ops. valid_op op"
  shows "\<exists>g' r'. apply_ops ops (g, r) = (g', r', None) \<and>
    graph_inv g' \<and> contents g' = fold spec_op ops (contents g) \<and> same_batch g g'"
  using assms
proof (induction ops arbitrary: g r)
  case (Cons op ops)
  then obtain g1 r1 where g1: "apply_op op (g, r) = (g1, r1, None)" "op_correct op g g1"
    using apply_op_correct [of g op r] by auto
  then obtain g' r' where "apply_ops ops (g1, r1) = (g', r', None)"
    and g': "graph_inv g' \<and> contents g' = fold spec_op ops (contents g1) \<and> same_batch g1 g'"
    using Cons.IH [of g1 r1] Cons.prems by (auto simp: op_correct_def)
  with op_correct_trans [OF g1(2) g'] show ?case by (simp add: g1(1))
qed (simp add: same_batch_def)

lemma reallocate_pair_inv:
  assumes "graph_inv g"
  shows "graph_inv (reallocate_pair pair g) \<and> contents (reallocate_pair pair g) = contents g \<and>
    same_batch g (reallocate_pair pair g)"
proof -
  obtain b s where pair: "pair = (b, s)" by force
  obtain M where M: "ginv g M {}" using assms by (auto simp: graph_inv_def)
  have wf: "wf_edges (venuesForSellingAsset g ! i)" "wf_edges (venuesForBuyingAsset g ! i)" if "i < length (idToAssetString g)" for i
    using M that by (simp_all add: ginv_def represents_def)
  let ?sell = "(venuesForSellingAsset g)[s := edge_reallocate (venuesForSellingAsset g ! s)]"
    and ?buy = "(venuesForBuyingAsset g)[b := edge_reallocate (venuesForBuyingAsset g ! b)]"
  have rep: "represents (length (idToAssetString g)) (venuesForSellingAsset g) (venuesForBuyingAsset g) M"
    using M by (simp add: ginv_def)
  have "wf_edges (?sell ! i) \<and> edge_lookup (?sell ! i) = M i" if "i < length (idToAssetString g)" for i
    using that rep edge_reallocate_contract [OF wf(1), of s] by (cases "i = s") (auto simp: represents_def)
  moreover have "wf_edges (?buy ! i) \<and> edge_lookup (?buy ! i) = (\<lambda>s. M s i)" if "i < length (idToAssetString g)" for i
    using that rep edge_reallocate_contract [OF wf(2), of b] by (cases "i = b") (auto simp: represents_def)
  ultimately have "represents (length (idToAssetString g)) ?sell ?buy M" using rep by (simp add: represents_def)
  then have "ginv (reallocate_pair pair g) M {}" using M by (simp add: ginv_def reallocate_pair_def pair Let_def)
  moreover have "same_batch g (reallocate_pair pair g)" "liquidityPools (reallocate_pair pair g) = liquidityPools g"
    by (simp_all add: same_batch_def reallocate_pair_def pair Let_def)
  ultimately show ?thesis using M by (auto simp: graph_inv_def ginv_contents)
qed

lemma reallocate_pairs_inv:
  "graph_inv g \<Longrightarrow> graph_inv (fold reallocate_pair pairs g) \<and> contents (fold reallocate_pair pairs g) = contents g \<and>
    same_batch g (fold reallocate_pair pairs g)"
proof (induction pairs arbitrary: g)
  case (Cons pair pairs)
  from reallocate_pair_inv [OF Cons.prems, of pair] Cons.IH [of "reallocate_pair pair g"] show ?case
    by (simp add: same_batch_def)
qed (simp add: same_batch_def)

text \<open>The pairs may be reallocated in any order.\<close>

lemma reallocate_at_commute:
  "(t :: edgeSet list)[i := edge_reallocate (t ! i), j := edge_reallocate (t[i := edge_reallocate (t ! i)] ! j)] =
   t[j := edge_reallocate (t ! j), i := edge_reallocate (t[j := edge_reallocate (t ! j)] ! i)]"
  by (cases "i = j") (simp_all add: list_update_swap)

lemma reallocate_pair_commute:
  "reallocate_pair p (reallocate_pair q g) = reallocate_pair q (reallocate_pair p g)"
  by (cases p; cases q) (simp add: reallocate_pair_def Let_def reallocate_at_commute)

lemma graph_inv_fields:
  "graph_inv (g\<lparr>batchedUpdates := u\<rparr>) = graph_inv g" "contents (g\<lparr>batchedUpdates := u\<rparr>) = contents g"
  "graph_inv (g\<lparr>lastLedger := l\<rparr>) = graph_inv g" "contents (g\<lparr>lastLedger := l\<rparr>) = contents g"
  by (simp_all add: graph_inv_def ginv_def contents_def Offers_def LiquidityPools_def)

lemma graph_inv_Clear: "graph_inv (Clear g)" "contents (Clear g) = ({}, {})"
proof -
  have "ginv (Clear g) (\<lambda>_ _. emptyVenues) {}"
    by (auto simp: ginv_def represents_def names_ok_def offers_ok_def pools_ok_def Clear_def emptyVenues_def used_def
        nm_def offers_sorted_def hasPool_def emptyPool_def)
  then show "graph_inv (Clear g)" by (auto simp: graph_inv_def)
  show "contents (Clear g) = ({}, {})" by (simp add: contents_def Offers_def LiquidityPools_def Clear_def)
qed

lemma Apply_correct:
  assumes "graph_inv g" "\<forall>op \<in> set (operations (batchedUpdates g)). valid_op op"
    "\<not> committed (batchedUpdates g)" "\<not> (lastLedger g > 0 \<and> ledger \<le> lastLedger g)"
  shows "\<exists>g'. Apply g ledger = (g', None) \<and> graph_inv g' \<and>
    contents g' = fold spec_op (operations (batchedUpdates g)) (contents g) \<and>
    lastLedger g' = ledger \<and> batchedUpdates g' = batch"
proof -
  let ?ops = "operations (batchedUpdates g)"
  let ?g0 = "g\<lparr>batchedUpdates := (batchedUpdates g)\<lparr>committed := True\<rparr>\<rparr>"
  have "graph_inv ?g0" "contents ?g0 = contents g" using assms(1) by (simp_all add: graph_inv_fields)
  with apply_ops_correct [OF _ assms(2), of ?g0 "[]"]
  obtain g1 r1 where g1: "apply_ops ?ops (?g0, []) = (g1, r1, None)" "graph_inv g1" "contents g1 = fold spec_op ?ops (contents g)"
    by auto
  then have "graph_inv (g1\<lparr>lastLedger := ledger\<rparr>)" "contents (g1\<lparr>lastLedger := ledger\<rparr>) = contents g1"
    by (simp_all add: graph_inv_fields)
  with reallocate_pairs_inv [of "g1\<lparr>lastLedger := ledger\<rparr>" r1] g1 assms(3,4) show ?thesis
    by (auto simp: Apply_def batch_apply_def same_batch_def graph_inv_fields)
qed


section \<open>The life of an order book\<close>

text \<open>The calls that a client makes, with operations that respect the rules of the network.\<close>

inductive ob_step :: "OrderBookGraph \<Rightarrow> OrderBookGraph \<Rightarrow> bool" where
  AddOffers: "\<forall>x \<in> set xs. valid_offer x \<Longrightarrow> ob_step g (AddOffers g xs)"
| AddLiquidityPools: "\<forall>e \<in> set es. valid_pool e \<Longrightarrow> ob_step g (AddLiquidityPools g es)"
| RemoveOffer: "ob_step g (RemoveOffer g oid)"
| RemoveLiquidityPool: "valid_pool e \<Longrightarrow> ob_step g (RemoveLiquidityPool g e)"
| Discard: "ob_step g (Discard g)"
| Apply: "Apply g ledger = (g', err) \<Longrightarrow> ob_step g g'"
| Clear: "ob_step g (Clear g)"

inductive ob_reachable :: "OrderBookGraph \<Rightarrow> bool" where
  New: "ob_reachable NewOrderBookGraph"
| step: "ob_reachable g \<Longrightarrow> ob_step g g' \<Longrightarrow> ob_reachable g'"

inductive_cases ob_stepE: "ob_step g g'"

definition pending_ok :: "OrderBookGraph \<Rightarrow> bool" where
  "pending_ok g \<longleftrightarrow> graph_inv g \<and> (\<forall>op \<in> set (operations (batchedUpdates g)). valid_op op)"

lemma enqueue_ok: "pending_ok g \<Longrightarrow> valid_op op \<Longrightarrow> pending_ok (enqueue g op)"
  by (auto simp: pending_ok_def enqueue_def graph_inv_fields)

lemma enqueue_all_ok:
  "pending_ok g \<Longrightarrow> \<forall>x \<in> set xs. valid_op (f x) \<Longrightarrow> pending_ok (foldl (\<lambda>g x. enqueue g (f x)) g xs)"
  by (induction xs arbitrary: g) (auto intro: enqueue_ok)

lemma pending_ok_Clear: "pending_ok (Clear g)"
proof -
  have "operations (batchedUpdates (Clear g)) = []" by (simp add: Clear_def batch_def)
  then show ?thesis by (simp add: pending_ok_def graph_inv_Clear)
qed

lemma pending_ok_Discard: "pending_ok g \<Longrightarrow> pending_ok (Discard g)"
  by (simp add: pending_ok_def Discard_def graph_inv_fields batch_def)

text \<open>The three outcomes of \<^verbatim>\<open>Apply\<close>; there is no panic.\<close>

lemma Apply_cases:
  assumes "pending_ok g" "Apply g ledger = (g', err)"
  obtains (applied) "err = None" "pending_ok g'"
    "\<not> committed (batchedUpdates g)" "\<not> (lastLedger g > 0 \<and> ledger \<le> lastLedger g)"
    "contents g' = fold spec_op (operations (batchedUpdates g)) (contents g)" "lastLedger g' = ledger" "batchedUpdates g' = batch"
  | (stale) "err = Some errUnexpectedLedger" "\<not> committed (batchedUpdates g)" "lastLedger g > 0" "ledger \<le> lastLedger g"
    "g' = g\<lparr>batchedUpdates := (batchedUpdates g)\<lparr>committed := True\<rparr>\<rparr>" "pending_ok g'"
  | (again) "err = Some errBatchAlreadyApplied" "committed (batchedUpdates g)" "g' = g" "pending_ok g'"
proof -
  consider "committed (batchedUpdates g)" | "\<not> committed (batchedUpdates g)" "lastLedger g > 0" "ledger \<le> lastLedger g"
    | "\<not> committed (batchedUpdates g)" "\<not> (lastLedger g > 0 \<and> ledger \<le> lastLedger g)" by blast
  then show thesis
  proof cases
    case 1
    then have "err = Some errBatchAlreadyApplied" "g' = g" using assms(2) by (simp_all add: Apply_def batch_apply_def)
    then show thesis using 1 assms(1) again by simp
  next
    case 2
    then have "err = Some errUnexpectedLedger" "g' = g\<lparr>batchedUpdates := (batchedUpdates g)\<lparr>committed := True\<rparr>\<rparr>"
      using assms(2) by (simp_all add: Apply_def batch_apply_def)
    moreover have "pending_ok (g\<lparr>batchedUpdates := (batchedUpdates g)\<lparr>committed := True\<rparr>\<rparr>)"
      using assms(1) by (simp add: pending_ok_def graph_inv_fields)
    ultimately show thesis using 2 stale by simp
  next
    case 3
    have "graph_inv g" "\<forall>op \<in> set (operations (batchedUpdates g)). valid_op op" using assms(1) by (simp_all add: pending_ok_def)
    from Apply_correct [OF this 3] have "err = None" "graph_inv g'" "lastLedger g' = ledger" "batchedUpdates g' = batch"
      "contents g' = fold spec_op (operations (batchedUpdates g)) (contents g)" using assms(2) by auto
    moreover from this have "pending_ok g'" by (simp add: pending_ok_def batch_def)
    ultimately show thesis using 3 applied by blast
  qed
qed

lemma ob_step_pending_ok: "ob_step g g' \<Longrightarrow> pending_ok g \<Longrightarrow> pending_ok g'"
proof (induction rule: ob_step.induct)
  case (Apply g ledger g' err)
  then show ?case by (auto elim: Apply_cases)
qed (simp_all add: AddOffers_def AddLiquidityPools_def RemoveOffer_def RemoveLiquidityPool_def
      enqueue_ok enqueue_all_ok pending_ok_Clear pending_ok_Discard)

lemma ob_reachable_pending_ok: "ob_reachable g \<Longrightarrow> pending_ok g"
  by (induction rule: ob_reachable.induct) (simp_all add: NewOrderBookGraph_def pending_ok_Clear ob_step_pending_ok)

section \<open>Properties\<close>

text \<open>The two tables hold the same venues; each offer is found under its pair, once, in price order.\<close>

definition tables_agree :: "OrderBookGraph \<Rightarrow> bool" where
  "tables_agree g \<longleftrightarrow>
     length (venuesForSellingAsset g) = length (idToAssetString g) \<and> length (venuesForBuyingAsset g) = length (idToAssetString g) \<and>
     (\<forall>s < length (idToAssetString g). \<forall>b < length (idToAssetString g).
        edge_lookup (venuesForSellingAsset g ! s) b = edge_lookup (venuesForBuyingAsset g ! b) s \<and>
        offers_sorted (v_offers (edge_lookup (venuesForSellingAsset g ! s) b)))"

definition offers_indexed :: "OrderBookGraph \<Rightarrow> bool" where
  "offers_indexed g \<longleftrightarrow> distinct (map of_OfferId (Offers g)) \<and> dom (tradingPairForOffer g) = of_OfferId ` set (Offers g) \<and>
     (\<forall>oid b s. tradingPairForOffer g oid = Some (b, s) \<longrightarrow> b < length (idToAssetString g) \<and> s < length (idToAssetString g) \<and>
        oid \<in> of_OfferId ` set (v_offers (edge_lookup (venuesForSellingAsset g ! s) b)))"

definition assets_numbered :: "OrderBookGraph \<Rightarrow> bool" where
  "assets_numbered g \<longleftrightarrow> distinct (vacantIDs g) \<and> set (vacantIDs g) \<subseteq> {..<length (idToAssetString g)} \<and>
     (\<forall>a i. assetStringToID g (Asset_String a) = Some i \<longleftrightarrow> i < length (idToAssetString g) \<and> idToAssetString g ! i = Asset_String a) \<and>
     (\<forall>i < length (idToAssetString g). i \<in> set (vacantIDs g) \<longleftrightarrow> venuesForSellingAsset g ! i = [] \<and> venuesForBuyingAsset g ! i = [])"

lemma graph_inv_tables:
  assumes "graph_inv g"
  shows "tables_agree g"
proof -
  obtain M where M: "ginv g M {}" using assms by (auto simp: graph_inv_def)
  then show ?thesis by (simp add: ginv_def represents_def offers_ok_def tables_agree_def)
qed

lemma graph_inv_indexed:
  assumes "graph_inv g"
  shows "offers_indexed g"
proof -
  obtain M where M: "ginv g M {}" using assms by (auto simp: graph_inv_def)
  let ?n = "length (idToAssetString g)" and ?tp = "tradingPairForOffer g"
  have off: "offers_ok M (nm (idToAssetString g)) ?tp"
    and rep: "represents ?n (venuesForSellingAsset g) (venuesForBuyingAsset g) M" using M by (simp_all add: ginv_def)
  have at: "oid \<in> of_OfferId ` set (v_offers (M s b)) \<and> b < ?n \<and> s < ?n" if "?tp oid = Some (b, s)" for oid b s
  proof -
    have mem: "oid \<in> of_OfferId ` set (v_offers (M s b))" using off that by (simp add: offers_ok_def)
    then have "M s b \<noteq> emptyVenues" by (auto simp: emptyVenues_def)
    with rep mem show ?thesis unfolding represents_def by blast
  qed
  have "dom ?tp = of_OfferId ` set (Offers g)"
  proof
    show "dom ?tp \<subseteq> of_OfferId ` set (Offers g)"
      using at by (fastforce simp: set_Offers [OF M] matrix_offers_def)
    show "of_OfferId ` set (Offers g) \<subseteq> dom ?tp"
      using off by (auto simp: set_Offers [OF M] matrix_offers_def offers_ok_def)
  qed
  then show ?thesis
    using at rep distinct_Offers [OF M] by (auto simp: offers_indexed_def represents_def)
qed

lemma graph_inv_numbered:
  assumes "graph_inv g"
  shows "assets_numbered g"
proof -
  obtain M where M: "ginv g M {}" using assms by (auto simp: graph_inv_def)
  let ?ids = "idToAssetString g"
  have rep: "represents (length ?ids) (venuesForSellingAsset g) (venuesForBuyingAsset g) M"
    and names: "names_ok ?ids (assetStringToID g) (vacantIDs g) M {}" using M by (simp_all add: ginv_def)
  have vac: "set (vacantIDs g) = {i. i < length ?ids \<and> \<not> used M i}" "distinct (vacantIDs g)"
    using names by (auto simp: names_ok_def)
  have "assetStringToID g (Asset_String a) = Some i \<longleftrightarrow> i < length ?ids \<and> ?ids ! i = Asset_String a" for a i
    using names Asset_String_ne [of a, symmetric] unfolding names_ok_def nm_def by (auto split: if_splits)
  then show ?thesis using vac tables_empty_iff [OF rep] by (auto simp: assets_numbered_def)
qed

lemma IsEmpty_contents:
  assumes "graph_inv g"
  shows "IsEmpty g \<longleftrightarrow> contents g = ({}, {})"
  using graph_inv_indexed [OF assms] by (auto simp: IsEmpty_def contents_def LiquidityPools_def offers_indexed_def ran_def dom_def)

text \<open>
  C2. Whatever sequence of calls a client makes (adding and removing valid offers and pools,
  \<^verbatim>\<open>Apply\<close> with any ledger, \<^verbatim>\<open>Discard\<close>, \<^verbatim>\<open>Clear\<close>), in the order book it leaves the two tables agree
  venue by venue and keep offers sorted by price, every offer is stored once and under the pair
  that \<^verbatim>\<open>tradingPairForOffer\<close> gives, the asset numbering is a bijection whose vacant IDs are the
  unused ones, and \<^verbatim>\<open>IsEmpty\<close> tells whether there is an offer or a pool.
\<close>

theorem order_book_invariant:
  assumes "ob_reachable g"
  shows "tables_agree g \<and> offers_indexed g \<and> assets_numbered g \<and> (IsEmpty g \<longleftrightarrow> Offers g = [] \<and> LiquidityPools g = {})"
proof -
  have "graph_inv g" using ob_reachable_pending_ok [OF assms] by (simp add: pending_ok_def)
  then show ?thesis
    using graph_inv_tables graph_inv_indexed graph_inv_numbered IsEmpty_contents [of g] by (simp add: contents_def)
qed

text \<open>
  C5. A batch of valid operations with a new ledger is applied without an error or panic, and the
  offers and pools of the order book are those of a plain set updated operation by operation in
  the order in which they were queued; the batch is then empty and the ledger recorded. An offer is replaced and removed by its
  ID. A pool is replaced and removed by its pair of assets, whatever its ID is; the comment of \<^verbatim>\<open>RemoveLiquidityPool\<close> says by the ID alone, which
  agrees with the code only as long as the ID is determined by the pair.
\<close>

theorem Apply_refines_set_updates:
  assumes "ob_reachable g" "\<not> committed (batchedUpdates g)" "lastLedger g = 0 \<or> lastLedger g < ledger"
  shows "\<exists>g'. Apply g ledger = (g', None) \<and> ob_reachable g' \<and>
    (set (Offers g'), LiquidityPools g') =
      fold spec_op (operations (batchedUpdates g)) (set (Offers g), LiquidityPools g) \<and>
    lastLedger g' = ledger \<and> operations (batchedUpdates g') = [] \<and> \<not> committed (batchedUpdates g')"
proof -
  obtain g' err where r: "Apply g ledger = (g', err)" by force
  from assms(1) have "ob_reachable g'" using r by (blast intro: ob_reachable.step ob_step.Apply)
  from ob_reachable_pending_ok [OF assms(1)] r show ?thesis
    by (rule Apply_cases) (use assms(2,3) r \<open>ob_reachable g'\<close> in \<open>auto simp: contents_def batch_def\<close>)
qed

text \<open>
  C37. \<^verbatim>\<open>Apply\<close> fails in two ways only: with \<^verbatim>\<open>errUnexpectedLedger\<close> for a ledger that is not newer,
  and with a panic (\<^verbatim>\<open>errBatchAlreadyApplied\<close>) afterwards, for every ledger, until the batch is discarded: the
  batch is marked as committed before the ledger is checked. Neither changes the offers and pools.
\<close>

theorem Apply_errors:
  assumes "ob_reachable g" "Apply g ledger = (g', Some e)"
  shows "set (Offers g') = set (Offers g) \<and> LiquidityPools g' = LiquidityPools g \<and> committed (batchedUpdates g') \<and>
    (e = errUnexpectedLedger \<and> 0 < lastLedger g \<and> ledger \<le> lastLedger g \<or> e = errBatchAlreadyApplied \<and> committed (batchedUpdates g)) \<and>
    Apply g' ledger' = (g', Some errBatchAlreadyApplied)"
  using ob_reachable_pending_ok [OF assms(1)] assms(2)
proof (rule Apply_cases)
qed (simp_all add: Offers_def LiquidityPools_def Apply_def batch_apply_def)

text \<open>A book with one offer: 10 units of the native asset are sold for an issued one, at 3/2.\<close>

definition sample_offer :: OfferEntry where
  "sample_offer = \<lparr>of_SellerId = Ed25519 0, of_OfferId = 7, of_Selling = Native, of_Buying = AlphaNum4 1 (Ed25519 0),
     of_Amount = 10, of_Price = \<lparr>price_N = 3, price_D = 2\<rparr>, of_Flags = 0\<rparr>"

definition sample_book :: OrderBookGraph where
  "sample_book = AddOffers NewOrderBookGraph [sample_offer]"

lemma sample_book_reachable: "ob_reachable sample_book"
  unfolding sample_book_def
  by (intro ob_reachable.step [OF ob_reachable.New] ob_step.AddOffers)
    (simp add: sample_offer_def valid_offer_def valid_price_def MaxInt32_def)

lemma sample_book_fields:
  "operations (batchedUpdates sample_book) = [addOfferOperation sample_offer]" "\<not> committed (batchedUpdates sample_book)"
  "lastLedger sample_book = 0" "Offers sample_book = []" "LiquidityPools sample_book = {}"
  by (simp_all add: sample_book_def AddOffers_def enqueue_def NewOrderBookGraph_def Clear_def batch_def Offers_def LiquidityPools_def)

theorem order_book_invariant_witness:
  "\<exists>g. Apply sample_book 5 = (g, None) \<and> set (Offers g) = {sample_offer} \<and> tables_agree g \<and> offers_indexed g \<and> assets_numbered g \<and> \<not> IsEmpty g"
proof -
  have "graph_inv sample_book" "\<forall>op \<in> set (operations (batchedUpdates sample_book)). valid_op op"
    using ob_reachable_pending_ok [OF sample_book_reachable] by (simp_all add: pending_ok_def)
  then obtain g where g: "Apply sample_book 5 = (g, None)" "contents g = ({sample_offer}, {})"
    using Apply_correct [of sample_book 5] sample_book_fields by (auto simp: contents_def)
  have "ob_reachable g" using ob_reachable.step [OF sample_book_reachable] ob_step.Apply [OF g(1)] by blast
  from order_book_invariant [OF this] g show ?thesis by (auto simp: contents_def)
qed

theorem Apply_refines_set_updates_witness:
  "\<exists>g'. Apply sample_book 5 = (g', None) \<and> set (Offers g') = {sample_offer} \<and> LiquidityPools g' = {} \<and> lastLedger g' = 5"
  using Apply_refines_set_updates [OF sample_book_reachable, of 5] sample_book_fields by auto

text \<open>A second \<^verbatim>\<open>Apply\<close> with the ledger of the first fails, and then \<^verbatim>\<open>Apply\<close> fails for a newer one too.\<close>

definition empty_book_at :: "int \<Rightarrow> OrderBookGraph" where
  "empty_book_at ledger = NewOrderBookGraph\<lparr>lastLedger := ledger\<rparr>"

lemma empty_book_at: "Apply NewOrderBookGraph ledger = (empty_book_at ledger, None)"
  by (simp add: Apply_def batch_apply_def NewOrderBookGraph_def Clear_def batch_def empty_book_at_def)

theorem Apply_errors_witness:
  "let g = fst (Apply (empty_book_at 5) 5)
   in snd (Apply (empty_book_at 5) 5) = Some errUnexpectedLedger \<and> Apply g 6 = (g, Some errBatchAlreadyApplied)"
proof -
  have r: "ob_reachable (empty_book_at 5)" using empty_book_at by (blast intro: ob_reachable.intros ob_step.Apply)
  have "snd (Apply (empty_book_at 5) 5) = Some errUnexpectedLedger"
    by (simp add: Apply_def batch_apply_def empty_book_at_def NewOrderBookGraph_def Clear_def batch_def)
  then show ?thesis
    using Apply_errors [OF r, of 5 "fst (Apply (empty_book_at 5) 5)" errUnexpectedLedger 6] by (simp add: Let_def prod_eq_iff)
qed

end
