(* ===== verification/Search.thy ===== *)
theory Search
  imports OrderBookInv
begin

text \<open>
  The path search (\<^verbatim>\<open>src/exp/orderbook/search.go\<close>, \<^verbatim>\<open>utils.go\<close> and the \<^verbatim>\<open>Find\<close> functions of
  \<^verbatim>\<open>graph.go\<close>).

  The interface \<^verbatim>\<open>searchState\<close> is a record of its methods; \<^verbatim>\<open>appendToPaths\<close>, which changes the
  state, takes and returns the list of paths found. The nodes of the paths are objects that the
  search changes through pointers: they are kept in a heap, a list in the order of allocation,
  and a pointer is an index. (The slab that the code allocates them from has no other use.)
  A context is the sequence of the answers of \<^verbatim>\<open>ctx.Err()\<close>. Strings are compared as in Go, byte by byte.
\<close>

section \<open>The model\<close>

record Path =
  SourceAsset :: string
  SourceAmount :: int
  DestinationAsset :: string
  DestinationAmount :: int
  InteriorNodes :: "string list"

datatype search_error =
    errEmptyOffers
  | errAssetAmountIsZero
  | errSoldTooMuch
  | priceError price_error
  | ctxError string

record searchState =
  totalAssets :: nat
  considerPools :: bool
  isTerminalNode :: "nat \<Rightarrow> bool"
  includePath :: "nat \<Rightarrow> int \<Rightarrow> bool"
  betterPathAmount :: "int \<Rightarrow> int \<Rightarrow> bool"
  appendToPaths :: "Path list \<Rightarrow> nat list \<Rightarrow> nat \<Rightarrow> int \<Rightarrow> Path list"
  venues :: "nat \<Rightarrow> edgeSet"
  consumeOffers :: "int \<Rightarrow> int \<Rightarrow> OfferEntry list \<Rightarrow> int \<times> search_error option"
  consumePool :: "liquidityPool \<Rightarrow> nat \<Rightarrow> int \<Rightarrow> pool_error + int"

subsection \<open>Path nodes\<close>

record pathNode =
  node_asset :: nat
  node_prev :: "nat option"

text \<open>
  The loops along \<^verbatim>\<open>prev\<close> have the size of the heap as fuel: a node points to an older one
  (\<open>heap_ok\<close> below), so they end before the fuel does.
\<close>

fun contains_loop :: "nat \<Rightarrow> pathNode list \<Rightarrow> nat option \<Rightarrow> nat \<Rightarrow> bool" where
  "contains_loop 0 h cur node = False"
| "contains_loop (Suc fuel) h None node = False"
| "contains_loop (Suc fuel) h (Some cur) node =
     (if node_asset (h ! cur) = node then True else contains_loop fuel h (node_prev (h ! cur)) node)"

definition contains :: "pathNode list \<Rightarrow> nat option \<Rightarrow> nat \<Rightarrow> bool" where
  "contains h p node = contains_loop (length h) h p node"

definition swap_at :: "'a list \<Rightarrow> nat \<Rightarrow> nat \<Rightarrow> 'a list" where
  "swap_at xs i j = xs[i := xs ! j, j := xs ! i]"

text \<open>The loop for \<open>i\<close> from \<open>k - 1\<close> down to 0.\<close>

fun reversePath_loop :: "nat \<Rightarrow> 'a list \<Rightarrow> 'a list" where
  "reversePath_loop 0 path = path"
| "reversePath_loop (Suc i) path = reversePath_loop i (swap_at path i (length path - 1 - i))"

definition reversePath :: "'a list \<Rightarrow> 'a list" where
  "reversePath path = reversePath_loop (length path div 2) path"

fun path_loop :: "nat \<Rightarrow> pathNode list \<Rightarrow> nat option \<Rightarrow> nat list \<Rightarrow> nat list" where
  "path_loop 0 h cur result = result"
| "path_loop (Suc fuel) h None result = result"
| "path_loop (Suc fuel) h (Some cur) result = path_loop fuel h (node_prev (h ! cur)) (result @ [node_asset (h ! cur)])"

definition path :: "pathNode list \<Rightarrow> nat option \<Rightarrow> nat list" where
  "path h p = reversePath (path_loop (length h) h p [])"

subsection \<open>Trading\<close>

definition positiveMin :: "int \<Rightarrow> int \<Rightarrow> int" where
  "positiveMin a b = (if b \<le> 0 then a else if b < a \<or> a \<le> 0 then b else a)"

text \<open>The amount is returned even with an error.\<close>

fun consumeSelling_loop :: "AccountId option \<Rightarrow> OfferEntry list \<Rightarrow> int \<Rightarrow> int \<Rightarrow> int \<times> search_error option" where
  "consumeSelling_loop ignoreOffersFrom [] currentAssetAmount totalConsumed = (-1, None)"
| "consumeSelling_loop ignoreOffersFrom (offer # offers) currentAssetAmount totalConsumed =
     (if (case ignoreOffersFrom of None \<Rightarrow> False | Some account \<Rightarrow> AccountId_Equals account (of_SellerId offer))
      then consumeSelling_loop ignoreOffersFrom offers currentAssetAmount totalConsumed
      else
        (case ConvertToBuyingUnits (of_Amount offer) currentAssetAmount (price_N (of_Price offer)) (price_D (of_Price offer)) of
           Inl ErrOverflow \<Rightarrow> (-1, None)
         | Inl e \<Rightarrow> (-1, Some (priceError e))
         | Inr (buyingUnitsFromOffer, sellingUnitsFromOffer) \<Rightarrow>
             (let totalConsumed' = s64 (totalConsumed + buyingUnitsFromOffer);
                  currentAssetAmount' = s64 (currentAssetAmount - sellingUnitsFromOffer)
              in if currentAssetAmount' = 0 then (totalConsumed', None)
                 else if currentAssetAmount' < 0 then (-1, Some errSoldTooMuch)
                 else consumeSelling_loop ignoreOffersFrom offers currentAssetAmount' totalConsumed')))"

definition consumeOffersForSellingAsset ::
    "OfferEntry list \<Rightarrow> AccountId option \<Rightarrow> int \<Rightarrow> int \<Rightarrow> int \<times> search_error option" where
  "consumeOffersForSellingAsset offers ignoreOffersFrom currentAssetAmount currentBestAmount =
     (if length offers = 0 then (0, Some errEmptyOffers)
      else if currentAssetAmount = 0 then (0, Some errAssetAmountIsZero)
      else consumeSelling_loop ignoreOffersFrom offers currentAssetAmount 0)"

text \<open>\<open>rest\<close> is the second half of the loop body: the offer is consumed as a whole.\<close>

fun consumeBuying_loop :: "OfferEntry list \<Rightarrow> int \<Rightarrow> int \<Rightarrow> int \<times> search_error option" where
  "consumeBuying_loop [] currentAssetAmount totalConsumed = (-1, None)"
| "consumeBuying_loop (offer # offers) currentAssetAmount totalConsumed =
     (let n = price_N (of_Price offer); d = price_D (of_Price offer);
          rest = (case ConvertToBuyingUnits (of_Amount offer) (of_Amount offer) n d of
                    Inl ErrOverflow \<Rightarrow> (-1, None)
                  | Inl e \<Rightarrow> (-1, Some (priceError e))
                  | Inr (buyingUnitsFromOffer, sellingUnitsFromOffer) \<Rightarrow>
                      (let totalConsumed' = s64 (totalConsumed + sellingUnitsFromOffer);
                           currentAssetAmount' = s64 (currentAssetAmount - buyingUnitsFromOffer)
                       in if currentAssetAmount' = 0 then (totalConsumed', None)
                          else if currentAssetAmount' < 0 then (-1, Some errSoldTooMuch)
                          else consumeBuying_loop offers currentAssetAmount' totalConsumed'))
      in case MulFractionRoundDown currentAssetAmount d n of
           Inl ErrOverflow \<Rightarrow> rest
         | Inl e \<Rightarrow> (-1, Some (priceError e))
         | Inr amountSold \<Rightarrow>
             if amountSold = 0 then (-1, None)
             else if amountSold < 0 then (-1, Some errSoldTooMuch)
             else if amountSold \<le> of_Amount offer then (s64 (totalConsumed + amountSold), None)
             else rest)"

definition consumeOffersForBuyingAsset :: "OfferEntry list \<Rightarrow> int \<Rightarrow> int \<times> search_error option" where
  "consumeOffersForBuyingAsset offers currentAssetAmount =
     (if length offers = 0 then (0, Some errEmptyOffers)
      else if currentAssetAmount = 0 then (0, Some errAssetAmountIsZero)
      else consumeBuying_loop offers currentAssetAmount 0)"

definition processVenues :: "searchState \<Rightarrow> nat \<Rightarrow> int \<Rightarrow> Venues \<Rightarrow> search_error + int" where
  "processVenues state currentAsset currentAssetAmount vs =
     (if currentAssetAmount = 0 then Inl errAssetAmountIsZero
      else
        (let pool = v_pool vs;
             poolAmount = (if considerPools state \<and> hasPool pool
                           then (case consumePool state pool currentAsset currentAssetAmount of
                                   Inr amount \<Rightarrow> amount | Inl _ \<Rightarrow> 0)
                           else 0)
         in if poolAmount = 0 \<and> length (v_offers vs) = 0 then Inr (-1)
            else
              (let (nextAssetAmount, err) = consumeOffers state currentAssetAmount poolAmount (v_offers vs)
               in case err of
                    Some e \<Rightarrow> if poolAmount = 0 then Inl e else Inr nextAssetAmount
                  | None \<Rightarrow> Inr nextAssetAmount)))"

subsection \<open>The search\<close>

record searchVars =
  heap :: "pathNode list"
  bestAmount :: "int list"
  updateAmount :: "int list"
  bestPath :: "nat option list"
  updatePath :: "nat option list"
  updatedAssets :: "nat list"
  polls :: nat
  found :: "Path list"

text \<open>
  One turn of the innermost loop (the edge to \<^verbatim>\<open>nextAsset\<close>); \<open>lastStep\<close> is
  \<^verbatim>\<open>i == maxPathLength-1\<close>, \<open>ctx n\<close> the answer to the \<open>n\<close>-th call of \<^verbatim>\<open>ctx.Err()\<close>.
\<close>

definition search_edge ::
    "(nat \<Rightarrow> string option) \<Rightarrow> searchState \<Rightarrow> bool \<Rightarrow> nat \<Rightarrow> int \<Rightarrow> nat option \<Rightarrow> edge \<Rightarrow> searchVars \<Rightarrow> searchVars \<times> search_error option" where
  "search_edge ctx state lastStep currentAsset currentAmount pathToCurrentAsset e v0 =
     (let v = v0\<lparr>polls := polls v0 + 1\<rparr> in
      case ctx (polls v0) of
        Some err \<Rightarrow> (v, Some (ctxError err))
      | None \<Rightarrow>
          (let nextAsset = e_key e in
           if lastStep \<and> \<not> isTerminalNode state nextAsset then (v, None)
           else if contains (heap v) pathToCurrentAsset nextAsset then (v, None)
           else
             (case processVenues state currentAsset currentAmount (e_value e) of
                Inl err \<Rightarrow> (v, Some err)
              | Inr nextAssetAmount \<Rightarrow>
                  if nextAssetAmount \<le> 0 then (v, None)
                  else if betterPathAmount state (updateAmount v ! nextAsset) nextAssetAmount then
                    (let newEntry = (updateAmount v ! nextAsset = bestAmount v ! nextAsset);
                         v1 = v\<lparr>updateAmount := (updateAmount v)[nextAsset := nextAssetAmount]\<rparr>;
                         v2 = (if newEntry
                               then v1\<lparr>updatedAssets := updatedAssets v1 @ [nextAsset],
                                       heap := heap v1 @ [\<lparr>node_asset = nextAsset, node_prev = pathToCurrentAsset\<rparr>],
                                       updatePath := (updatePath v1)[nextAsset := Some (length (heap v1))]\<rparr>
                               else v1\<lparr>heap := (case updatePath v1 ! nextAsset of
                                                  Some p \<Rightarrow> (heap v1)[p := (heap v1 ! p)\<lparr>node_prev := pathToCurrentAsset\<rparr>]
                                                | None \<Rightarrow> heap v1)\<rparr>)
                     in if includePath state nextAsset nextAssetAmount
                        then (v2\<lparr>found := appendToPaths state (found v2)
                                   (path (heap v2) (bestPath v2 ! currentAsset) @ [nextAsset]) nextAsset nextAssetAmount\<rparr>, None)
                        else (v2, None))
                  else (v, None))))"

fun search_edges ::
    "(nat \<Rightarrow> string option) \<Rightarrow> searchState \<Rightarrow> bool \<Rightarrow> nat \<Rightarrow> int \<Rightarrow> nat option \<Rightarrow> edgeSet \<Rightarrow> searchVars \<Rightarrow> searchVars \<times> search_error option" where
  "search_edges ctx state lastStep currentAsset currentAmount p [] v = (v, None)"
| "search_edges ctx state lastStep currentAsset currentAmount p (e # es) v =
     (case search_edge ctx state lastStep currentAsset currentAmount p e v of
        (v', None) \<Rightarrow> search_edges ctx state lastStep currentAsset currentAmount p es v'
      | (v', Some err) \<Rightarrow> (v', Some err))"

fun search_assets ::
    "(nat \<Rightarrow> string option) \<Rightarrow> searchState \<Rightarrow> bool \<Rightarrow> nat list \<Rightarrow> searchVars \<Rightarrow> searchVars \<times> search_error option" where
  "search_assets ctx state lastStep [] v = (v, None)"
| "search_assets ctx state lastStep (currentAsset # rest) v =
     (let currentAmount = bestAmount v ! currentAsset in
      if currentAmount = 0 then search_assets ctx state lastStep rest v
      else
        (case search_edges ctx state lastStep currentAsset currentAmount (bestPath v ! currentAsset) (venues state currentAsset) v of
           (v', None) \<Rightarrow> search_assets ctx state lastStep rest v'
         | (v', Some err) \<Rightarrow> (v', Some err)))"

definition commit_updates :: "searchVars \<Rightarrow> searchVars" where
  "commit_updates v =
     foldl (\<lambda>v asset. v\<lparr>bestPath := (bestPath v)[asset := updatePath v ! asset],
                       bestAmount := (bestAmount v)[asset := updateAmount v ! asset]\<rparr>) v (updatedAssets v)"

fun search_rounds ::
    "(nat \<Rightarrow> string option) \<Rightarrow> searchState \<Rightarrow> nat \<Rightarrow> nat list \<Rightarrow> searchVars \<Rightarrow> searchVars \<times> search_error option" where
  "search_rounds ctx state maxPathLength [] v = (v, None)"
| "search_rounds ctx state maxPathLength (i # rounds) v =
     (case search_assets ctx state (Suc i = maxPathLength) [0..<totalAssets state] (v\<lparr>updatedAssets := []\<rparr>) of
        (v', Some err) \<Rightarrow> (v', Some err)
      | (v', None) \<Rightarrow>
          search_rounds ctx state maxPathLength rounds (if Suc i < maxPathLength then commit_updates v' else v'))"

definition search_init :: "searchState \<Rightarrow> nat \<Rightarrow> int \<Rightarrow> searchVars" where
  "search_init state sourceAsset sourceAssetAmount =
     (let zeros = replicate (totalAssets state) 0; nils = replicate (totalAssets state) None in
      \<lparr>heap = [\<lparr>node_asset = sourceAsset, node_prev = None\<rparr>],
       bestAmount = zeros[sourceAsset := sourceAssetAmount], updateAmount = zeros[sourceAsset := sourceAssetAmount],
       bestPath = nils[sourceAsset := Some 0], updatePath = nils, updatedAssets = [], polls = 0,
       found = (if includePath state sourceAsset sourceAssetAmount
                then appendToPaths state [] [sourceAsset] sourceAsset sourceAssetAmount else [])\<rparr>)"

definition search ::
    "(nat \<Rightarrow> string option) \<Rightarrow> searchState \<Rightarrow> int \<Rightarrow> nat \<Rightarrow> int \<Rightarrow> Path list \<times> search_error option" where
  "search ctx state maxPathLength sourceAsset sourceAssetAmount =
     (let (v, err) = search_rounds ctx state (nat maxPathLength) [0..<nat maxPathLength]
                       (search_init state sourceAsset sourceAssetAmount)
      in (found v, err))"

subsection \<open>The two search states\<close>

definition assetIDsToAssetStrings :: "OrderBookGraph \<Rightarrow> nat list \<Rightarrow> string list" where
  "assetIDsToAssetStrings graph p = map (\<lambda>i. idToAssetString graph ! i) p"

definition selling_betterPathAmount :: "int \<Rightarrow> int \<Rightarrow> bool" where
  "selling_betterPathAmount currentAmount alternativeAmount =
     (if currentAmount = 0 then True else if alternativeAmount = 0 then False else alternativeAmount < currentAmount)"

definition selling_appendToPaths ::
    "OrderBookGraph \<Rightarrow> string \<Rightarrow> int \<Rightarrow> Path list \<Rightarrow> nat list \<Rightarrow> nat \<Rightarrow> int \<Rightarrow> Path list" where
  "selling_appendToPaths graph destinationAssetString destinationAssetAmount paths p currentAsset currentAssetAmount =
     (let p' = (if length p > 2 then reversePath (take (length p - 2) (drop 1 p)) else [])
      in paths @ [\<lparr>SourceAsset = idToAssetString graph ! currentAsset, SourceAmount = currentAssetAmount,
                   DestinationAsset = destinationAssetString, DestinationAmount = destinationAssetAmount,
                   InteriorNodes = assetIDsToAssetStrings graph p'\<rparr>])"

definition sellingGraphSearchState ::
    "'u uint256_ops \<Rightarrow> OrderBookGraph \<Rightarrow> string \<Rightarrow> int \<Rightarrow> AccountId option \<Rightarrow> (nat \<rightharpoonup> int) \<Rightarrow> bool \<Rightarrow> bool \<Rightarrow> searchState" where
  "sellingGraphSearchState U graph destinationAssetString destinationAssetAmount ignoreOffersFrom targetAssets
      validateSourceBalance includePools =
     \<lparr>totalAssets = length (idToAssetString graph),
      considerPools = includePools,
      isTerminalNode = (\<lambda>currentAsset. targetAssets currentAsset \<noteq> None),
      includePath = (\<lambda>currentAsset currentAssetAmount.
        case targetAssets currentAsset of
          None \<Rightarrow> False
        | Some targetAssetBalance \<Rightarrow> \<not> validateSourceBalance \<or> targetAssetBalance \<ge> currentAssetAmount),
      betterPathAmount = selling_betterPathAmount,
      appendToPaths = selling_appendToPaths graph destinationAssetString destinationAssetAmount,
      venues = (\<lambda>currentAsset. venuesForSellingAsset graph ! currentAsset),
      consumeOffers = (\<lambda>currentAssetAmount currentBestAmount offers.
        let (nextAmount, err) = consumeOffersForSellingAsset offers ignoreOffersFrom currentAssetAmount currentBestAmount
        in (positiveMin currentBestAmount nextAmount, err)),
      consumePool = (\<lambda>pool currentAsset currentAssetAmount.
        makeTrade U pool (getOtherAsset currentAsset pool) tradeTypeExpectation currentAssetAmount)\<rparr>"

definition buying_appendToPaths ::
    "OrderBookGraph \<Rightarrow> string \<Rightarrow> int \<Rightarrow> Path list \<Rightarrow> nat list \<Rightarrow> nat \<Rightarrow> int \<Rightarrow> Path list" where
  "buying_appendToPaths graph sourceAssetString sourceAssetAmount paths p currentAsset currentAssetAmount =
     (let p' = (if length p > 2 then take (length p - 2) (drop 1 p) else [])
      in paths @ [\<lparr>SourceAsset = sourceAssetString, SourceAmount = sourceAssetAmount,
                   DestinationAsset = idToAssetString graph ! currentAsset, DestinationAmount = currentAssetAmount,
                   InteriorNodes = assetIDsToAssetStrings graph p'\<rparr>])"

definition buyingGraphSearchState ::
    "'u uint256_ops \<Rightarrow> OrderBookGraph \<Rightarrow> string \<Rightarrow> int \<Rightarrow> (nat \<Rightarrow> bool) \<Rightarrow> bool \<Rightarrow> searchState" where
  "buyingGraphSearchState U graph sourceAssetString sourceAssetAmount targetAssets includePools =
     \<lparr>totalAssets = length (idToAssetString graph),
      considerPools = includePools,
      isTerminalNode = targetAssets,
      includePath = (\<lambda>currentAsset currentAssetAmount. targetAssets currentAsset),
      betterPathAmount = (\<lambda>currentAmount alternativeAmount. alternativeAmount > currentAmount),
      appendToPaths = buying_appendToPaths graph sourceAssetString sourceAssetAmount,
      venues = (\<lambda>currentAsset. venuesForBuyingAsset graph ! currentAsset),
      consumeOffers = (\<lambda>currentAssetAmount currentBestAmount offers.
        let (nextAmount, err) = consumeOffersForBuyingAsset offers currentAssetAmount
        in (ordered_Max nextAmount currentBestAmount, err)),
      consumePool = (\<lambda>pool currentAsset currentAssetAmount. makeTrade U pool currentAsset tradeTypeDeposit currentAssetAmount)\<rparr>"

subsection \<open>Sorting and filtering the paths\<close>

definition compareSourceAsset :: "Path \<Rightarrow> Path \<Rightarrow> bool" where
  "compareSourceAsset p q =
     (if SourceAsset p = SourceAsset q then
        (if SourceAmount p = SourceAmount q then length (InteriorNodes p) < length (InteriorNodes q)
         else SourceAmount p < SourceAmount q)
      else SourceAsset p < SourceAsset q)"

definition compareDestinationAsset :: "Path \<Rightarrow> Path \<Rightarrow> bool" where
  "compareDestinationAsset p q =
     (if DestinationAsset p = DestinationAsset q then
        (if DestinationAmount p = DestinationAmount q then length (InteriorNodes p) < length (InteriorNodes q)
         else DestinationAmount p > DestinationAmount q)
      else DestinationAsset p < DestinationAsset q)"

definition sourceAssetEquals :: "Path \<Rightarrow> Path \<Rightarrow> bool" where
  "sourceAssetEquals p otherPath \<longleftrightarrow> SourceAsset p = SourceAsset otherPath"

definition destinationAssetEquals :: "Path \<Rightarrow> Path \<Rightarrow> bool" where
  "destinationAssetEquals p otherPath \<longleftrightarrow> DestinationAsset p = DestinationAsset otherPath"

definition sortBySourceAsset :: string where "sortBySourceAsset = ''source''"
definition sortByDestinationAsset :: string where "sortByDestinationAsset = ''destination''"

datatype find_error =
    couldNotDeterminePaths search_error
  | invalidSortByType
  | index_panic

fun filter_loop :: "(Path \<Rightarrow> Path \<Rightarrow> bool) \<Rightarrow> int \<Rightarrow> Path list \<Rightarrow> Path list \<Rightarrow> int \<Rightarrow> Path list" where
  "filter_loop assetsEqual maxPathsPerAsset [] filtered countForAsset = filtered"
| "filter_loop assetsEqual maxPathsPerAsset (entry # entries) filtered countForAsset =
     (if length filtered = 0 \<or> \<not> assetsEqual (last filtered) entry
      then filter_loop assetsEqual maxPathsPerAsset entries (filtered @ [entry]) 1
      else if countForAsset < maxPathsPerAsset
      then filter_loop assetsEqual maxPathsPerAsset entries (filtered @ [entry]) (countForAsset + 1)
      else filter_loop assetsEqual maxPathsPerAsset entries filtered countForAsset)"

text \<open>\<open>sort_Sort less paths\<close> is the order in which \<^verbatim>\<open>sort.Sort\<close> leaves the paths; it need not be stable.\<close>

definition sortAndFilterPaths ::
    "((Path \<Rightarrow> Path \<Rightarrow> bool) \<Rightarrow> Path list \<Rightarrow> Path list) \<Rightarrow> Path list \<Rightarrow> int \<Rightarrow> string \<Rightarrow> find_error + Path list" where
  "sortAndFilterPaths sort_Sort allPaths maxPathsPerAsset sortType =
     (if sortType = sortBySourceAsset
      then Inr (filter_loop sourceAssetEquals maxPathsPerAsset (sort_Sort compareSourceAsset allPaths) [] 0)
      else if sortType = sortByDestinationAsset
      then Inr (filter_loop destinationAssetEquals maxPathsPerAsset (sort_Sort compareDestinationAsset allPaths) [] 0)
      else Inl invalidSortByType)"

subsection \<open>Finding paths\<close>

text \<open>\<open>None\<close>: an index into the balances that is out of range panics.\<close>

fun sourceAssetsMap :: "OrderBookGraph \<Rightarrow> nat \<Rightarrow> Asset list \<Rightarrow> int list \<Rightarrow> (nat \<rightharpoonup> int) \<Rightarrow> (nat \<rightharpoonup> int) option" where
  "sourceAssetsMap graph i [] balances m = Some m"
| "sourceAssetsMap graph i (sourceAsset # rest) balances m =
     (case assetStringToID graph (Asset_String sourceAsset) of
        None \<Rightarrow> sourceAssetsMap graph (Suc i) rest balances m
      | Some sourceAssetID \<Rightarrow>
          if i < length balances then sourceAssetsMap graph (Suc i) rest balances (m(sourceAssetID \<mapsto> balances ! i))
          else None)"

definition findPathsWithLock ::
    "'u uint256_ops \<Rightarrow> (nat \<Rightarrow> string option) \<Rightarrow> OrderBookGraph \<Rightarrow> int \<Rightarrow> Asset \<Rightarrow> int \<Rightarrow> AccountId option \<Rightarrow> Asset list \<Rightarrow> int list \<Rightarrow>
     bool \<Rightarrow> bool \<Rightarrow> (Path list \<times> int \<times> search_error option) option" where
  "findPathsWithLock U ctx graph maxPathLength destinationAsset destinationAmount sourceAccountID sourceAssets sourceAssetBalances
      validateSourceBalance includePools =
     (let destinationAssetString = Asset_String destinationAsset in
      case sourceAssetsMap graph 0 sourceAssets sourceAssetBalances Map.empty of
        None \<Rightarrow> None
      | Some sourceMap \<Rightarrow>
          (case assetStringToID graph destinationAssetString of
             None \<Rightarrow> Some ([], lastLedger graph, None)
           | Some destinationAssetID \<Rightarrow>
               if sourceMap = Map.empty then Some ([], lastLedger graph, None)
               else
                 (let state = sellingGraphSearchState U graph destinationAssetString destinationAmount sourceAccountID sourceMap
                                validateSourceBalance includePools;
                      (paths, err) = search ctx state maxPathLength destinationAssetID destinationAmount
                  in Some (paths, lastLedger graph, err))))"

definition FindPaths ::
    "((Path \<Rightarrow> Path \<Rightarrow> bool) \<Rightarrow> Path list \<Rightarrow> Path list) \<Rightarrow> 'u uint256_ops \<Rightarrow> (nat \<Rightarrow> string option) \<Rightarrow> OrderBookGraph \<Rightarrow> int \<Rightarrow>
     Asset \<Rightarrow> int \<Rightarrow> AccountId option \<Rightarrow> Asset list \<Rightarrow> int list \<Rightarrow> bool \<Rightarrow> int \<Rightarrow> bool \<Rightarrow> find_error + Path list \<times> int" where
  "FindPaths sort_Sort U ctx graph maxPathLength destinationAsset destinationAmount sourceAccountID sourceAssets sourceAssetBalances
      validateSourceBalance maxAssetsPerPath includePools =
     (case findPathsWithLock U ctx graph maxPathLength destinationAsset destinationAmount sourceAccountID sourceAssets
             sourceAssetBalances validateSourceBalance includePools of
        None \<Rightarrow> Inl index_panic
      | Some (paths, ledger, Some err) \<Rightarrow> Inl (couldNotDeterminePaths err)
      | Some (paths, ledger, None) \<Rightarrow>
          (case sortAndFilterPaths sort_Sort paths maxAssetsPerPath sortBySourceAsset of
             Inl e \<Rightarrow> Inl e | Inr paths' \<Rightarrow> Inr (paths', ledger)))"

definition targetMap :: "OrderBookGraph \<Rightarrow> Asset list \<Rightarrow> nat \<Rightarrow> bool" where
  "targetMap graph destinationAssets =
     foldl (\<lambda>target asset. case assetStringToID graph (Asset_String asset) of
              None \<Rightarrow> target | Some i \<Rightarrow> target(i := True)) (\<lambda>_. False) destinationAssets"

definition findFixedPathsWithLock ::
    "'u uint256_ops \<Rightarrow> (nat \<Rightarrow> string option) \<Rightarrow> OrderBookGraph \<Rightarrow> int \<Rightarrow> Asset \<Rightarrow> int \<Rightarrow> Asset list \<Rightarrow> bool \<Rightarrow>
     Path list \<times> int \<times> search_error option" where
  "findFixedPathsWithLock U ctx graph maxPathLength sourceAsset amountToSpend destinationAssets includePools =
     (let target = targetMap graph destinationAssets; sourceAssetString = Asset_String sourceAsset in
      case assetStringToID graph sourceAssetString of
        None \<Rightarrow> ([], lastLedger graph, None)
      | Some sourceAssetID \<Rightarrow>
          if target = (\<lambda>_. False) then ([], lastLedger graph, None)
          else
            (let state = buyingGraphSearchState U graph sourceAssetString amountToSpend target includePools;
                 (paths, err) = search ctx state maxPathLength sourceAssetID amountToSpend
             in (paths, lastLedger graph, err)))"

definition FindFixedPaths ::
    "((Path \<Rightarrow> Path \<Rightarrow> bool) \<Rightarrow> Path list \<Rightarrow> Path list) \<Rightarrow> 'u uint256_ops \<Rightarrow> (nat \<Rightarrow> string option) \<Rightarrow> OrderBookGraph \<Rightarrow> int \<Rightarrow>
     Asset \<Rightarrow> int \<Rightarrow> Asset list \<Rightarrow> int \<Rightarrow> bool \<Rightarrow> find_error + Path list \<times> int" where
  "FindFixedPaths sort_Sort U ctx graph maxPathLength sourceAsset amountToSpend destinationAssets maxAssetsPerPath includePools =
     (case findFixedPathsWithLock U ctx graph maxPathLength sourceAsset amountToSpend destinationAssets includePools of
        (paths, ledger, Some err) \<Rightarrow> Inl (couldNotDeterminePaths err)
      | (paths, ledger, None) \<Rightarrow>
          (case sortAndFilterPaths sort_Sort paths maxAssetsPerPath sortByDestinationAsset of
             Inl e \<Rightarrow> Inl e | Inr paths' \<Rightarrow> Inr (paths', ledger)))"

end
