(* ===== verification/SearchProof.thy ===== *)
theory SearchProof
  imports Search "HOL-Library.Multiset"
begin

text \<open>
  The path search is sound: the paths it reports are sequences of trades between distinct assets.
  The proof relates the nodes in the heap to lists of assets, over the interface of a search
  state (the locale \<open>search_interface\<close>), which both search states implement. It also shows that
  the search ends with no error but the context's.
\<close>

section \<open>Path nodes\<close>

lemma length_reversePath_loop [simp]: "length (reversePath_loop k xs) = length xs"
  by (induction k arbitrary: xs) (simp_all add: swap_at_def)

lemma nth_reversePath_loop:
  "2 * k \<le> length xs \<Longrightarrow> j < length xs \<Longrightarrow>
   reversePath_loop k xs ! j = (if j < k \<or> length xs - k \<le> j then xs ! (length xs - 1 - j) else xs ! j)"
proof (induction k arbitrary: xs)
  case (Suc k)
  let ?ys = "swap_at xs k (length xs - 1 - k)"
  have ys: "?ys ! i = (if i = k \<or> i = length xs - 1 - k then xs ! (length xs - 1 - i) else xs ! i)" if "i < length xs" for i
    using that Suc.prems(1) by (auto simp: swap_at_def nth_list_update)
  have "reversePath_loop (Suc k) xs ! j = (if j < k \<or> length xs - k \<le> j then ?ys ! (length xs - 1 - j) else ?ys ! j)"
    using Suc.IH [of ?ys] Suc.prems by (simp add: swap_at_def)
  also have "\<dots> = (if j < Suc k \<or> length xs - Suc k \<le> j then xs ! (length xs - 1 - j) else xs ! j)"
    using Suc.prems ys [of j] ys [of "length xs - 1 - j"] by auto
  finally show ?case .
qed simp

lemma reversePath_rev [simp]: "reversePath xs = rev xs"
proof (rule nth_equalityI)
  fix i assume "i < length (reversePath xs)"
  then have i: "i < length xs" by (simp add: reversePath_def)
  have "i = length xs - 1 - i" if "\<not> (i < length xs div 2 \<or> length xs - length xs div 2 \<le> i)" using that by linarith
  then show "reversePath xs ! i = rev xs ! i" using i by (auto simp: reversePath_def nth_reversePath_loop rev_nth)
qed (simp add: reversePath_def)

definition heap_ok :: "pathNode list \<Rightarrow> bool" where
  "heap_ok h \<longleftrightarrow> (\<forall>i < length h. \<forall>j. node_prev (h ! i) = Some j \<longrightarrow> j < i)"

text \<open>The assets of the nodes from a pointer to the start of the path.\<close>

fun nodes :: "nat \<Rightarrow> pathNode list \<Rightarrow> nat option \<Rightarrow> nat list" where
  "nodes 0 h cur = []"
| "nodes (Suc fuel) h None = []"
| "nodes (Suc fuel) h (Some cur) = node_asset (h ! cur) # nodes fuel h (node_prev (h ! cur))"

definition chain :: "pathNode list \<Rightarrow> nat option \<Rightarrow> nat list" where
  "chain h p = nodes (length h) h p"

lemma contains_chain: "contains h p node \<longleftrightarrow> node \<in> set (chain h p)"
proof -
  have "contains_loop n h p node \<longleftrightarrow> node \<in> set (nodes n h p)" for n
    by (induction n h p node rule: contains_loop.induct) auto
  then show ?thesis by (simp add: contains_def chain_def)
qed

lemma path_chain: "path h p = rev (chain h p)"
proof -
  have "path_loop n h p r = r @ nodes n h p" for n r
    by (induction n h p r rule: path_loop.induct) auto
  then show ?thesis by (simp add: path_def chain_def)
qed

lemma nodes_None [simp]: "nodes n h None = []"
  by (cases n) simp_all

text \<open>A chain is finite, and only the nodes up to the pointer matter.\<close>

lemma nodes_fuel:
  assumes "heap_ok h" "p < length h" "p < n" "p < m" "\<forall>i \<le> p. h' ! i = h ! i"
  shows "nodes n h (Some p) = nodes m h' (Some p)"
  using assms(2-)
proof (induction p arbitrary: n m rule: less_induct)
  case (less p)
  obtain n' m' where nm: "n = Suc n'" "m = Suc m'" using less.prems by (metis less_imp_Suc_add)
  have "nodes n' h (node_prev (h ! p)) = nodes m' h' (node_prev (h ! p))"
  proof (cases "node_prev (h ! p)")
    case (Some q)
    then have "q < p" using assms(1) less.prems(1) by (simp add: heap_ok_def)
    then show ?thesis unfolding Some using less.IH [of q n' m'] less.prems nm by simp
  qed simp
  then show ?case using less.prems nm by simp
qed

lemma chain_None [simp]: "chain h None = []"
  by (simp add: chain_def)

lemma chain_Some:
  assumes "heap_ok h" "p < length h"
  shows "chain h (Some p) = node_asset (h ! p) # chain h (node_prev (h ! p))"
proof -
  obtain n where n: "length h = Suc n" using assms(2) by (cases "length h") auto
  have "nodes n h (node_prev (h ! p)) = nodes (length h) h (node_prev (h ! p))"
  proof (cases "node_prev (h ! p)")
    case (Some q)
    then have "q < p" using assms by (simp add: heap_ok_def)
    then show ?thesis unfolding Some using assms n by (intro nodes_fuel) auto
  qed simp
  then show ?thesis by (simp add: chain_def n)
qed

lemma chain_cong:
  assumes "heap_ok h" "p < length h" "length h \<le> length h'" "\<forall>i \<le> p. h' ! i = h ! i"
  shows "chain h' (Some p) = chain h (Some p)"
  unfolding chain_def using assms by (intro nodes_fuel [symmetric]) auto

lemma heap_ok_append:
  "heap_ok h \<Longrightarrow> (\<forall>j. prev = Some j \<longrightarrow> j < length h) \<Longrightarrow> heap_ok (h @ [\<lparr>node_asset = a, node_prev = prev\<rparr>])"
  by (auto simp: heap_ok_def nth_append less_Suc_eq)

lemma heap_ok_update:
  "heap_ok h \<Longrightarrow> (\<forall>j. prev = Some j \<longrightarrow> j < q) \<Longrightarrow> heap_ok (h[q := (h ! q)\<lparr>node_prev := prev\<rparr>])"
  unfolding heap_ok_def by (metis length_list_update nth_list_update_eq nth_list_update_neq pathNode.select_convs(2) pathNode.surjective
    pathNode.update_convs(2))

section \<open>The interface of a search state\<close>

text \<open>
  A path with its amount: the assets from the current one back to the start of the search,
  no asset twice, each amount being what the venues between two assets give for the one before.
\<close>

inductive trade_path :: "searchState \<Rightarrow> nat \<Rightarrow> int \<Rightarrow> nat list \<Rightarrow> int \<Rightarrow> bool" for st src amt where
  start: "trade_path st src amt [src] amt"
| hop: "trade_path st src amt (a # p) x \<Longrightarrow> e \<in> set (venues st a) \<Longrightarrow> e_key e \<notin> set (a # p) \<Longrightarrow>
    processVenues st a x (e_value e) = Inr y \<Longrightarrow> 0 < y \<Longrightarrow> trade_path st src amt (e_key e # a # p) y"

lemma trade_path_distinct: "trade_path st src amt p x \<Longrightarrow> distinct p \<and> p \<noteq> [] \<and> last p = src"
  by (induction rule: trade_path.induct) auto

definition result_ok :: "searchState \<Rightarrow> (nat list \<Rightarrow> nat \<Rightarrow> int \<Rightarrow> Path) \<Rightarrow> nat \<Rightarrow> int \<Rightarrow> nat \<Rightarrow> Path \<Rightarrow> bool" where
  "result_ok st mk src amt k P \<longleftrightarrow>
     (\<exists>a p x. trade_path st src amt (a # p) x \<and> length p \<le> k \<and> includePath st a x \<and> P = mk (rev (a # p)) a x)"

lemma result_ok_mono: "result_ok st mk src amt k P \<Longrightarrow> k \<le> l \<Longrightarrow> result_ok st mk src amt l P"
  unfolding result_ok_def using order_trans by blast

lemma commit_fold:
  fixes v xs
  defines "v' \<equiv> foldl (\<lambda>v asset. v\<lparr>bestPath := (bestPath v)[asset := updatePath v ! asset],
                       bestAmount := (bestAmount v)[asset := updateAmount v ! asset]\<rparr>) v xs"
  shows "heap v' = heap v" "updateAmount v' = updateAmount v" "updatePath v' = updatePath v" "found v' = found v"
    "length (bestPath v') = length (bestPath v)" "length (bestAmount v') = length (bestAmount v)"
    "\<And>a. a < length (bestAmount v) \<Longrightarrow> bestAmount v' ! a = (if a \<in> set xs then updateAmount v ! a else bestAmount v ! a)"
    "\<And>a. a < length (bestPath v) \<Longrightarrow> bestPath v' ! a = (if a \<in> set xs then updatePath v ! a else bestPath v ! a)"
  unfolding v'_def by (induction xs arbitrary: v) auto

locale search_interface =
  fixes st :: searchState and mk :: "nat list \<Rightarrow> nat \<Rightarrow> int \<Rightarrow> Path"
  assumes append: "appendToPaths st paths p a x = paths @ [mk p a x]"
    and better_strict: "betterPathAmount st x y \<Longrightarrow> 0 < y \<Longrightarrow> x \<noteq> y"
    and better_trans: "betterPathAmount st x y \<Longrightarrow> betterPathAmount st y z \<Longrightarrow> 0 < y \<Longrightarrow> 0 < z \<Longrightarrow> betterPathAmount st x z"
begin

definition on_path :: "nat \<Rightarrow> int \<Rightarrow> nat \<Rightarrow> pathNode list \<Rightarrow> nat \<Rightarrow> int \<Rightarrow> nat \<Rightarrow> bool" where
  "on_path src amt k h a x p \<longleftrightarrow> p < length h \<and>
     (\<exists>rest. chain h (Some p) = a # rest \<and> length rest \<le> k \<and> trade_path st src amt (a # rest) x)"

lemma on_path_cong:
  assumes "on_path src amt k h a x p" "heap_ok h" "length h \<le> length h'" "\<forall>i \<le> p. h' ! i = h ! i"
  shows "on_path src amt k h' a x p"
  using assms chain_cong [OF assms(2) _ assms(3,4)] by (auto simp: on_path_def)

lemma on_path_new:
  assumes "on_path src amt k h a x q" "heap_ok h" "heap_ok h'" "length h \<le> length h'" "h' ! q = h ! q"
    "node_prev (h ! q) = Some p" "p < B" "\<And>i. i < B \<Longrightarrow> h' ! i = h ! i"
  shows "on_path src amt k h' a x q"
proof -
  have q: "q < length h" using assms(1) by (simp add: on_path_def)
  then have "p < q" using assms(2,6) by (simp add: heap_ok_def)
  then have "chain h' (Some p) = chain h (Some p)" using q assms by (intro chain_cong) auto
  then have "chain h' (Some q) = chain h (Some q)"
    using chain_Some [OF assms(2) q] chain_Some [OF assms(3), of q] q assms(4,5,6) by simp
  then show ?thesis using assms(1,4) by (auto simp: on_path_def)
qed

definition round_inv :: "nat \<Rightarrow> int \<Rightarrow> nat \<Rightarrow> nat \<Rightarrow> searchVars \<Rightarrow> bool" where
  "round_inv src amt B k v \<longleftrightarrow>
     heap_ok (heap v) \<and> B \<le> length (heap v) \<and>
     length (bestAmount v) = totalAssets st \<and> length (updateAmount v) = totalAssets st \<and>
     length (bestPath v) = totalAssets st \<and> length (updatePath v) = totalAssets st \<and>
     (\<forall>a < totalAssets st. bestAmount v ! a \<noteq> 0 \<longrightarrow>
        (\<exists>p < B. bestPath v ! a = Some p \<and> on_path src amt k (heap v) a (bestAmount v ! a) p)) \<and>
     (\<forall>a < totalAssets st. updateAmount v ! a \<noteq> bestAmount v ! a \<longrightarrow>
        (\<exists>q \<ge> B. updatePath v ! a = Some q \<and> (\<exists>p < B. node_prev (heap v ! q) = Some p) \<and>
           on_path src amt (Suc k) (heap v) a (updateAmount v ! a) q) \<and>
        betterPathAmount st (bestAmount v ! a) (updateAmount v ! a) \<and> 0 < updateAmount v ! a) \<and>
     set (updatedAssets v) = {a. a < totalAssets st \<and> updateAmount v ! a \<noteq> bestAmount v ! a} \<and>
     (\<forall>P \<in> set (found v). result_ok st mk src amt (Suc k) P)"

lemma round_inv_best:
  assumes "round_inv src amt B k v" "a < totalAssets st" "bestAmount v ! a \<noteq> 0"
  obtains p rest where "p < B" "p < length (heap v)" "bestPath v ! a = Some p" "chain (heap v) (Some p) = a # rest" "length rest \<le> k"
    "trade_path st src amt (a # rest) (bestAmount v ! a)"
  using assms unfolding round_inv_def on_path_def by blast

text \<open>A better amount for an asset: its node is new, or it was made in the same round.\<close>

lemma improve_inv:
  assumes inv: "round_inv src amt B k v" and cur: "p < B" "chain (heap v) (Some p) = c # rest" "length rest \<le> k"
    and tp: "trade_path st src amt (n # c # rest) y" and n: "n < totalAssets st" and y: "0 < y"
    and better: "betterPathAmount st (updateAmount v ! n) y"
    and v': "v' = (if updateAmount v ! n = bestAmount v ! n
       then v\<lparr>updateAmount := (updateAmount v)[n := y], updatedAssets := updatedAssets v @ [n],
              heap := heap v @ [\<lparr>node_asset = n, node_prev = Some p\<rparr>], updatePath := (updatePath v)[n := Some (length (heap v))]\<rparr>
       else v\<lparr>updateAmount := (updateAmount v)[n := y],
              heap := (case updatePath v ! n of Some q \<Rightarrow> (heap v)[q := (heap v ! q)\<lparr>node_prev := Some p\<rparr>] | None \<Rightarrow> heap v)\<rparr>)"
  shows "round_inv src amt B k v' \<and> chain (heap v') (Some p) = c # rest"
proof -
  let ?h = "heap v" and ?h' = "heap v'"
  have ok: "heap_ok ?h" "B \<le> length ?h" using inv by (auto simp: round_inv_def)
  have len: "length (updateAmount v) = totalAssets st" "length (updatePath v) = totalAssets st" using inv by (auto simp: round_inv_def)
  have best: "\<exists>p < B. bestPath v ! a = Some p \<and> on_path src amt k ?h a (bestAmount v ! a) p"
    if "a < totalAssets st" "bestAmount v ! a \<noteq> 0" for a using inv that unfolding round_inv_def by blast
  have upd: "(\<exists>q \<ge> B. updatePath v ! a = Some q \<and> (\<exists>p < B. node_prev (?h ! q) = Some p) \<and>
        on_path src amt (Suc k) ?h a (updateAmount v ! a) q) \<and>
      betterPathAmount st (bestAmount v ! a) (updateAmount v ! a) \<and> 0 < updateAmount v ! a"
    if "a < totalAssets st" "updateAmount v ! a \<noteq> bestAmount v ! a" for a using inv that unfolding round_inv_def by blast
  have "betterPathAmount st (bestAmount v ! n) y"
    using better upd [OF n] better_trans y by (cases "updateAmount v ! n = bestAmount v ! n") auto
  with better_strict y have bb: "betterPathAmount st (bestAmount v ! n) y" "y \<noteq> bestAmount v ! n" by auto
  obtain q where q: "updatePath v' ! n = Some q" "B \<le> q" "q < length ?h'" "node_asset (?h' ! q) = n" "node_prev (?h' ! q) = Some p"
    and h': "heap_ok ?h'" "length ?h \<le> length ?h'" "\<forall>i. i < length ?h \<and> i \<noteq> q \<longrightarrow> ?h' ! i = ?h ! i"
    and q_new: "q < length ?h \<longrightarrow> updatePath v ! n = Some q \<and> updateAmount v ! n \<noteq> bestAmount v ! n"
    and other: "\<forall>a. a \<noteq> n \<longrightarrow> updatePath v' ! a = updatePath v ! a"
    and fields: "length (updatePath v') = totalAssets st" "set (updatedAssets v') = insert n (set (updatedAssets v))"
      "bestPath v' = bestPath v" "bestAmount v' = bestAmount v" "updateAmount v' = (updateAmount v)[n := y]" "found v' = found v"
  proof (cases "updateAmount v ! n = bestAmount v ! n")
    case True
    then have v'': "v' = v\<lparr>updateAmount := (updateAmount v)[n := y], updatedAssets := updatedAssets v @ [n],
              heap := ?h @ [\<lparr>node_asset = n, node_prev = Some p\<rparr>], updatePath := (updatePath v)[n := Some (length ?h)]\<rparr>"
      by (simp add: v')
    show thesis
      by (rule that [of "length ?h"]) (use v'' ok cur(1) n len in \<open>simp_all add: heap_ok_append nth_append\<close>)
  next
    case False
    from upd [OF n this] obtain q where q: "B \<le> q" "updatePath v ! n = Some q" "on_path src amt (Suc k) ?h n (updateAmount v ! n) q"
      by blast
    then have v'': "v' = v\<lparr>updateAmount := (updateAmount v)[n := y], heap := ?h[q := (?h ! q)\<lparr>node_prev := Some p\<rparr>]\<rparr>"
      using False by (simp add: v')
    have "q < length ?h" "node_asset (?h ! q) = n" using q(3) ok chain_Some [of ?h q] by (auto simp: on_path_def)
    moreover have "n \<in> set (updatedAssets v)" using inv False n unfolding round_inv_def by blast
    ultimately show thesis
      by (intro that [of q]) (use v'' q ok cur(1) n len False in \<open>auto simp: heap_ok_update\<close>)
  qed
  have below: "?h' ! i = ?h ! i" if "i < B" for i using that h'(3) q(2) ok(2) by auto
  have ch: "chain ?h' (Some p) = c # rest"
    using chain_cong [OF ok(1) _ h'(2), of p] below cur ok(2) by auto
  then have new: "on_path src amt (Suc k) ?h' n y q"
    using chain_Some [OF h'(1) q(3)] q cur(3) tp by (auto simp: on_path_def)
  have "\<exists>p < B. bestPath v' ! a = Some p \<and> on_path src amt k ?h' a (bestAmount v' ! a) p"
    if "a < totalAssets st" "bestAmount v' ! a \<noteq> 0" for a
    using best [of a] that below ok(1) h'(2) unfolding fields by (metis on_path_cong order_le_less_trans)
  moreover have "(\<exists>q \<ge> B. updatePath v' ! a = Some q \<and> (\<exists>p < B. node_prev (?h' ! q) = Some p) \<and>
        on_path src amt (Suc k) ?h' a (updateAmount v' ! a) q) \<and>
      betterPathAmount st (bestAmount v' ! a) (updateAmount v' ! a) \<and> 0 < updateAmount v' ! a"
    if a: "a < totalAssets st" "updateAmount v' ! a \<noteq> bestAmount v' ! a" for a
  proof (cases "a = n")
    case True
    then show ?thesis using new q bb y n len cur(1) by (auto simp: fields)
  next
    case False
    then have "updateAmount v ! a \<noteq> bestAmount v ! a" "updateAmount v' ! a = updateAmount v ! a" using a by (auto simp: fields)
    with upd [OF a(1)] obtain r p' where r: "B \<le> r" "updatePath v ! a = Some r" "p' < B" "node_prev (?h ! r) = Some p'"
      "on_path src amt (Suc k) ?h a (updateAmount v ! a) r"
      "betterPathAmount st (bestAmount v ! a) (updateAmount v ! a)" "0 < updateAmount v ! a" by blast
    have "r < length ?h" "node_asset (?h ! r) = a" using r(5) chain_Some [OF ok(1), of r] by (auto simp: on_path_def)
    moreover have "node_asset (?h ! q) = n" if "q < length ?h"
      using q_new upd [OF n] that chain_Some [OF ok(1), of q] by (auto simp: on_path_def)
    ultimately have "?h' ! r = ?h ! r" using False h'(3) by auto
    then show ?thesis using on_path_new [OF r(5) ok(1) h'(1,2) _ r(4,3) below] r False other \<open>updateAmount v' ! a = updateAmount v ! a\<close> by (auto simp: fields)
  qed
  ultimately show ?thesis
    using inv h' ok(2) bb n len ch unfolding round_inv_def fields by (auto simp: nth_list_update)
qed

lemma search_edge_inv:
  assumes inv: "round_inv src amt B k v" and c: "c < totalAssets st" "bestAmount v ! c \<noteq> 0"
    and e: "e \<in> set (venues st c)" "e_key e < totalAssets st"
    and r: "search_edge ctx st ls c (bestAmount v ! c) (bestPath v ! c) e v = (v', err)"
  shows "round_inv src amt B k v' \<and> bestAmount v' = bestAmount v \<and> bestPath v' = bestPath v"
proof -
  let ?v = "v\<lparr>polls := polls v + 1\<rparr>" and ?x = "bestAmount v ! c"
  have inv1: "round_inv src amt B k ?v" using inv by (simp add: round_inv_def)
  obtain p rest where p: "p < B" "p < length (heap v)" "bestPath v ! c = Some p" "chain (heap v) (Some p) = c # rest" "length rest \<le> k"
    "trade_path st src amt (c # rest) ?x" using round_inv_best [OF inv c] by blast
  show ?thesis
  proof (cases "v' = ?v")
    case False
    then obtain y where y: "e_key e \<notin> set (c # rest)" "processVenues st c ?x (e_value e) = Inr y" "0 < y"
      "betterPathAmount st (updateAmount v ! e_key e) y"
      using r by (auto simp: search_edge_def Let_def contains_chain p not_le split: option.splits if_splits sum.splits)
    then have tp: "trade_path st src amt (e_key e # c # rest) y" using p(6) e(1) by (intro trade_path.hop)
    let ?n = "e_key e"
    define v2 where "v2 = (if updateAmount ?v ! ?n = bestAmount ?v ! ?n
       then ?v\<lparr>updateAmount := (updateAmount ?v)[?n := y], updatedAssets := updatedAssets ?v @ [?n],
              heap := heap ?v @ [\<lparr>node_asset = ?n, node_prev = Some p\<rparr>], updatePath := (updatePath ?v)[?n := Some (length (heap ?v))]\<rparr>
       else ?v\<lparr>updateAmount := (updateAmount ?v)[?n := y],
              heap := (case updatePath ?v ! ?n of Some q \<Rightarrow> (heap ?v)[q := (heap ?v ! q)\<lparr>node_prev := Some p\<rparr>] | None \<Rightarrow> heap ?v)\<rparr>)"
    have "round_inv src amt B k v2 \<and> chain (heap v2) (Some p) = c # rest"
      using p tp e(2) y by (intro improve_inv [OF inv1 _ _ _ tp _ _ _ v2_def]) simp_all
    then have inv2: "round_inv src amt B k v2" and ch: "chain (heap v2) (Some p) = c # rest" by simp_all
    have v2: "bestAmount v2 = bestAmount v" "bestPath v2 = bestPath v" by (simp_all add: v2_def)
    have "v' = (if includePath st ?n y then v2\<lparr>found := found v2 @ [mk (rev (?n # c # rest)) ?n y]\<rparr> else v2)"
      using r False y ch by (auto simp: search_edge_def Let_def contains_chain p not_le append path_chain v2_def
          split: option.splits if_splits)
    moreover have "result_ok st mk src amt (Suc k) (mk (rev (?n # c # rest)) ?n y)" if "includePath st ?n y"
      unfolding result_ok_def using tp p(5) that by (intro exI conjI) (auto simp del: rev.simps)
    ultimately show ?thesis using inv2 v2 by (auto simp: round_inv_def)
  qed (use inv1 in simp)
qed

lemma search_edges_inv:
  assumes "round_inv src amt B k v" "c < totalAssets st" "bestAmount v ! c \<noteq> 0"
    "set es \<subseteq> set (venues st c)" "\<forall>e \<in> set es. e_key e < totalAssets st"
    "search_edges ctx st ls c (bestAmount v ! c) (bestPath v ! c) es v = (v', err)"
  shows "round_inv src amt B k v'"
  using assms
proof (induction es arbitrary: v)
  case (Cons e es)
  obtain v1 err1 where s1: "search_edge ctx st ls c (bestAmount v ! c) (bestPath v ! c) e v = (v1, err1)" by force
  then have v1: "round_inv src amt B k v1" "bestAmount v1 = bestAmount v" "bestPath v1 = bestPath v"
    using search_edge_inv [OF Cons.prems(1-3) _ _ s1] Cons.prems(4,5) by auto
  then show ?case using Cons.IH [of v1] Cons.prems s1 by (cases err1) auto
qed simp

lemma search_assets_inv:
  assumes range: "\<forall>a < totalAssets st. \<forall>e \<in> set (venues st a). e_key e < totalAssets st"
    and "round_inv src amt B k v" "\<forall>a \<in> set cs. a < totalAssets st" "search_assets ctx st ls cs v = (v', err)"
  shows "round_inv src amt B k v'"
  using assms(2-)
proof (induction cs arbitrary: v)
  case (Cons c cs)
  show ?case
  proof (cases "bestAmount v ! c = 0")
    case True
    then show ?thesis using Cons by simp
  next
    case False
    obtain v1 err1 where s1: "search_edges ctx st ls c (bestAmount v ! c) (bestPath v ! c) (venues st c) v = (v1, err1)" by force
    have "round_inv src amt B k v1"
      using search_edges_inv [OF Cons.prems(1) _ False _ _ s1] Cons.prems(2) range by auto
    then show ?thesis using Cons.IH [of v1] Cons.prems s1 False by (cases err1) auto
  qed
qed simp

definition start_inv :: "nat \<Rightarrow> int \<Rightarrow> nat \<Rightarrow> searchVars \<Rightarrow> bool" where
  "start_inv src amt k v \<longleftrightarrow> round_inv src amt (length (heap v)) k (v\<lparr>updatedAssets := []\<rparr>)"

lemma on_path_mono: "on_path src amt k h a x p \<Longrightarrow> k \<le> l \<Longrightarrow> on_path src amt l h a x p"
  unfolding on_path_def using order_trans by blast

lemma commit_updates_inv:
  assumes inv: "round_inv src amt B k v"
  shows "start_inv src amt (Suc k) (commit_updates v)"
proof -
  let ?v = "commit_updates v" and ?n = "totalAssets st"
  note fold = commit_fold [where v = v and xs = "updatedAssets v", folded commit_updates_def]
  have len: "length (bestAmount v) = ?n" "length (bestPath v) = ?n" and ok: "B \<le> length (heap v)"
    and upd: "set (updatedAssets v) = {a. a < ?n \<and> updateAmount v ! a \<noteq> bestAmount v ! a}"
    using inv by (simp_all add: round_inv_def)
  have eq: "bestAmount ?v ! a = updateAmount v ! a" if "a < ?n" for a using that fold(7) [of a] len upd by auto
  have "\<exists>p < length (heap v). bestPath ?v ! a = Some p \<and> on_path src amt (Suc k) (heap v) a (updateAmount v ! a) p"
    if a: "a < ?n" "updateAmount v ! a \<noteq> 0" for a
  proof (cases "updateAmount v ! a = bestAmount v ! a")
    case True
    then obtain p where "p < B" "bestPath v ! a = Some p" "on_path src amt k (heap v) a (bestAmount v ! a) p"
      using inv a unfolding round_inv_def by metis
    then show ?thesis using True ok fold(8) [of a] a(1) len upd on_path_mono [of src amt k _ _ _ _ "Suc k"] by auto
  next
    case False
    then obtain q where "updatePath v ! a = Some q" "on_path src amt (Suc k) (heap v) a (updateAmount v ! a) q"
      using inv a unfolding round_inv_def by metis
    moreover have "q < length (heap v)" using calculation by (simp add: on_path_def)
    ultimately show ?thesis using False fold(8) [of a] a(1) len upd by auto
  qed
  moreover have "\<forall>P \<in> set (found v). result_ok st mk src amt (Suc (Suc k)) P"
    using inv result_ok_mono unfolding round_inv_def by (meson le_SucI order_refl)
  ultimately show ?thesis
    using inv eq by (auto simp: start_inv_def round_inv_def fold)
qed

lemma search_rounds_found:
  assumes range: "\<forall>a < totalAssets st. \<forall>e \<in> set (venues st a). e_key e < totalAssets st"
    and "start_inv src amt i v" "i < m" "search_rounds ctx st m [i..<m] v = (v', err)" "P \<in> set (found v')"
  shows "result_ok st mk src amt m P"
  using assms(2-)
proof (induction "m - i" arbitrary: i v)
  case (Suc d)
  obtain v1 err1 where s1: "search_assets ctx st (Suc i = m) [0..<totalAssets st] (v\<lparr>updatedAssets := []\<rparr>) = (v1, err1)" by force
  then have inv1: "round_inv src amt (length (heap v)) i v1"
    using search_assets_inv [OF range _ _ s1] Suc.prems(1) by (simp add: start_inv_def)
  have ups: "[i..<m] = i # [Suc i..<m]" using Suc.prems(2) by (simp add: upt_conv_Cons)
  have last: "result_ok st mk src amt m P" if "P \<in> set (found v1)"
    using that inv1 Suc.prems(2) result_ok_mono [of st mk src amt "Suc i" P m] by (auto simp: round_inv_def)
  show ?case
  proof (cases err1)
    case (Some e)
    then show ?thesis using Suc.prems s1 ups last by simp
  next
    case None
    show ?thesis
    proof (cases "Suc i < m")
      case True
      then show ?thesis
        using Suc.hyps(1) [of "Suc i" "commit_updates v1"] Suc.hyps(2) Suc.prems s1 None ups commit_updates_inv [OF inv1] by simp
    next
      case False
      then have "[Suc i..<m] = []" by simp
      then show ?thesis using Suc.prems s1 None ups last False by simp
    qed
  qed
qed simp

text \<open>Every path that the search reports is a path of trades from the start.\<close>

theorem search_sound:
  assumes range: "\<forall>a < totalAssets st. \<forall>e \<in> set (venues st a). e_key e < totalAssets st" and src: "src < totalAssets st"
    and r: "search ctx st m src amt = (paths, err)" and P: "P \<in> set paths"
  shows "result_ok st mk src amt (nat m) P"
proof -
  let ?v = "search_init st src amt"
  have "result_ok st mk src amt 0 (mk [src] src amt)" if "includePath st src amt"
    unfolding result_ok_def using that trade_path.start by (intro exI [of _ src] exI [of _ "[]"] exI [of _ amt]) auto
  then have init: "\<forall>P \<in> set (found ?v). result_ok st mk src amt 0 P" by (auto simp: search_init_def append Let_def)
  have "on_path src amt 0 [\<lparr>node_asset = src, node_prev = None\<rparr>] src amt 0"
    using trade_path.start by (auto simp: on_path_def chain_def)
  moreover have "(replicate (totalAssets st) (0 :: int))[src := amt] ! a \<noteq> 0 \<longleftrightarrow> a = src \<and> amt \<noteq> 0" if "a < totalAssets st" for a
    using that src by (cases "a = src") auto
  ultimately have start: "start_inv src amt 0 ?v"
    using init result_ok_mono [of st mk src amt 0 _ 1] src
    unfolding start_inv_def round_inv_def by (auto simp: search_init_def heap_ok_def Let_def)
  obtain v' where v': "search_rounds ctx st (nat m) [0..<nat m] ?v = (v', err)" "P \<in> set (found v')"
    using r P by (auto simp: search_def split: prod.splits)
  show ?thesis
  proof (cases "nat m = 0")
    case True
    then show ?thesis using v' init by simp
  next
    case False
    then show ?thesis using search_rounds_found [OF range start _ v'] by simp
  qed
qed

end

section \<open>The two search states implement the interface\<close>

definition selling_path :: "OrderBookGraph \<Rightarrow> string \<Rightarrow> int \<Rightarrow> nat list \<Rightarrow> nat \<Rightarrow> int \<Rightarrow> Path" where
  "selling_path g dest amount p a x =
     \<lparr>SourceAsset = idToAssetString g ! a, SourceAmount = x, DestinationAsset = dest, DestinationAmount = amount,
      InteriorNodes = map (\<lambda>i. idToAssetString g ! i) (rev (butlast (tl p)))\<rparr>"

definition buying_path :: "OrderBookGraph \<Rightarrow> string \<Rightarrow> int \<Rightarrow> nat list \<Rightarrow> nat \<Rightarrow> int \<Rightarrow> Path" where
  "buying_path g src amount p a x =
     \<lparr>SourceAsset = src, SourceAmount = amount, DestinationAsset = idToAssetString g ! a, DestinationAmount = x,
      InteriorNodes = map (\<lambda>i. idToAssetString g ! i) (butlast (tl p))\<rparr>"

lemma interior: "(if length p > 2 then take (length p - 2) (drop 1 p) else []) = butlast (tl p)"
proof (cases "length p > 2")
  case False
  then show ?thesis by (cases p; cases "tl p") auto
qed (simp add: butlast_conv_take drop_Suc numeral_2_eq_2)

interpretation selling: search_interface
  "sellingGraphSearchState U g dest amount ign targets validate pools" "selling_path g dest amount"
  for U :: "'u uint256_ops" and g dest amount ign targets validate pools
proof
  fix paths p a x
  show "appendToPaths (sellingGraphSearchState U g dest amount ign targets validate pools) paths p a x =
      paths @ [selling_path g dest amount p a x]"
    using interior [of p] by (auto simp: sellingGraphSearchState_def selling_appendToPaths_def selling_path_def
        assetIDsToAssetStrings_def Let_def)
qed (auto simp: sellingGraphSearchState_def selling_betterPathAmount_def split: if_splits)

interpretation buying: search_interface
  "buyingGraphSearchState U g src amount targets pools" "buying_path g src amount"
  for U :: "'u uint256_ops" and g src amount targets pools
proof
  fix paths p a x
  show "appendToPaths (buyingGraphSearchState U g src amount targets pools) paths p a x =
      paths @ [buying_path g src amount p a x]"
    using interior [of p] by (auto simp: buyingGraphSearchState_def buying_appendToPaths_def buying_path_def
        assetIDsToAssetStrings_def Let_def)
qed (auto simp: buyingGraphSearchState_def)

section \<open>Consuming offers\<close>

definition tradable :: "OfferEntry \<Rightarrow> bool" where
  "tradable x \<longleftrightarrow> 0 \<le> of_Amount x \<and> of_Amount x \<le> MaxInt64 \<and> valid_price (of_Price x)"

lemma tradable_convert:
  assumes "tradable x" "0 \<le> needed" "needed \<le> MaxInt64"
  shows "ConvertToBuyingUnits (of_Amount x) needed (price_N (of_Price x)) (price_D (of_Price x)) =
    (let sold = min (selling_bound (of_Amount x) (price_N (of_Price x)) (price_D (of_Price x))) needed in
     if ceil_div (sold * price_N (of_Price x)) (price_D (of_Price x)) \<le> MaxInt64
     then Inr (ceil_div (sold * price_N (of_Price x)) (price_D (of_Price x)), sold) else Inl ErrOverflow)"
    "0 \<le> selling_bound (of_Amount x) (price_N (of_Price x)) (price_D (of_Price x))"
    "selling_bound (of_Amount x) (price_N (of_Price x)) (price_D (of_Price x)) \<le> of_Amount x"
  using assms by (auto simp: tradable_def valid_price_def intro!: ConvertToBuyingUnits_exact selling_bound_le)

lemma s64_le_Max: "s64 x \<le> MaxInt64"
  using s64_in_range [of x] by (simp add: in_int64_def)

lemma s64_between: "0 \<le> x \<Longrightarrow> x \<le> MaxInt64 \<Longrightarrow> s64 x = x"
  by (simp add: s64_id in_int64_def MinInt64_def)

lemma consumeSelling_no_error:
  "\<forall>x \<in> set offers. tradable x \<Longrightarrow> 0 \<le> need \<Longrightarrow> need \<le> MaxInt64 \<Longrightarrow>
   \<exists>r. consumeSelling_loop ign offers need tot = (r, None) \<and> r \<le> MaxInt64"
proof (induction offers arbitrary: need tot)
  case Nil
  then show ?case by (simp add: MaxInt64_def)
next
  case (Cons x offers)
  let ?n = "price_N (of_Price x)" and ?d = "price_D (of_Price x)"
  define sold where "sold = min (selling_bound (of_Amount x) ?n ?d) need"
  have x: "tradable x" using Cons.prems by simp
  note conv = tradable_convert [OF x Cons.prems(2,3)]
  have sold: "0 \<le> need - sold" "need - sold \<le> MaxInt64" using conv Cons.prems by (auto simp: sold_def)
  then have "s64 (need - sold) = need - sold" by (rule s64_between)
  then show ?case
    using Cons conv(1) sold s64_le_Max by (auto simp: Let_def simp flip: sold_def split: option.splits)
qed

lemma whole_offer_affordable:
  assumes x: "tradable x" and need: "0 \<le> need" and more: "of_Amount x < need * price_D (of_Price x) div price_N (of_Price x)"
  shows "ceil_div (min (selling_bound (of_Amount x) (price_N (of_Price x)) (price_D (of_Price x))) (of_Amount x) * price_N (of_Price x))
    (price_D (of_Price x)) \<le> need"
proof -
  let ?n = "price_N (of_Price x)" and ?d = "price_D (of_Price x)" and ?a = "of_Amount x"
  have pos: "0 < ?n" "0 < ?d" using x by (simp_all add: tradable_def valid_price_def)
  have "?a * ?n \<le> need * ?d" using more pos by (metis le_div_iff_int less_imp_le)
  moreover have "min (selling_bound ?a ?n ?d) ?a * ?n \<le> ?a * ?n" using pos by (simp add: mult_right_mono)
  ultimately show ?thesis using ceil_div_le_iff [OF pos(2)] by (meson order_trans)
qed

lemma consumeBuying_no_error:
  "\<forall>x \<in> set offers. tradable x \<Longrightarrow> 0 \<le> need \<Longrightarrow> need \<le> MaxInt64 \<Longrightarrow>
   \<exists>r. consumeBuying_loop offers need tot = (r, None) \<and> r \<le> MaxInt64"
proof (induction offers arbitrary: need tot)
  case Nil
  then show ?case by (simp add: MaxInt64_def)
next
  case (Cons x offers)
  let ?n = "price_N (of_Price x)" and ?d = "price_D (of_Price x)"
  define sold where "sold = min (selling_bound (of_Amount x) ?n ?d) (of_Amount x)"
  define bought where "bought = ceil_div (sold * ?n) ?d"
  have x: "tradable x" using Cons.prems by simp
  then have a: "0 \<le> of_Amount x" "of_Amount x \<le> MaxInt64" and nd: "0 < ?n" "?n \<le> MaxInt64" "0 < ?d" "?d \<le> MaxInt64"
    by (simp_all add: tradable_def valid_price_def MaxInt64_def MaxInt32_def)
  note conv = tradable_convert [OF x a]
  have mul: "MulFractionRoundDown need ?d ?n = (if need * ?d div ?n \<le> MaxInt64 then Inr (need * ?d div ?n) else Inl ErrOverflow)"
    using Cons.prems nd by (intro MulFractionRoundDown_exact) auto
  have nonneg: "0 \<le> need * ?d div ?n" using Cons.prems nd by (simp add: pos_imp_zdiv_nonneg_iff)
  have b0: "0 \<le> bought" using conv(2) a nd by (simp add: bought_def sold_def ceil_div_nonneg)
  have rest: "\<exists>r. (case ConvertToBuyingUnits (of_Amount x) (of_Amount x) ?n ?d of
        Inl ErrOverflow \<Rightarrow> (-1, None) | Inl e \<Rightarrow> (-1, Some (priceError e))
      | Inr (b, s) \<Rightarrow> (let tot' = s64 (tot + s); need' = s64 (need - b)
          in if need' = 0 then (tot', None) else if need' < 0 then (-1, Some errSoldTooMuch)
             else consumeBuying_loop offers need' tot')) = (r, None) \<and> r \<le> MaxInt64"
    if "of_Amount x < need * ?d div ?n"
  proof -
    have "bought \<le> need" using whole_offer_affordable [OF x Cons.prems(2) that] by (simp add: bought_def sold_def)
    then have "s64 (need - bought) = need - bought" using b0 Cons.prems by (intro s64_between) auto
    then show ?thesis
      using conv(1) Cons.IH [of "need - bought"] Cons.prems \<open>bought \<le> need\<close> b0 s64_le_Max
      by (auto simp: Let_def MaxInt64_def simp flip: sold_def bought_def)
  qed
  show ?case
  proof (cases "need * ?d div ?n \<le> MaxInt64")
    case False
    then show ?thesis using rest mul a by (simp add: Let_def)
  next
    case True
    then show ?thesis using rest mul nonneg s64_le_Max by (simp add: Let_def not_le MaxInt64_def)
  qed
qed

lemma makeTrade_range:
  assumes "makeTrade U pool a t x = Inr y"
  shows "0 \<le> y" "y \<le> MaxInt64"
proof -
  have payout: "0 \<le> r \<and> r \<le> MaxInt64" if "CalculatePoolPayout U X Y amount fee b = (r, s, True)" for X Y amount fee b r s
    using that s64_le_Max by (auto simp: CalculatePoolPayout_def Let_def split: if_splits prod.splits)
  have expect: "0 \<le> r \<and> r \<le> MaxInt64" if "CalculatePoolExpectation U X Y amount fee b = (r, s, True)" for X Y amount fee b r s
    using that s64_le_Max by (auto simp: CalculatePoolExpectation_def Let_def split: if_splits prod.splits)
  show "0 \<le> y" "y \<le> MaxInt64"
    using assms payout expect by (auto simp: makeTrade_def Let_def split: if_splits option.splits prod.splits)
qed

definition total_venue :: "searchState \<Rightarrow> nat \<Rightarrow> Venues \<Rightarrow> bool" where
  "total_venue st a vs \<longleftrightarrow> (\<forall>x. 0 < x \<and> x \<le> MaxInt64 \<longrightarrow> (\<exists>y. processVenues st a x vs = Inr y \<and> y \<le> MaxInt64))"

lemma total_venueI:
  assumes pool: "\<And>p x y. consumePool st p a x = Inr y \<Longrightarrow> y \<le> MaxInt64"
    and none: "\<And>x best. best \<le> MaxInt64 \<Longrightarrow> v_offers vs = [] \<Longrightarrow> fst (consumeOffers st x best []) \<le> MaxInt64"
    and offers: "\<And>x best. 0 < x \<Longrightarrow> x \<le> MaxInt64 \<Longrightarrow> best \<le> MaxInt64 \<Longrightarrow> v_offers vs \<noteq> [] \<Longrightarrow>
      \<exists>y. consumeOffers st x best (v_offers vs) = (y, None) \<and> y \<le> MaxInt64"
  shows "total_venue st a vs"
  unfolding total_venue_def
proof (intro allI impI)
  fix x :: int assume x: "0 < x \<and> x \<le> MaxInt64"
  define best where "best = (if considerPools st \<and> hasPool (v_pool vs)
    then (case consumePool st (v_pool vs) a x of Inr amount \<Rightarrow> amount | Inl _ \<Rightarrow> 0) else 0)"
  have best: "best \<le> MaxInt64" using pool by (auto simp: best_def MaxInt64_def split: sum.splits)
  have pv: "processVenues st a x vs = (if best = 0 \<and> v_offers vs = [] then Inr (-1) else
      (let (next, err) = consumeOffers st x best (v_offers vs)
       in case err of Some e \<Rightarrow> if best = 0 then Inl e else Inr next | None \<Rightarrow> Inr next))"
    using x by (simp add: processVenues_def Let_def flip: best_def)
  show "\<exists>y. processVenues st a x vs = Inr y \<and> y \<le> MaxInt64"
  proof (cases "v_offers vs = []")
    case True
    then show ?thesis using none [OF best, of x] pv by (auto simp: MaxInt64_def split: prod.splits option.splits)
  next
    case False
    then show ?thesis using offers [of x best] x best pv by (auto simp: Let_def)
  qed
qed

lemma selling_total:
  assumes "\<forall>x \<in> set (v_offers vs). tradable x"
  shows "total_venue (sellingGraphSearchState U g dest amount ign targets validate pools) a vs"
proof (rule total_venueI)
  fix x best assume x: "0 < x" "x \<le> MaxInt64" "best \<le> MaxInt64" "v_offers vs \<noteq> []"
  obtain r where "consumeSelling_loop ign (v_offers vs) x 0 = (r, None)" "r \<le> MaxInt64"
    using consumeSelling_no_error [OF assms, of x ign 0] x by auto
  then show "\<exists>y. consumeOffers (sellingGraphSearchState U g dest amount ign targets validate pools) x best (v_offers vs) = (y, None) \<and> y \<le> MaxInt64"
    using x by (simp add: sellingGraphSearchState_def consumeOffersForSellingAsset_def positiveMin_def)
qed (auto simp: sellingGraphSearchState_def consumeOffersForSellingAsset_def positiveMin_def makeTrade_range)

lemma buying_total:
  assumes "\<forall>x \<in> set (v_offers vs). tradable x"
  shows "total_venue (buyingGraphSearchState U g src amount targets pools) a vs"
proof (rule total_venueI)
  fix x best assume x: "0 < x" "x \<le> MaxInt64" "best \<le> MaxInt64" "v_offers vs \<noteq> []"
  obtain r where "consumeBuying_loop (v_offers vs) x 0 = (r, None)" "r \<le> MaxInt64"
    using consumeBuying_no_error [OF assms, of x 0] x by auto
  then show "\<exists>y. consumeOffers (buyingGraphSearchState U g src amount targets pools) x best (v_offers vs) = (y, None) \<and> y \<le> MaxInt64"
    using x by (simp add: buyingGraphSearchState_def consumeOffersForBuyingAsset_def ordered_Max_def)
qed (auto simp: buyingGraphSearchState_def consumeOffersForBuyingAsset_def ordered_Max_def makeTrade_range(2) [unfolded MaxInt64_def] MaxInt64_def)


section \<open>The search does not fail\<close>

definition amounts_ok :: "searchState \<Rightarrow> searchVars \<Rightarrow> bool" where
  "amounts_ok st v \<longleftrightarrow> length (bestAmount v) = totalAssets st \<and> length (updateAmount v) = totalAssets st \<and>
     (\<forall>a < totalAssets st. 0 \<le> bestAmount v ! a \<and> bestAmount v ! a \<le> MaxInt64 \<and>
        0 \<le> updateAmount v ! a \<and> updateAmount v ! a \<le> MaxInt64)"

definition total_state :: "searchState \<Rightarrow> bool" where
  "total_state st \<longleftrightarrow> (\<forall>a < totalAssets st. \<forall>e \<in> set (venues st a). e_key e < totalAssets st \<and> total_venue st a (e_value e))"

definition cancelled :: "(nat \<Rightarrow> string option) \<Rightarrow> search_error option \<Rightarrow> bool" where
  "cancelled ctx err \<longleftrightarrow> (\<forall>e. err = Some e \<longrightarrow> (\<exists>k msg. ctx k = Some msg \<and> e = ctxError msg))"

lemma search_edge_total:
  assumes ok: "amounts_ok st v" and c: "c < totalAssets st" "bestAmount v ! c \<noteq> 0"
    and e: "e_key e < totalAssets st" "total_venue st c (e_value e)"
    and r: "search_edge ctx st ls c (bestAmount v ! c) p e v = (v', err)"
  shows "amounts_ok st v' \<and> bestAmount v' = bestAmount v \<and> bestPath v' = bestPath v \<and> cancelled ctx err"
proof -
  have "0 < bestAmount v ! c \<and> bestAmount v ! c \<le> MaxInt64" using ok c unfolding amounts_ok_def by fastforce
  then obtain y where y: "processVenues st c (bestAmount v ! c) (e_value e) = Inr y" "y \<le> MaxInt64"
    using e(2) unfolding total_venue_def by blast
  show ?thesis
    using r ok e(1) y
    by (auto simp: search_edge_def Let_def cancelled_def amounts_ok_def nth_list_update
        split: option.splits if_splits)
qed

lemma search_edges_total:
  assumes "amounts_ok st v" "c < totalAssets st" "bestAmount v ! c \<noteq> 0"
    "\<forall>e \<in> set es. e_key e < totalAssets st \<and> total_venue st c (e_value e)"
    "search_edges ctx st ls c (bestAmount v ! c) p es v = (v', err)"
  shows "amounts_ok st v' \<and> cancelled ctx err"
  using assms
proof (induction es arbitrary: v)
  case (Cons e es)
  obtain v1 err1 where s1: "search_edge ctx st ls c (bestAmount v ! c) p e v = (v1, err1)" by force
  then have "amounts_ok st v1" "bestAmount v1 = bestAmount v" "cancelled ctx err1"
    using search_edge_total [OF Cons.prems(1-3) _ _ s1] Cons.prems(4) by auto
  then show ?case using Cons.IH [of v1] Cons.prems s1 by (cases err1) auto
qed (simp add: cancelled_def)

lemma search_assets_total:
  assumes st: "total_state st" and "amounts_ok st v" "\<forall>a \<in> set cs. a < totalAssets st" "search_assets ctx st ls cs v = (v', err)"
  shows "amounts_ok st v' \<and> cancelled ctx err"
  using assms(2-)
proof (induction cs arbitrary: v)
  case (Cons c cs)
  show ?case
  proof (cases "bestAmount v ! c = 0")
    case False
    obtain v1 err1 where s1: "search_edges ctx st ls c (bestAmount v ! c) (bestPath v ! c) (venues st c) v = (v1, err1)" by force
    have "amounts_ok st v1 \<and> cancelled ctx err1"
      using search_edges_total [OF Cons.prems(1) _ False _ s1] Cons.prems(2) st by (auto simp: total_state_def)
    then show ?thesis using Cons.IH [of v1] Cons.prems s1 False by (cases err1) auto
  qed (use Cons in simp)
qed (simp add: cancelled_def)

lemma commit_updates_total:
  assumes "amounts_ok st v"
  shows "amounts_ok st (commit_updates v)"
  using assms commit_fold [where v = v and xs = "updatedAssets v", folded commit_updates_def]
  by (auto simp: amounts_ok_def)

lemma search_rounds_total:
  assumes st: "total_state st" and "amounts_ok st v" "search_rounds ctx st m is v = (v', err)"
  shows "cancelled ctx err"
  using assms(2-)
proof (induction "is" arbitrary: v)
  case (Cons i rounds)
  obtain v1 err1 where s1: "search_assets ctx st (Suc i = m) [0..<totalAssets st] (v\<lparr>updatedAssets := []\<rparr>) = (v1, err1)" by force
  have v1: "amounts_ok st v1 \<and> cancelled ctx err1"
    using search_assets_total [OF st _ _ s1] Cons.prems(1) by (simp add: amounts_ok_def)
  show ?case
  proof (cases err1)
    case None
    then show ?thesis
      using Cons.IH [of "if Suc i < m then commit_updates v1 else v1"] Cons.prems s1 v1 commit_updates_total [of st v1] by simp
  qed (use Cons s1 v1 in simp)
qed (simp add: cancelled_def)

lemma search_total:
  assumes "total_state st" "0 \<le> amt" "amt \<le> MaxInt64"
  shows "cancelled ctx (snd (search ctx st m src amt))"
proof -
  have "(replicate n (0 :: int))[src := amt] ! a \<in> {0, amt}" if "a < n" for a n using that by (cases "a = src") auto
  then have "amounts_ok st (search_init st src amt)"
    using assms(2,3) by (fastforce simp: amounts_ok_def search_init_def Let_def MaxInt64_def)
  then show ?thesis
    using search_rounds_total [OF assms(1)] by (auto simp: search_def split: prod.splits)
qed

section \<open>The venues of an order book\<close>

lemma graph_inv_venues:
  assumes "graph_inv g" "a < length (idToAssetString g)"
    "e \<in> set (venuesForSellingAsset g ! a) \<or> e \<in> set (venuesForBuyingAsset g ! a)"
  shows "e_key e < length (idToAssetString g)" "set (v_offers (e_value e)) \<subseteq> set (Offers g)"
proof -
  obtain M where M: "ginv g M {}" using assms(1) by (auto simp: graph_inv_def)
  have rep: "represents (length (idToAssetString g)) (venuesForSellingAsset g) (venuesForBuyingAsset g) M"
    using M by (simp add: ginv_def)
  obtain s b where sb: "e_value e = M s b" "e_key e = b \<or> e_key e = s" "e_value e \<noteq> emptyVenues"
  proof -
    from assms(3) show thesis
    proof
      assume e: "e \<in> set (venuesForSellingAsset g ! a)"
      have "wf_edges (venuesForSellingAsset g ! a)" "edge_lookup (venuesForSellingAsset g ! a) = M a"
        using rep assms(2) by (simp_all add: represents_def)
      with wf_edges_lookup [OF this(1) e] e show thesis using that [of a "e_key e"] by (auto simp: wf_edges_def)
    next
      assume e: "e \<in> set (venuesForBuyingAsset g ! a)"
      have "wf_edges (venuesForBuyingAsset g ! a)" "edge_lookup (venuesForBuyingAsset g ! a) = (\<lambda>s. M s a)"
        using rep assms(2) by (simp_all add: represents_def)
      with wf_edges_lookup [OF this(1) e] e show thesis using that [of "e_key e" a] by (auto simp: wf_edges_def)
    qed
  qed
  then have "s < length (idToAssetString g) \<and> b < length (idToAssetString g)" using rep unfolding represents_def by metis
  then show "e_key e < length (idToAssetString g)" using sb(2) by auto
  show "set (v_offers (e_value e)) \<subseteq> set (Offers g)" by (auto simp: set_Offers [OF M] matrix_offers_def sb(1))
qed

lemma graph_inv_valid_price:
  assumes "graph_inv g" "x \<in> set (Offers g)"
  shows "valid_price (of_Price x)"
proof -
  obtain M where M: "ginv g M {}" using assms(1) by (auto simp: graph_inv_def)
  then show ?thesis using assms(2) by (auto simp: set_Offers [OF M] matrix_offers_def ginv_def offers_ok_def)
qed

definition amounts_in_range :: "OrderBookGraph \<Rightarrow> bool" where
  "amounts_in_range g \<longleftrightarrow> (\<forall>x \<in> set (Offers g). 0 \<le> of_Amount x \<and> of_Amount x \<le> MaxInt64)"

lemma graph_tradable:
  "graph_inv g \<Longrightarrow> amounts_in_range g \<Longrightarrow> x \<in> set (Offers g) \<Longrightarrow> tradable x"
  using graph_inv_valid_price by (simp add: tradable_def amounts_in_range_def)

lemma selling_total_state:
  assumes "graph_inv g" "amounts_in_range g"
  shows "total_state (sellingGraphSearchState U g dest amount ign targets validate pools)"
  unfolding total_state_def
proof (intro allI impI ballI conjI)
  let ?st = "sellingGraphSearchState U g dest amount ign targets validate pools"
  fix a e assume "a < totalAssets ?st" "e \<in> set (venues ?st a)"
  then have e: "a < length (idToAssetString g)" "e \<in> set (venuesForSellingAsset g ! a)" by (simp_all add: sellingGraphSearchState_def)
  then show "e_key e < totalAssets ?st" using graph_inv_venues [OF assms(1) e(1)] by (simp add: sellingGraphSearchState_def)
  show "total_venue ?st a (e_value e)"
    using graph_inv_venues [OF assms(1) e(1)] e(2) graph_tradable [OF assms] by (intro selling_total) blast
qed

lemma buying_total_state:
  assumes "graph_inv g" "amounts_in_range g"
  shows "total_state (buyingGraphSearchState U g src amount targets pools)"
  unfolding total_state_def
proof (intro allI impI ballI conjI)
  let ?st = "buyingGraphSearchState U g src amount targets pools"
  fix a e assume "a < totalAssets ?st" "e \<in> set (venues ?st a)"
  then have e: "a < length (idToAssetString g)" "e \<in> set (venuesForBuyingAsset g ! a)" by (simp_all add: buyingGraphSearchState_def)
  then show "e_key e < totalAssets ?st" using graph_inv_venues [OF assms(1) e(1)] by (simp add: buyingGraphSearchState_def)
  show "total_venue ?st a (e_value e)"
    using graph_inv_venues [OF assms(1) e(1)] e(2) graph_tradable [OF assms] by (intro buying_total) blast
qed

section \<open>The source and destination assets\<close>

lemma sourceAssetsMap_correct:
  assumes "sourceAssetsMap g i assets balances m = Some m'" "m' a = Some b"
  shows "m a = Some b \<or> (\<exists>j < length assets. assetStringToID g (Asset_String (assets ! j)) = Some a \<and>
    i + j < length balances \<and> b = balances ! (i + j))"
  using assms
proof (induction g i assets balances m rule: sourceAssetsMap.induct)
  case (2 g i x rest balances m)
  show ?case
  proof (cases "assetStringToID g (Asset_String x)")
    case None
    with 2(1) [OF None] 2(3,4) have "m a = Some b \<or> (\<exists>j < length rest. assetStringToID g (Asset_String (rest ! j)) = Some a \<and>
        Suc i + j < length balances \<and> b = balances ! (Suc i + j))" by simp
    then show ?thesis by (elim disjE exE conjE) (auto intro: exI [of _ "Suc _"])
  next
    case (Some k)
    with 2(3) have i: "i < length balances" by (auto split: if_splits)
    have s: "sourceAssetsMap g (Suc i) rest balances (m(k \<mapsto> balances ! i)) = Some m'" using 2(3) Some i by simp
    from 2(2) [OF Some i s 2(4)] have "(m(k \<mapsto> balances ! i)) a = Some b \<or> (\<exists>j < length rest.
        assetStringToID g (Asset_String (rest ! j)) = Some a \<and> Suc i + j < length balances \<and> b = balances ! (Suc i + j))" .
    then show ?thesis
    proof
      assume "(m(k \<mapsto> balances ! i)) a = Some b"
      then show ?thesis using i Some by (auto intro: exI [of _ 0] split: if_splits)
    qed (auto intro: exI [of _ "Suc _"])
  qed
qed simp

lemma sourceAssetsMap_total:
  "length balances = i + length assets \<Longrightarrow> \<exists>m'. sourceAssetsMap g i assets balances m = Some m'"
  by (induction g i assets balances m rule: sourceAssetsMap.induct) (auto split: option.splits)

lemma targetMap_iff: "targetMap g assets a \<longleftrightarrow> (\<exists>x \<in> set assets. assetStringToID g (Asset_String x) = Some a)"
proof -
  have "foldl (\<lambda>target asset. case assetStringToID g (Asset_String asset) of None \<Rightarrow> target | Some i \<Rightarrow> target(i := True)) t assets a \<longleftrightarrow>
      t a \<or> (\<exists>x \<in> set assets. assetStringToID g (Asset_String x) = Some a)" for t
    by (induction assets arbitrary: t) (auto split: option.splits)
  then show ?thesis by (simp add: targetMap_def)
qed

lemma graph_inv_asset:
  assumes "graph_inv g" "assetStringToID g (Asset_String x) = Some i"
  shows "i < length (idToAssetString g)" "idToAssetString g ! i = Asset_String x"
  using graph_inv_numbered [OF assms(1)] assms(2) by (simp_all add: assets_numbered_def)

section \<open>Properties\<close>

text \<open>Sorting is a documented behaviour of Go's library: the result has the same elements.\<close>

definition same_elements :: "((Path \<Rightarrow> Path \<Rightarrow> bool) \<Rightarrow> Path list \<Rightarrow> Path list) \<Rightarrow> bool" where
  "same_elements sort_Sort \<longleftrightarrow> (\<forall>less ps. mset (sort_Sort less ps) = mset ps)"

lemma filter_loop_subset: "set (filter_loop eq k entries filtered n) \<subseteq> set filtered \<union> set entries"
  by (induction eq k entries filtered n rule: filter_loop.induct) auto

lemma sortAndFilterPaths_subset:
  assumes "same_elements sort_Sort" "sortAndFilterPaths sort_Sort ps k t = Inr ps'" "P \<in> set ps'"
  shows "P \<in> set ps"
proof -
  have "set (sort_Sort less ps) = set ps" for less using assms(1) unfolding same_elements_def by (metis set_mset_mset)
  then show ?thesis
    using assms(2,3) filter_loop_subset [of sourceAssetEquals k "sort_Sort compareSourceAsset ps" "[]" 0]
      filter_loop_subset [of destinationAssetEquals k "sort_Sort compareDestinationAsset ps" "[]" 0]
    by (auto simp: sortAndFilterPaths_def split: if_splits)
qed

lemma interior_selling: "rev (butlast (tl (rev (a # p)))) = butlast p"
  by (cases p rule: rev_cases) (simp_all add: butlast_append)

lemma interior_buying: "butlast (tl (rev (a # p))) = rev (butlast p)"
  by (cases p rule: rev_cases) (simp_all add: butlast_append)

text \<open>
  C8. Every path that \<^verbatim>\<open>FindPaths\<close> returns is a real way to pay: there is a sequence of distinct
  assets \<open>a # p\<close> from the source to the destination, of at most \<^verbatim>\<open>maxPathLength\<close> hops, in which
  each amount is what the offers and the pool between two assets ask for the amount after it
  (\<open>trade_path\<close>); the source is one of the given assets, its amount is within the balance if
  that is to be validated, and the reported assets and amounts are those of the sequence.
\<close>

theorem FindPaths_sound:
  assumes g: "ob_reachable g" and sort: "same_elements sort_Sort"
    and r: "FindPaths sort_Sort U ctx g maxPathLength dest amount account sources balances validate perAsset pools = Inr (paths, ledger)"
    and P: "P \<in> set paths"
  shows "ledger = lastLedger g \<and> DestinationAsset P = Asset_String dest \<and> DestinationAmount P = amount \<and>
    (\<exists>targets d a p j. assetStringToID g (Asset_String dest) = Some d \<and>
       trade_path (sellingGraphSearchState U g (Asset_String dest) amount account targets validate pools) d amount (a # p) (SourceAmount P) \<and>
       length p \<le> nat maxPathLength \<and> distinct (a # p) \<and> last (a # p) = d \<and>
       InteriorNodes P = map (\<lambda>i. idToAssetString g ! i) (butlast p) \<and>
       j < length sources \<and> SourceAsset P = Asset_String (sources ! j) \<and> (validate \<longrightarrow> SourceAmount P \<le> balances ! j))"
proof -
  have inv: "graph_inv g" using ob_reachable_pending_ok [OF g] by (simp add: pending_ok_def)
  obtain ps where ps: "findPathsWithLock U ctx g maxPathLength dest amount account sources balances validate pools = Some (ps, ledger, None)"
    "sortAndFilterPaths sort_Sort ps perAsset sortBySourceAsset = Inr paths"
    using r by (auto simp: FindPaths_def split: option.splits sum.splits)
  have Pps: "P \<in> set ps" using sortAndFilterPaths_subset [OF sort ps(2) P] .
  then obtain targets d where src: "sourceAssetsMap g 0 sources balances Map.empty = Some targets"
    and d: "assetStringToID g (Asset_String dest) = Some d" and ledger: "ledger = lastLedger g"
    and search: "search ctx (sellingGraphSearchState U g (Asset_String dest) amount account targets validate pools) maxPathLength d amount = (ps, None)"
    using ps(1) by (auto simp: findPathsWithLock_def Let_def split: option.splits if_splits prod.splits)
  let ?st = "sellingGraphSearchState U g (Asset_String dest) amount account targets validate pools"
  have "result_ok ?st (selling_path g (Asset_String dest) amount) d amount (nat maxPathLength) P"
  proof (rule selling.search_sound [OF _ _ search Pps])
    show "\<forall>a < totalAssets ?st. \<forall>e \<in> set (venues ?st a). e_key e < totalAssets ?st"
      using graph_inv_venues(1) [OF inv] by (simp add: sellingGraphSearchState_def)
    show "d < totalAssets ?st" using graph_inv_asset [OF inv d] by (simp add: sellingGraphSearchState_def)
  qed
  then obtain a p x where tp: "trade_path ?st d amount (a # p) x" "length p \<le> nat maxPathLength" "includePath ?st a x"
    and P: "P = selling_path g (Asset_String dest) amount (rev (a # p)) a x" unfolding result_ok_def by blast
  from tp(3) obtain b where b: "targets a = Some b" "validate \<longrightarrow> x \<le> b"
    by (auto simp: sellingGraphSearchState_def split: option.splits)
  from sourceAssetsMap_correct [OF src b(1)] obtain j where j: "j < length sources"
    "assetStringToID g (Asset_String (sources ! j)) = Some a" "b = balances ! j" by auto
  have "SourceAmount P = x" "SourceAsset P = Asset_String (sources ! j)" "DestinationAsset P = Asset_String dest"
    "DestinationAmount P = amount" "InteriorNodes P = map (\<lambda>i. idToAssetString g ! i) (butlast p)"
    using graph_inv_asset(2) [OF inv j(2)] by (simp_all only: P selling_path_def interior_selling Path.simps)
  then show ?thesis
    using ledger d tp trade_path_distinct [OF tp(1)] b(2) j
    by (intro conjI exI [of _ targets] exI [of _ d] exI [of _ a] exI [of _ p] exI [of _ j]) simp_all
qed

text \<open>
  C9. Every path that \<^verbatim>\<open>FindFixedPaths\<close> returns spends the given amount of the source asset along
  a sequence of at most \<^verbatim>\<open>maxPathLength\<close> trades between distinct assets and ends in one of the
  given destination assets, with the amount that the last trade gives.
\<close>

theorem FindFixedPaths_sound:
  assumes g: "ob_reachable g" and sort: "same_elements sort_Sort"
    and r: "FindFixedPaths sort_Sort U ctx g maxPathLength src amount dests perAsset pools = Inr (paths, ledger)"
    and P: "P \<in> set paths"
  shows "ledger = lastLedger g \<and> SourceAsset P = Asset_String src \<and> SourceAmount P = amount \<and>
    (\<exists>s a p. assetStringToID g (Asset_String src) = Some s \<and>
       trade_path (buyingGraphSearchState U g (Asset_String src) amount (targetMap g dests) pools) s amount (a # p) (DestinationAmount P) \<and>
       length p \<le> nat maxPathLength \<and> distinct (a # p) \<and> last (a # p) = s \<and>
       InteriorNodes P = map (\<lambda>i. idToAssetString g ! i) (rev (butlast p)) \<and>
       DestinationAsset P \<in> Asset_String ` set dests)"
proof -
  have inv: "graph_inv g" using ob_reachable_pending_ok [OF g] by (simp add: pending_ok_def)
  let ?st = "buyingGraphSearchState U g (Asset_String src) amount (targetMap g dests) pools"
  obtain ps where ps: "findFixedPathsWithLock U ctx g maxPathLength src amount dests pools = (ps, ledger, None)"
    "sortAndFilterPaths sort_Sort ps perAsset sortByDestinationAsset = Inr paths"
    using r by (auto simp: FindFixedPaths_def split: option.splits sum.splits prod.splits)
  have Pps: "P \<in> set ps" using sortAndFilterPaths_subset [OF sort ps(2) P] .
  then obtain s where s: "assetStringToID g (Asset_String src) = Some s" and ledger: "ledger = lastLedger g"
    and search: "search ctx ?st maxPathLength s amount = (ps, None)"
    using ps(1) by (auto simp: findFixedPathsWithLock_def Let_def split: option.splits if_splits prod.splits)
  have "result_ok ?st (buying_path g (Asset_String src) amount) s amount (nat maxPathLength) P"
  proof (rule buying.search_sound [OF _ _ search Pps])
    show "\<forall>a < totalAssets ?st. \<forall>e \<in> set (venues ?st a). e_key e < totalAssets ?st"
      using graph_inv_venues(1) [OF inv] by (simp add: buyingGraphSearchState_def)
    show "s < totalAssets ?st" using graph_inv_asset [OF inv s] by (simp add: buyingGraphSearchState_def)
  qed
  then obtain a p x where tp: "trade_path ?st s amount (a # p) x" "length p \<le> nat maxPathLength" "includePath ?st a x"
    and P: "P = buying_path g (Asset_String src) amount (rev (a # p)) a x" unfolding result_ok_def by blast
  from tp(3) obtain y where y: "y \<in> set dests" "assetStringToID g (Asset_String y) = Some a"
    by (auto simp: buyingGraphSearchState_def targetMap_iff)
  have "SourceAmount P = amount" "SourceAsset P = Asset_String src" "DestinationAsset P = Asset_String y"
    "DestinationAmount P = x" "InteriorNodes P = map (\<lambda>i. idToAssetString g ! i) (rev (butlast p))"
    using graph_inv_asset(2) [OF inv y(2)] by (simp_all only: P buying_path_def interior_buying Path.simps)
  then show ?thesis
    using ledger s tp trade_path_distinct [OF tp(1)] y
    by (intro conjI exI [of _ s] exI [of _ a] exI [of _ p]) simp_all
qed

text \<open>
  C10. On an order book whose offers have 64-bit amounts, for an amount from 0 to \<open>2\<^sup>6\<^sup>3 - 1\<close> and one balance per source asset, both searches end, and with no error but
  the one of a context that was cancelled: a price is never divided by zero, no trade takes more
  than the amount at hand (\<^verbatim>\<open>errSoldTooMuch\<close>), and no zero amount or empty list of offers is traded.
\<close>

theorem Find_paths_total:
  assumes "ob_reachable g" "amounts_in_range g" "0 \<le> amount" "amount \<le> MaxInt64" "\<forall>k. ctx k = None" "length balances = length sources"
  shows "(\<exists>paths. FindPaths sort_Sort U ctx g maxPathLength asset amount account sources balances validate perAsset pools = Inr (paths, lastLedger g)) \<and>
    (\<exists>paths. FindFixedPaths sort_Sort U ctx g maxPathLength asset amount sources perAsset pools = Inr (paths, lastLedger g))"
proof
  have inv: "graph_inv g" using ob_reachable_pending_ok [OF assms(1)] by (simp add: pending_ok_def)
  have none: "err = None" if "cancelled ctx err" for err using that assms(5) by (cases err) (auto simp: cancelled_def)
  have sort: "sortBySourceAsset \<noteq> sortByDestinationAsset" by (simp add: sortBySourceAsset_def sortByDestinationAsset_def)
  obtain m where m: "sourceAssetsMap g 0 sources balances Map.empty = Some m"
    using sourceAssetsMap_total [of balances 0 sources g Map.empty] assms(6) by auto
  have "\<exists>ps. findPathsWithLock U ctx g maxPathLength asset amount account sources balances validate pools = Some (ps, lastLedger g, None)"
  proof -
    have "err = None" if "search ctx (sellingGraphSearchState U g (Asset_String asset) amount account m validate pools) maxPathLength d amount = (ps, err)"
      for d ps err using none search_total [OF selling_total_state [OF inv assms(2)] assms(3,4)] that by (metis snd_conv)
    then show ?thesis using m by (auto simp: findPathsWithLock_def Let_def split: option.splits prod.splits)
  qed
  then show "\<exists>paths. FindPaths sort_Sort U ctx g maxPathLength asset amount account sources balances validate perAsset pools = Inr (paths, lastLedger g)"
    by (auto simp: FindPaths_def sortAndFilterPaths_def)
  have "\<exists>ps. findFixedPathsWithLock U ctx g maxPathLength asset amount sources pools = (ps, lastLedger g, None)"
  proof -
    have "err = None" if "search ctx (buyingGraphSearchState U g (Asset_String asset) amount (targetMap g sources) pools) maxPathLength d amount = (ps, err)"
      for d ps err using none search_total [OF buying_total_state [OF inv assms(2)] assms(3,4)] that by (metis snd_conv)
    then show ?thesis by (auto simp: findFixedPathsWithLock_def Let_def split: option.splits prod.splits)
  qed
  then show "\<exists>paths. FindFixedPaths sort_Sort U ctx g maxPathLength asset amount sources perAsset pools = Inr (paths, lastLedger g)"
    using sort by (auto simp: FindFixedPaths_def sortAndFilterPaths_def)
qed


subsection \<open>Sorting and filtering\<close>

lemma filter_loop_take:
  fixes f :: "Path \<Rightarrow> 'k::linorder"
  assumes eq: "\<And>p q. eq p q \<longleftrightarrow> f p = f q"
    and "sorted (map f (filtered @ entries))"
    and "filtered \<noteq> [] \<Longrightarrow> n = int (length (filter (\<lambda>p. f p = f (last filtered)) filtered))"
  shows "filter (\<lambda>p. f p = s) (filter_loop eq k entries filtered n) =
    filter (\<lambda>p. f p = s) filtered @ take (nat (max 1 k) - length (filter (\<lambda>p. f p = s) filtered)) (filter (\<lambda>p. f p = s) entries)"
  using assms(2-)
proof (induction entries arbitrary: filtered n)
  case (Cons e entries)
  note le = Cons.prems(1)
  consider (new) "filtered = [] \<or> f (last filtered) \<noteq> f e" | (more) "filtered \<noteq> []" "f (last filtered) = f e" "n < k"
    | (full) "filtered \<noteq> []" "f (last filtered) = f e" "\<not> n < k" by blast
  then show ?case
  proof cases
    case new
    have "f p < f e" if "p \<in> set filtered" for p
    proof -
      have ne: "filtered \<noteq> []" using that by auto
      then have "f p \<le> f (last filtered)" "f (last filtered) \<le> f e"
        using le that by (cases filtered rule: rev_cases; auto simp: sorted_append)+
      then show ?thesis using new ne by auto
    qed
    then have none: "filter (\<lambda>p. f p = f e) filtered = []" by (fastforce simp: filter_empty_conv)
    have "filter (\<lambda>p. f p = s) (filter_loop eq k entries (filtered @ [e]) 1) = filter (\<lambda>p. f p = s) (filtered @ [e]) @
        take (nat (max 1 k) - length (filter (\<lambda>p. f p = s) (filtered @ [e]))) (filter (\<lambda>p. f p = s) entries)"
      using le none by (intro Cons.IH) simp_all
    moreover have "nat (max 1 k) = Suc (nat (max 1 k) - 1)" by simp
    ultimately show ?thesis using new none eq [of "last filtered" e] by (cases "s = f e") (auto simp: take_Cons')
  next
    case more
    have n: "n = int (length (filter (\<lambda>p. f p = f e) filtered))" using Cons.prems(2) more by simp
    have "filter (\<lambda>p. f p = s) (filter_loop eq k entries (filtered @ [e]) (n + 1)) = filter (\<lambda>p. f p = s) (filtered @ [e]) @
        take (nat (max 1 k) - length (filter (\<lambda>p. f p = s) (filtered @ [e]))) (filter (\<lambda>p. f p = s) entries)"
      using le n by (intro Cons.IH) simp_all
    moreover have "length (filter (\<lambda>p. f p = f e) filtered) < nat (max 1 k)" using n more by linarith
    ultimately show ?thesis using more eq [of "last filtered" e] by (cases "s = f e") (auto simp: take_Cons')
  next
    case full
    have n: "n = int (length (filter (\<lambda>p. f p = f e) filtered))" using Cons.prems(2) full by simp
    have "last filtered \<in> set (filter (\<lambda>p. f p = f e) filtered)" using full by simp
    then have "filter (\<lambda>p. f p = f e) filtered \<noteq> []" by (metis list.set(1) empty_iff)
    then have "nat (max 1 k) \<le> length (filter (\<lambda>p. f p = f e) filtered)"
      using n full(3) by (cases "filter (\<lambda>p. f p = f e) filtered") auto
    moreover have "filter (\<lambda>p. f p = s) (filter_loop eq k entries filtered n) = filter (\<lambda>p. f p = s) filtered @
        take (nat (max 1 k) - length (filter (\<lambda>p. f p = s) filtered)) (filter (\<lambda>p. f p = s) entries)"
      using le Cons.prems(2) by (intro Cons.IH) (auto simp: sorted_append)
    ultimately show ?thesis using full eq [of "last filtered" e] by (cases "s = f e") auto
  qed
qed simp

text \<open>What \<^verbatim>\<open>sort.Sort\<close> promises for a strict weak order.\<close>

definition weak_order :: "('a \<Rightarrow> 'a \<Rightarrow> bool) \<Rightarrow> bool" where
  "weak_order lt \<longleftrightarrow> (\<forall>a. \<not> lt a a) \<and> (\<forall>a b c. lt a b \<longrightarrow> lt b c \<longrightarrow> lt a c) \<and>
     (\<forall>a b c. \<not> lt a b \<longrightarrow> \<not> lt b c \<longrightarrow> \<not> lt a c)"

definition sorts :: "((Path \<Rightarrow> Path \<Rightarrow> bool) \<Rightarrow> Path list \<Rightarrow> Path list) \<Rightarrow> bool" where
  "sorts sort_Sort \<longleftrightarrow> (\<forall>lt ps. mset (sort_Sort lt ps) = mset ps \<and>
     (weak_order lt \<longrightarrow> sorted_wrt (\<lambda>a b. \<not> lt b a) (sort_Sort lt ps)))"

lemma compareSourceAsset_weak: "weak_order compareSourceAsset"
  unfolding weak_order_def compareSourceAsset_def by (auto split: if_splits)

lemma compareDestinationAsset_weak: "weak_order compareDestinationAsset"
  unfolding weak_order_def compareDestinationAsset_def by (auto split: if_splits)

text \<open>
  C26. For a sorting function as documented, \<^verbatim>\<open>sortAndFilterPaths\<close> returns for each source asset
  (or destination asset) exactly its best paths: the first \<^verbatim>\<open>maxPathsPerAsset\<close> of its paths in the
  sorted order (cheapest source amount, or highest destination amount, first; ties to the shorter
  path), but at least one.
\<close>

theorem sortAndFilterPaths_best:
  assumes "sorts sort_Sort"
  shows "\<exists>by_source by_dest.
    sortAndFilterPaths sort_Sort ps k sortBySourceAsset = Inr by_source \<and>
    sortAndFilterPaths sort_Sort ps k sortByDestinationAsset = Inr by_dest \<and>
    mset (sort_Sort compareSourceAsset ps) = mset ps \<and> mset (sort_Sort compareDestinationAsset ps) = mset ps \<and>
    sorted_wrt (\<lambda>p q. \<not> compareSourceAsset q p) (sort_Sort compareSourceAsset ps) \<and>
    sorted_wrt (\<lambda>p q. \<not> compareDestinationAsset q p) (sort_Sort compareDestinationAsset ps) \<and>
    (\<forall>s. filter (\<lambda>p. SourceAsset p = s) by_source =
       take (nat (max 1 k)) (filter (\<lambda>p. SourceAsset p = s) (sort_Sort compareSourceAsset ps))) \<and>
    (\<forall>s. filter (\<lambda>p. DestinationAsset p = s) by_dest =
       take (nat (max 1 k)) (filter (\<lambda>p. DestinationAsset p = s) (sort_Sort compareDestinationAsset ps)))"
proof -
  have src: "sorted_wrt (\<lambda>p q. \<not> compareSourceAsset q p) (sort_Sort compareSourceAsset ps)"
    and dst: "sorted_wrt (\<lambda>p q. \<not> compareDestinationAsset q p) (sort_Sort compareDestinationAsset ps)"
    and perm: "mset (sort_Sort compareSourceAsset ps) = mset ps" "mset (sort_Sort compareDestinationAsset ps) = mset ps"
    using assms compareSourceAsset_weak compareDestinationAsset_weak by (simp_all add: sorts_def)
  have "sorted (map SourceAsset (sort_Sort compareSourceAsset ps))"
    unfolding sorted_map using src by (rule sorted_wrt_mono_rel [rotated]) (auto simp: compareSourceAsset_def split: if_splits)
  moreover have "sorted (map DestinationAsset (sort_Sort compareDestinationAsset ps))"
    unfolding sorted_map using dst by (rule sorted_wrt_mono_rel [rotated]) (auto simp: compareDestinationAsset_def split: if_splits)
  ultimately have
    "filter (\<lambda>p. SourceAsset p = s) (filter_loop sourceAssetEquals k (sort_Sort compareSourceAsset ps) [] 0) =
      take (nat (max 1 k)) (filter (\<lambda>p. SourceAsset p = s) (sort_Sort compareSourceAsset ps))"
    "filter (\<lambda>p. DestinationAsset p = s) (filter_loop destinationAssetEquals k (sort_Sort compareDestinationAsset ps) [] 0) =
      take (nat (max 1 k)) (filter (\<lambda>p. DestinationAsset p = s) (sort_Sort compareDestinationAsset ps))" for s
    using filter_loop_take [of sourceAssetEquals SourceAsset "[]" "sort_Sort compareSourceAsset ps" 0 s k]
      filter_loop_take [of destinationAssetEquals DestinationAsset "[]" "sort_Sort compareDestinationAsset ps" 0 s k]
    by (simp_all add: sourceAssetEquals_def destinationAssetEquals_def)
  then show ?thesis using src dst perm by (simp add: sortAndFilterPaths_def sortBySourceAsset_def sortByDestinationAsset_def)
qed

subsection \<open>The cost of consuming offers\<close>

lemma s64_add: "s64 (s64 x + y) = s64 (x + y)"
proof -
  have "(s64 x + y + 9223372036854775808) mod 18446744073709551616 =
      ((x + 9223372036854775808) mod 18446744073709551616 + y) mod 18446744073709551616"
    by (simp add: s64_def)
  also have "\<dots> = (x + 9223372036854775808 + y) mod 18446744073709551616" by (rule mod_add_left_eq)
  also have "x + 9223372036854775808 + y = x + y + 9223372036854775808" by simp
  finally show ?thesis by (simp add: s64_def)
qed

definition offer_cost :: "OfferEntry \<Rightarrow> int \<Rightarrow> int" where
  "offer_cost x sold = ceil_div (sold * price_N (of_Price x)) (price_D (of_Price x))"

definition not_ignored :: "AccountId option \<Rightarrow> OfferEntry \<Rightarrow> bool" where
  "not_ignored ign x \<longleftrightarrow> ign \<noteq> Some (of_SellerId x)"

text \<open>
  What an offer can sell: at a price of at most one, no more than is worth a whole number of the units that are paid. \<open>fills\<close> takes from the
  offers in their order, from each one the smaller of what it can sell and what is still needed, until nothing is needed.
\<close>

definition offer_capacity :: "OfferEntry \<Rightarrow> int" where
  "offer_capacity x = selling_bound (of_Amount x) (price_N (of_Price x)) (price_D (of_Price x))"

fun fills :: "OfferEntry list \<Rightarrow> int \<Rightarrow> int list" where
  "fills [] need = []"
| "fills (x # xs) need = (if need = 0 then [] else min (offer_capacity x) need # fills xs (need - min (offer_capacity x) need))"

lemma fills_full: "Suc i < length (fills xs need) \<Longrightarrow> fills xs need ! i = offer_capacity (xs ! i)"
proof (induction xs need arbitrary: i rule: fills.induct)
  case (2 x xs need)
  then show ?case by (cases i; cases xs) (auto simp: min_def split: if_splits)
qed simp

lemma tradable_capacity: "tradable x \<Longrightarrow> 0 \<le> offer_capacity x \<and> offer_capacity x \<le> of_Amount x"
  using tradable_convert(2,3) [of x 0] by (simp add: offer_capacity_def MaxInt64_def)

lemma fills_bounds:
  "\<forall>x \<in> set xs. tradable x \<Longrightarrow> 0 \<le> need \<Longrightarrow> (x, s) \<in> set (zip xs (fills xs need)) \<Longrightarrow> 0 \<le> s \<and> s \<le> of_Amount x"
proof (induction xs need rule: fills.induct)
  case (2 y ys need)
  have "0 \<le> offer_capacity y" "offer_capacity y \<le> of_Amount y" using tradable_capacity 2(2) by auto
  then show ?case using 2 by (auto simp: min_def split: if_splits)
qed simp

definition affordable :: "OfferEntry list \<Rightarrow> int list \<Rightarrow> bool" where
  "affordable xs sold \<longleftrightarrow> (\<forall>(x, s) \<in> set (zip xs sold). offer_cost x s \<le> MaxInt64)"

lemma affordable_Cons [simp]: "affordable (x # xs) (s # sold) \<longleftrightarrow> offer_cost x s \<le> MaxInt64 \<and> affordable xs sold"
  "affordable xs []"
  by (auto simp: affordable_def)

lemma consumeSelling_loop_fills:
  assumes "\<forall>x \<in> set offers. tradable x" "0 < need" "need \<le> MaxInt64"
  shows "consumeSelling_loop ign offers need tot =
    (let xs = filter (not_ignored ign) offers; sold = fills xs need
     in (if sum_list sold = need \<and> affordable xs sold then s64 (tot + sum_list (map2 offer_cost xs sold)) else -1, None))"
  using assms
proof (induction offers arbitrary: need tot)
  case (Cons x offers)
  define s where "s = min (offer_capacity x) need"
  show ?case
  proof (cases "not_ignored ign x")
    case False
    then have "consumeSelling_loop ign (x # offers) need tot = consumeSelling_loop ign offers need tot"
      by (auto simp: not_ignored_def)
    then show ?thesis using Cons False by simp
  next
    case True
    have x: "tradable x" and need: "0 \<le> need" using Cons.prems by simp_all
    note conv = tradable_convert [OF x need Cons.prems(3), folded offer_capacity_def]
    have s: "0 \<le> s" "s \<le> need" using conv need by (auto simp: s_def)
    then have diff: "s64 (need - s) = need - s" using Cons.prems by (intro s64_between) auto
    have ign: "\<not> (case ign of None \<Rightarrow> False | Some account \<Rightarrow> AccountId_Equals account (of_SellerId x))"
      using True by (auto simp: not_ignored_def split: option.splits)
    have loop: "consumeSelling_loop ign (x # offers) need tot =
        (if offer_cost x s \<le> MaxInt64
         then if need - s = 0 then (s64 (tot + offer_cost x s), None) else consumeSelling_loop ign offers (need - s) (s64 (tot + offer_cost x s))
         else (-1, None))"
      using conv(1) ign s diff by (simp add: Let_def offer_cost_def flip: s_def)
    have rest: "fills (filter (not_ignored ign) (x # offers)) need = s # fills (filter (not_ignored ign) offers) (need - s)"
      using True Cons.prems(2) by (simp add: s_def)
    show ?thesis
    proof (cases "need - s = 0")
      case True
      have "fills xs 0 = []" for xs by (cases xs) simp_all
      then show ?thesis using True rest \<open>not_ignored ign x\<close> unfolding loop by (simp add: Let_def)
    next
      case False
      then have "consumeSelling_loop ign offers (need - s) (s64 (tot + offer_cost x s)) =
          (let xs = filter (not_ignored ign) offers; sold = fills xs (need - s)
           in (if sum_list sold = need - s \<and> affordable xs sold
               then s64 (s64 (tot + offer_cost x s) + sum_list (map2 offer_cost xs sold)) else -1, None))"
        using Cons s by (intro Cons.IH) auto
      then show ?thesis using False rest \<open>not_ignored ign x\<close> unfolding loop by (auto simp: Let_def s64_add add.assoc)
    qed
  qed
qed simp

text \<open>
  C38. Buying \<open>need\<close> units from a non-empty list of offers: \<^verbatim>\<open>consumeOffersForSellingAsset\<close> leaves out the offers of the ignored
  account and fills the others strictly in their order, every offer but the last used one with all it can sell, which is at most
  its amount. If exactly \<open>need\<close> units are sold this way and the cost of each fill, rounded up, fits in 64 bits, it returns the sum of the costs
  in 64-bit arithmetic; otherwise it returns -1. It never returns an error.
\<close>

theorem consumeOffersForSellingAsset_cost:
  assumes "\<forall>x \<in> set offers. tradable x" "offers \<noteq> []" "0 < need" "need \<le> MaxInt64"
    and "xs = filter (not_ignored ign) offers" "sold = fills xs need"
  shows "consumeOffersForSellingAsset offers ign need best =
      (if sum_list sold = need \<and> affordable xs sold then s64 (sum_list (map2 offer_cost xs sold)) else -1, None) \<and>
    (\<forall>i. Suc i < length sold \<longrightarrow> sold ! i = offer_capacity (xs ! i)) \<and>
    (\<forall>(x, s) \<in> set (zip xs sold). 0 \<le> s \<and> s \<le> of_Amount x)"
  using consumeSelling_loop_fills [OF assms(1,3,4), of ign 0] fills_bounds [of xs need] fills_full [of _ xs need] assms
  by (auto simp: consumeOffersForSellingAsset_def Let_def)

definition pricey_offer :: "int \<Rightarrow> OfferEntry" where
  "pricey_offer i = \<lparr>of_SellerId = Ed25519 0, of_OfferId = i, of_Selling = Native, of_Buying = AlphaNum4 1 (Ed25519 0),
     of_Amount = 4294967296, of_Price = \<lparr>price_N = 2147483647, price_D = 1\<rparr>, of_Flags = 0\<rparr>"

lemma pricey_tradable: "tradable (pricey_offer i)"
  by (simp add: pricey_offer_def tradable_def valid_price_def MaxInt64_def MaxInt32_def)

lemma consume_pricey:
  "0 < need \<Longrightarrow> need \<le> 12884901888 \<Longrightarrow>
   consumeSelling_loop None (pricey_offer i # offers) need tot =
     (let sold = min 4294967296 need; tot' = s64 (tot + sold * 2147483647)
      in if need - sold = 0 then (tot', None) else consumeSelling_loop None offers (need - sold) tot')"
  using tradable_convert(1) [OF pricey_tradable, of need i]
  by (auto simp: pricey_offer_def Let_def MaxInt64_def selling_bound_def ceil_div_def s64_id int_width min_def split: if_splits)

text \<open>
  The sum of the costs is not checked for overflow: three offers of \<open>2\<^sup>3\<^sup>2\<close> units at the highest
  price cost \<open>3 * 2\<^sup>3\<^sup>2 * (2\<^sup>3\<^sup>1 - 1)\<close> together, which does not fit in 64 bits; the function returns a
  smaller, positive amount as the cost instead of skipping the path as it does when one of the
  products overflows.
\<close>

theorem consumeOffersForSellingAsset_wraps:
  "consumeOffersForSellingAsset [pricey_offer 1, pricey_offer 2, pricey_offer 3] None 12884901888 0 = (9223372023969873920, None) \<and>
   offer_cost (pricey_offer 1) 12884901888 = 27670116097679425536"
proof
  show "consumeOffersForSellingAsset [pricey_offer 1, pricey_offer 2, pricey_offer 3] None 12884901888 0 = (9223372023969873920, None)"
    by (simp add: consumeOffersForSellingAsset_def consume_pricey Let_def s64_def del: consumeSelling_loop.simps(2))
qed (simp add: offer_cost_def pricey_offer_def ceil_div_def)

subsection \<open>Witnesses\<close>

text \<open>The book of \<open>sample_book\<close> after \<^verbatim>\<open>Apply\<close>; asset 0 is bought, asset 1 sold.\<close>

definition sample_graph :: OrderBookGraph where
  "sample_graph = fst (Apply sample_book 5)"

lemma sample_graph:
  "Apply sample_book 5 = (sample_graph, None)" "ob_reachable sample_graph"
  "assetStringToID sample_graph = [Asset_String (AlphaNum4 1 (Ed25519 0)) \<mapsto> 0, Asset_String Native \<mapsto> 1]"
  "idToAssetString sample_graph = [Asset_String (AlphaNum4 1 (Ed25519 0)), Asset_String Native]"
  "venuesForSellingAsset sample_graph = [[], [\<lparr>e_key = 0, e_value = \<lparr>v_offers = [sample_offer], v_pool = emptyPool\<rparr>, e_reallocate = False\<rparr>]]"
  "venuesForBuyingAsset sample_graph = [[\<lparr>e_key = 1, e_value = \<lparr>v_offers = [sample_offer], v_pool = emptyPool\<rparr>, e_reallocate = False\<rparr>], []]"
  "lastLedger sample_graph = 5"
proof -
  have a: "Asset_String Native \<noteq> Asset_String (AlphaNum4 1 (Ed25519 0))" by (simp add: Asset_String_inject)
  have g: "getOrCreateAssetID NewOrderBookGraph x = (0, NewOrderBookGraph\<lparr>idToAssetString := [Asset_String x],
      venuesForBuyingAsset := [[]], venuesForSellingAsset := [[]], assetStringToID := [Asset_String x \<mapsto> 0]\<rparr>)" for x
    by (simp add: getOrCreateAssetID_def NewOrderBookGraph_def Clear_def Let_def)
  have s: "of_Buying sample_offer = AlphaNum4 1 (Ed25519 0)" "of_Selling sample_offer = Native" by (simp_all add: sample_offer_def)
  have r: "Apply sample_book 5 = (sample_graph, None) \<and>
    assetStringToID sample_graph = [Asset_String (AlphaNum4 1 (Ed25519 0)) \<mapsto> 0, Asset_String Native \<mapsto> 1] \<and>
    idToAssetString sample_graph = [Asset_String (AlphaNum4 1 (Ed25519 0)), Asset_String Native] \<and>
    venuesForSellingAsset sample_graph = [[], [\<lparr>e_key = 0, e_value = \<lparr>v_offers = [sample_offer], v_pool = emptyPool\<rparr>, e_reallocate = False\<rparr>]] \<and>
    venuesForBuyingAsset sample_graph = [[\<lparr>e_key = 1, e_value = \<lparr>v_offers = [sample_offer], v_pool = emptyPool\<rparr>, e_reallocate = False\<rparr>], []] \<and>
    lastLedger sample_graph = 5"
    using a by (simp add: sample_graph_def sample_book_def AddOffers_def enqueue_def Apply_def batch_apply_def apply_op_def graph_addOffer_def
        NewOrderBookGraph_def Clear_def batch_def getOrCreateAssetID_def Let_def s edge_addOffer_def edge_find_def)
  then show "Apply sample_book 5 = (sample_graph, None)"
    "assetStringToID sample_graph = [Asset_String (AlphaNum4 1 (Ed25519 0)) \<mapsto> 0, Asset_String Native \<mapsto> 1]"
    "idToAssetString sample_graph = [Asset_String (AlphaNum4 1 (Ed25519 0)), Asset_String Native]"
    "venuesForSellingAsset sample_graph = [[], [\<lparr>e_key = 0, e_value = \<lparr>v_offers = [sample_offer], v_pool = emptyPool\<rparr>, e_reallocate = False\<rparr>]]"
    "venuesForBuyingAsset sample_graph = [[\<lparr>e_key = 1, e_value = \<lparr>v_offers = [sample_offer], v_pool = emptyPool\<rparr>, e_reallocate = False\<rparr>], []]"
    "lastLedger sample_graph = 5" by simp_all
  from r have "ob_step sample_book sample_graph" by (blast intro: ob_step.Apply)
  then show "ob_reachable sample_graph" using sample_book_reachable ob_reachable.step by blast
qed


lemma sample_tradable: "tradable sample_offer"
  by (simp add: sample_offer_def tradable_def valid_price_def MaxInt64_def MaxInt32_def)

lemma consume_sample:
  "consumeSelling_loop None [sample_offer] 10 0 = (15, None)" "consumeBuying_loop [sample_offer] 15 0 = (10, None)"
  using tradable_convert(1) [OF sample_tradable, of 10] MulFractionRoundDown_exact [of 15 2 3]
  by (auto simp: sample_offer_def Let_def MaxInt64_def selling_bound_def ceil_div_def s64_id int_width)

lemma sample_FindPaths:
  "FindPaths (\<lambda>lt ps. ps) uint256_word (\<lambda>_. None) sample_graph 1 Native 10 None [AlphaNum4 1 (Ed25519 0)] [20] True 5 False =
    Inr ([\<lparr>SourceAsset = Asset_String (AlphaNum4 1 (Ed25519 0)), SourceAmount = 15, DestinationAsset = Asset_String Native,
           DestinationAmount = 10, InteriorNodes = []\<rparr>], 5)"
  using consume_sample
  by (simp add: FindPaths_def findPathsWithLock_def sample_graph Asset_String_inject search_def search_init_def
      sellingGraphSearchState_def search_edge_def contains_def processVenues_def consumeOffersForSellingAsset_def positiveMin_def
      selling_betterPathAmount_def selling_appendToPaths_def assetIDsToAssetStrings_def path_chain chain_def Let_def
      sortAndFilterPaths_def upt_rec)

lemma sample_FindFixedPaths:
  "FindFixedPaths (\<lambda>lt ps. ps) uint256_word (\<lambda>_. None) sample_graph 1 (AlphaNum4 1 (Ed25519 0)) 15 [Native] 5 False =
    Inr ([\<lparr>SourceAsset = Asset_String (AlphaNum4 1 (Ed25519 0)), SourceAmount = 15, DestinationAsset = Asset_String Native,
           DestinationAmount = 10, InteriorNodes = []\<rparr>], 5)"
  using consume_sample
  by (simp add: FindFixedPaths_def findFixedPathsWithLock_def sample_graph Asset_String_inject search_def search_init_def
      buyingGraphSearchState_def search_edge_def contains_def processVenues_def consumeOffersForBuyingAsset_def ordered_Max_def
      buying_appendToPaths_def assetIDsToAssetStrings_def path_chain chain_def Let_def targetMap_def fun_eq_iff
      sortAndFilterPaths_def sortBySourceAsset_def sortByDestinationAsset_def upt_rec)

lemma same_elements_id: "same_elements (\<lambda>lt ps. ps)"
  by (simp add: same_elements_def)

theorem FindPaths_sound_witness:
  "\<exists>P p. FindPaths (\<lambda>lt ps. ps) uint256_word (\<lambda>_. None) sample_graph 1 Native 10 None [AlphaNum4 1 (Ed25519 0)] [20] True 5 False = Inr ([P], 5) \<and>
     SourceAmount P \<le> 20 \<and> length p \<le> 1 \<and> InteriorNodes P = map (\<lambda>i. idToAssetString sample_graph ! i) (butlast p)"
proof -
  let ?P = "\<lparr>SourceAsset = Asset_String (AlphaNum4 1 (Ed25519 0)), SourceAmount = 15, DestinationAsset = Asset_String Native,
           DestinationAmount = 10, InteriorNodes = []\<rparr>"
  have "?P \<in> set [?P]" by simp
  from FindPaths_sound [OF sample_graph(2) same_elements_id sample_FindPaths this]
  obtain p where "length p \<le> nat 1" "InteriorNodes ?P = map (\<lambda>i. idToAssetString sample_graph ! i) (butlast p)" by blast
  then show ?thesis using sample_FindPaths by (intro exI [of _ ?P] exI [of _ p]) simp
qed

theorem FindFixedPaths_sound_witness:
  "\<exists>P p. FindFixedPaths (\<lambda>lt ps. ps) uint256_word (\<lambda>_. None) sample_graph 1 (AlphaNum4 1 (Ed25519 0)) 15 [Native] 5 False = Inr ([P], 5) \<and>
     SourceAmount P = 15 \<and> length p \<le> 1 \<and> InteriorNodes P = map (\<lambda>i. idToAssetString sample_graph ! i) (rev (butlast p))"
proof -
  let ?P = "\<lparr>SourceAsset = Asset_String (AlphaNum4 1 (Ed25519 0)), SourceAmount = 15, DestinationAsset = Asset_String Native,
           DestinationAmount = 10, InteriorNodes = []\<rparr>"
  have "?P \<in> set [?P]" by simp
  from FindFixedPaths_sound [OF sample_graph(2) same_elements_id sample_FindFixedPaths this]
  obtain p where "length p \<le> nat 1" "InteriorNodes ?P = map (\<lambda>i. idToAssetString sample_graph ! i) (rev (butlast p))" by blast
  then show ?thesis using sample_FindFixedPaths by (intro exI [of _ ?P] exI [of _ p]) simp
qed

lemma sample_amounts: "amounts_in_range sample_graph"
  by (simp add: amounts_in_range_def Offers_def sample_graph) (simp add: sample_offer_def MaxInt64_def)

theorem Find_paths_total_witness:
  "\<exists>paths. FindFixedPaths (\<lambda>lt ps. ps) uint256_word (\<lambda>_. None) sample_graph 3 Native 10 [AlphaNum4 1 (Ed25519 0)] 5 True = Inr (paths, 5)"
  using Find_paths_total [OF sample_graph(2) sample_amounts, of 10 "\<lambda>_. None" "[20]" "[AlphaNum4 1 (Ed25519 0)]" "\<lambda>lt ps. ps" uint256_word]
  by (simp add: sample_graph MaxInt64_def)

text \<open>Insertion sort is a sorting function as documented.\<close>

fun insert_by :: "('a \<Rightarrow> 'a \<Rightarrow> bool) \<Rightarrow> 'a \<Rightarrow> 'a list \<Rightarrow> 'a list" where
  "insert_by lt x [] = [x]"
| "insert_by lt x (y # ys) = (if lt y x then y # insert_by lt x ys else x # y # ys)"

lemma mset_insert_by [simp]: "mset (insert_by lt x ys) = add_mset x (mset ys)"
  by (induction ys) auto

lemma set_insert_by [simp]: "set (insert_by lt x ys) = insert x (set ys)"
  by (induction ys) auto

lemma sorted_insert_by:
  "weak_order lt \<Longrightarrow> sorted_wrt (\<lambda>a b. \<not> lt b a) ys \<Longrightarrow> sorted_wrt (\<lambda>a b. \<not> lt b a) (insert_by lt x ys)"
proof (induction ys)
  case (Cons y ys)
  have asym: "\<not> lt x y" if "lt y x" using Cons.prems(1) that unfolding weak_order_def by blast
  have "\<not> lt z x" if "\<not> lt z y" "\<not> lt y x" for z using Cons.prems(1) that unfolding weak_order_def by blast
  then show ?case using Cons asym by auto
qed simp

lemma sorts_insertion: "sorts (\<lambda>lt ps. foldr (insert_by lt) ps [])"
proof -
  have "mset (foldr (insert_by lt) ps []) = mset ps" for lt and ps :: "Path list" by (induction ps) simp_all
  moreover have "sorted_wrt (\<lambda>a b. \<not> lt b a) (foldr (insert_by lt) ps [])" if "weak_order lt" for lt and ps :: "Path list"
    by (induction ps) (simp_all add: sorted_insert_by that)
  ultimately show ?thesis by (simp add: sorts_def)
qed

definition native_path :: "int \<Rightarrow> Path" where
  "native_path x = \<lparr>SourceAsset = ''native'', SourceAmount = x, DestinationAsset = ''d'', DestinationAmount = 7, InteriorNodes = []\<rparr>"

theorem sortAndFilterPaths_best_witness:
  "\<exists>by_source. sortAndFilterPaths (\<lambda>lt ps. foldr (insert_by lt) ps []) [native_path 9, native_path 4, native_path 6] 2 sortBySourceAsset =
       Inr by_source \<and>
     filter (\<lambda>p. SourceAsset p = ''native'') by_source = [native_path 4, native_path 6]"
proof -
  have "foldr (insert_by compareSourceAsset) [native_path 9, native_path 4, native_path 6] [] = [native_path 4, native_path 6, native_path 9]"
    by (simp add: compareSourceAsset_def native_path_def)
  moreover have "SourceAsset (native_path x) = ''native''" for x by (simp add: native_path_def)
  ultimately show ?thesis
    using sortAndFilterPaths_best [OF sorts_insertion, of "[native_path 9, native_path 4, native_path 6]" 2] by fastforce
qed

text \<open>Two offers: the first one is used up before the second one is asked.\<close>

theorem consumeOffersForSellingAsset_cost_witness:
  "consumeOffersForSellingAsset [pricey_offer 1, pricey_offer 2] None 4294967298 0 = (4294967298 * 2147483647, None)"
proof -
  have f: "not_ignored None x" for x by (simp add: not_ignored_def)
  have c: "offer_capacity (pricey_offer i) = 4294967296" "offer_cost (pricey_offer i) n = n * 2147483647" for i n
    by (simp_all add: offer_capacity_def offer_cost_def pricey_offer_def selling_bound_def ceil_div_def)
  show ?thesis
    using consumeOffersForSellingAsset_cost [OF _ _ _ _ refl refl, of "[pricey_offer 1, pricey_offer 2]" 4294967298 None 0] pricey_tradable
    by (simp add: f c MaxInt64_def s64_def)
qed

end
