(* ===== verification/ScVal.thy ===== *)
theory ScVal
  imports XdrAsset
begin

text \<open>
  Contract values (\<^verbatim>\<open>src/xdr/scval.go\<close>): their equality and the integers made of 64-bit parts. The
  generated XDR unions are datatypes, so a discriminant with a missing arm (on which Go panics)
  does not exist. A vector or a map is behind a pointer that may be nil.
\<close>

section \<open>The model\<close>

datatype ScErrorType =
  SceWasmVm | SceContext | SceStorage | SceObject | SceCrypto | SceEvents | SceBudget | SceValue | SceAuth

datatype ScError = SceContract "32 word" | SceError ScErrorType int

datatype ContractExecutable = ExecutableWasm "256 word" | ExecutableHcnetAsset

datatype ScAddress = ScAddressAccount AccountId | ScAddressContract "256 word"

datatype ScVal =
    ScvBool bool
  | ScvVoid
  | ScvError ScError
  | ScvU32 "32 word"
  | ScvI32 "32 word"
  | ScvU64 "64 word"
  | ScvI64 "64 word"
  | ScvTimepoint "64 word"
  | ScvDuration "64 word"
  | ScvU128 "64 word" "64 word"
  | ScvI128 "64 word" "64 word"
  | ScvU256 "64 word" "64 word" "64 word" "64 word"
  | ScvI256 "64 word" "64 word" "64 word" "64 word"
  | ScvBytes "byte list"
  | ScvString string
  | ScvSymbol string
  | ScvVec "ScVal list option"
  | ScvMap "(ScVal \<times> ScVal) list option"
  | ScvAddress ScAddress
  | ScvContractInstance ContractExecutable "(ScVal \<times> ScVal) list option"
  | ScvLedgerKeyContractInstance
  | ScvLedgerKeyNonce "64 word"

definition ContractExecutable_Equals :: "ContractExecutable \<Rightarrow> ContractExecutable \<Rightarrow> bool" where
  "ContractExecutable_Equals s t =
     (case (s, t) of
        (ExecutableHcnetAsset, ExecutableHcnetAsset) \<Rightarrow> True
      | (ExecutableWasm h, ExecutableWasm h') \<Rightarrow> h = h'
      | _ \<Rightarrow> False)"

definition ScError_Equals :: "ScError \<Rightarrow> ScError \<Rightarrow> bool" where
  "ScError_Equals s t =
     (case (s, t) of
        (SceContract c, SceContract c') \<Rightarrow> c = c'
      | (SceError ty c, SceError ty' c') \<Rightarrow> ty = ty' \<and> c = c'
      | _ \<Rightarrow> False)"

definition ScAddress_Equals :: "ScAddress \<Rightarrow> ScAddress \<Rightarrow> bool" where
  "ScAddress_Equals s t =
     (case (s, t) of
        (ScAddressAccount a, ScAddressAccount b) \<Rightarrow> AccountId_Equals a b
      | (ScAddressContract c, ScAddressContract c') \<Rightarrow> c = c'
      | _ \<Rightarrow> False)"

text \<open>The loops of \<^verbatim>\<open>ScVec.Equals\<close> and \<^verbatim>\<open>ScMap.Equals\<close> run over slices of the same length.\<close>

function (sequential) ScVal_Equals :: "ScVal \<Rightarrow> ScVal \<Rightarrow> bool"
  and ScVec_loop :: "ScVal list \<Rightarrow> ScVal list \<Rightarrow> bool"
  and ScMap_loop :: "(ScVal \<times> ScVal) list \<Rightarrow> (ScVal \<times> ScVal) list \<Rightarrow> bool" where
  "ScVal_Equals (ScvBool a) t = (case t of ScvBool b \<Rightarrow> a = b | _ \<Rightarrow> False)"
| "ScVal_Equals ScvVoid t = (case t of ScvVoid \<Rightarrow> True | _ \<Rightarrow> False)"
| "ScVal_Equals (ScvError a) t = (case t of ScvError b \<Rightarrow> ScError_Equals a b | _ \<Rightarrow> False)"
| "ScVal_Equals (ScvU32 a) t = (case t of ScvU32 b \<Rightarrow> a = b | _ \<Rightarrow> False)"
| "ScVal_Equals (ScvI32 a) t = (case t of ScvI32 b \<Rightarrow> a = b | _ \<Rightarrow> False)"
| "ScVal_Equals (ScvU64 a) t = (case t of ScvU64 b \<Rightarrow> a = b | _ \<Rightarrow> False)"
| "ScVal_Equals (ScvI64 a) t = (case t of ScvI64 b \<Rightarrow> a = b | _ \<Rightarrow> False)"
| "ScVal_Equals (ScvTimepoint a) t = (case t of ScvTimepoint b \<Rightarrow> a = b | _ \<Rightarrow> False)"
| "ScVal_Equals (ScvDuration a) t = (case t of ScvDuration b \<Rightarrow> a = b | _ \<Rightarrow> False)"
| "ScVal_Equals (ScvU128 hi lo) t = (case t of ScvU128 hi' lo' \<Rightarrow> hi = hi' \<and> lo = lo' | _ \<Rightarrow> False)"
| "ScVal_Equals (ScvI128 hi lo) t = (case t of ScvI128 hi' lo' \<Rightarrow> hi = hi' \<and> lo = lo' | _ \<Rightarrow> False)"
| "ScVal_Equals (ScvU256 a b c d) t =
     (case t of ScvU256 a' b' c' d' \<Rightarrow> a = a' \<and> b = b' \<and> c = c' \<and> d = d' | _ \<Rightarrow> False)"
| "ScVal_Equals (ScvI256 a b c d) t =
     (case t of ScvI256 a' b' c' d' \<Rightarrow> a = a' \<and> b = b' \<and> c = c' \<and> d = d' | _ \<Rightarrow> False)"
| "ScVal_Equals (ScvBytes a) t = (case t of ScvBytes b \<Rightarrow> a = b | _ \<Rightarrow> False)"
| "ScVal_Equals (ScvString a) t = (case t of ScvString b \<Rightarrow> a = b | _ \<Rightarrow> False)"
| "ScVal_Equals (ScvSymbol a) t = (case t of ScvSymbol b \<Rightarrow> a = b | _ \<Rightarrow> False)"
| "ScVal_Equals (ScvVec a) t =
     (case t of
        ScvVec b \<Rightarrow>
          (case (a, b) of
             (None, None) \<Rightarrow> True
           | (Some xs, Some ys) \<Rightarrow> if length xs \<noteq> length ys then False else ScVec_loop xs ys
           | _ \<Rightarrow> False)
      | _ \<Rightarrow> False)"
| "ScVal_Equals (ScvMap a) t =
     (case t of
        ScvMap b \<Rightarrow>
          (case (a, b) of
             (None, None) \<Rightarrow> True
           | (Some xs, Some ys) \<Rightarrow> if length xs \<noteq> length ys then False else ScMap_loop xs ys
           | _ \<Rightarrow> False)
      | _ \<Rightarrow> False)"
| "ScVal_Equals (ScvAddress a) t = (case t of ScvAddress b \<Rightarrow> ScAddress_Equals a b | _ \<Rightarrow> False)"
| "ScVal_Equals (ScvContractInstance e a) t =
     (case t of
        ScvContractInstance e' b \<Rightarrow>
          ContractExecutable_Equals e e' \<and>
          (case (a, b) of
             (None, None) \<Rightarrow> True
           | (Some xs, Some ys) \<Rightarrow> if length xs \<noteq> length ys then False else ScMap_loop xs ys
           | _ \<Rightarrow> False)
      | _ \<Rightarrow> False)"
| "ScVal_Equals ScvLedgerKeyContractInstance t = (case t of ScvLedgerKeyContractInstance \<Rightarrow> True | _ \<Rightarrow> False)"
| "ScVal_Equals (ScvLedgerKeyNonce a) t = (case t of ScvLedgerKeyNonce b \<Rightarrow> a = b | _ \<Rightarrow> False)"
| "ScVec_loop (x # xs) (y # ys) = (if \<not> ScVal_Equals x y then False else ScVec_loop xs ys)"
| "ScVec_loop _ _ = True"
| "ScMap_loop ((k, v) # xs) ((k', v') # ys) =
     (if \<not> (ScVal_Equals k k' \<and> ScVal_Equals v v') then False else ScMap_loop xs ys)"
| "ScMap_loop _ _ = True"
  by pat_completeness auto
termination
  by (relation "measure (case_sum (\<lambda>(s, t). size s)
        (case_sum (\<lambda>(xs, ys). size_list size xs) (\<lambda>(ms, ns). size_list (size_prod size size) ms)))") auto

definition IsBool :: "ScVal \<Rightarrow> bool" where
  "IsBool s \<longleftrightarrow> (case s of ScvBool _ \<Rightarrow> True | _ \<Rightarrow> False)"

text \<open>\<^verbatim>\<open>big.Int\<close>: shift left by 64 and or with the next part; \<open>hi\<close> is signed or not.\<close>

definition bigFromParts_step :: "int \<Rightarrow> 64 word \<Rightarrow> int" where
  "bigFromParts_step result part = push_bit 64 result OR uint part"

definition bigIntFromParts :: "64 word \<Rightarrow> 64 word list \<Rightarrow> int" where
  "bigIntFromParts hi lowerParts = foldl bigFromParts_step (sint hi) lowerParts"

definition bigUIntFromParts :: "64 word \<Rightarrow> 64 word list \<Rightarrow> int" where
  "bigUIntFromParts hi lowerParts = foldl bigFromParts_step (uint hi) lowerParts"

definition ScAddress_String :: "ScAddress \<Rightarrow> strkey_error + string" where
  "ScAddress_String address =
     (case address of
        ScAddressAccount (Ed25519 pubkey) \<Rightarrow> Encode VersionByteAccountID (be_bytes 32 pubkey)
      | ScAddressContract contractID \<Rightarrow> Encode VersionByteContract (be_bytes 32 contractID))"

section \<open>Equality\<close>

lemma ContractExecutable_Equals_iff [simp]: "ContractExecutable_Equals s t \<longleftrightarrow> s = t"
  by (cases s; cases t) (simp_all add: ContractExecutable_Equals_def)

lemma ScError_Equals_iff [simp]: "ScError_Equals s t \<longleftrightarrow> s = t"
  by (cases s; cases t) (simp_all add: ScError_Equals_def)

lemma ScAddress_Equals_iff [simp]: "ScAddress_Equals s t \<longleftrightarrow> s = t"
  by (cases s; cases t) (simp_all add: ScAddress_Equals_def)

lemma ScVal_Equals_eq:
  "ScVal_Equals s t \<longleftrightarrow> s = t"
  "length xs = length ys \<Longrightarrow> ScVec_loop xs ys \<longleftrightarrow> xs = ys"
  "length ms = length ns \<Longrightarrow> ScMap_loop ms ns \<longleftrightarrow> ms = ns"
  by (induction s t and xs ys and ms ns rule: ScVal_Equals_ScVec_loop_ScMap_loop.induct)
    (auto split: ScVal.split option.split)

section \<open>Integers of 64-bit parts\<close>

lemma bigFromParts_step_eq: "bigFromParts_step r part = r * 2 ^ 64 + uint part"
proof -
  have "take_bit 64 (uint part) = uint part" using uint_lt2p [of part] by (intro take_bit_int_eq_self) simp_all
  then have "push_bit 64 r OR uint part = take_bit 64 (uint part) + push_bit 64 r"
    using concat_bit_eq [of 64 "uint part" r] by (simp add: concat_bit_def or.commute)
  then show ?thesis
    using \<open>take_bit 64 (uint part) = uint part\<close> by (simp add: bigFromParts_step_def push_bit_eq_mult)
qed

lemma bigFromParts_bounds:
  assumes "l \<le> r" "r < u"
  shows "l * 2 ^ 64 \<le> bigFromParts_step r part \<and> bigFromParts_step r part < u * 2 ^ 64"
proof -
  have "uint part < 2 ^ 64" using uint_lt2p [of part] by simp
  moreover have "r * 2 ^ 64 \<le> (u - 1) * 2 ^ 64" using assms(2) by (intro mult_right_mono) auto
  moreover have "l * 2 ^ 64 \<le> r * 2 ^ 64" using assms(1) by (intro mult_right_mono) simp_all
  moreover have "0 \<le> uint part" by simp
  ultimately show ?thesis unfolding bigFromParts_step_eq left_diff_distrib mult_1 by linarith
qed

end
