(* ===== verification/LedgerKey.thy ===== *)
theory LedgerKey
  imports Pools Edges ScVal
begin

text \<open>
  Ledger entries and their keys (\<^verbatim>\<open>src/xdr/ledger_key.go\<close>, \<^verbatim>\<open>ledger_entry.go\<close>, \<^verbatim>\<open>ledger_entry_change.go\<close>,
  \<^verbatim>\<open>trust_line_asset.go\<close>, \<^verbatim>\<open>claimable_balance_id.go\<close>): the key of an entry, the equality of keys, and the
  compressed encoding that serves as a database key.

  The XDR unions are datatypes. The type variable \<open>'x\<close> stands for the fields of an entry that the
  code here neither reads nor writes (the wasm code, the claimants and so on). \<^verbatim>\<open>NewLedgerKey\<close> fails only when its
  value does not have the type of its discriminant, which the typed constructors rule out; the
  \<open>Set\<close> functions keep their error result.
\<close>

section \<open>The model\<close>

datatype TrustLineAsset =
    TrustLineNative
  | TrustLineAlphaNum4 "32 word" AccountId
  | TrustLineAlphaNum12 "96 word" AccountId
  | TrustLinePoolShare "256 word"

definition ToAsset :: "TrustLineAsset \<Rightarrow> Asset option" where
  "ToAsset tla =
     (case tla of
        TrustLineNative \<Rightarrow> Some Native
      | TrustLineAlphaNum4 code issuer \<Rightarrow> Some (AlphaNum4 code issuer)
      | TrustLineAlphaNum12 code issuer \<Rightarrow> Some (AlphaNum12 code issuer)
      | TrustLinePoolShare _ \<Rightarrow> None)"

definition TrustLineAsset_Equals :: "TrustLineAsset \<Rightarrow> TrustLineAsset \<Rightarrow> bool" where
  "TrustLineAsset_Equals a other =
     (case (a, other) of
        (TrustLinePoolShare p, TrustLinePoolShare q) \<Rightarrow> p = q
      | _ \<Rightarrow> (case (ToAsset a, ToAsset other) of
               (Some x, Some y) \<Rightarrow> if asset_Type x \<noteq> asset_Type y then False else Asset_Equals x y
             | _ \<Rightarrow> False))"

datatype ClaimableBalanceId = ClaimableBalanceIdV0 "256 word"

datatype LedgerEntryType =
    LedgerEntryTypeAccount | LedgerEntryTypeTrustline | LedgerEntryTypeOffer | LedgerEntryTypeData
  | LedgerEntryTypeClaimableBalance | LedgerEntryTypeLiquidityPool | LedgerEntryTypeContractData
  | LedgerEntryTypeContractCode | LedgerEntryTypeConfigSetting | LedgerEntryTypeTtl

definition LedgerEntryType_int :: "LedgerEntryType \<Rightarrow> int" where
  "LedgerEntryType_int t =
     (case t of
        LedgerEntryTypeAccount \<Rightarrow> 0 | LedgerEntryTypeTrustline \<Rightarrow> 1 | LedgerEntryTypeOffer \<Rightarrow> 2 | LedgerEntryTypeData \<Rightarrow> 3
      | LedgerEntryTypeClaimableBalance \<Rightarrow> 4 | LedgerEntryTypeLiquidityPool \<Rightarrow> 5 | LedgerEntryTypeContractData \<Rightarrow> 6
      | LedgerEntryTypeContractCode \<Rightarrow> 7 | LedgerEntryTypeConfigSetting \<Rightarrow> 8 | LedgerEntryTypeTtl \<Rightarrow> 9)"

datatype LedgerKey =
    LedgerKeyAccount AccountId
  | LedgerKeyTrustLine AccountId TrustLineAsset
  | LedgerKeyOffer AccountId int
  | LedgerKeyData AccountId string
  | LedgerKeyClaimableBalance ClaimableBalanceId
  | LedgerKeyLiquidityPool "256 word"
  | LedgerKeyContractData ScAddress ScVal int
  | LedgerKeyContractCode "256 word"
  | LedgerKeyConfigSetting int
  | LedgerKeyTtl "256 word"

definition key_Type :: "LedgerKey \<Rightarrow> LedgerEntryType" where
  "key_Type key =
     (case key of
        LedgerKeyAccount _ \<Rightarrow> LedgerEntryTypeAccount | LedgerKeyTrustLine _ _ \<Rightarrow> LedgerEntryTypeTrustline
      | LedgerKeyOffer _ _ \<Rightarrow> LedgerEntryTypeOffer | LedgerKeyData _ _ \<Rightarrow> LedgerEntryTypeData
      | LedgerKeyClaimableBalance _ \<Rightarrow> LedgerEntryTypeClaimableBalance | LedgerKeyLiquidityPool _ \<Rightarrow> LedgerEntryTypeLiquidityPool
      | LedgerKeyContractData _ _ _ \<Rightarrow> LedgerEntryTypeContractData | LedgerKeyContractCode _ \<Rightarrow> LedgerEntryTypeContractCode
      | LedgerKeyConfigSetting _ \<Rightarrow> LedgerEntryTypeConfigSetting | LedgerKeyTtl _ \<Rightarrow> LedgerEntryTypeTtl)"

definition LedgerKey_Equals :: "LedgerKey \<Rightarrow> LedgerKey \<Rightarrow> bool" where
  "LedgerKey_Equals key other =
     (case (key, other) of
        (LedgerKeyAccount l, LedgerKeyAccount r) \<Rightarrow> AccountId_Equals l r
      | (LedgerKeyData l lname, LedgerKeyData r rname) \<Rightarrow> AccountId_Equals l r \<and> lname = rname
      | (LedgerKeyOffer l lid, LedgerKeyOffer r rid) \<Rightarrow> AccountId_Equals l r \<and> lid = rid
      | (LedgerKeyTrustLine l la, LedgerKeyTrustLine r ra) \<Rightarrow> AccountId_Equals l r \<and> TrustLineAsset_Equals la ra
      | (LedgerKeyLiquidityPool l, LedgerKeyLiquidityPool r) \<Rightarrow> l = r
      | (LedgerKeyConfigSetting l, LedgerKeyConfigSetting r) \<Rightarrow> l = r
      | (LedgerKeyContractData lc lk ld, LedgerKeyContractData rc rk rd) \<Rightarrow>
          ScAddress_Equals lc rc \<and> ScVal_Equals lk rk \<and> ld = rd
      | (LedgerKeyContractCode l, LedgerKeyContractCode r) \<Rightarrow> l = r
      | (LedgerKeyClaimableBalance (ClaimableBalanceIdV0 l), LedgerKeyClaimableBalance (ClaimableBalanceIdV0 r)) \<Rightarrow> l = r
      | (LedgerKeyTtl l, LedgerKeyTtl r) \<Rightarrow> l = r
      | _ \<Rightarrow> False)"

text \<open>The \<open>Set\<close> functions overwrite the whole key; the conversions are Go's.\<close>

definition SetAccount :: "AccountId \<Rightarrow> string + LedgerKey" where
  "SetAccount account = Inr (LedgerKeyAccount account)"

definition SetData :: "AccountId \<Rightarrow> string \<Rightarrow> string + LedgerKey" where
  "SetData account name = Inr (LedgerKeyData account name)"

definition SetOffer :: "AccountId \<Rightarrow> int \<Rightarrow> string + LedgerKey" where
  "SetOffer account offerID = Inr (LedgerKeyOffer account (s64 offerID))"

definition SetTrustline :: "AccountId \<Rightarrow> TrustLineAsset \<Rightarrow> string + LedgerKey" where
  "SetTrustline account line = Inr (LedgerKeyTrustLine account line)"

definition SetClaimableBalance :: "ClaimableBalanceId \<Rightarrow> string + LedgerKey" where
  "SetClaimableBalance balanceID = Inr (LedgerKeyClaimableBalance balanceID)"

definition SetLiquidityPool :: "256 word \<Rightarrow> string + LedgerKey" where
  "SetLiquidityPool poolID = Inr (LedgerKeyLiquidityPool poolID)"

definition SetContractData :: "ScAddress \<Rightarrow> ScVal \<Rightarrow> int \<Rightarrow> string + LedgerKey" where
  "SetContractData contract keyVal keyDurability = Inr (LedgerKeyContractData contract keyVal keyDurability)"

definition SetContractCode :: "256 word \<Rightarrow> string + LedgerKey" where
  "SetContractCode contractID = Inr (LedgerKeyContractCode contractID)"

definition SetConfigSetting :: "int \<Rightarrow> string + LedgerKey" where
  "SetConfigSetting configSettingID = Inr (LedgerKeyConfigSetting configSettingID)"

definition SetTtl :: "256 word \<Rightarrow> string + LedgerKey" where
  "SetTtl keyHash = Inr (LedgerKeyTtl keyHash)"

subsection \<open>Entries\<close>

record Liabilities =
  li_Buying :: int
  li_Selling :: int

datatype AccountEntryExtensionV2Ext = V2ExtV0 | V2ExtV3 int int

record AccountEntryExtensionV2 =
  v2_NumSponsored :: int
  v2_NumSponsoring :: int
  v2_SignerSponsoringIDs :: "AccountId option list"
  v2_Ext :: AccountEntryExtensionV2Ext

datatype AccountEntryExtensionV1Ext = V1ExtV0 | V1ExtV2 AccountEntryExtensionV2

datatype AccountEntryExt = AccountExtV0 | AccountExtV1 Liabilities AccountEntryExtensionV1Ext

record 'x AccountEntry =
  ac_AccountId :: AccountId
  ac_Balance :: int
  ac_SeqNum :: int
  ac_NumSubEntries :: int
  ac_InflationDest :: "AccountId option"
  ac_Flags :: int
  ac_HomeDomain :: string
  ac_Thresholds :: "byte list"
  ac_Signers :: "('x \<times> int) list" \<comment> \<open>signer key and weight\<close>
  ac_Ext :: AccountEntryExt

record TrustLineEntry =
  tl_AccountId :: AccountId
  tl_Asset :: TrustLineAsset
  tl_Balance :: int
  tl_Limit :: int
  tl_Flags :: int

record DataEntry =
  da_AccountId :: AccountId
  da_DataName :: string
  da_DataValue :: "byte list"

datatype 'x LedgerEntryData =
    EntryAccount "'x AccountEntry"
  | EntryTrustLine TrustLineEntry 'x
  | EntryOffer OfferEntry
  | EntryData DataEntry
  | EntryClaimableBalance ClaimableBalanceId 'x
  | EntryLiquidityPool LiquidityPoolEntry
  | EntryContractData ScAddress ScVal int 'x
  | EntryContractCode "256 word" 'x
  | EntryConfigSetting int 'x
  | EntryTtl "256 word" int

datatype LedgerEntryExt = LedgerEntryExtV0 | LedgerEntryExtV1 "AccountId option"

record 'x LedgerEntry =
  le_LastModifiedLedgerSeq :: int
  le_Data :: "'x LedgerEntryData"
  le_Ext :: LedgerEntryExt

definition data_Type :: "'x LedgerEntryData \<Rightarrow> LedgerEntryType" where
  "data_Type data =
     (case data of
        EntryAccount _ \<Rightarrow> LedgerEntryTypeAccount | EntryTrustLine _ _ \<Rightarrow> LedgerEntryTypeTrustline
      | EntryOffer _ \<Rightarrow> LedgerEntryTypeOffer | EntryData _ \<Rightarrow> LedgerEntryTypeData
      | EntryClaimableBalance _ _ \<Rightarrow> LedgerEntryTypeClaimableBalance | EntryLiquidityPool _ \<Rightarrow> LedgerEntryTypeLiquidityPool
      | EntryContractData _ _ _ _ \<Rightarrow> LedgerEntryTypeContractData | EntryContractCode _ _ \<Rightarrow> LedgerEntryTypeContractCode
      | EntryConfigSetting _ _ \<Rightarrow> LedgerEntryTypeConfigSetting | EntryTtl _ _ \<Rightarrow> LedgerEntryTypeTtl)"

definition data_LedgerKey :: "'x LedgerEntryData \<Rightarrow> string + LedgerKey" where
  "data_LedgerKey data =
     (case data of
        EntryAccount a \<Rightarrow> SetAccount (ac_AccountId a)
      | EntryTrustLine t _ \<Rightarrow> SetTrustline (tl_AccountId t) (tl_Asset t)
      | EntryContractData contract key durability _ \<Rightarrow> SetContractData contract key durability
      | EntryContractCode h _ \<Rightarrow> SetContractCode h
      | EntryData d \<Rightarrow> SetData (da_AccountId d) (da_DataName d)
      | EntryOffer x \<Rightarrow> SetOffer (of_SellerId x) (u64 (of_OfferId x))
      | EntryLiquidityPool p \<Rightarrow> SetLiquidityPool (lp_LiquidityPoolId p)
      | EntryClaimableBalance b _ \<Rightarrow> SetClaimableBalance b
      | EntryConfigSetting c _ \<Rightarrow> SetConfigSetting c
      | EntryTtl h _ \<Rightarrow> SetTtl h)"

definition entry_LedgerKey :: "'x LedgerEntry \<Rightarrow> string + LedgerKey" where
  "entry_LedgerKey entry = data_LedgerKey (le_Data entry)"

definition GetLedgerKeyFromData :: "'x LedgerEntryData \<Rightarrow> string + LedgerKey" where
  "GetLedgerKeyFromData data = data_LedgerKey data"

definition SponsoringID :: "'x LedgerEntry \<Rightarrow> AccountId option" where
  "SponsoringID entry = (case le_Ext entry of LedgerEntryExtV1 sponsor \<Rightarrow> sponsor | LedgerEntryExtV0 \<Rightarrow> None)"

datatype 'x LedgerEntryChange =
    LedgerEntryCreated "'x LedgerEntry"
  | LedgerEntryUpdated "'x LedgerEntry"
  | LedgerEntryRemoved LedgerKey
  | LedgerEntryState "'x LedgerEntry"

definition change_LedgerKey :: "'x LedgerEntryChange \<Rightarrow> string + LedgerKey" where
  "change_LedgerKey change =
     (case change of
        LedgerEntryCreated e \<Rightarrow> entry_LedgerKey e
      | LedgerEntryRemoved k \<Rightarrow> Inr k
      | LedgerEntryUpdated e \<Rightarrow> entry_LedgerKey e
      | LedgerEntryState e \<Rightarrow> entry_LedgerKey e)"

definition EntryType :: "'x LedgerEntryChange \<Rightarrow> string + LedgerEntryType" where
  "EntryType change = (case change_LedgerKey change of Inl e \<Rightarrow> Inl e | Inr key \<Rightarrow> Inr (key_Type key))"

definition GetLedgerEntry :: "'x LedgerEntryChange \<Rightarrow> 'x LedgerEntry option" where
  "GetLedgerEntry change =
     (case change of
        LedgerEntryCreated e \<Rightarrow> Some e
      | LedgerEntryState e \<Rightarrow> Some e
      | LedgerEntryUpdated e \<Rightarrow> Some e
      | LedgerEntryRemoved _ \<Rightarrow> None)"

subsection \<open>The compressed encoding\<close>

text \<open>
  What is appended to the buffer. \<open>enc_addr\<close> and \<open>enc_val\<close> are the XDR encodings of contract
  addresses and values; the other encodings of generated code that are used here are those of
  integers (big endian) and of byte arrays (as they are).
\<close>

definition accountIdCompressEncodeTo :: "AccountId \<Rightarrow> byte list" where
  "accountIdCompressEncodeTo aid = (case aid of Ed25519 k \<Rightarrow> 0 # be_bytes 32 k)"

definition assetTrustlineCompressEncodeTo :: "TrustLineAsset \<Rightarrow> byte list" where
  "assetTrustlineCompressEncodeTo a =
     (case a of
        TrustLineNative \<Rightarrow> [0]
      | TrustLineAlphaNum4 code issuer \<Rightarrow> 1 # trimRightZeros (be_bytes 4 code) @ accountIdCompressEncodeTo issuer
      | TrustLineAlphaNum12 code issuer \<Rightarrow> 2 # trimRightZeros (be_bytes 12 code) @ accountIdCompressEncodeTo issuer
      | TrustLinePoolShare pool \<Rightarrow> 3 # be_bytes 32 pool)"

definition claimableBalanceCompressEncodeTo :: "ClaimableBalanceId \<Rightarrow> byte list" where
  "claimableBalanceCompressEncodeTo cb = (case cb of ClaimableBalanceIdV0 h \<Rightarrow> 0 # be_bytes 32 h)"

definition ledgerKeyCompressEncodeTo :: "(ScAddress \<Rightarrow> byte list) \<Rightarrow> (ScVal \<Rightarrow> byte list) \<Rightarrow> LedgerKey \<Rightarrow> byte list" where
  "ledgerKeyCompressEncodeTo enc_addr enc_val key =
     word_of_int (LedgerEntryType_int (key_Type key)) #
     (case key of
        LedgerKeyAccount a \<Rightarrow> accountIdCompressEncodeTo a
      | LedgerKeyTrustLine a line \<Rightarrow> accountIdCompressEncodeTo a @ assetTrustlineCompressEncodeTo line
      | LedgerKeyOffer _ offerID \<Rightarrow> be_bytes 8 (word_of_int offerID :: 64 word)
      | LedgerKeyData a name \<Rightarrow> accountIdCompressEncodeTo a @ trimRightZeros (str_bytes name)
      | LedgerKeyClaimableBalance b \<Rightarrow> claimableBalanceCompressEncodeTo b
      | LedgerKeyLiquidityPool p \<Rightarrow> be_bytes 32 p
      | LedgerKeyContractData contract k durability \<Rightarrow> enc_addr contract @ enc_val k @ [word_of_int durability]
      | LedgerKeyContractCode h \<Rightarrow> be_bytes 32 h
      | LedgerKeyConfigSetting c \<Rightarrow> be_bytes 4 (word_of_int c :: 32 word)
      | LedgerKeyTtl h \<Rightarrow> be_bytes 32 h)"


section \<open>Equality of keys\<close>

lemma TrustLineAsset_Equals_iff [simp]: "TrustLineAsset_Equals a b \<longleftrightarrow> a = b"
  by (cases a; cases b) (auto simp: TrustLineAsset_Equals_def ToAsset_def asset_Type_def)

lemma LedgerKey_Equals_eq: "LedgerKey_Equals k l \<longleftrightarrow> k = l"
  by (cases k; cases l) (auto simp: LedgerKey_Equals_def ScVal_Equals_eq split: ClaimableBalanceId.splits)

lemma data_LedgerKey_total:
  "\<exists>key. data_LedgerKey d = Inr key \<and> key_Type key = data_Type d"
  by (cases d) (simp_all add: data_LedgerKey_def key_Type_def data_Type_def SetAccount_def SetTrustline_def SetContractData_def
      SetContractCode_def SetData_def SetOffer_def SetLiquidityPool_def SetClaimableBalance_def SetConfigSetting_def SetTtl_def)

text \<open>
  C27. \<^verbatim>\<open>LedgerKey.Equals\<close> decides equality of keys, for nested contract values too, and every entry
  has a key, of the entry's own type; the key of an offer keeps its 64-bit ID through the
  conversions to unsigned and back.
\<close>

theorem LedgerKey_Equals_iff:
  "(LedgerKey_Equals k l \<longleftrightarrow> k = l) \<and> (\<exists>key. entry_LedgerKey e = Inr key \<and> key_Type key = data_Type (le_Data e)) \<and>
   data_LedgerKey (EntryOffer x :: 'x LedgerEntryData) = Inr (LedgerKeyOffer (of_SellerId x) (s64 (of_OfferId x)))"
  using LedgerKey_Equals_eq data_LedgerKey_total [of "le_Data e"]
  by (auto simp: entry_LedgerKey_def data_LedgerKey_def SetOffer_def)

section \<open>The compressed encoding\<close>

lemma word32_inject: "be_bytes 4 (c :: 32 word) = be_bytes 4 d \<longleftrightarrow> c = d"
  by (simp add: be_bytes_inject)

lemma account_encode_inject: "accountIdCompressEncodeTo a = accountIdCompressEncodeTo b \<longleftrightarrow> a = b"
  by (cases a; cases b) (simp add: accountIdCompressEncodeTo_def be_bytes_inject)

lemma account_encode_length [simp]: "length (accountIdCompressEncodeTo a) = 33"
  by (cases a) (simp add: accountIdCompressEncodeTo_def)

lemma account_encode_prefix:
  "accountIdCompressEncodeTo a @ xs = accountIdCompressEncodeTo b @ ys \<longleftrightarrow> a = b \<and> xs = ys"
  using append_eq_append_conv [of "accountIdCompressEncodeTo a" "accountIdCompressEncodeTo b" xs ys] by (auto simp: account_encode_inject)

lemma account_encode_suffix:
  "xs @ accountIdCompressEncodeTo a = ys @ accountIdCompressEncodeTo b \<longleftrightarrow> xs = ys \<and> a = b"
  using append_eq_append_conv [of xs ys "accountIdCompressEncodeTo a" "accountIdCompressEncodeTo b"] by (auto simp: account_encode_inject)

lemma asset_encode_inject: "assetTrustlineCompressEncodeTo a = assetTrustlineCompressEncodeTo b \<longleftrightarrow> a = b"
  by (cases a; cases b) (auto simp: assetTrustlineCompressEncodeTo_def account_encode_suffix trimRightZeros_inject
      be_bytes_inject)

lemma word_of_int_eq_of_range:
  "in_int64 x \<Longrightarrow> in_int64 y \<Longrightarrow> (word_of_int x :: 64 word) = word_of_int y \<longleftrightarrow> x = y"
  using s64_word [of x] s64_word [of y] s64_id [of x] s64_id [of y] by auto

text \<open>The part of a key that the encoding keeps.\<close>

definition compress_view :: "LedgerKey \<Rightarrow> LedgerKey" where
  "compress_view key =
     (case key of
        LedgerKeyOffer _ offerID \<Rightarrow> LedgerKeyOffer (Ed25519 0) offerID
      | LedgerKeyData a name \<Rightarrow> LedgerKeyData a (bytes_str (trimRightZeros (str_bytes name)))
      | _ \<Rightarrow> key)"

text \<open>
  What generated code is relied on for: the encoding of a value, whatever follows it, determines the value and where it ends, so
  that a stream can be decoded. \<open>A\<close> and \<open>V\<close> are the contract addresses and values that XDR can encode.
\<close>

definition self_delimiting :: "'a set \<Rightarrow> ('a \<Rightarrow> byte list) \<Rightarrow> bool" where
  "self_delimiting V enc \<longleftrightarrow> (\<forall>x \<in> V. \<forall>y \<in> V. \<forall>xs ys. enc x @ xs = enc y @ ys \<longrightarrow> x = y \<and> xs = ys)"

lemma self_delimiting_decoder: "(\<And>x rest. x \<in> V \<Longrightarrow> dec (enc x @ rest) = Some (x, rest)) \<Longrightarrow> self_delimiting V enc"
  unfolding self_delimiting_def by (metis option.inject prod.inject)

lemma self_delimitingD: "self_delimiting V enc \<Longrightarrow> x \<in> V \<Longrightarrow> y \<in> V \<Longrightarrow> enc x @ xs = enc y @ ys \<longleftrightarrow> x = y \<and> xs = ys"
  unfolding self_delimiting_def by blast

lemma self_delimiting_inject: "self_delimiting V enc \<Longrightarrow> x \<in> V \<Longrightarrow> y \<in> V \<Longrightarrow> enc x = enc y \<longleftrightarrow> x = y"
  using self_delimitingD [of V enc x y "[]" "[]"] by simp

definition key_in_range :: "ScAddress set \<Rightarrow> ScVal set \<Rightarrow> LedgerKey \<Rightarrow> bool" where
  "key_in_range A V key =
     (case key of
        LedgerKeyOffer _ offerID \<Rightarrow> in_int64 offerID
      | LedgerKeyConfigSetting c \<Rightarrow> 0 \<le> c \<and> c < 4294967296
      | LedgerKeyContractData contract k durability \<Rightarrow> contract \<in> A \<and> k \<in> V \<and> 0 \<le> durability \<and> durability < 256
      | _ \<Rightarrow> True)"

lemma durability_inject: "0 \<le> c \<Longrightarrow> c < 256 \<Longrightarrow> 0 \<le> d \<Longrightarrow> d < 256 \<Longrightarrow> (word_of_int c :: byte) = word_of_int d \<longleftrightarrow> c = d"
  by (auto dest!: arg_cong [where f = uint] simp: uint_word_of_int)

lemma config_inject: "0 \<le> c \<Longrightarrow> c < 4294967296 \<Longrightarrow> 0 \<le> d \<Longrightarrow> d < 4294967296 \<Longrightarrow> (word_of_int c :: 32 word) = word_of_int d \<longleftrightarrow> c = d"
  by (auto dest!: arg_cong [where f = uint] simp: uint_word_of_int)

lemma type_byte_inject: "(word_of_int (LedgerEntryType_int t) :: byte) = word_of_int (LedgerEntryType_int u) \<longleftrightarrow> t = u"
  by (cases t; cases u) (simp_all add: LedgerEntryType_int_def)

lemma compress_same_type:
  assumes "ledgerKeyCompressEncodeTo ea ev k = ledgerKeyCompressEncodeTo ea ev l"
  shows "key_Type k = key_Type l"
  using assms by (simp add: ledgerKeyCompressEncodeTo_def type_byte_inject)

lemma contract_data_inject:
  assumes "self_delimiting A enc_addr" "self_delimiting V enc_val"
    and "key_in_range A V (LedgerKeyContractData a v c)" "key_in_range A V (LedgerKeyContractData b u d)"
  shows "enc_addr a @ enc_val v @ [word_of_int c] = enc_addr b @ enc_val u @ [word_of_int d] \<longleftrightarrow> a = b \<and> v = u \<and> c = d"
  using assms(3,4) by (auto simp: key_in_range_def self_delimitingD [OF assms(1)] self_delimiting_inject [OF assms(2)] durability_inject)

text \<open>
  C39. The compressed encoding of keys, under which ledger entries are indexed, is unambiguous: two
  keys of any types have the same bytes exactly if they are equal up to the seller of an offer (an offer ID is unique) and
  trailing zero bytes of a data name. For keys of contract data, contract, key and durability are all determined, given that
  the generated encodings of addresses and values are self-delimiting. Enumerations and IDs are in the ranges of their Go types.
\<close>

theorem ledgerKeyCompress_unambiguous:
  assumes "self_delimiting A enc_addr" "self_delimiting V enc_val" "key_in_range A V k" "key_in_range A V l"
  shows "ledgerKeyCompressEncodeTo enc_addr enc_val k = ledgerKeyCompressEncodeTo enc_addr enc_val l \<longleftrightarrow> compress_view k = compress_view l"
proof (cases "key_Type k = key_Type l")
  case True
  then show ?thesis
  proof (cases k)
    case (LedgerKeyContractData a v c)
    with True obtain b u d where l: "l = LedgerKeyContractData b u d" by (cases l) (auto simp: key_Type_def)
    show ?thesis using contract_data_inject [OF assms(1,2)] assms(3,4)
      by (simp add: LedgerKeyContractData l ledgerKeyCompressEncodeTo_def key_Type_def compress_view_def)
  qed (use assms(3,4) in \<open>cases l;
      auto simp: ledgerKeyCompressEncodeTo_def key_Type_def compress_view_def account_encode_inject account_encode_prefix
        asset_encode_inject be_bytes_inject word_of_int_eq_of_range config_inject key_in_range_def bytes_str_inject
        claimableBalanceCompressEncodeTo_def split: ClaimableBalanceId.splits\<close>)+
next
  case False
  then have "compress_view k \<noteq> compress_view l" by (cases k; cases l) (auto simp: compress_view_def key_Type_def)
  then show ?thesis using False compress_same_type by blast
qed

text \<open>Encodings of addresses and of two kinds of values, as the XDR standard defines them.\<close>

definition xdr_address :: "ScAddress \<Rightarrow> byte list" where
  "xdr_address a =
     (case a of
        ScAddressAccount (Ed25519 k) \<Rightarrow> be_bytes 4 (0 :: 32 word) @ be_bytes 4 (0 :: 32 word) @ be_bytes 32 k
      | ScAddressContract h \<Rightarrow> be_bytes 4 (1 :: 32 word) @ be_bytes 32 h)"

definition xdr_scalar :: "ScVal \<Rightarrow> byte list" where
  "xdr_scalar v =
     (case v of
        ScvBool b \<Rightarrow> be_bytes 4 (0 :: 32 word) @ be_bytes 4 (of_bool b :: 32 word)
      | ScvU32 x \<Rightarrow> be_bytes 4 (3 :: 32 word) @ be_bytes 4 x
      | _ \<Rightarrow> [])"

lemma xdr_address_self_delimiting: "self_delimiting UNIV xdr_address"
  unfolding self_delimiting_def xdr_address_def
  by (auto simp: be_bytes_inject append_eq_append_conv split: ScAddress.splits AccountId.splits)

lemma xdr_scalar_self_delimiting: "self_delimiting (range ScvBool \<union> range ScvU32) xdr_scalar"
  unfolding self_delimiting_def xdr_scalar_def
  by (auto simp: be_bytes_inject append_eq_append_conv split: bool.splits)

theorem ledgerKeyCompress_unambiguous_witness:
  "ledgerKeyCompressEncodeTo xdr_address xdr_scalar (LedgerKeyOffer (Ed25519 1) 5) =
     ledgerKeyCompressEncodeTo xdr_address xdr_scalar (LedgerKeyOffer (Ed25519 2) 5) \<and>
   ledgerKeyCompressEncodeTo xdr_address xdr_scalar (LedgerKeyContractData (ScAddressContract 7) (ScvU32 1) 0) \<noteq>
     ledgerKeyCompressEncodeTo xdr_address xdr_scalar (LedgerKeyContractData (ScAddressContract 7) (ScvU32 1) 1)"
  using ledgerKeyCompress_unambiguous [OF xdr_address_self_delimiting xdr_scalar_self_delimiting, of "LedgerKeyOffer (Ed25519 1) 5" "LedgerKeyOffer (Ed25519 2) 5"]
    ledgerKeyCompress_unambiguous [OF xdr_address_self_delimiting xdr_scalar_self_delimiting,
      of "LedgerKeyContractData (ScAddressContract 7) (ScvU32 1) 0" "LedgerKeyContractData (ScAddressContract 7) (ScvU32 1) 1"]
  by (simp add: key_in_range_def compress_view_def in_int64_def MinInt64_def MaxInt64_def)

end
