(* ===== verification/Changes.thy ===== *)
theory Changes
  imports LedgerKey
begin

text \<open>
  Ledger entry changes (\<^verbatim>\<open>src/ingest/change.go\<close>) and the compactor that squashes the changes of a
  ledger (\<^verbatim>\<open>src/ingest/change_compactor.go\<close>).

  \<open>marshal\<close> is the XDR encoding of a ledger key, a parameter of the functions that use it; the
  properties assume that it is total and injective. Pointers to entries are options. The text
  of an error is its constructor.
\<close>

section \<open>The model\<close>

record 'x Change =
  ch_Type :: LedgerEntryType
  Pre :: "'x LedgerEntry option"
  Post :: "'x LedgerEntry option"

datatype change_error =
    ErrLedgerKey string
  | ErrMarshal string
  | StateErrorCreate      \<comment> \<open>can't create an entry that already exists\<close>
  | StateErrorUpdate      \<comment> \<open>can't update an entry that was previously removed\<close>
  | StateErrorRemove      \<comment> \<open>can't remove an entry that was previously removed\<close>
  | UnknownChangeState
  | change_panic string

subsection \<open>Changes\<close>

definition LedgerEntryChangeType :: "'x Change \<Rightarrow> int option" where
  "LedgerEntryChangeType c =
     (case (Pre c, Post c) of
        (None, Some _) \<Rightarrow> Some 0
      | (Some _, None) \<Rightarrow> Some 2
      | (Some _, Some _) \<Rightarrow> Some 1
      | (None, None) \<Rightarrow> None)"

definition change_ledgerKey :: "'x Change \<Rightarrow> change_error + LedgerKey" where
  "change_ledgerKey c =
     (case Pre c of
        Some e \<Rightarrow> (case entry_LedgerKey e of Inl s \<Rightarrow> Inl (ErrLedgerKey s) | Inr k \<Rightarrow> Inr k)
      | None \<Rightarrow>
          (case Post c of
             Some e \<Rightarrow> (case entry_LedgerKey e of Inl s \<Rightarrow> Inl (ErrLedgerKey s) | Inr k \<Rightarrow> Inr k)
           | None \<Rightarrow> Inl (change_panic ''nil pointer'')))"

text \<open>One turn of the loop of \<^verbatim>\<open>GetChangesFromLedgerEntryChanges\<close>; \<open>prev\<close> is the element before, if any.\<close>

definition previous_state :: "'x LedgerEntryChange option \<Rightarrow> change_error + 'x LedgerEntry" where
  "previous_state prev =
     (case prev of
        None \<Rightarrow> Inl (change_panic ''index out of range'')
      | Some (LedgerEntryState e) \<Rightarrow> Inr e
      | Some _ \<Rightarrow> Inl (change_panic ''MustState''))"

fun changes_loop :: "'x LedgerEntryChange option \<Rightarrow> 'x LedgerEntryChange list \<Rightarrow> 'x Change list \<Rightarrow> change_error + 'x Change list" where
  "changes_loop prev [] changes = Inr changes"
| "changes_loop prev (entryChange # rest) changes =
     (case entryChange of
        LedgerEntryCreated created \<Rightarrow>
          changes_loop (Some entryChange) rest
            (changes @ [\<lparr>ch_Type = data_Type (le_Data created), Pre = None, Post = Some created\<rparr>])
      | LedgerEntryUpdated updated \<Rightarrow>
          (case previous_state prev of
             Inl e \<Rightarrow> Inl e
           | Inr state \<Rightarrow> changes_loop (Some entryChange) rest
               (changes @ [\<lparr>ch_Type = data_Type (le_Data state), Pre = Some state, Post = Some updated\<rparr>]))
      | LedgerEntryRemoved _ \<Rightarrow>
          (case previous_state prev of
             Inl e \<Rightarrow> Inl e
           | Inr state \<Rightarrow> changes_loop (Some entryChange) rest
               (changes @ [\<lparr>ch_Type = data_Type (le_Data state), Pre = Some state, Post = None\<rparr>]))
      | LedgerEntryState _ \<Rightarrow> changes_loop (Some entryChange) rest changes)"

text \<open>The bytes of the keys, in the order of the changes; an error is a panic.\<close>

fun newSortableChanges :: "(LedgerKey \<Rightarrow> change_error + string) \<Rightarrow> 'x Change list \<Rightarrow> change_error + (string \<times> 'x Change) list" where
  "newSortableChanges marshal [] = Inr []"
| "newSortableChanges marshal (c # cs) =
     (case change_ledgerKey c of
        Inl e \<Rightarrow> Inl e
      | Inr lk \<Rightarrow>
          (case marshal lk of
             Inl e \<Rightarrow> Inl e
           | Inr lkBytes \<Rightarrow>
               (case newSortableChanges marshal cs of
                  Inl e \<Rightarrow> Inl e
                | Inr rest \<Rightarrow> Inr ((lkBytes, c) # rest))))"

text \<open>\<^verbatim>\<open>sort.Stable\<close> has one possible result, that of a stable sort by the bytes of the keys.\<close>

definition sortChanges :: "(LedgerKey \<Rightarrow> change_error + string) \<Rightarrow> 'x Change list \<Rightarrow> change_error + 'x Change list" where
  "sortChanges marshal changes =
     (case newSortableChanges marshal changes of
        Inl e \<Rightarrow> Inl e
      | Inr keyed \<Rightarrow> Inr (map snd (sort_key fst keyed)))"

definition GetChangesFromLedgerEntryChanges ::
    "(LedgerKey \<Rightarrow> change_error + string) \<Rightarrow> 'x LedgerEntryChange list \<Rightarrow> change_error + 'x Change list" where
  "GetChangesFromLedgerEntryChanges marshal ledgerEntryChanges =
     (case changes_loop None ledgerEntryChanges [] of Inl e \<Rightarrow> Inl e | Inr changes \<Rightarrow> sortChanges marshal changes)"

definition getLiquidityPool :: "'x Change \<Rightarrow> LiquidityPoolEntry option" where
  "getLiquidityPool c =
     (let pool = (\<lambda>e. case le_Data e of EntryLiquidityPool p \<Rightarrow> Some p | _ \<Rightarrow> None);
          entry = (case Pre c of Some e \<Rightarrow> pool e | None \<Rightarrow> None)
      in case Post c of Some e \<Rightarrow> pool e | None \<Rightarrow> entry)"

definition GetLiquidityPoolType :: "'x Change \<Rightarrow> int option" where
  "GetLiquidityPoolType c = map_option lp_Type (getLiquidityPool c)"

text \<open>
  The two accounts are compared by their XDR encodings (\<open>marshal_account\<close>), with the extension
  filled in and the signers removed. \<open>Inl\<close>: a panic or an error.
\<close>

definition without_signers :: "'x AccountEntry \<Rightarrow> 'x AccountEntry" where
  "without_signers a =
     (let a' = (case ac_Ext a of
                  AccountExtV0 \<Rightarrow> a\<lparr>ac_Ext := AccountExtV1 \<lparr>li_Buying = 0, li_Selling = 0\<rparr> V1ExtV0\<rparr>
                | _ \<Rightarrow> a)
      in a'\<lparr>ac_Signers := []\<rparr>)"

definition AccountChangedExceptSigners ::
    "('x AccountEntry \<Rightarrow> change_error + string) \<Rightarrow> 'x Change \<Rightarrow> change_error + bool" where
  "AccountChangedExceptSigners marshal_account c =
     (if ch_Type c \<noteq> LedgerEntryTypeAccount then Inl (change_panic ''This should not be called on changes other than Account changes'')
      else case Pre c of
          None \<Rightarrow> Inr True
        | Some pre \<Rightarrow>
            (case Post c of
               None \<Rightarrow> Inr True
             | Some post \<Rightarrow>
                 if le_LastModifiedLedgerSeq pre \<noteq> le_LastModifiedLedgerSeq post then Inr True
                 else
                   (case (le_Data pre, le_Data post) of
                      (EntryAccount a, EntryAccount b) \<Rightarrow>
                        (case marshal_account (without_signers a) of
                           Inl e \<Rightarrow> Inl e
                         | Inr preBinary \<Rightarrow>
                             (case marshal_account (without_signers b) of
                                Inl e \<Rightarrow> Inl e
                              | Inr postBinary \<Rightarrow> Inr (preBinary \<noteq> postBinary)))
                    | _ \<Rightarrow> Inl (change_panic ''MustAccount''))))"

subsection \<open>The compactor\<close>

type_synonym 'x ChangeCompactor = "string \<rightharpoonup> 'x Change"

definition NewChangeCompactor :: "'x ChangeCompactor" where
  "NewChangeCompactor = Map.empty"

text \<open>The key under which an entry is cached.\<close>

definition cache_key :: "(LedgerKey \<Rightarrow> change_error + string) \<Rightarrow> 'x LedgerEntry \<Rightarrow> change_error + LedgerKey \<times> string" where
  "cache_key marshal e =
     (case entry_LedgerKey e of
        Inl s \<Rightarrow> Inl (ErrLedgerKey s)
      | Inr key \<Rightarrow> (case marshal key of Inl err \<Rightarrow> Inl err | Inr s \<Rightarrow> Inr (key, s)))"

definition addCreatedChange ::
    "(LedgerKey \<Rightarrow> change_error + string) \<Rightarrow> 'x ChangeCompactor \<Rightarrow> 'x Change \<Rightarrow> 'x LedgerEntry \<Rightarrow> change_error + 'x ChangeCompactor" where
  "addCreatedChange marshal cache change post =
     (case cache_key marshal post of
        Inl e \<Rightarrow> Inl e
      | Inr (key, ledgerKeyString) \<Rightarrow>
          (case cache ledgerKeyString of
             None \<Rightarrow> Inr (cache(ledgerKeyString \<mapsto> change))
           | Some existingChange \<Rightarrow>
               (case LedgerEntryChangeType existingChange of
                  None \<Rightarrow> Inl (change_panic ''Invalid state of Change'')
                | Some t \<Rightarrow>
                    if t = 0 then Inl StateErrorCreate
                    else if t = 1 then Inl StateErrorCreate
                    else Inr (cache(ledgerKeyString \<mapsto> \<lparr>ch_Type = key_Type key, Pre = Pre existingChange, Post = Post change\<rparr>)))))"

definition addUpdatedChange ::
    "(LedgerKey \<Rightarrow> change_error + string) \<Rightarrow> 'x ChangeCompactor \<Rightarrow> 'x Change \<Rightarrow> 'x LedgerEntry \<Rightarrow> change_error + 'x ChangeCompactor" where
  "addUpdatedChange marshal cache change post =
     (case cache_key marshal post of
        Inl e \<Rightarrow> Inl e
      | Inr (key, ledgerKeyString) \<Rightarrow>
          (case cache ledgerKeyString of
             None \<Rightarrow> Inr (cache(ledgerKeyString \<mapsto> change))
           | Some existingChange \<Rightarrow>
               (case LedgerEntryChangeType existingChange of
                  None \<Rightarrow> Inl (change_panic ''Invalid state of Change'')
                | Some t \<Rightarrow>
                    if t = 0 then
                      Inr (cache(ledgerKeyString \<mapsto> \<lparr>ch_Type = key_Type key, Pre = Pre existingChange, Post = Post change\<rparr>))
                    else if t = 1 then
                      Inr (cache(ledgerKeyString \<mapsto> \<lparr>ch_Type = key_Type key, Pre = Pre existingChange, Post = Post change\<rparr>))
                    else Inl StateErrorUpdate)))"

definition addRemovedChange ::
    "(LedgerKey \<Rightarrow> change_error + string) \<Rightarrow> 'x ChangeCompactor \<Rightarrow> 'x Change \<Rightarrow> 'x LedgerEntry \<Rightarrow> change_error + 'x ChangeCompactor" where
  "addRemovedChange marshal cache change pre =
     (case cache_key marshal pre of
        Inl e \<Rightarrow> Inl e
      | Inr (key, ledgerKeyString) \<Rightarrow>
          (case cache ledgerKeyString of
             None \<Rightarrow> Inr (cache(ledgerKeyString \<mapsto> change))
           | Some existingChange \<Rightarrow>
               (case LedgerEntryChangeType existingChange of
                  None \<Rightarrow> Inl (change_panic ''Invalid state of Change'')
                | Some t \<Rightarrow>
                    if t = 0 then Inr (cache(ledgerKeyString := None))
                    else if t = 1 then
                      Inr (cache(ledgerKeyString \<mapsto> \<lparr>ch_Type = key_Type key, Pre = Pre existingChange, Post = None\<rparr>))
                    else Inl StateErrorRemove)))"

definition AddChange ::
    "(LedgerKey \<Rightarrow> change_error + string) \<Rightarrow> 'x ChangeCompactor \<Rightarrow> 'x Change \<Rightarrow> change_error + 'x ChangeCompactor" where
  "AddChange marshal cache change =
     (case (Pre change, Post change) of
        (None, Some post) \<Rightarrow> addCreatedChange marshal cache change post
      | (Some _, Some post) \<Rightarrow> addUpdatedChange marshal cache change post
      | (Some pre, None) \<Rightarrow> addRemovedChange marshal cache change pre
      | (None, None) \<Rightarrow> Inl UnknownChangeState)"

text \<open>Go ranges over a map: the changes come in any order.\<close>

definition GetChanges :: "'x ChangeCompactor \<Rightarrow> 'x Change set" where
  "GetChanges cache = ran cache"

definition compactor_Size :: "'x ChangeCompactor \<Rightarrow> nat" where
  "compactor_Size cache = card (dom cache)"


section \<open>Keys of changes\<close>

definition key_of :: "'x LedgerEntry \<Rightarrow> LedgerKey" where
  "key_of e = (case entry_LedgerKey e of Inr k \<Rightarrow> k | Inl _ \<Rightarrow> LedgerKeyConfigSetting 0)"

lemma entry_LedgerKey_key_of: "entry_LedgerKey e = Inr (key_of e)"
  using data_LedgerKey_total [of "le_Data e"] by (auto simp: key_of_def entry_LedgerKey_def)

lemma key_Type_key_of: "key_Type (key_of e) = data_Type (le_Data e)"
  using data_LedgerKey_total [of "le_Data e"] entry_LedgerKey_key_of [of e] by (auto simp: entry_LedgerKey_def)

text \<open>A change is well formed if it has an entry and both entries have the same key.\<close>

definition wf_change :: "'x Change \<Rightarrow> bool" where
  "wf_change c \<longleftrightarrow> \<not> (Pre c = None \<and> Post c = None) \<and>
     (\<forall>pre post. Pre c = Some pre \<longrightarrow> Post c = Some post \<longrightarrow> key_of pre = key_of post)"

definition change_key :: "'x Change \<Rightarrow> LedgerKey" where
  "change_key c = (case Pre c of Some pre \<Rightarrow> key_of pre | None \<Rightarrow> (case Post c of Some post \<Rightarrow> key_of post | None \<Rightarrow> LedgerKeyConfigSetting 0))"

lemma wf_change_post: "wf_change c \<Longrightarrow> Post c = Some post \<Longrightarrow> key_of post = change_key c"
  by (auto simp: wf_change_def change_key_def split: option.splits)

lemma wf_change_pre: "Pre c = Some pre \<Longrightarrow> key_of pre = change_key c"
  by (simp add: change_key_def)

section \<open>Applying changes to a database\<close>

type_synonym 'x db = "LedgerKey \<rightharpoonup> 'x LedgerEntry"

definition apply_change :: "'x Change \<Rightarrow> 'x db \<Rightarrow> 'x db" where
  "apply_change c db = db(change_key c := Post c)"

text \<open>Every change starts from the entry that the database has.\<close>

fun valid_changes :: "'x db \<Rightarrow> 'x Change list \<Rightarrow> bool" where
  "valid_changes db [] = True"
| "valid_changes db (c # cs) \<longleftrightarrow> wf_change c \<and> Pre c = db (change_key c) \<and> valid_changes (apply_change c db) cs"

fun add_all :: "(LedgerKey \<Rightarrow> change_error + string) \<Rightarrow> 'x ChangeCompactor \<Rightarrow> 'x Change list \<Rightarrow> change_error + 'x ChangeCompactor" where
  "add_all marshal cache [] = Inr cache"
| "add_all marshal cache (c # cs) =
     (case AddChange marshal cache c of Inl e \<Rightarrow> Inl e | Inr cache' \<Rightarrow> add_all marshal cache' cs)"

text \<open>The cache holds, for the keys in \<open>K\<close>, the difference between the database at the start and now.\<close>

definition cache_inv :: "(LedgerKey \<Rightarrow> string) \<Rightarrow> LedgerKey set \<Rightarrow> 'x db \<Rightarrow> 'x db \<Rightarrow> 'x ChangeCompactor \<Rightarrow> bool" where
  "cache_inv m K db0 db cache \<longleftrightarrow>
     (\<forall>k \<in> K. case cache (m k) of
         None \<Rightarrow> db k = db0 k
       | Some ch \<Rightarrow> wf_change ch \<and> change_key ch = k \<and> Pre ch = db0 k \<and> Post ch = db k) \<and>
     (\<forall>k. k \<notin> K \<longrightarrow> db k = db0 k) \<and> dom cache \<subseteq> m ` K"

lemma cache_inv_upd:
  assumes inv: "cache_inv m K db0 db cache" and inj: "inj_on m K" and k: "change_key c \<in> K"
    and x: "case x of None \<Rightarrow> Post c = db0 (change_key c)
      | Some ch \<Rightarrow> wf_change ch \<and> change_key ch = change_key c \<and> Pre ch = db0 (change_key c) \<and> Post ch = Post c"
  shows "cache_inv m K db0 (apply_change c db) (cache(m (change_key c) := x))"
proof -
  have "case (cache(m (change_key c) := x)) (m k') of
      None \<Rightarrow> apply_change c db k' = db0 k'
    | Some ch \<Rightarrow> wf_change ch \<and> change_key ch = k' \<and> Pre ch = db0 k' \<and> Post ch = apply_change c db k'" if k': "k' \<in> K" for k'
  proof (cases "k' = change_key c")
    case True
    then show ?thesis using x by (simp add: apply_change_def split: option.splits)
  next
    case False
    have eq: "apply_change c db k' = db k'" using False by (simp add: apply_change_def)
    have "m k' \<noteq> m (change_key c)" using False inj k k' by (auto dest: inj_onD)
    then show ?thesis unfolding eq using inv k' by (simp add: cache_inv_def)
  qed
  then show ?thesis using inv k unfolding cache_inv_def by (auto simp: apply_change_def split: if_splits)
qed

lemma AddChange_valid:
  assumes inv: "cache_inv m K db0 db cache" and inj: "inj_on m K" and k: "change_key c \<in> K"
    and c: "wf_change c" "Pre c = db (change_key c)"
  shows "\<exists>cache'. AddChange (\<lambda>k. Inr (m k)) cache c = Inr cache' \<and> cache_inv m K db0 (apply_change c db) cache'"
proof -
  let ?s = "m (change_key c)"
  have key: "cache_key (\<lambda>k. Inr (m k)) e = Inr (key_of e, m (key_of e))" for e :: "'a LedgerEntry"
    by (simp add: cache_key_def entry_LedgerKey_key_of)
  have post: "key_of e = change_key c" if "Post c = Some e" for e using wf_change_post [OF c(1) that] .
  have pre: "key_of e = change_key c" if "Pre c = Some e" for e using wf_change_pre [OF that] .
  have nonempty: "Pre c \<noteq> None \<or> Post c \<noteq> None" using c(1) by (auto simp: wf_change_def)
  show ?thesis
  proof (cases "cache ?s")
    case None
    then have "db (change_key c) = db0 (change_key c)" using inv k by (auto simp: cache_inv_def)
    then have "cache_inv m K db0 (apply_change c db) (cache(?s := Some c))"
      using c by (intro cache_inv_upd [OF inv inj k]) simp
    moreover have "AddChange (\<lambda>k. Inr (m k)) cache c = Inr (cache(?s := Some c))"
      using None nonempty post pre
      by (auto simp: AddChange_def addCreatedChange_def addUpdatedChange_def addRemovedChange_def key split: option.splits)
    ultimately show ?thesis by blast
  next
    case (Some ch)
    then have ch: "wf_change ch" "change_key ch = change_key c" "Pre ch = db0 (change_key c)" "Post ch = Pre c"
      using inv k c(2) by (auto simp: cache_inv_def split: option.splits)
    let ?x = "if Pre ch = None \<and> Post c = None then None
      else Some \<lparr>ch_Type = key_Type (change_key c), Pre = Pre ch, Post = Post c\<rparr>"
    have "cache_inv m K db0 (apply_change c db) (cache(?s := ?x))"
    proof (rule cache_inv_upd [OF inv inj k])
      have "key_of e = key_of e'" if "Pre ch = Some e" "Post c = Some e'" for e e'
        using wf_change_pre [OF that(1)] post [OF that(2)] ch(2) by simp
      then show "case ?x of None \<Rightarrow> Post c = db0 (change_key c)
        | Some ch' \<Rightarrow> wf_change ch' \<and> change_key ch' = change_key c \<and> Pre ch' = db0 (change_key c) \<and> Post ch' = Post c"
        using ch post wf_change_pre [of ch]
        by (auto simp: wf_change_def change_key_def [of "Change.make _ _ _"] split: option.splits) (auto simp: change_key_def split: option.splits)
    qed
    moreover have "AddChange (\<lambda>k. Inr (m k)) cache c = Inr (cache(?s := ?x))"
      using Some nonempty post pre ch(1,4)
      by (auto simp: AddChange_def addCreatedChange_def addUpdatedChange_def addRemovedChange_def key LedgerEntryChangeType_def
          wf_change_def split: option.splits)
    ultimately show ?thesis by blast
  qed
qed

lemma add_all_valid:
  assumes "inj_on m K" "change_key ` set cs \<subseteq> K" "cache_inv m K db0 db cache" "valid_changes db cs"
  shows "\<exists>cache'. add_all (\<lambda>k. Inr (m k)) cache cs = Inr cache' \<and> cache_inv m K db0 (fold apply_change cs db) cache'"
  using assms(2-)
proof (induction cs arbitrary: db cache)
  case (Cons c cs)
  then obtain cache1 where "AddChange (\<lambda>k. Inr (m k)) cache c = Inr cache1" "cache_inv m K db0 (apply_change c db) cache1"
    using AddChange_valid [OF Cons.prems(2) assms(1), of c] by auto
  then show ?case using Cons.IH [of "apply_change c db" cache1] Cons.prems by auto
qed simp

lemma apply_change_at: "apply_change c db k = (if k = change_key c then Post c else db k)"
  by (simp add: apply_change_def)

text \<open>Changes of different entries commute.\<close>

lemma apply_distinct:
  assumes "distinct (map change_key ds)" "\<forall>d \<in> set ds. wf_change d \<and> Pre d = db (change_key d)"
  shows "valid_changes db ds \<and> (\<forall>k. k \<notin> change_key ` set ds \<longrightarrow> fold apply_change ds db k = db k) \<and>
    (\<forall>d \<in> set ds. fold apply_change ds db (change_key d) = Post d)"
  using assms
proof (induction ds arbitrary: db)
  case (Cons d ds)
  have "\<forall>e \<in> set ds. wf_change e \<and> Pre e = apply_change d db (change_key e)"
    using Cons.prems by (auto simp: apply_change_at image_iff)
  note ih = Cons.IH [OF _ this]
  have "apply_change d db k = db k" if "k \<noteq> change_key d" for k using that by (simp add: apply_change_def)
  moreover have "apply_change d db (change_key d) = Post d" by (simp add: apply_change_def)
  ultimately show ?case using ih Cons.prems by auto
qed simp

text \<open>
  C12. The compactor is correct: it accepts every sequence of changes in which each one starts from
  the entry that the database has at that point, and the changes it returns, applied to the
  database in any order, lead to the same database as the whole sequence; there is at most one
  change for an entry, and it too starts from what the database has. (\<open>m\<close> is the encoding of the keys.)
\<close>

theorem ChangeCompactor_correct:
  assumes "inj_on m (change_key ` set cs)" "valid_changes db cs"
  shows "\<exists>cache. add_all (\<lambda>k. Inr (m k)) NewChangeCompactor cs = Inr cache \<and> finite (GetChanges cache) \<and>
    inj_on change_key (GetChanges cache) \<and> card (GetChanges cache) = compactor_Size cache \<and>
    (\<forall>ds. set ds = GetChanges cache \<and> distinct ds \<longrightarrow>
       valid_changes db ds \<and> fold apply_change ds db = fold apply_change cs db)"
proof -
  let ?K = "change_key ` set cs"
  have "cache_inv m ?K db db NewChangeCompactor" by (simp add: cache_inv_def NewChangeCompactor_def)
  then obtain cache where cache: "add_all (\<lambda>k. Inr (m k)) NewChangeCompactor cs = Inr cache"
    "cache_inv m ?K db (fold apply_change cs db) cache"
    using add_all_valid [OF assms(1) _ _ assms(2)] by auto
  have at: "\<exists>k \<in> ?K. s = m k \<and> wf_change ch \<and> change_key ch = k \<and> Pre ch = db k \<and> Post ch = fold apply_change cs db k"
    if "cache s = Some ch" for s ch
  proof -
    from that cache(2) obtain k where "k \<in> ?K" "s = m k" unfolding cache_inv_def by blast
    then show ?thesis using cache(2) that unfolding cache_inv_def by fastforce
  qed
  have absent: "fold apply_change cs db k = db k" if "k \<notin> change_key ` GetChanges cache" for k
  proof (cases "k \<in> ?K")
    case True
    show ?thesis
    proof (cases "cache (m k)")
      case None
      then show ?thesis using cache(2) True unfolding cache_inv_def by fastforce
    next
      case (Some ch)
      then have "ch \<in> GetChanges cache" by (auto simp: GetChanges_def ran_def)
      moreover have "change_key ch = k" using cache(2) True Some unfolding cache_inv_def by fastforce
      ultimately show ?thesis using that by blast
    qed
  qed (use cache(2) in \<open>simp add: cache_inv_def\<close>)
  have fin: "finite (dom cache)" using cache(2) unfolding cache_inv_def by (meson finite_imageI finite_set finite_subset)
  have inj: "inj_on change_key (GetChanges cache)"
  proof (rule inj_onI)
    fix c d assume "c \<in> GetChanges cache" "d \<in> GetChanges cache" "change_key c = change_key d"
    then obtain s t where "cache s = Some c" "cache t = Some d" by (auto simp: GetChanges_def ran_def)
    with at [of s c] at [of t d] \<open>change_key c = change_key d\<close> show "c = d" by auto
  qed
  have ran: "GetChanges cache = (\<lambda>s. the (cache s)) ` dom cache"
    by (force simp: GetChanges_def ran_def image_iff)
  have inj_dom: "inj_on (\<lambda>s. the (cache s)) (dom cache)"
  proof (rule inj_onI)
    fix s t assume "s \<in> dom cache" "t \<in> dom cache" "the (cache s) = the (cache t)"
    then obtain c where "cache s = Some c" "cache t = Some c" by auto
    with at [of s c] at [of t c] show "s = t" by auto
  qed
  have "valid_changes db ds \<and> fold apply_change ds db = fold apply_change cs db" if ds: "set ds = GetChanges cache" "distinct ds" for ds
  proof -
    have "distinct (map change_key ds)" using ds inj by (simp add: distinct_map)
    moreover have "wf_change d \<and> Pre d = db (change_key d) \<and> Post d = fold apply_change cs db (change_key d)" if "d \<in> set ds" for d
      using that ds(1) at by (fastforce simp: GetChanges_def ran_def)
    ultimately have "valid_changes db ds" "\<forall>k. k \<notin> change_key ` set ds \<longrightarrow> fold apply_change ds db k = db k"
      "\<forall>d \<in> set ds. fold apply_change ds db (change_key d) = fold apply_change cs db (change_key d)"
      using apply_distinct [of ds db] by auto
    moreover from this have "fold apply_change ds db k = fold apply_change cs db k" for k
      using absent [of k] ds(1) by (cases "k \<in> change_key ` set ds") auto
    ultimately show ?thesis by blast
  qed
  then show ?thesis
    using cache(1) fin inj inj_dom by (auto simp: ran compactor_Size_def card_image simp del: add_all.simps)
qed

text \<open>A Ttl entry, and the changes that create and remove it.\<close>

definition ttl_entry :: "nat LedgerEntry" where
  "ttl_entry = \<lparr>le_LastModifiedLedgerSeq = 1, le_Data = EntryTtl 7 100, le_Ext = LedgerEntryExtV0\<rparr>"

definition ttl_created :: "nat Change" where
  "ttl_created = \<lparr>ch_Type = LedgerEntryTypeTtl, Pre = None, Post = Some ttl_entry\<rparr>"

definition ttl_removed :: "nat Change" where
  "ttl_removed = \<lparr>ch_Type = LedgerEntryTypeTtl, Pre = Some ttl_entry, Post = None\<rparr>"

lemma ttl_key: "key_of ttl_entry = LedgerKeyTtl 7"
  by (simp add: key_of_def ttl_entry_def entry_LedgerKey_def data_LedgerKey_def SetTtl_def)

lemmas ttl_simps = ttl_key ttl_created_def ttl_removed_def change_key_def wf_change_def

theorem ChangeCompactor_correct_witness:
  "\<exists>cache. add_all (\<lambda>k. Inr ''key'') NewChangeCompactor [ttl_created] = Inr cache \<and>
     (\<forall>ds. set ds = GetChanges cache \<and> distinct ds \<longrightarrow> fold apply_change ds Map.empty = [LedgerKeyTtl 7 \<mapsto> ttl_entry])"
  using ChangeCompactor_correct [of "\<lambda>_. ''key''" "[ttl_created]" Map.empty]
  by (auto simp: ttl_simps apply_change_def)

text \<open>
  The integrity check misses a sequence: when an entry is created and removed, the compactor
  forgets it, and accepts the removal of the same, already removed entry once more; it then returns
  that removal, although no database allows the sequence.
\<close>

theorem ChangeCompactor_accepts_double_removal:
  "add_all (\<lambda>k. Inr ''key'') NewChangeCompactor [ttl_created, ttl_removed, ttl_removed] = Inr [''key'' \<mapsto> ttl_removed] \<and>
   add_all (\<lambda>k. Inr ''key'') NewChangeCompactor [ttl_removed, ttl_removed] = Inl StateErrorRemove \<and>
   \<not> valid_changes db [ttl_created, ttl_removed, ttl_removed]"
  by (simp add: AddChange_def addCreatedChange_def addRemovedChange_def cache_key_def entry_LedgerKey_key_of ttl_simps
      NewChangeCompactor_def LedgerEntryChangeType_def apply_change_def)

section \<open>Changes from transaction meta\<close>

text \<open>How the meta of a transaction represents a change.\<close>

definition meta_of :: "'x Change \<Rightarrow> 'x LedgerEntryChange list" where
  "meta_of c =
     (case (Pre c, Post c) of
        (None, Some post) \<Rightarrow> [LedgerEntryCreated post]
      | (Some pre, Some post) \<Rightarrow> [LedgerEntryState pre, LedgerEntryUpdated post]
      | (Some pre, None) \<Rightarrow> [LedgerEntryState pre, LedgerEntryRemoved (key_of pre)]
      | (None, None) \<Rightarrow> [])"

lemma changes_loop_meta:
  assumes "\<forall>c \<in> set cs. wf_change c \<and> ch_Type c = key_Type (change_key c)"
  shows "changes_loop prev (concat (map meta_of cs)) acc = Inr (acc @ cs)"
  using assms
proof (induction cs arbitrary: prev acc)
  case (Cons c cs)
  have "c = \<lparr>ch_Type = key_Type (change_key c), Pre = Pre c, Post = Post c\<rparr>" using Cons.prems by simp
  moreover have "\<not> (Pre c = None \<and> Post c = None)" using Cons.prems by (simp add: wf_change_def)
  ultimately show ?case
    using Cons by (cases "Pre c"; cases "Post c") (auto simp: meta_of_def previous_state_def change_key_def key_Type_key_of)
qed simp

lemma newSortableChanges_keys:
  assumes "\<forall>c \<in> set cs. wf_change c"
  shows "newSortableChanges (\<lambda>k. Inr (m k)) cs = Inr (map (\<lambda>c. (m (change_key c), c)) cs)"
  using assms
proof (induction cs)
  case (Cons c cs)
  have "change_ledgerKey c = Inr (change_key c)"
    using Cons.prems by (auto simp: change_ledgerKey_def change_key_def wf_change_def entry_LedgerKey_key_of split: option.splits)
  then show ?case using Cons by simp
qed simp

lemma sort_key_map_pair: "map snd (sort_key fst (map (\<lambda>c. (f c, c)) cs)) = sort_key f cs"
proof (induction cs)
  case (Cons c cs)
  have "map snd (insort_key fst (f c, c) xs) = insort_key f c (map snd xs)" if "\<forall>x \<in> set xs. fst x = f (snd x)" for xs
    using that by (induction xs) auto
  then show ?case using Cons by (simp add: image_iff)
qed simp

text \<open>
  An update or a removal needs the state of its entry directly before it. A meta is an \<open>orphan\<close> if some change has no element before it, or one
  that is not a state.
\<close>

fun needs_state :: "'x LedgerEntryChange \<Rightarrow> bool" where
  "needs_state (LedgerEntryUpdated _) = True"
| "needs_state (LedgerEntryRemoved _) = True"
| "needs_state _ = False"

fun gives_state :: "'x LedgerEntryChange option \<Rightarrow> bool" where
  "gives_state (Some (LedgerEntryState _)) = True"
| "gives_state _ = False"

definition orphan_after :: "'x LedgerEntryChange option \<Rightarrow> 'x LedgerEntryChange list \<Rightarrow> bool" where
  "orphan_after prev meta \<longleftrightarrow> (\<exists>i < length meta. needs_state (meta ! i) \<and> \<not> gives_state ((prev # map Some meta) ! i))"

definition orphan :: "'x LedgerEntryChange list \<Rightarrow> bool" where
  "orphan meta \<longleftrightarrow> (\<exists>i < length meta. needs_state (meta ! i) \<and> (i = 0 \<or> \<not> gives_state (Some (meta ! (i - 1)))))"

lemma orphan_after_None: "orphan_after None meta = orphan meta"
proof -
  have "gives_state ((None # map Some meta) ! i) \<longleftrightarrow> \<not> (i = 0 \<or> \<not> gives_state (Some (meta ! (i - 1))))" if "i < length meta" for i
    using that by (cases i) simp_all
  then show ?thesis unfolding orphan_after_def orphan_def by (metis (no_types, lifting))
qed

lemma orphan_after_simps [simp]:
  "\<not> orphan_after prev []"
  "orphan_after prev (x # rest) \<longleftrightarrow> needs_state x \<and> \<not> gives_state prev \<or> orphan_after (Some x) rest"
  unfolding orphan_after_def by (simp_all only: list.size list.map Ex_less_Suc2 nth_Cons_0 nth_Cons_Suc add_0_right add_Suc_right not_less0 simp_thms)

lemma previous_state_gives: "case previous_state prev of Inl e \<Rightarrow> \<not> gives_state prev \<and> (\<exists>msg. e = change_panic msg) | Inr _ \<Rightarrow> gives_state prev"
  by (cases prev rule: gives_state.cases) (auto simp: previous_state_def)

definition proper_change :: "'x Change \<Rightarrow> bool" where
  "proper_change c \<longleftrightarrow> Pre c \<noteq> None \<or> Post c \<noteq> None"

lemma proper_changeI [simp]:
  "proper_change \<lparr>ch_Type = t, Pre = Some pre, Post = post\<rparr>" "proper_change \<lparr>ch_Type = t, Pre = pre', Post = Some post'\<rparr>"
  by (simp_all add: proper_change_def)

lemma changes_loop_total:
  assumes "\<forall>c \<in> set acc. proper_change c"
  shows "if orphan_after prev meta then \<exists>msg. changes_loop prev meta acc = Inl (change_panic msg)
    else \<exists>cs. changes_loop prev meta acc = Inr cs \<and> (\<forall>c \<in> set cs. proper_change c)"
  using assms
proof (induction prev meta acc rule: changes_loop.induct)
  case (2 prev x rest acc)
  then show ?case
    using previous_state_gives [of prev] by (cases x) (auto split: sum.splits)
qed simp

lemma newSortableChanges_total:
  "\<forall>c \<in> set cs. proper_change c \<Longrightarrow> \<exists>keyed. newSortableChanges (\<lambda>k. Inr (m k)) cs = Inr keyed"
  by (induction cs) (force simp: change_ledgerKey_def proper_change_def entry_LedgerKey_key_of split: option.splits)+

text \<open>
  C40. Reading the meta of a transaction gives back the changes it represents (creations alone,
  updates and removals preceded by the state), sorted by the bytes of their keys, changes of the
  same entry in their original order. Of an arbitrary meta, it panics exactly if some update or removal, at any
  position, is first or does not directly follow a state; otherwise it returns changes.
\<close>

theorem GetChangesFromLedgerEntryChanges_roundtrip:
  assumes "\<forall>c \<in> set cs. wf_change c \<and> ch_Type c = key_Type (change_key c)"
  shows "GetChangesFromLedgerEntryChanges (\<lambda>k. Inr (m k)) (concat (map meta_of cs)) = Inr (sort_key (\<lambda>c. m (change_key c)) cs) \<and>
    (if orphan meta then \<exists>msg. GetChangesFromLedgerEntryChanges (\<lambda>k. Inr (m k)) meta = Inl (change_panic msg)
     else \<exists>changes. GetChangesFromLedgerEntryChanges (\<lambda>k. Inr (m k)) meta = Inr changes)"
proof
  have "newSortableChanges (\<lambda>k. Inr (m k)) cs = Inr (map (\<lambda>c. (m (change_key c), c)) cs)"
    using assms by (intro newSortableChanges_keys) blast
  then show "GetChangesFromLedgerEntryChanges (\<lambda>k. Inr (m k)) (concat (map meta_of cs)) = Inr (sort_key (\<lambda>c. m (change_key c)) cs)"
    using changes_loop_meta [OF assms, of None "[]"] sort_key_map_pair [of "\<lambda>c. m (change_key c)" cs]
    by (simp add: GetChangesFromLedgerEntryChanges_def sortChanges_def)
  have "if orphan meta then \<exists>msg. changes_loop None meta [] = Inl (change_panic msg)
      else \<exists>cs. changes_loop None meta [] = Inr cs \<and> (\<forall>c \<in> set cs. proper_change c)"
    using changes_loop_total [of "[]" None meta] by (simp add: orphan_after_None)
  then show "if orphan meta then \<exists>msg. GetChangesFromLedgerEntryChanges (\<lambda>k. Inr (m k)) meta = Inl (change_panic msg)
     else \<exists>changes. GetChangesFromLedgerEntryChanges (\<lambda>k. Inr (m k)) meta = Inr changes"
    by (auto simp: GetChangesFromLedgerEntryChanges_def sortChanges_def dest!: newSortableChanges_total [of _ m] split: if_splits)
qed

theorem GetChangesFromLedgerEntryChanges_roundtrip_witness:
  "GetChangesFromLedgerEntryChanges (\<lambda>k. Inr ''key'') [LedgerEntryCreated ttl_entry, LedgerEntryState ttl_entry, LedgerEntryRemoved (LedgerKeyTtl 7)] =
    Inr [ttl_created, ttl_removed] \<and>
   (\<exists>msg. GetChangesFromLedgerEntryChanges (\<lambda>k. Inr ''key'') [LedgerEntryState ttl_entry, LedgerEntryRemoved (LedgerKeyTtl 7), LedgerEntryRemoved (LedgerKeyTtl 7)] =
      Inl (change_panic msg))"
proof -
  have "orphan [LedgerEntryState ttl_entry, LedgerEntryRemoved (LedgerKeyTtl 7), LedgerEntryRemoved (LedgerKeyTtl 7)]"
    by (simp flip: orphan_after_None)
  then show ?thesis
    using GetChangesFromLedgerEntryChanges_roundtrip [of "[ttl_created, ttl_removed]" "\<lambda>_. ''key''"
        "[LedgerEntryState ttl_entry, LedgerEntryRemoved (LedgerKeyTtl 7), LedgerEntryRemoved (LedgerKeyTtl 7)]"]
    by (simp add: ttl_simps meta_of_def key_Type_def)
qed

end
