(* ===== verification/IngestDb.thy ===== *)
theory IngestDb
  imports Toid Decimal
begin

text \<open>
  The database of the ingestion system as the state machine of \<^verbatim>\<open>services/aurora/internal/ingest\<close>
  sees it: the session with its transaction (\<^verbatim>\<open>support/db/session.go\<close>), the key-value store
  (\<^verbatim>\<open>db2/history/key_value.go\<close>), and the queries on the history tables
  (\<^verbatim>\<open>db2/history/main.go\<close>, \<^verbatim>\<open>db2/history/ledger.go\<close>).

  A SQL statement acts on the working copy of the transaction, or on the stored database when there
  is none. As PostgreSQL documents it, a statement that fails aborts the transaction: what
  follows in it fails too, and committing it is an error that stores nothing. Which calls fail is a
  parameter: \<open>fails n\<close> is the error of the \<open>n\<close>-th call that leaves the process, if it has one. A
  commit that is answered with an error may have been carried out or not; \<open>commitApplied n\<close> says so.
  \<open>knownError n\<close> says whether \<^verbatim>\<open>handleError\<close> knows the error, which is then returned without a prefix.

  Two values of \<open>go_error\<close> stand for executions that do not return an error: \<open>Panic\<close> for a panic, which runs
  the deferred rollback as an error return does, and \<open>Diverges\<close> for a loop that does not end. An error carries
  the text of its message; types and hashes that the code formats into a message are left out.
\<close>

section \<open>Tables and sessions\<close>

type_synonym uint32 = "32 word"

datatype go_error =
    Errorf string
  | Wrapped string go_error
  | ErrReingestRangeConflict uint32
  | Panic
  | Diverges

text \<open>
  The tables of the state of the ledger are a value of type \<open>'s\<close>. A row of a history table is its
  ID column, a total order ID, with the rest of the row; rows of \<^verbatim>\<open>history_ledgers\<close> have the
  sequence of the ledger.
\<close>

record ('s, 'r) db =
  key_value_store :: "string \<Rightarrow> string option"
  history_ledgers :: "(int \<times> uint32) list"
  history_rows :: "(string \<times> int \<times> 'r) list"
  state_tables :: 's

record ('s, 'r) dbtx =
  tx_db :: "('s, 'r) db"
  tx_aborted :: bool

record ('s, 'r) world =
  stored :: "('s, 'r) db"
  tx :: "('s, 'r) dbtx option"
  calls :: nat
  verifications :: "uint32 list"

record outside =
  fails :: "nat \<Rightarrow> go_error option"
  commitApplied :: "nat \<Rightarrow> bool"
  knownError :: "nat \<Rightarrow> bool"

definition handleError :: "'x outside_scheme \<Rightarrow> nat \<Rightarrow> string \<Rightarrow> go_error \<Rightarrow> go_error" where
  "handleError s n msg e = (if knownError s n then e else Wrapped msg e)"

definition Begin :: "'x outside_scheme \<Rightarrow> ('s, 'r) world \<Rightarrow> (go_error + unit) \<times> ('s, 'r) world" where
  "Begin s w =
     (if tx w \<noteq> None then (Inl (Errorf ''already in transaction''), w)
      else
        (let w1 = w\<lparr>calls := calls w + 1\<rparr> in
         case fails s (calls w) of
           Some e \<Rightarrow> (Inl (handleError s (calls w) ''beginx failed'' e), w1)
         | None \<Rightarrow> (Inr (), w1\<lparr>tx := Some \<lparr>tx_db = stored w, tx_aborted = False\<rparr>\<rparr>)))"

definition Commit :: "'x outside_scheme \<Rightarrow> ('s, 'r) world \<Rightarrow> (go_error + unit) \<times> ('s, 'r) world" where
  "Commit s w =
     (case tx w of
        None \<Rightarrow> (Inl (Errorf ''not in transaction''), w)
      | Some t \<Rightarrow>
          (let w1 = w\<lparr>calls := calls w + 1, tx := None\<rparr> in
           if tx_aborted t then (Inl (Errorf ''Could not complete operation in a failed transaction''), w1)
           else
             (case fails s (calls w) of
                Some e \<Rightarrow> (Inl e, if commitApplied s (calls w) then w1\<lparr>stored := tx_db t\<rparr> else w1)
              | None \<Rightarrow> (Inr (), w1\<lparr>stored := tx_db t\<rparr>))))"

definition Rollback :: "('s, 'r) world \<Rightarrow> ('s, 'r) world" where
  "Rollback w =
     (case tx w of
        None \<Rightarrow> w
      | Some _ \<Rightarrow> w\<lparr>calls := calls w + 1, tx := None\<rparr>)"

definition GetTx :: "('s, 'r) world \<Rightarrow> ('s, 'r) dbtx option" where
  "GetTx w = tx w"

text \<open>\<open>conn_stmt msg f\<close>: one statement on \<^verbatim>\<open>s.conn()\<close>, with the prefix of the error of \<^verbatim>\<open>GetRaw\<close> or \<^verbatim>\<open>ExecRaw\<close>.\<close>

definition conn_stmt ::
    "string \<Rightarrow> 'x outside_scheme \<Rightarrow> (('s, 'r) db \<Rightarrow> 'a \<times> ('s, 'r) db) \<Rightarrow> ('s, 'r) world \<Rightarrow> (go_error + 'a) \<times> ('s, 'r) world" where
  "conn_stmt msg s f w =
     (let w1 = w\<lparr>calls := calls w + 1\<rparr> in
      case tx w of
        Some t \<Rightarrow>
          if tx_aborted t then (Inl (Wrapped msg (Errorf ''current transaction is aborted'')), w1)
          else
            (case fails s (calls w) of
               Some e \<Rightarrow> (Inl (handleError s (calls w) msg e), w1\<lparr>tx := Some (t\<lparr>tx_aborted := True\<rparr>)\<rparr>)
             | None \<Rightarrow> (case f (tx_db t) of (a, d) \<Rightarrow> (Inr a, w1\<lparr>tx := Some (t\<lparr>tx_db := d\<rparr>)\<rparr>)))
      | None \<Rightarrow>
          (case fails s (calls w) of
             Some e \<Rightarrow> (Inl (handleError s (calls w) msg e), w1)
           | None \<Rightarrow> (case f (stored w) of (a, d) \<Rightarrow> (Inr a, w1\<lparr>stored := d\<rparr>))))"

definition GetRaw :: "'x outside_scheme \<Rightarrow> (('s, 'r) db \<Rightarrow> 'a) \<Rightarrow> ('s, 'r) world \<Rightarrow> (go_error + 'a) \<times> ('s, 'r) world" where
  "GetRaw s f = conn_stmt ''get failed'' s (\<lambda>d. (f d, d))"

definition ExecRaw ::
    "'x outside_scheme \<Rightarrow> (('s, 'r) db \<Rightarrow> ('s, 'r) db) \<Rightarrow> ('s, 'r) world \<Rightarrow> (go_error + unit) \<times> ('s, 'r) world" where
  "ExecRaw s f = conn_stmt ''exec failed'' s (\<lambda>d. ((), f d))"

text \<open>
  A write that the table accepts only under a condition, such as a unique key. \<open>visible w\<close> is the database that a
  statement sees.
\<close>

definition visible :: "('s, 'r) world \<Rightarrow> ('s, 'r) db" where
  "visible w = (case tx w of None \<Rightarrow> stored w | Some t \<Rightarrow> tx_db t)"

definition ExecConstrained ::
    "'x outside_scheme \<Rightarrow> (('s, 'r) db \<Rightarrow> bool) \<Rightarrow> (('s, 'r) db \<Rightarrow> ('s, 'r) db) \<Rightarrow> ('s, 'r) world \<Rightarrow> (go_error + unit) \<times> ('s, 'r) world" where
  "ExecConstrained s ok f w =
     ExecRaw (if ok (visible w) then s else s\<lparr>fails := \<lambda>_. Some (Errorf ''violates constraint'')\<rparr>) f w"

definition SelectRaw :: "'x outside_scheme \<Rightarrow> (('s, 'r) db \<Rightarrow> 'a) \<Rightarrow> ('s, 'r) world \<Rightarrow> (go_error + 'a) \<times> ('s, 'r) world" where
  "SelectRaw s f = conn_stmt ''select failed'' s (\<lambda>d. (f d, d))"

definition QueryRaw :: "'x outside_scheme \<Rightarrow> (('s, 'r) db \<Rightarrow> 'a) \<Rightarrow> ('s, 'r) world \<Rightarrow> (go_error + 'a) \<times> ('s, 'r) world" where
  "QueryRaw s f = conn_stmt ''query failed'' s (\<lambda>d. (f d, d))"

text \<open>
  The shape of the code: \<^verbatim>\<open>x, err := call; if err != nil { fail }; rest\<close>. \<open>return\<close> leaves the state alone.
\<close>

definition return :: "'a \<Rightarrow> 'w \<Rightarrow> 'a \<times> 'w" where
  "return a w = (a, w)"

definition check :: "('w \<Rightarrow> ('e + 'a) \<times> 'w) \<Rightarrow> ('e \<Rightarrow> 'w \<Rightarrow> 'b \<times> 'w) \<Rightarrow> ('a \<Rightarrow> 'w \<Rightarrow> 'b \<times> 'w) \<Rightarrow> 'w \<Rightarrow> 'b \<times> 'w" where
  "check call fail rest w =
     (case call w of
        (Inl e, w') \<Rightarrow> fail e w'
      | (Inr a, w') \<Rightarrow> rest a w')"

text \<open>\<open>try_wrap msg call rest\<close>: the failure is returned with a message.\<close>

definition try_wrap :: "string \<Rightarrow> ('w \<Rightarrow> (go_error + 'a) \<times> 'w) \<Rightarrow> ('a \<Rightarrow> 'w \<Rightarrow> (go_error + 'b) \<times> 'w) \<Rightarrow> 'w \<Rightarrow> (go_error + 'b) \<times> 'w" where
  "try_wrap msg call rest = check call (\<lambda>e. return (Inl (Wrapped msg e))) rest"

text \<open>A query for one row: without one, \<^verbatim>\<open>GetRaw\<close> returns \<^verbatim>\<open>sql.ErrNoRows\<close> as it is.\<close>

definition GetRow :: "'x outside_scheme \<Rightarrow> (('s, 'r) db \<Rightarrow> 'a option) \<Rightarrow> ('s, 'r) world \<Rightarrow> (go_error + 'a) \<times> ('s, 'r) world" where
  "GetRow s f =
     check (GetRaw s f) (\<lambda>e. return (Inl e)) (\<lambda>r.
     case r of
       None \<Rightarrow> return (Inl (Errorf ''sql: no rows in result set''))
     | Some a \<Rightarrow> return (Inr a))"

section \<open>The key-value store\<close>

definition ingestVersionKey :: string where "ingestVersionKey = ''exp_ingest_version''"
definition lastLedgerKey :: string where "lastLedgerKey = ''exp_ingest_last_ledger''"
definition stateInvalidKey :: string where "stateInvalidKey = ''exp_state_invalid''"
definition offerCompactionSequence :: string where "offerCompactionSequence = ''offer_compaction_sequence''"
definition liquidityPoolCompactionSequence :: string where "liquidityPoolCompactionSequence = ''liquidity_pool_compaction_sequence''"

text \<open>\<^verbatim>\<open>strconv.ParseUint(s, 10, 32)\<close>, \<^verbatim>\<open>strconv.ParseInt(s, 10, 32)\<close> and \<^verbatim>\<open>strconv.ParseBool\<close>.\<close>

definition ParseUint32 :: "string \<Rightarrow> uint32 option" where
  "ParseUint32 v =
     (if v = [] \<or> \<not> list_all is_digit v \<or> digits_value 0 v \<ge> 2 ^ 32 then None
      else Some (of_nat (digits_value 0 v)))"

definition ParseInt32 :: "string \<Rightarrow> int option" where
  "ParseInt32 v = (case ParseInt10 v of None \<Rightarrow> None | Some i \<Rightarrow> if in_int32 i then Some i else None)"

definition ParseBool :: "string \<Rightarrow> bool option" where
  "ParseBool v =
     (if v \<in> {''1'', ''t'', ''T'', ''TRUE'', ''true'', ''True''} then Some True
      else if v \<in> {''0'', ''f'', ''F'', ''FALSE'', ''false'', ''False''} then Some False
      else None)"

definition FormatUint32 :: "uint32 \<Rightarrow> string" where
  "FormatUint32 n = show_nat (unat n)"

definition FormatBool :: "bool \<Rightarrow> string" where
  "FormatBool b = (if b then ''true'' else ''false'')"

definition getValueFromStore :: "'x outside_scheme \<Rightarrow> string \<Rightarrow> ('s, 'r) world \<Rightarrow> (go_error + string) \<times> ('s, 'r) world" where
  "getValueFromStore s key =
     try_wrap ''could not get value''
       (GetRaw s (\<lambda>d. case key_value_store d key of None \<Rightarrow> [] | Some v \<Rightarrow> v))
       (\<lambda>v. return (Inr v))"

definition updateValueInStore ::
    "'x outside_scheme \<Rightarrow> string \<Rightarrow> string \<Rightarrow> ('s, 'r) world \<Rightarrow> (go_error + unit) \<times> ('s, 'r) world" where
  "updateValueInStore s key v = ExecRaw s (\<lambda>d. d\<lparr>key_value_store := (key_value_store d)(key \<mapsto> v)\<rparr>)"

definition parse_ledger :: "string \<Rightarrow> ('s, 'r) world \<Rightarrow> (go_error + uint32) \<times> ('s, 'r) world" where
  "parse_ledger v =
     (case ParseUint32 v of
        None \<Rightarrow> return (Inl (Wrapped ''Error converting lastIngestedLedger value'' (Errorf ''strconv.ParseUint'')))
      | Some n \<Rightarrow> return (Inr n))"

definition GetLastLedgerIngestNonBlocking :: "'x outside_scheme \<Rightarrow> ('s, 'r) world \<Rightarrow> (go_error + uint32) \<times> ('s, 'r) world" where
  "GetLastLedgerIngestNonBlocking s =
     check (getValueFromStore s lastLedgerKey) (\<lambda>e. return (Inl e))
       (\<lambda>v. if v = [] then return (Inr 0) else parse_ledger v)"

definition GetLastLedgerIngest :: "'x outside_scheme \<Rightarrow> ('s, 'r) world \<Rightarrow> (go_error + uint32) \<times> ('s, 'r) world" where
  "GetLastLedgerIngest s =
     check (getValueFromStore s lastLedgerKey) (\<lambda>e. return (Inl e))
       (\<lambda>v. if v = [] then return (Inl (Errorf ''`exp_ingest_version` key cannot be found in the key value store''))
             else parse_ledger v)"

definition UpdateLastLedgerIngest :: "'x outside_scheme \<Rightarrow> uint32 \<Rightarrow> ('s, 'r) world \<Rightarrow> (go_error + unit) \<times> ('s, 'r) world" where
  "UpdateLastLedgerIngest s ledgerSequence = updateValueInStore s lastLedgerKey (FormatUint32 ledgerSequence)"

definition getIntValueFromStore :: "'x outside_scheme \<Rightarrow> string \<Rightarrow> ('s, 'r) world \<Rightarrow> (go_error + int) \<times> ('s, 'r) world" where
  "getIntValueFromStore s key =
     check (getValueFromStore s key) (\<lambda>e. return (Inl e))
       (\<lambda>v. if v = [] then return (Inr 0)
             else (case ParseInt32 v of
                     None \<Rightarrow> return (Inl (Wrapped ''Error converting value'' (Errorf ''strconv.ParseInt'')))
                   | Some i \<Rightarrow> return (Inr i)))"

definition GetIngestVersion :: "'x outside_scheme \<Rightarrow> ('s, 'r) world \<Rightarrow> (go_error + int) \<times> ('s, 'r) world" where
  "GetIngestVersion s =
     try_wrap ''Error converting sequence value'' (getIntValueFromStore s ingestVersionKey) (\<lambda>i. return (Inr i))"

definition UpdateIngestVersion :: "'x outside_scheme \<Rightarrow> int \<Rightarrow> ('s, 'r) world \<Rightarrow> (go_error + unit) \<times> ('s, 'r) world" where
  "UpdateIngestVersion s version = updateValueInStore s ingestVersionKey (show_nat (nat (u64 version)))"

definition GetExpStateInvalid :: "'x outside_scheme \<Rightarrow> ('s, 'r) world \<Rightarrow> (go_error + bool) \<times> ('s, 'r) world" where
  "GetExpStateInvalid s =
     check (getValueFromStore s stateInvalidKey) (\<lambda>e. return (Inl e))
       (\<lambda>v. if v = [] then return (Inr False)
             else (case ParseBool v of
                     None \<Rightarrow> return (Inl (Wrapped ''Error converting invalid value'' (Errorf ''strconv.ParseBool'')))
                   | Some b \<Rightarrow> return (Inr b)))"

definition UpdateExpStateInvalid :: "'x outside_scheme \<Rightarrow> bool \<Rightarrow> ('s, 'r) world \<Rightarrow> (go_error + unit) \<times> ('s, 'r) world" where
  "UpdateExpStateInvalid s val = updateValueInStore s stateInvalidKey (FormatBool val)"

definition GetOfferCompactionSequence :: "'x outside_scheme \<Rightarrow> ('s, 'r) world \<Rightarrow> (go_error + uint32) \<times> ('s, 'r) world" where
  "GetOfferCompactionSequence s =
     try_wrap ''Error converting sequence value'' (getIntValueFromStore s offerCompactionSequence)
       (\<lambda>i. return (Inr (word_of_int i)))"

definition GetLiquidityPoolCompactionSequence :: "'x outside_scheme \<Rightarrow> ('s, 'r) world \<Rightarrow> (go_error + uint32) \<times> ('s, 'r) world" where
  "GetLiquidityPoolCompactionSequence s =
     try_wrap ''Error converting sequence value'' (getIntValueFromStore s liquidityPoolCompactionSequence)
       (\<lambda>i. return (Inr (word_of_int i)))"

definition UpdateOfferCompactionSequence :: "'x outside_scheme \<Rightarrow> uint32 \<Rightarrow> ('s, 'r) world \<Rightarrow> (go_error + unit) \<times> ('s, 'r) world" where
  "UpdateOfferCompactionSequence s sequence = updateValueInStore s offerCompactionSequence (FormatUint32 sequence)"

definition UpdateLiquidityPoolCompactionSequence :: "'x outside_scheme \<Rightarrow> uint32 \<Rightarrow> ('s, 'r) world \<Rightarrow> (go_error + unit) \<times> ('s, 'r) world" where
  "UpdateLiquidityPoolCompactionSequence s sequence = updateValueInStore s liquidityPoolCompactionSequence (FormatUint32 sequence)"

section \<open>The history tables\<close>

definition sequences :: "('s, 'r) db \<Rightarrow> uint32 list" where
  "sequences d = map snd (history_ledgers d)"

definition LatestLedger :: "'x outside_scheme \<Rightarrow> ('s, 'r) world \<Rightarrow> (go_error + uint32) \<times> ('s, 'r) world" where
  "LatestLedger s = GetRaw s (\<lambda>d. fold max (sequences d) 0)"

definition GetLatestHistoryLedger :: "'x outside_scheme \<Rightarrow> ('s, 'r) world \<Rightarrow> (go_error + uint32) \<times> ('s, 'r) world" where
  "GetLatestHistoryLedger s = LatestLedger s"

text \<open>\<^verbatim>\<open>COALESCE(MIN(sequence), 0)\<close>\<close>

definition ElderLedger :: "'x outside_scheme \<Rightarrow> ('s, 'r) world \<Rightarrow> (go_error + uint32) \<times> ('s, 'r) world" where
  "ElderLedger s = GetRaw s (\<lambda>d. case sequences d of [] \<Rightarrow> 0 | q # qs \<Rightarrow> fold min qs q)"

record LedgerRange =
  StartSequence :: uint32
  EndSequence :: uint32

text \<open>The rows of the window query over the sequences in ascending order: \<^verbatim>\<open>LEAD\<close> is the next one.\<close>

fun window_gaps :: "uint32 list \<Rightarrow> LedgerRange list" where
  "window_gaps (q # next # qs) =
     (if q + 1 \<noteq> next then [\<lparr>StartSequence = q + 1, EndSequence = next - 1\<rparr>] else []) @ window_gaps (next # qs)"
| "window_gaps _ = []"

definition GetLedgerGaps :: "'x outside_scheme \<Rightarrow> ('s, 'r) world \<Rightarrow> (go_error + LedgerRange list) \<times> ('s, 'r) world" where
  "GetLedgerGaps s =
     check (SelectRaw s (\<lambda>d. window_gaps (sort (sequences d)))) (\<lambda>e. return (Inl e))
       (\<lambda>gaps. return (Inr (sort_key StartSequence gaps)))"

text \<open>The loop over the gaps, with its \<^verbatim>\<open>continue\<close> and \<^verbatim>\<open>break\<close>.\<close>

fun clip_gaps :: "uint32 \<Rightarrow> uint32 \<Rightarrow> LedgerRange list \<Rightarrow> LedgerRange list \<Rightarrow> LedgerRange list" where
  "clip_gaps start endSeq [] result = result"
| "clip_gaps start endSeq (gap # gaps) result =
     (if EndSequence gap < start then clip_gaps start endSeq gaps result
      else if StartSequence gap > endSeq then result
      else clip_gaps start endSeq gaps
             (result @ [\<lparr>StartSequence = max (StartSequence gap) start, EndSequence = min (EndSequence gap) endSeq\<rparr>]))"

definition GetLedgerGapsInRange ::
    "'x outside_scheme \<Rightarrow> uint32 \<Rightarrow> uint32 \<Rightarrow> ('s, 'r) world \<Rightarrow> (go_error + LedgerRange list) \<times> ('s, 'r) world" where
  "GetLedgerGapsInRange s start endSeq =
     try_wrap ''Could not query elder ledger'' (ElderLedger s) (\<lambda>oldestLedger.
     if oldestLedger = 0 then return (Inr [\<lparr>StartSequence = start, EndSequence = endSeq\<rparr>])
     else
       try_wrap ''Could not query latest ledger'' (LatestLedger s) (\<lambda>latestLedger.
       let result1 = (if start < oldestLedger
                      then [\<lparr>StartSequence = start, EndSequence = min endSeq (oldestLedger - 1)\<rparr>] else [])
       in if endSeq \<le> oldestLedger then return (Inr result1)
          else
            check (GetLedgerGaps s) (\<lambda>e. return (Inl e)) (\<lambda>gaps.
            let result2 = clip_gaps start endSeq gaps result1
            in return (Inr
                 (if latestLedger < endSeq
                  then result2 @ [\<lparr>StartSequence = max (latestLedger + 1) start, EndSequence = endSeq\<rparr>]
                  else result2)))))"

text \<open>Go ranges over the map of tables in no fixed order; the deletions commute.\<close>

definition history_tables :: "string list" where
  "history_tables =
     [''history_effects'', ''history_ledgers'', ''history_operation_claimable_balances'',
      ''history_operation_participants'', ''history_operation_liquidity_pools'', ''history_operations'',
      ''history_trades'', ''history_trades_60000'', ''history_transaction_claimable_balances'',
      ''history_transaction_participants'', ''history_transaction_liquidity_pools'', ''history_transactions'']"

definition delete_rows :: "int \<Rightarrow> int \<Rightarrow> string \<Rightarrow> ('s, 'r) db \<Rightarrow> ('s, 'r) db" where
  "delete_rows start endSeq table d =
     (if table = ''history_ledgers''
      then d\<lparr>history_ledgers := filter (\<lambda>(i, _). \<not> (i \<ge> start \<and> i < endSeq)) (history_ledgers d)\<rparr>
      else d\<lparr>history_rows := filter (\<lambda>(t, i, _). \<not> (t = table \<and> i \<ge> start \<and> i < endSeq)) (history_rows d)\<rparr>)"

definition DeleteRange ::
    "'x outside_scheme \<Rightarrow> int \<Rightarrow> int \<Rightarrow> string \<Rightarrow> ('s, 'r) world \<Rightarrow> (go_error + unit) \<times> ('s, 'r) world" where
  "DeleteRange s start endSeq table = ExecRaw s (delete_rows start endSeq table)"

fun DeleteRange_tables ::
    "'x outside_scheme \<Rightarrow> int \<Rightarrow> int \<Rightarrow> string list \<Rightarrow> ('s, 'r) world \<Rightarrow> (go_error + unit) \<times> ('s, 'r) world" where
  "DeleteRange_tables s start endSeq [] = return (Inr ())"
| "DeleteRange_tables s start endSeq (table # tables) =
     try_wrap (''Error clearing '' @ table) (DeleteRange s start endSeq table)
       (\<lambda>_. DeleteRange_tables s start endSeq tables)"

definition DeleteRangeAll :: "'x outside_scheme \<Rightarrow> int \<Rightarrow> int \<Rightarrow> ('s, 'r) world \<Rightarrow> (go_error + unit) \<times> ('s, 'r) world" where
  "DeleteRangeAll s start endSeq = DeleteRange_tables s start endSeq history_tables"

text \<open>\<open>emptyTables\<close>: what truncating its tables leaves of the state.\<close>

definition TruncateIngestStateTables :: "'x outside_scheme \<Rightarrow> 's \<Rightarrow> ('s, 'r) world \<Rightarrow> (go_error + unit) \<times> ('s, 'r) world" where
  "TruncateIngestStateTables s emptyTables = ExecRaw s (\<lambda>d. d\<lparr>state_tables := emptyTables\<rparr>)"

end
