(* ===== verification/OfferTables.thy ===== *)
theory OfferTables
  imports Changes IngestDb
begin

text \<open>
  The tables of offers and liquidity pools (\<^verbatim>\<open>db2/history/offers.go\<close>, \<^verbatim>\<open>liquidity_pools.go\<close>) and the change processors that
  write them (\<^verbatim>\<open>ingest/processors/offers_processor.go\<close>, \<^verbatim>\<open>liquidity_pools_change_processor.go\<close>). A removed offer or pool stays in its table
  as a row that is marked as deleted, until a compaction removes rows that were deleted long enough ago; readers that follow
  the tables by the ledger of the last modification depend on that.

  A table is a list of rows; a query without an order returns them in the order of the list. Assets are stored as base64 XDR in the offers and
  as part of a JSON column in the pools; writing a column and reading it back is taken to be the identity, and a row holds the asset itself. The column \<^verbatim>\<open>price\<close>, the
  price as a floating-point number, is left out, and so is the number of rows a compaction removes, which is logged. The other tables of the state are the
  extension of the record \<open>stateTables\<close>.
\<close>

section \<open>Rows\<close>

record OfferRow =
  or_SellerID :: string
  or_OfferID :: int
  or_SellingAsset :: Asset
  or_BuyingAsset :: Asset
  or_Amount :: int
  or_Pricen :: int
  or_Priced :: int
  or_Flags :: int
  or_Deleted :: bool
  or_LastModifiedLedger :: uint32
  or_Sponsor :: "string option"

record PoolRow =
  lr_PoolID :: string
  lr_Type :: int
  lr_Fee :: int
  lr_TrustlineCount :: int
  lr_ShareCount :: int
  lr_AssetReserves :: "(Asset \<times> int) list"
  lr_LastModifiedLedger :: uint32
  lr_Deleted :: bool

record stateTables =
  offers_table :: "OfferRow list"
  liquidity_pools :: "PoolRow list"

definition u32 :: "int \<Rightarrow> int" where
  "u32 x = x mod 4294967296"

definition Address :: "AccountId \<Rightarrow> go_error + string" where
  "Address aid = (case GetAddress (Some aid) of Inl _ \<Rightarrow> Inl go_error.Panic | Inr address \<Rightarrow> Inr address)"

definition ledgerEntrySponsorToNullString :: "'x LedgerEntry \<Rightarrow> go_error + string option" where
  "ledgerEntrySponsorToNullString entry =
     (case SponsoringID entry of
        None \<Rightarrow> Inr None
      | Some sponsoringID \<Rightarrow> (case Address sponsoringID of Inl e \<Rightarrow> Inl e | Inr address \<Rightarrow> Inr (Some address)))"

definition offer_ledgerEntryToRow :: "'x LedgerEntry \<Rightarrow> go_error + OfferRow" where
  "offer_ledgerEntryToRow entry =
     (case le_Data entry of
        EntryOffer offer \<Rightarrow>
          (case Address (of_SellerId offer) of
             Inl e \<Rightarrow> Inl e
           | Inr seller \<Rightarrow>
               (case ledgerEntrySponsorToNullString entry of
                  Inl e \<Rightarrow> Inl e
                | Inr sponsor \<Rightarrow>
                    Inr \<lparr>or_SellerID = seller, or_OfferID = of_OfferId offer, or_SellingAsset = of_Selling offer, or_BuyingAsset = of_Buying offer,
                         or_Amount = of_Amount offer, or_Pricen = price_N (of_Price offer), or_Priced = price_D (of_Price offer),
                         or_Flags = s32 (of_Flags offer), or_Deleted = False,
                         or_LastModifiedLedger = word_of_int (le_LastModifiedLedgerSeq entry), or_Sponsor = sponsor\<rparr>))
      | _ \<Rightarrow> Inl go_error.Panic)"

definition offerToXDR :: "OfferRow \<Rightarrow> go_error + OfferEntry" where
  "offerToXDR row =
     (case MustAddress (or_SellerID row) of
        Inl _ \<Rightarrow> Inl go_error.Panic
      | Inr seller \<Rightarrow>
          Inr \<lparr>of_SellerId = seller, of_OfferId = or_OfferID row, of_Selling = or_SellingAsset row, of_Buying = or_BuyingAsset row,
               of_Amount = or_Amount row, of_Price = \<lparr>price_N = or_Pricen row, price_D = or_Priced row\<rparr>, of_Flags = u32 (or_Flags row)\<rparr>)"

text \<open>\<^verbatim>\<open>hex.EncodeToString\<close> and \<^verbatim>\<open>hex.DecodeString\<close>, which takes digits of either case.\<close>

definition hex_digit :: "byte \<Rightarrow> char" where
  "hex_digit b = ''0123456789abcdef'' ! unat b"

definition hex_EncodeToString :: "byte list \<Rightarrow> string" where
  "hex_EncodeToString bs = concat (map (\<lambda>b. [hex_digit (drop_bit 4 b), hex_digit (b AND 15)]) bs)"

definition hex_value :: "char \<Rightarrow> byte option" where
  "hex_value c =
     (let n = of_char c :: nat in
      if 48 \<le> n \<and> n \<le> 57 then Some (of_nat (n - 48))
      else if 97 \<le> n \<and> n \<le> 102 then Some (of_nat (n - 87))
      else if 65 \<le> n \<and> n \<le> 70 then Some (of_nat (n - 55))
      else None)"

fun hex_DecodeString :: "string \<Rightarrow> byte list option" where
  "hex_DecodeString [] = Some []"
| "hex_DecodeString [c] = None"
| "hex_DecodeString (a # b # rest) =
     (case (hex_value a, hex_value b) of
        (Some x, Some y) \<Rightarrow> map_option (\<lambda>bs. (push_bit 4 x OR y) # bs) (hex_DecodeString rest)
      | _ \<Rightarrow> None)"

definition PoolIDToString :: "256 word \<Rightarrow> string" where
  "PoolIDToString pool = hex_EncodeToString (be_bytes 32 pool)"

definition pool_ledgerEntryToRow :: "'x LedgerEntry \<Rightarrow> go_error + PoolRow" where
  "pool_ledgerEntryToRow entry =
     (case le_Data entry of
        EntryLiquidityPool lPool \<Rightarrow>
          (case lp_ConstantProduct lPool of
             None \<Rightarrow> Inl go_error.Panic
           | Some cp \<Rightarrow>
               Inr \<lparr>lr_PoolID = PoolIDToString (lp_LiquidityPoolId lPool), lr_Type = lp_Type lPool, lr_Fee = u32 (pp_Fee (cp_Params cp)),
                    lr_TrustlineCount = u64 (cp_PoolSharesTrustLineCount cp), lr_ShareCount = u64 (cp_TotalPoolShares cp),
                    lr_AssetReserves = [(pp_AssetA (cp_Params cp), u64 (cp_ReserveA cp)), (pp_AssetB (cp_Params cp), u64 (cp_ReserveB cp))],
                    lr_LastModifiedLedger = word_of_int (le_LastModifiedLedgerSeq entry), lr_Deleted = False\<rparr>)
      | _ \<Rightarrow> Inl go_error.Panic)"

definition liquidityPoolToXDR :: "PoolRow \<Rightarrow> go_error + LiquidityPoolEntry" where
  "liquidityPoolToXDR row =
     (case lr_AssetReserves row of
        [(assetA, reserveA), (assetB, reserveB)] \<Rightarrow>
          (case hex_DecodeString (lr_PoolID row) of
             None \<Rightarrow> Inl (Wrapped ''Error decoding pool ID'' (Errorf ''encoding/hex''))
           | Some i \<Rightarrow>
               if length i \<noteq> 32 then Inl (Errorf (''Error decoding pool ID, incorrect length ('' @ show_nat (length i) @ '')''))
               else
                 Inr \<lparr>lp_LiquidityPoolId = of_be_bytes i, lp_Type = lr_Type row,
                      lp_ConstantProduct = Some
                        \<lparr>cp_Params = \<lparr>pp_AssetA = assetA, pp_AssetB = assetB, pp_Fee = s32 (lr_Fee row)\<rparr>,
                         cp_ReserveA = s64 reserveA, cp_ReserveB = s64 reserveB,
                         cp_TotalPoolShares = s64 (lr_ShareCount row), cp_PoolSharesTrustLineCount = s64 (lr_TrustlineCount row)\<rparr>\<rparr>)
      | reserves \<Rightarrow>
          Inl (Errorf (''unexpected number of asset reserves ('' @ show_nat (length reserves) @ ''), expected 2'')))"

section \<open>Queries on the tables\<close>

abbreviation update_offers :: "(OfferRow list \<Rightarrow> OfferRow list) \<Rightarrow> ('x stateTables_scheme, 'r) db \<Rightarrow> ('x stateTables_scheme, 'r) db" where
  "update_offers f d \<equiv> d\<lparr>state_tables := (state_tables d)\<lparr>offers_table := f (offers_table (state_tables d))\<rparr>\<rparr>"

abbreviation update_pools :: "(PoolRow list \<Rightarrow> PoolRow list) \<Rightarrow> ('x stateTables_scheme, 'r) db \<Rightarrow> ('x stateTables_scheme, 'r) db" where
  "update_pools f d \<equiv> d\<lparr>state_tables := (state_tables d)\<lparr>liquidity_pools := f (liquidity_pools (state_tables d))\<rparr>\<rparr>"

text \<open>\<^verbatim>\<open>offersBatchInsertBuilder.Exec\<close>: a COPY, which the primary key may refuse.\<close>

definition InsertOffers :: "'y outside_scheme \<Rightarrow> OfferRow list \<Rightarrow> ('x stateTables_scheme, 'r) world \<Rightarrow> (go_error + unit) \<times> ('x stateTables_scheme, 'r) world" where
  "InsertOffers s rows w =
     (if GetTx w = None then (Inl (Errorf ''cannot call Exec() outside of a transaction''), w)
      else if length rows = 0 then (Inr (), w)
      else ExecConstrained s (\<lambda>d. distinct (map or_OfferID (offers_table (state_tables d) @ rows)))
             (update_offers (\<lambda>t. t @ rows)) w)"

text \<open>\<^verbatim>\<open>upsertRows\<close>: one statement cannot change the same row twice.\<close>

definition upsert_row :: "('a \<Rightarrow> 'k) \<Rightarrow> 'a \<Rightarrow> 'a list \<Rightarrow> 'a list" where
  "upsert_row key row t = filter (\<lambda>r. key r \<noteq> key row) t @ [row]"

definition UpsertOffers :: "'y outside_scheme \<Rightarrow> OfferRow list \<Rightarrow> ('x stateTables_scheme, 'r) world \<Rightarrow> (go_error + unit) \<times> ('x stateTables_scheme, 'r) world" where
  "UpsertOffers s rows = ExecConstrained s (\<lambda>_. distinct (map or_OfferID rows)) (update_offers (fold (upsert_row or_OfferID) rows))"

definition UpsertLiquidityPools :: "'y outside_scheme \<Rightarrow> PoolRow list \<Rightarrow> ('x stateTables_scheme, 'r) world \<Rightarrow> (go_error + unit) \<times> ('x stateTables_scheme, 'r) world" where
  "UpsertLiquidityPools s rows = ExecConstrained s (\<lambda>_. distinct (map lr_PoolID rows)) (update_pools (fold (upsert_row lr_PoolID) rows))"

definition CompactOffers :: "'y outside_scheme \<Rightarrow> uint32 \<Rightarrow> ('x stateTables_scheme, 'r) world \<Rightarrow> (go_error + unit) \<times> ('x stateTables_scheme, 'r) world" where
  "CompactOffers s cutOffSequence =
     try_wrap ''cannot delete offer rows''
       (ExecRaw s (update_offers (filter (\<lambda>r. \<not> (or_Deleted r \<and> or_LastModifiedLedger r \<le> cutOffSequence))))) (\<lambda>_.
     try_wrap ''cannot update offer compaction sequence'' (UpdateOfferCompactionSequence s cutOffSequence) (\<lambda>_.
     return (Inr ())))"

definition CompactLiquidityPools :: "'y outside_scheme \<Rightarrow> uint32 \<Rightarrow> ('x stateTables_scheme, 'r) world \<Rightarrow> (go_error + unit) \<times> ('x stateTables_scheme, 'r) world" where
  "CompactLiquidityPools s cutOffSequence =
     try_wrap ''cannot delete offer rows''
       (ExecRaw s (update_pools (filter (\<lambda>r. \<not> (lr_Deleted r \<and> lr_LastModifiedLedger r \<le> cutOffSequence))))) (\<lambda>_.
     try_wrap ''cannot update liquidity pool compaction sequence'' (UpdateLiquidityPoolCompactionSequence s cutOffSequence) (\<lambda>_.
     return (Inr ())))"

definition GetUpdatedOffers :: "'y outside_scheme \<Rightarrow> uint32 \<Rightarrow> ('x stateTables_scheme, 'r) world \<Rightarrow> (go_error + OfferRow list) \<times> ('x stateTables_scheme, 'r) world" where
  "GetUpdatedOffers s newerThanSequence =
     SelectRaw s (\<lambda>d. filter (\<lambda>r. or_LastModifiedLedger r > newerThanSequence) (offers_table (state_tables d)))"

definition GetUpdatedLiquidityPools :: "'y outside_scheme \<Rightarrow> uint32 \<Rightarrow> ('x stateTables_scheme, 'r) world \<Rightarrow> (go_error + PoolRow list) \<times> ('x stateTables_scheme, 'r) world" where
  "GetUpdatedLiquidityPools s newerThanSequence =
     SelectRaw s (\<lambda>d. filter (\<lambda>r. lr_LastModifiedLedger r > newerThanSequence) (liquidity_pools (state_tables d)))"

text \<open>
  The rows that \<^verbatim>\<open>StreamAllOffers\<close> passes to its callback, in batches. Every batch but the last one moves \<^verbatim>\<open>lastID\<close> past rows
  of the table, so the number of rows is enough fuel. The options of the transaction of the session (\<^verbatim>\<open>GetTxOptions\<close>) are an
  argument.
\<close>

record TxOptions =
  opt_ReadOnly :: bool
  opt_RepeatableRead :: bool

definition offersBatchSize :: nat where "offersBatchSize = 50000"

definition streamAllOffersBatch :: "'y outside_scheme \<Rightarrow> int \<Rightarrow> nat \<Rightarrow> ('x stateTables_scheme, 'r) world \<Rightarrow> (go_error + OfferRow list) \<times> ('x stateTables_scheme, 'r) world" where
  "streamAllOffersBatch s lastId limit =
     try_wrap ''could not run all offers select query''
       (QueryRaw s (\<lambda>d. take limit (sort_key or_OfferID (filter (\<lambda>r. \<not> or_Deleted r \<and> or_OfferID r > lastId) (offers_table (state_tables d))))))
       (\<lambda>rows. return (Inr rows))"

fun StreamAllOffers_loop :: "'y outside_scheme \<Rightarrow> nat \<Rightarrow> int \<Rightarrow> OfferRow list \<Rightarrow> ('x stateTables_scheme, 'r) world \<Rightarrow> (go_error + OfferRow list) \<times> ('x stateTables_scheme, 'r) world" where
  "StreamAllOffers_loop s 0 lastID seen = return (Inl Diverges)"
| "StreamAllOffers_loop s (Suc fuel) lastID seen =
     check (streamAllOffersBatch s lastID offersBatchSize) (\<lambda>e. return (Inl e)) (\<lambda>rows.
     let nextID = (if rows = [] then lastID else or_OfferID (last rows)) in
     if lastID = nextID then return (Inr (seen @ rows))
     else StreamAllOffers_loop s fuel nextID (seen @ rows))"

definition StreamAllOffers ::
    "'y outside_scheme \<Rightarrow> TxOptions option \<Rightarrow> ('x stateTables_scheme, 'r) world \<Rightarrow> (go_error + OfferRow list) \<times> ('x stateTables_scheme, 'r) world" where
  "StreamAllOffers s opts w =
     (if GetTx w = None then (Inl (Errorf ''cannot be called outside of a transaction''), w)
      else if opts = None \<or> \<not> opt_ReadOnly (the opts) \<or> \<not> opt_RepeatableRead (the opts)
      then (Inl (Errorf ''should only be called in a repeatable read transaction''), w)
      else StreamAllOffers_loop s (length (offers_table (state_tables (visible w))) + 1) 0 [] w)"

definition StreamAllLiquidityPools :: "'y outside_scheme \<Rightarrow> ('x stateTables_scheme, 'r) world \<Rightarrow> (go_error + PoolRow list) \<times> ('x stateTables_scheme, 'r) world" where
  "StreamAllLiquidityPools s =
     try_wrap ''could not run all liquidity pools select query''
       (QueryRaw s (\<lambda>d. filter (\<lambda>r. \<not> lr_Deleted r) (liquidity_pools (state_tables d)))) (\<lambda>rows. return (Inr rows))"

section \<open>The change processors\<close>

definition compactionWindow :: uint32 where "compactionWindow = 100"
definition maxBatchSize :: nat where "maxBatchSize = 100000"

record OffersProcessor =
  op_sequence :: uint32
  batchUpdateOffers :: "OfferRow list"
  insertBatch :: "OfferRow list"

definition offers_reset :: "OffersProcessor \<Rightarrow> OffersProcessor" where
  "offers_reset p = p\<lparr>batchUpdateOffers := [], insertBatch := []\<rparr>"

definition NewOffersProcessor :: "uint32 \<Rightarrow> OffersProcessor" where
  "NewOffersProcessor sequence = \<lparr>op_sequence = sequence, batchUpdateOffers = [], insertBatch = []\<rparr>"

definition offers_flushCache :: "'y outside_scheme \<Rightarrow> OffersProcessor \<Rightarrow> ('x stateTables_scheme, 'r) world \<Rightarrow> (go_error + unit) \<times> ('x stateTables_scheme, 'r) world" where
  "offers_flushCache s p =
     check (InsertOffers s (insertBatch p)) (\<lambda>_. return (Inl (Errorf ''Error executing OffersBatchInsertBuilder''))) (\<lambda>_.
     if length (batchUpdateOffers p) > 0
     then try_wrap ''errors in UpsertOffers'' (UpsertOffers s (batchUpdateOffers p)) (\<lambda>_. return (Inr ()))
     else return (Inr ()))"

text \<open>The processor with the world: every flush resets it, also one that fails.\<close>

definition offers_maybeFlush ::
    "'y outside_scheme \<Rightarrow> OffersProcessor \<Rightarrow> ('x stateTables_scheme, 'r) world \<Rightarrow> (go_error + unit) \<times> OffersProcessor \<times> ('x stateTables_scheme, 'r) world" where
  "offers_maybeFlush s p w =
     (if length (insertBatch p) + length (batchUpdateOffers p) > maxBatchSize then
        (case offers_flushCache s p w of
           (Inl e, w') \<Rightarrow> (Inl (Wrapped ''error in Commit'' e), offers_reset p, w')
         | (Inr _, w') \<Rightarrow> (Inr (), offers_reset p, w'))
      else (Inr (), p, w))"

definition offers_ProcessChange ::
    "'y outside_scheme \<Rightarrow> 'z Change \<Rightarrow> OffersProcessor \<Rightarrow> ('x stateTables_scheme, 'r) world \<Rightarrow> (go_error + unit) \<times> OffersProcessor \<times> ('x stateTables_scheme, 'r) world" where
  "offers_ProcessChange s change p w =
     (if ch_Type change \<noteq> LedgerEntryTypeOffer then (Inr (), p, w)
      else
        (case (Pre change, Post change) of
           (None, Some post) \<Rightarrow>
             (case offer_ledgerEntryToRow post of
                Inl e \<Rightarrow> (Inl e, p, w)
              | Inr row \<Rightarrow> offers_maybeFlush s (p\<lparr>insertBatch := insertBatch p @ [row]\<rparr>) w)
         | (Some _, Some post) \<Rightarrow>
             (case offer_ledgerEntryToRow post of
                Inl e \<Rightarrow> (Inl e, p, w)
              | Inr row \<Rightarrow> offers_maybeFlush s (p\<lparr>batchUpdateOffers := batchUpdateOffers p @ [row]\<rparr>) w)
         | (Some pre, None) \<Rightarrow>
             (case offer_ledgerEntryToRow pre of
                Inl e \<Rightarrow> (Inl e, p, w)
              | Inr row \<Rightarrow>
                  offers_maybeFlush s
                    (p\<lparr>batchUpdateOffers := batchUpdateOffers p @ [row\<lparr>or_Deleted := True, or_LastModifiedLedger := op_sequence p\<rparr>]\<rparr>) w)
         | (None, None) \<Rightarrow> (Inl (Errorf ''Invalid io.Change: change.Pre == nil && change.Post == nil''), p, w)))"

definition offers_Commit ::
    "'y outside_scheme \<Rightarrow> OffersProcessor \<Rightarrow> ('x stateTables_scheme, 'r) world \<Rightarrow> (go_error + unit) \<times> OffersProcessor \<times> ('x stateTables_scheme, 'r) world" where
  "offers_Commit s p w =
     (case offers_flushCache s p w of
        (Inl e, w') \<Rightarrow> (Inl (Wrapped ''error flushing cache'' e), offers_reset p, w')
      | (Inr _, w') \<Rightarrow>
          if op_sequence p > compactionWindow then
            (case CompactOffers s (op_sequence p - compactionWindow) w' of
               (Inl e, w'') \<Rightarrow> (Inl (Wrapped ''could not compact offers'' e), offers_reset p, w'')
             | (Inr _, w'') \<Rightarrow> (Inr (), offers_reset p, w''))
          else (Inr (), offers_reset p, w'))"

record LiquidityPoolsChangeProcessor =
  lps :: "PoolRow list"
  lp_sequence :: uint32

definition NewLiquidityPoolsChangeProcessor :: "uint32 \<Rightarrow> LiquidityPoolsChangeProcessor" where
  "NewLiquidityPoolsChangeProcessor sequence = \<lparr>lps = [], lp_sequence = sequence\<rparr>"

definition pools_Commit ::
    "'y outside_scheme \<Rightarrow> LiquidityPoolsChangeProcessor \<Rightarrow> ('x stateTables_scheme, 'r) world \<Rightarrow>
      (go_error + unit) \<times> LiquidityPoolsChangeProcessor \<times> ('x stateTables_scheme, 'r) world" where
  "pools_Commit s p w =
     (case (if length (lps p) > 0
            then try_wrap ''error upserting liquidity pools'' (UpsertLiquidityPools s (lps p)) (\<lambda>_. return (Inr ())) w
            else (Inr (), w)) of
        (Inl e, w') \<Rightarrow> (Inl e, p\<lparr>lps := []\<rparr>, w')
      | (Inr _, w') \<Rightarrow>
          if lp_sequence p > compactionWindow then
            (case CompactLiquidityPools s (lp_sequence p - compactionWindow) w' of
               (Inl e, w'') \<Rightarrow> (Inl (Wrapped ''could not compact liquidity pools'' e), p\<lparr>lps := []\<rparr>, w'')
             | (Inr _, w'') \<Rightarrow> (Inr (), p\<lparr>lps := []\<rparr>, w''))
          else (Inr (), p\<lparr>lps := []\<rparr>, w'))"

definition pools_add ::
    "'y outside_scheme \<Rightarrow> LiquidityPoolsChangeProcessor \<Rightarrow> PoolRow \<Rightarrow> ('x stateTables_scheme, 'r) world \<Rightarrow>
      (go_error + unit) \<times> LiquidityPoolsChangeProcessor \<times> ('x stateTables_scheme, 'r) world" where
  "pools_add s p0 row w =
     (let p = p0\<lparr>lps := lps p0 @ [row]\<rparr> in
      if length (lps p) > maxBatchSize then
        (case pools_Commit s p w of
           (Inl e, p', w') \<Rightarrow> (Inl (Wrapped ''error in Commit'' e), p', w')
         | (Inr _, p', w') \<Rightarrow> (Inr (), p', w'))
      else (Inr (), p, w))"

definition pools_ProcessChange ::
    "'y outside_scheme \<Rightarrow> 'z Change \<Rightarrow> LiquidityPoolsChangeProcessor \<Rightarrow> ('x stateTables_scheme, 'r) world \<Rightarrow>
      (go_error + unit) \<times> LiquidityPoolsChangeProcessor \<times> ('x stateTables_scheme, 'r) world" where
  "pools_ProcessChange s change p w =
     (if ch_Type change \<noteq> LedgerEntryTypeLiquidityPool then (Inr (), p, w)
      else
        (case (Pre change, Post change) of
           (Some pre, None) \<Rightarrow>
             (case pool_ledgerEntryToRow pre of
                Inl e \<Rightarrow> (Inl e, p, w)
              | Inr row \<Rightarrow> pools_add s p (row\<lparr>lr_Deleted := True, lr_LastModifiedLedger := lp_sequence p\<rparr>) w)
         | (_, Some post) \<Rightarrow>
             (case pool_ledgerEntryToRow post of
                Inl e \<Rightarrow> (Inl e, p, w)
              | Inr row \<Rightarrow> pools_add s p row w)
         | (None, None) \<Rightarrow> (Inl go_error.Panic, p, w)))"

end
