(* ===== verification/IngestFsm.thy ===== *)
theory IngestFsm
  imports IngestDb "HOL-Library.Signed_Division"
begin

text \<open>
  The ingestion state machine (\<^verbatim>\<open>services/aurora/internal/ingest/fsm.go\<close>,
  \<^verbatim>\<open>fsm_history_range_state.go\<close>, \<^verbatim>\<open>fsm_reingest_history_range_state.go\<close>) and the system that runs it
  (\<^verbatim>\<open>main.go\<close>). A state is a constructor of \<open>node\<close>, its \<^verbatim>\<open>run\<close> method a function of the system and
  the world. What the system calls through an interface is a field of the record \<open>system\<close>: the ledger
  backend, the history archive and the processor runner. Metrics and logging are left out.
\<close>

section \<open>The system and its states\<close>

text \<open>
  \<^item> \<open>isPrepared from n\<close>, \<open>latestCheckpoint n\<close>, \<open>latestLedger n\<close>: the answer of the backend or the archive to call \<open>n\<close>;
  \<^item> \<open>ledgerCloseMeta l\<close>: the ledger that the backend returns for sequence \<open>l\<close>;
  \<^item> \<open>RunHistoryArchiveIngestion\<close>, \<open>RunAllProcessorsOnLedger\<close>, \<open>RunTransactionProcessorsOnLedgers\<close>: what the runner
    makes of the working copy at call \<open>n\<close>, and its error with the answer whether a statement of the
    transaction has failed;
  \<^item> \<open>closedAt l\<close>: \<^verbatim>\<open>to_millis(closed_at, 60000)\<close> of the row of ledger \<open>l\<close>;
  \<^item> \<open>bucketTimestamp r\<close>: the column \<^verbatim>\<open>timestamp\<close> of a row of \<^verbatim>\<open>history_trades_60000\<close>;
  \<^item> \<open>tradeBuckets from to slippage rows\<close>: what the query over \<^verbatim>\<open>history_trades\<close> returns, the buckets between two
    times with their column \<^verbatim>\<open>open_ledger_toid\<close>;
  \<^item> \<open>ReapLookupTables\<close>: the effect of its statements on the history;
  \<^item> \<open>verifyState n\<close>: the outcome of the state verification;
  \<^item> \<open>ctxDone n\<close>: whether the context of the system is done after \<open>n\<close> calls.
\<close>

record ('m, 'h, 's, 'r) system = outside +
  isPrepared :: "uint32 \<Rightarrow> nat \<Rightarrow> bool"
  latestCheckpoint :: "nat \<Rightarrow> uint32"
  latestLedger :: "nat \<Rightarrow> uint32"
  ledgerCloseMeta :: "uint32 \<Rightarrow> 'm"
  lcm_ProtocolVersion :: "'m \<Rightarrow> uint32"
  lcm_BucketListHash :: "'m \<Rightarrow> 'h"
  lcm_LedgerSequence :: "'m \<Rightarrow> uint32"
  zeroHash :: 'h
  emptyStateTables :: 's
  RunHistoryArchiveIngestion :: "uint32 \<Rightarrow> bool \<Rightarrow> uint32 \<Rightarrow> 'h \<Rightarrow> nat \<Rightarrow> ('s, 'r) db \<Rightarrow> ('s, 'r) db \<times> (go_error \<times> bool) option"
  RunAllProcessorsOnLedger :: "'m \<Rightarrow> nat \<Rightarrow> ('s, 'r) db \<Rightarrow> ('s, 'r) db \<times> (go_error \<times> bool) option"
  RunTransactionProcessorsOnLedgers :: "'m list \<Rightarrow> nat \<Rightarrow> ('s, 'r) db \<Rightarrow> ('s, 'r) db \<times> (go_error \<times> bool) option"
  closedAt :: "uint32 \<Rightarrow> int"
  bucketTimestamp :: "'r \<Rightarrow> int"
  tradeBuckets :: "int \<Rightarrow> int \<Rightarrow> int \<Rightarrow> (string \<times> int \<times> 'r) list \<Rightarrow> (int \<times> 'r) list"
  RoundingSlippageFilter :: int
  ReapLookupTables :: "nat \<Rightarrow> (string \<times> int \<times> 'r) list \<Rightarrow> (string \<times> int \<times> 'r) list"
  verifyState :: "nat \<Rightarrow> go_error option"
  runStateVerificationOnLedger :: "uint32 \<Rightarrow> bool"
  disableStateVerification :: bool
  EnableReapLookupTables :: bool
  ctxDone :: "nat \<Rightarrow> bool"
  maxLedgerPerFlush :: uint32
  maxReingestRetries :: nat

definition CurrentVersion :: int where "CurrentVersion = 18"

datatype node =
    stopState
  | startState (suggestedCheckpoint: uint32)
  | buildState (checkpointLedger: uint32) (skipChecks: bool) (build_stop: bool)
  | resumeState (latestSuccessfullyProcessedLedger: uint32)
  | waitForCheckpointState
  | stressTestState
  | verifyRangeState uint32 uint32 bool
  | historyRangeState uint32 uint32
  | reingestHistoryRangeState uint32 uint32 bool

text \<open>The pause before the next state is in seconds.\<close>

record transition =
  next_node :: node
  sleepDuration :: nat

definition defaultSleep :: nat where "defaultSleep = 1"

definition stop :: transition where
  "stop = \<lparr>next_node = stopState, sleepDuration = 0\<rparr>"

definition start :: transition where
  "start = \<lparr>next_node = startState 0, sleepDuration = defaultSleep\<rparr>"

definition rebuild :: "uint32 \<Rightarrow> transition" where
  "rebuild checkpoint = \<lparr>next_node = buildState checkpoint False False, sleepDuration = defaultSleep\<rparr>"

definition resume :: "uint32 \<Rightarrow> transition" where
  "resume latest = \<lparr>next_node = resumeState latest, sleepDuration = defaultSleep\<rparr>"

definition resumeImmediately :: "uint32 \<Rightarrow> transition" where
  "resumeImmediately latest = \<lparr>next_node = resumeState latest, sleepDuration = 0\<rparr>"

definition retryResume :: "uint32 \<Rightarrow> transition" where
  "retryResume latest = \<lparr>next_node = resumeState latest, sleepDuration = defaultSleep\<rparr>"

definition historyRange :: "uint32 \<Rightarrow> uint32 \<Rightarrow> transition" where
  "historyRange fromLedger toLedger = \<lparr>next_node = historyRangeState fromLedger toLedger, sleepDuration = defaultSleep\<rparr>"

definition waitForCheckPoint :: transition where
  "waitForCheckPoint = \<lparr>next_node = waitForCheckpointState, sleepDuration = 0\<rparr>"

type_synonym outcome = "transition \<times> go_error option"

section \<open>Calls\<close>

definition getLastIngestedErrMsg :: string where "getLastIngestedErrMsg = ''Error getting last ingested ledger''"
definition getIngestVersionErrMsg :: string where "getIngestVersionErrMsg = ''Error getting ingestion version''"
definition updateLastLedgerIngestErrMsg :: string where "updateLastLedgerIngestErrMsg = ''Error updating last ingested ledger''"
definition commitErrMsg :: string where "commitErrMsg = ''Error committing db transaction''"
definition updateExpStateInvalidErrMsg :: string where "updateExpStateInvalidErrMsg = ''Error updating state invalid value''"

text \<open>A call outside the database, which may fail, and the runner, which works in the transaction.\<close>

definition outside_call :: "('m, 'h, 's, 'r) system \<Rightarrow> (nat \<Rightarrow> 'a) \<Rightarrow> ('s, 'r) world \<Rightarrow> (go_error + 'a) \<times> ('s, 'r) world" where
  "outside_call s answer w =
     (let w1 = w\<lparr>calls := calls w + 1\<rparr> in
      case fails s (calls w) of
        Some e \<Rightarrow> (Inl e, w1)
      | None \<Rightarrow> (Inr (answer (calls w)), w1))"

definition GetLedger :: "('m, 'h, 's, 'r) system \<Rightarrow> uint32 \<Rightarrow> ('s, 'r) world \<Rightarrow> (go_error + 'm) \<times> ('s, 'r) world" where
  "GetLedger s sequence = outside_call s (\<lambda>_. ledgerCloseMeta s sequence)"

text \<open>A range without an upper end is unbounded.\<close>

definition PrepareRange ::
    "('m, 'h, 's, 'r) system \<Rightarrow> uint32 \<Rightarrow> uint32 option \<Rightarrow> ('s, 'r) world \<Rightarrow> (go_error + unit) \<times> ('s, 'r) world" where
  "PrepareRange s fromLedger toLedger = outside_call s (\<lambda>_. ())"

definition runner_call ::
    "(nat \<Rightarrow> ('s, 'r) db \<Rightarrow> ('s, 'r) db \<times> (go_error \<times> bool) option) \<Rightarrow> ('s, 'r) world \<Rightarrow> (go_error + unit) \<times> ('s, 'r) world" where
  "runner_call run w =
     (let w1 = w\<lparr>calls := calls w + 1\<rparr> in
      case tx w of
        None \<Rightarrow> (case run (calls w) (stored w) of
                   (d, None) \<Rightarrow> (Inr (), w1\<lparr>stored := d\<rparr>)
                 | (d, Some (e, _)) \<Rightarrow> (Inl e, w1\<lparr>stored := d\<rparr>))
      | Some t \<Rightarrow>
          if tx_aborted t then (Inl (Errorf ''current transaction is aborted''), w1)
          else (case run (calls w) (tx_db t) of
                  (d, None) \<Rightarrow> (Inr (), w1\<lparr>tx := Some (t\<lparr>tx_db := d\<rparr>)\<rparr>)
                | (d, Some (e, aborted)) \<Rightarrow> (Inl e, w1\<lparr>tx := Some \<lparr>tx_db = d, tx_aborted = aborted\<rparr>\<rparr>)))"

text \<open>The trade aggregations of the minutes in which the ledgers of a range closed (\<^verbatim>\<open>db2/history/trade_aggregation.go\<close>).\<close>

definition HistoryTradesTableName :: string where "HistoryTradesTableName = ''history_trades_60000''"

definition rebuildErrMsg :: string where "rebuildErrMsg = ''could not rebuild trade aggregation bucket''"

definition RoundDown :: "int \<Rightarrow> int \<Rightarrow> int" where
  "RoundDown t d = (t sdiv d) * d"

definition RebuildTradeAggregationTimes ::
    "('m, 'h, 's, 'r) system \<Rightarrow> int \<Rightarrow> int \<Rightarrow> ('s, 'r) world \<Rightarrow> (go_error + unit) \<times> ('s, 'r) world" where
  "RebuildTradeAggregationTimes s from0 to0 =
     (let from = RoundDown from0 60000; upto = RoundDown to0 60000 in
      try_wrap rebuildErrMsg
        (ExecRaw s (\<lambda>d. d\<lparr>history_rows := filter (\<lambda>(t, _, r).
           \<not> (t = HistoryTradesTableName \<and> bucketTimestamp s r \<ge> from \<and> bucketTimestamp s r \<le> upto)) (history_rows d)\<rparr>)) (\<lambda>_.
      try_wrap rebuildErrMsg
        (ExecRaw s (\<lambda>d. d\<lparr>history_rows := history_rows d @
           map (\<lambda>(i, r). (HistoryTradesTableName, i, r)) (tradeBuckets s from upto (RoundingSlippageFilter s) (history_rows d))\<rparr>)) (\<lambda>_.
      return (Inr ()))))"

definition ledger_timestamps :: "('m, 'h, 's, 'r) system \<Rightarrow> int \<Rightarrow> int \<Rightarrow> ('s, 'r) db \<Rightarrow> int list" where
  "ledger_timestamps s lo hi d =
     map (\<lambda>(_, l). closedAt s l) (sort_key fst (filter (\<lambda>(i, _). i \<ge> lo \<and> i < hi) (history_ledgers d)))"

definition RebuildTradeAggregationBuckets ::
    "('m, 'h, 's, 'r) system \<Rightarrow> uint32 \<Rightarrow> uint32 \<Rightarrow> ('s, 'r) world \<Rightarrow> (go_error + unit) \<times> ('s, 'r) world" where
  "RebuildTradeAggregationBuckets s fromSeq toSeq =
     (case ToInt64 (toid_New fromSeq 0 0) of
        Inl _ \<Rightarrow> return (Inl Panic)
      | Inr fromLedgerToid \<Rightarrow>
          (case ToInt64 (toid_New (toSeq + 1) 0 0) of
             Inl _ \<Rightarrow> return (Inl Panic)
           | Inr toLedgerToid \<Rightarrow>
               (let timestamps = ledger_timestamps s (sint fromLedgerToid) (sint toLedgerToid) in
                try_wrap rebuildErrMsg
                  (GetRow s (\<lambda>d. case timestamps d of [] \<Rightarrow> None | t # _ \<Rightarrow> Some t)) (\<lambda>from.
                try_wrap rebuildErrMsg
                  (GetRow s (\<lambda>d. case rev (timestamps d) of [] \<Rightarrow> None | t # _ \<Rightarrow> Some t)) (\<lambda>upto.
                RebuildTradeAggregationTimes s from upto)))))"

definition deferRollback :: "(('s, 'r) world \<Rightarrow> 'a \<times> ('s, 'r) world) \<Rightarrow> ('s, 'r) world \<Rightarrow> 'a \<times> ('s, 'r) world" where
  "deferRollback body w = (case body w of (r, w') \<Rightarrow> (r, Rollback w'))"

definition invalidRange :: "uint32 \<Rightarrow> uint32 \<Rightarrow> go_error" where
  "invalidRange fromLedger toLedger =
     Errorf (''invalid range: ['' @ show_nat (unat fromLedger) @ '', '' @ show_nat (unat toLedger) @ '']'')"

text \<open>\<open>orElse t msg call rest\<close>: on a failure go to \<open>t\<close> with the wrapped error.\<close>

definition orElse ::
    "transition \<Rightarrow> string \<Rightarrow> ('w \<Rightarrow> (go_error + 'a) \<times> 'w) \<Rightarrow> ('a \<Rightarrow> 'w \<Rightarrow> outcome \<times> 'w) \<Rightarrow> 'w \<Rightarrow> outcome \<times> 'w" where
  "orElse t msg call rest = check call (\<lambda>e. return (t, Some (Wrapped msg e))) rest"

definition completeIngestion :: "('m, 'h, 's, 'r) system \<Rightarrow> uint32 \<Rightarrow> ('s, 'r) world \<Rightarrow> (go_error + unit) \<times> ('s, 'r) world" where
  "completeIngestion s ledger =
     (if ledger = 0 then return (Inl (Errorf ''ledger must be positive''))
      else
        try_wrap updateLastLedgerIngestErrMsg (UpdateLastLedgerIngest s ledger) (\<lambda>_.
        try_wrap commitErrMsg (Commit s) (\<lambda>_.
        return (Inr ()))))"

definition maybePrepareRange :: "('m, 'h, 's, 'r) system \<Rightarrow> uint32 \<Rightarrow> ('s, 'r) world \<Rightarrow> (go_error + unit) \<times> ('s, 'r) world" where
  "maybePrepareRange s from =
     try_wrap ''error checking prepared range'' (outside_call s (isPrepared s from)) (\<lambda>prepared.
     if \<not> prepared
     then try_wrap ''error preparing range'' (PrepareRange s from None) (\<lambda>_. return (Inr ()))
     else return (Inr ()))"

section \<open>The states of a running instance\<close>

definition start_run :: "('m, 'h, 's, 'r) system \<Rightarrow> uint32 \<Rightarrow> ('s, 'r) world \<Rightarrow> outcome \<times> ('s, 'r) world" where
  "start_run s suggested =
     orElse start ''Error starting a transaction'' (Begin s) (\<lambda>_. deferRollback (
     orElse start getLastIngestedErrMsg (GetLastLedgerIngest s) (\<lambda>lastIngestedLedger.
     orElse start getIngestVersionErrMsg (GetIngestVersion s) (\<lambda>ingestVersion.
     if ingestVersion > CurrentVersion then return (stop, None)
     else
     orElse start ''Error getting last history ledger sequence'' (GetLatestHistoryLedger s) (\<lambda>lastHistoryLedger.
     if ingestVersion \<noteq> CurrentVersion \<or> lastIngestedLedger = 0 then
       (let continue = (\<lambda>lastCheckpoint.
              if lastHistoryLedger \<noteq> 0 then
                if lastHistoryLedger > lastCheckpoint then return (waitForCheckPoint, None)
                else if lastHistoryLedger < lastCheckpoint
                then return (historyRange (lastHistoryLedger + 1) lastCheckpoint, None)
                else return (rebuild lastCheckpoint, None)
              else return (rebuild lastCheckpoint, None))
        in if suggested \<noteq> 0 then continue suggested
           else orElse start ''Error getting last checkpoint'' (outside_call s (latestCheckpoint s)) continue)
     else if lastHistoryLedger > lastIngestedLedger then
       orElse start updateLastLedgerIngestErrMsg (UpdateLastLedgerIngest s 0) (\<lambda>_.
       orElse start commitErrMsg (Commit s) (\<lambda>_.
       return (start, None)))
     else if lastHistoryLedger \<noteq> 0 \<and> lastHistoryLedger < lastIngestedLedger then
       return (historyRange (lastHistoryLedger + 1) lastIngestedLedger, None)
     else return (resume lastIngestedLedger, None))))))"

text \<open>From the start of the transaction on; the protocol version and the hash are those of the checkpoint.\<close>

definition build_tx ::
    "('m, 'h, 's, 'r) system \<Rightarrow> uint32 \<Rightarrow> bool \<Rightarrow> bool \<Rightarrow> transition \<Rightarrow> uint32 \<Rightarrow> 'h \<Rightarrow> ('s, 'r) world \<Rightarrow> outcome \<times> ('s, 'r) world" where
  "build_tx s checkpoint skip stp nextFailState protocolVersion bucketListHash =
     orElse nextFailState ''Error starting a transaction'' (Begin s) (\<lambda>_. deferRollback (
     orElse nextFailState getLastIngestedErrMsg (GetLastLedgerIngest s) (\<lambda>lastIngestedLedger.
     orElse nextFailState getIngestVersionErrMsg (GetIngestVersion s) (\<lambda>ingestVersion.
     if ingestVersion = CurrentVersion \<and> lastIngestedLedger > 0 then return (nextFailState, None)
     else
     orElse nextFailState updateLastLedgerIngestErrMsg (UpdateLastLedgerIngest s 0) (\<lambda>_.
     orElse nextFailState updateExpStateInvalidErrMsg (UpdateExpStateInvalid s False) (\<lambda>_.
     orElse nextFailState ''Error clearing ingest tables'' (TruncateIngestStateTables s (emptyStateTables s)) (\<lambda>_.
     orElse nextFailState ''Error ingesting history archive''
       (runner_call (if checkpoint = 1 then RunHistoryArchiveIngestion s 1 False 0 (zeroHash s)
                     else RunHistoryArchiveIngestion s checkpoint skip protocolVersion bucketListHash)) (\<lambda>_.
     orElse nextFailState ''Error updating ingestion version'' (UpdateIngestVersion s CurrentVersion) (\<lambda>_.
     check (completeIngestion s checkpoint) (\<lambda>e. return (nextFailState, Some e)) (\<lambda>_.
     if stp then return (stop, None) else return (resume checkpoint, None)))))))))))"

definition build_run :: "('m, 'h, 's, 'r) system \<Rightarrow> uint32 \<Rightarrow> bool \<Rightarrow> bool \<Rightarrow> ('s, 'r) world \<Rightarrow> outcome \<times> ('s, 'r) world" where
  "build_run s checkpoint skip stp =
     (let nextFailState = (if stp then stop else start) in
      if checkpoint = 0 then return (nextFailState, Some (Errorf ''unexpected checkpointLedger value''))
      else if checkpoint \<noteq> 1 \<and> \<not> skip then
        check (maybePrepareRange s checkpoint) (\<lambda>e. return (nextFailState, Some e)) (\<lambda>_.
        orElse nextFailState ''error getting ledger blocking'' (GetLedger s checkpoint) (\<lambda>lcm.
        build_tx s checkpoint skip stp nextFailState (lcm_ProtocolVersion s lcm) (lcm_BucketListHash s lcm)))
      else build_tx s checkpoint skip stp nextFailState 0 (zeroHash s))"

text \<open>
  \<^verbatim>\<open>maybeVerifyState\<close> starts a goroutine, which is recorded in \<open>verifications\<close>; what it does to the
  database, \<^verbatim>\<open>markStateInvalid\<close>, is a step of its own below.
\<close>

definition maybeVerifyState :: "('m, 'h, 's, 'r) system \<Rightarrow> uint32 \<Rightarrow> ('s, 'r) world \<Rightarrow> unit \<times> ('s, 'r) world" where
  "maybeVerifyState s lastIngestedLedger =
     check (GetExpStateInvalid s) (\<lambda>_. return ()) (\<lambda>invalid w.
     if \<not> invalid \<and> \<not> disableStateVerification s \<and> runStateVerificationOnLedger s lastIngestedLedger
     then ((), w\<lparr>verifications := verifications w @ [lastIngestedLedger]\<rparr>)
     else ((), w))"

definition maybeReapLookupTables :: "('m, 'h, 's, 'r) system \<Rightarrow> uint32 \<Rightarrow> ('s, 'r) world \<Rightarrow> unit \<times> ('s, 'r) world" where
  "maybeReapLookupTables s lastIngestedLedger =
     (if \<not> EnableReapLookupTables s then return ()
      else
        check (outside_call s (latestLedger s)) (\<lambda>_. return ()) (\<lambda>sequence.
        if sequence \<noteq> lastIngestedLedger then return ()
        else
        check (Begin s) (\<lambda>_. return ()) (\<lambda>_. deferRollback (
        check (GetLastLedgerIngest s) (\<lambda>_. return ()) (\<lambda>_.
        check (\<lambda>w. ExecRaw s (\<lambda>d. d\<lparr>history_rows := ReapLookupTables s (calls w) (history_rows d)\<rparr>) w) (\<lambda>_. return ()) (\<lambda>_.
        check (Commit s) (\<lambda>_. return ()) (\<lambda>_. return ())))))))"

definition markStateInvalid :: "('m, 'h, 's, 'r) system \<Rightarrow> ('s, 'r) world \<Rightarrow> unit \<times> ('s, 'r) world" where
  "markStateInvalid s = check (UpdateExpStateInvalid s True) (\<lambda>_. return ()) (\<lambda>_. return ())"

definition resume_run :: "('m, 'h, 's, 'r) system \<Rightarrow> uint32 \<Rightarrow> ('s, 'r) world \<Rightarrow> outcome \<times> ('s, 'r) world" where
  "resume_run s latest =
     (if latest = 0 then return (start, Some (Errorf ''unexpected latestSuccessfullyProcessedLedger value''))
      else
     (let ingestLedger = latest + 1; retry = retryResume latest in
     check (maybePrepareRange s ingestLedger) (\<lambda>e. return (start, Some e)) (\<lambda>_.
     orElse start ''error getting ledger blocking'' (GetLedger s ingestLedger) (\<lambda>lcm.
     orElse retry ''Error starting a transaction'' (Begin s) (\<lambda>_. deferRollback (
     orElse retry getLastIngestedErrMsg (GetLastLedgerIngest s) (\<lambda>lastIngestedLedger.
     if ingestLedger > lastIngestedLedger + 1 then
       return (start, Some (Errorf ''expected ingest ledger to be at most one greater than last ingested ledger in db''))
     else if ingestLedger \<le> lastIngestedLedger then return (resumeImmediately lastIngestedLedger, None)
     else
     orElse retry getIngestVersionErrMsg (GetIngestVersion s) (\<lambda>ingestVersion.
     if ingestVersion \<noteq> CurrentVersion then return (start, None)
     else
     orElse retry ''could not get latest history ledger'' (GetLatestHistoryLedger s) (\<lambda>lastHistoryLedger.
     if lastHistoryLedger \<noteq> 0 \<and> lastHistoryLedger \<noteq> lastIngestedLedger then return (start, None)
     else
     orElse retry ''Error running processors on ledger'' (runner_call (RunAllProcessorsOnLedger s lcm)) (\<lambda>_.
     orElse retry ''error rebuilding trade aggregations'' (RebuildTradeAggregationBuckets s ingestLedger ingestLedger) (\<lambda>_.
     check (completeIngestion s ingestLedger) (\<lambda>e. return (retry, Some e)) (\<lambda>_ w.
     case maybeVerifyState s ingestLedger w of (_, w1) \<Rightarrow>
     (case maybeReapLookupTables s ingestLedger w1 of (_, w2) \<Rightarrow>
      ((resumeImmediately ingestLedger, None), w2))))))))))))))"

definition waitForCheckpoint_run :: "('s, 'r) world \<Rightarrow> outcome \<times> ('s, 'r) world" where
  "waitForCheckpoint_run = return (start, None)"

section \<open>Ranges of history\<close>

text \<open>
  A loop \<^verbatim>\<open>for cur := from; cur <= to; cur++\<close> over \<^verbatim>\<open>uint32\<close> gets as much fuel as the range has ledgers. It
  is used up before the condition fails only if the counter wraps around, for the largest \<open>to\<close>: then the
  Go loop does not end, and the model returns \<open>Diverges\<close>.
\<close>

definition range_fuel :: "uint32 \<Rightarrow> uint32 \<Rightarrow> nat" where
  "range_fuel fromLedger toLedger = unat toLedger + 1 - unat fromLedger"

definition batch_error :: "('m, 'h, 's, 'r) system \<Rightarrow> 'm list \<Rightarrow> string" where
  "batch_error s ledgers =
     ''error processing ledger range '' @ show_nat (unat (lcm_LedgerSequence s (ledgers ! 0))) @ '' - '' @
     show_nat (unat (lcm_LedgerSequence s (ledgers ! (length ledgers - 1))))"

definition process_batch :: "('m, 'h, 's, 'r) system \<Rightarrow> 'm list \<Rightarrow> ('s, 'r) world \<Rightarrow> (go_error + unit) \<times> ('s, 'r) world" where
  "process_batch s ledgers =
     try_wrap (batch_error s ledgers) (runner_call (RunTransactionProcessorsOnLedgers s ledgers)) (\<lambda>_. return (Inr ()))"

fun historyRange_loop ::
    "('m, 'h, 's, 'r) system \<Rightarrow> uint32 \<Rightarrow> nat \<Rightarrow> uint32 \<Rightarrow> 'm list \<Rightarrow> ('s, 'r) world \<Rightarrow> (go_error + 'm list) \<times> ('s, 'r) world" where
  "historyRange_loop s toLedger 0 cur ledgers =
     (if cur \<le> toLedger then return (Inl Diverges) else return (Inr ledgers))"
| "historyRange_loop s toLedger (Suc fuel) cur ledgers =
     (if cur \<le> toLedger then
        check (GetLedger s cur)
          (\<lambda>e w. case Commit s w of (_, w') \<Rightarrow> (Inl (Wrapped ''error getting ledger'' e), w'))
          (\<lambda>lcm.
            let ledgers' = ledgers @ [lcm] in
            if length ledgers' = unat (maxLedgerPerFlush s)
            then check (process_batch s ledgers') (\<lambda>e. return (Inl e))
                   (\<lambda>_. historyRange_loop s toLedger fuel (cur + 1) [])
            else historyRange_loop s toLedger fuel (cur + 1) ledgers')
      else return (Inr ledgers))"

definition historyRange_run :: "('m, 'h, 's, 'r) system \<Rightarrow> uint32 \<Rightarrow> uint32 \<Rightarrow> ('s, 'r) world \<Rightarrow> outcome \<times> ('s, 'r) world" where
  "historyRange_run s fromLedger toLedger =
     (if fromLedger = 0 \<or> toLedger = 0 \<or> fromLedger > toLedger
      then return (start, Some (invalidRange fromLedger toLedger))
      else if maxLedgerPerFlush s < 1
      then return (start, Some (Errorf ''invalid maxLedgerPerFlush, must be greater than 0''))
      else
        check (maybePrepareRange s fromLedger) (\<lambda>e. return (start, Some e)) (\<lambda>_.
        orElse start ''Error starting a transaction'' (Begin s) (\<lambda>_. deferRollback (
        orElse start getLastIngestedErrMsg (GetLastLedgerIngest s) (\<lambda>_.
        orElse start ''could not get latest history ledger'' (GetLatestHistoryLedger s) (\<lambda>lastHistoryLedger.
        if lastHistoryLedger \<noteq> fromLedger - 1 then return (start, None)
        else
        check (historyRange_loop s toLedger (range_fuel fromLedger toLedger) fromLedger []) (\<lambda>e. return (start, Some e)) (\<lambda>ledgers.
        check (if length ledgers > 0 then process_batch s ledgers else return (Inr ())) (\<lambda>e. return (start, Some e)) (\<lambda>_.
        orElse start commitErrMsg (Commit s) (\<lambda>_.
        return (start, None))))))))))"

fun ingestRange_loop ::
    "('m, 'h, 's, 'r) system \<Rightarrow> uint32 \<Rightarrow> nat \<Rightarrow> uint32 \<Rightarrow> 'm list \<Rightarrow> ('s, 'r) world \<Rightarrow> (go_error + 'm list) \<times> ('s, 'r) world" where
  "ingestRange_loop s toLedger 0 cur ledgers =
     (if cur \<le> toLedger then return (Inl Diverges) else return (Inr ledgers))"
| "ingestRange_loop s toLedger (Suc fuel) cur ledgers =
     (if cur \<le> toLedger then
        try_wrap ''error getting ledger'' (GetLedger s cur) (\<lambda>lcm.
          let ledgers' = ledgers @ [lcm] in
          if length ledgers' mod unat (maxLedgerPerFlush s) = 0
          then check (process_batch s ledgers') (\<lambda>e. return (Inl e))
                 (\<lambda>_. ingestRange_loop s toLedger fuel (cur + 1) [])
          else ingestRange_loop s toLedger fuel (cur + 1) ledgers')
      else return (Inr ledgers))"

definition range_error :: "toid_error \<Rightarrow> go_error" where
  "range_error e =
     (case e of
        RangeFromGreaterThanTo \<Rightarrow> Errorf ''Invalid range: from > to''
      | RangeNotPositive \<Rightarrow> Errorf ''Invalid range: from or to negative''
      | RangePanic _ \<Rightarrow> Panic)"

text \<open>
  A panic of \<^verbatim>\<open>LedgerRangeInclusive\<close>, which ends the process, is the error \<open>Panic\<close> here. Nothing has been written in the transaction by
  then, so the commit of the forced branch and the further attempts of \<^verbatim>\<open>ReingestRange\<close>, which a crashed process does not make, leave the database as
  it was. The same holds of the panics of \<^verbatim>\<open>RebuildTradeAggregationBuckets\<close>, which come before its first statement.
\<close>

definition ingestRange :: "('m, 'h, 's, 'r) system \<Rightarrow> uint32 \<Rightarrow> uint32 \<Rightarrow> ('s, 'r) world \<Rightarrow> (go_error + unit) \<times> ('s, 'r) world" where
  "ingestRange s fromLedger toLedger w =
     (if GetTx w = None then (Inl (Errorf ''expected transaction to be present''), w)
      else if maxLedgerPerFlush s < 1 then (Inl (Errorf ''invalid maxLedgerPerFlush, must be greater than 0''), w)
      else
        (case LedgerRangeInclusive fromLedger toLedger of
           Inl e \<Rightarrow> (Inl (Wrapped ''Invalid range'' (range_error e)), w)
         | Inr (startID, endID) \<Rightarrow>
             try_wrap ''error in DeleteRangeAll'' (DeleteRangeAll s (sint startID) (sint endID)) (\<lambda>_.
             check (ingestRange_loop s toLedger (range_fuel fromLedger toLedger) fromLedger []) (\<lambda>e. return (Inl e)) (\<lambda>ledgers.
             if length ledgers > 0 then process_batch s ledgers else return (Inr ()))) w))"

definition reingest_prepareRange :: "('m, 'h, 's, 'r) system \<Rightarrow> uint32 \<Rightarrow> uint32 \<Rightarrow> ('s, 'r) world \<Rightarrow> (go_error + unit) \<times> ('s, 'r) world" where
  "reingest_prepareRange s fromLedger toLedger =
     try_wrap ''error preparing range'' (PrepareRange s fromLedger (Some toLedger)) (\<lambda>_. return (Inr ()))"

definition reingest_run :: "('m, 'h, 's, 'r) system \<Rightarrow> uint32 \<Rightarrow> uint32 \<Rightarrow> bool \<Rightarrow> ('s, 'r) world \<Rightarrow> outcome \<times> ('s, 'r) world" where
  "reingest_run s from0 toLedger force =
     (if from0 = 0 \<or> toLedger = 0 \<or> from0 > toLedger
      then return (stop, Some (invalidRange from0 toLedger))
      else
        (let fromLedger = (if from0 = 1 then 2 else from0) in
         if force then
           check (reingest_prepareRange s fromLedger toLedger) (\<lambda>e. return (stop, Some e)) (\<lambda>_.
           orElse stop ''Error starting a transaction'' (Begin s) (\<lambda>_. deferRollback (
           orElse stop getLastIngestedErrMsg (GetLastLedgerIngest s) (\<lambda>_.
           check (ingestRange s fromLedger toLedger)
             (\<lambda>ingestErr. orElse stop commitErrMsg (\<lambda>w. case Commit s w of (Inl _, w') \<Rightarrow> (Inl ingestErr, w') | (Inr _, w') \<Rightarrow> (Inr (), w'))
                (\<lambda>_. return (stop, Some ingestErr)))
             (\<lambda>_. orElse stop commitErrMsg (Commit s) (\<lambda>_. return (stop, None)))))))
         else
           orElse stop getLastIngestedErrMsg (GetLastLedgerIngestNonBlocking s) (\<lambda>lastIngestedLedger.
           if lastIngestedLedger > 0 \<and> toLedger \<ge> lastIngestedLedger
           then return (stop, Some (ErrReingestRangeConflict lastIngestedLedger))
           else
           check (reingest_prepareRange s fromLedger toLedger) (\<lambda>e. return (stop, Some e)) (\<lambda>_.
           orElse stop ''Error starting a transaction'' (Begin s) (\<lambda>_. deferRollback (
           check (ingestRange s fromLedger toLedger) (\<lambda>e. return (stop, Some e)) (\<lambda>_.
           orElse stop commitErrMsg (Commit s) (\<lambda>_.
           return (stop, None)))))))))"

section \<open>Verification of a range, and the stress test\<close>

fun verifyRange_loop ::
    "('m, 'h, 's, 'r) system \<Rightarrow> uint32 \<Rightarrow> nat \<Rightarrow> uint32 \<Rightarrow> ('s, 'r) world \<Rightarrow> (go_error + unit) \<times> ('s, 'r) world" where
  "verifyRange_loop s toLedger 0 sequence =
     (if sequence \<le> toLedger then return (Inl Diverges) else return (Inr ()))"
| "verifyRange_loop s toLedger (Suc fuel) sequence =
     (if sequence \<le> toLedger then
        try_wrap ''Error starting a transaction'' (Begin s) (\<lambda>_.
        try_wrap ''error getting ledger'' (GetLedger s sequence) (\<lambda>lcm.
        try_wrap ''Error running processors on ledger'' (runner_call (RunAllProcessorsOnLedger s lcm)) (\<lambda>_.
        check (completeIngestion s sequence) (\<lambda>e. return (Inl e)) (\<lambda>_.
        verifyRange_loop s toLedger fuel (sequence + 1)))))
      else return (Inr ()))"

definition verifyRange_run :: "('m, 'h, 's, 'r) system \<Rightarrow> uint32 \<Rightarrow> uint32 \<Rightarrow> bool \<Rightarrow> ('s, 'r) world \<Rightarrow> outcome \<times> ('s, 'r) world" where
  "verifyRange_run s fromLedger toLedger verify =
     (if fromLedger = 0 \<or> toLedger = 0 \<or> fromLedger > toLedger
      then return (stop, Some (invalidRange fromLedger toLedger))
      else
        orElse stop ''Error starting a transaction'' (Begin s) (\<lambda>_. deferRollback (
        orElse stop getLastIngestedErrMsg (GetLastLedgerIngest s) (\<lambda>lastIngestedLedger.
        if lastIngestedLedger \<noteq> 0 then return (stop, Some (Errorf ''Database not empty''))
        else
        orElse stop ''Error preparing range'' (PrepareRange s fromLedger (Some toLedger)) (\<lambda>_.
        orElse stop ''error getting ledger'' (GetLedger s fromLedger) (\<lambda>lcm.
        orElse stop ''Error ingesting history archive''
          (runner_call (RunHistoryArchiveIngestion s (lcm_LedgerSequence s lcm) False
             (lcm_ProtocolVersion s lcm) (lcm_BucketListHash s lcm))) (\<lambda>_.
        check (completeIngestion s fromLedger) (\<lambda>e. return (stop, Some e)) (\<lambda>_.
        check (verifyRange_loop s toLedger (range_fuel (fromLedger + 1) toLedger) (fromLedger + 1)) (\<lambda>e. return (stop, Some e)) (\<lambda>_.
        orElse stop ''error rebuilding trade aggregations'' (RebuildTradeAggregationBuckets s fromLedger toLedger) (\<lambda>_ w.
        if verify then ((stop, verifyState s (calls w)), w\<lparr>calls := calls w + 1\<rparr>)
        else ((stop, None), w)))))))))))"

definition stressTest_run :: "('m, 'h, 's, 'r) system \<Rightarrow> ('s, 'r) world \<Rightarrow> outcome \<times> ('s, 'r) world" where
  "stressTest_run s =
     orElse stop ''Error starting a transaction'' (Begin s) (\<lambda>_. deferRollback (
     orElse stop getLastIngestedErrMsg (GetLastLedgerIngest s) (\<lambda>lastIngestedLedger.
     if lastIngestedLedger \<noteq> 0 then return (stop, Some (Errorf ''Database not empty''))
     else
     (let sequence = lastIngestedLedger + 1 in
     orElse stop ''error getting ledger'' (GetLedger s sequence) (\<lambda>lcm.
     orElse stop ''Error running processors on ledger'' (runner_call (RunAllProcessorsOnLedger s lcm)) (\<lambda>_.
     check (completeIngestion s sequence) (\<lambda>e. return (stop, Some e)) (\<lambda>_.
     return (stop, None))))))))"

section \<open>The machine\<close>

fun run :: "('m, 'h, 's, 'r) system \<Rightarrow> node \<Rightarrow> ('s, 'r) world \<Rightarrow> outcome \<times> ('s, 'r) world" where
  "run s stopState = return (stop, Some (Errorf ''Cannot run terminal state''))"
| "run s (startState suggested) = start_run s suggested"
| "run s (buildState checkpoint skip stp) = build_run s checkpoint skip stp"
| "run s (resumeState latest) = resume_run s latest"
| "run s waitForCheckpointState = waitForCheckpoint_run"
| "run s stressTestState = stressTest_run s"
| "run s (verifyRangeState fromLedger toLedger verify) = verifyRange_run s fromLedger toLedger verify"
| "run s (historyRangeState fromLedger toLedger) = historyRange_run s fromLedger toLedger"
| "run s (reingestHistoryRangeState fromLedger toLedger force) = reingest_run s fromLedger toLedger force"

text \<open>The loop need not end: \<open>Running\<close> is the state after as many transitions as the fuel allows.\<close>

datatype machine_result = Returned "go_error option" | UnexpectedTransaction | Running node

fun runStateMachine :: "('m, 'h, 's, 'r) system \<Rightarrow> nat \<Rightarrow> node \<Rightarrow> ('s, 'r) world \<Rightarrow> machine_result \<times> ('s, 'r) world" where
  "runStateMachine s 0 cur w = (Running cur, w)"
| "runStateMachine s (Suc fuel) cur w =
     (if GetTx w \<noteq> None then (UnexpectedTransaction, w)
      else
        (case run s cur w of
           ((t, err), w') \<Rightarrow>
             if next_node t = stopState then (Returned err, w')
             else if ctxDone s (calls w') then (Returned None, w')
             else runStateMachine s fuel (next_node t) w'))"

definition Run :: "('m, 'h, 's, 'r) system \<Rightarrow> nat \<Rightarrow> ('s, 'r) world \<Rightarrow> machine_result \<times> ('s, 'r) world" where
  "Run s fuel = runStateMachine s fuel (startState 0)"

definition VerifyRange :: "('m, 'h, 's, 'r) system \<Rightarrow> nat \<Rightarrow> uint32 \<Rightarrow> uint32 \<Rightarrow> bool \<Rightarrow> ('s, 'r) world \<Rightarrow> machine_result \<times> ('s, 'r) world" where
  "VerifyRange s fuel fromLedger toLedger verify = runStateMachine s fuel (verifyRangeState fromLedger toLedger verify)"

definition BuildState :: "('m, 'h, 's, 'r) system \<Rightarrow> nat \<Rightarrow> uint32 \<Rightarrow> bool \<Rightarrow> ('s, 'r) world \<Rightarrow> machine_result \<times> ('s, 'r) world" where
  "BuildState s fuel sequence skip = runStateMachine s fuel (buildState sequence skip True)"

definition BuildGenesisState :: "('m, 'h, 's, 'r) system \<Rightarrow> nat \<Rightarrow> ('s, 'r) world \<Rightarrow> machine_result \<times> ('s, 'r) world" where
  "BuildGenesisState s fuel = runStateMachine s fuel (buildState 1 False True)"

section \<open>Reingestion of ranges\<close>

definition show_range :: "LedgerRange \<Rightarrow> string" where
  "show_range cur = ''{'' @ show_nat (unat (StartSequence cur)) @ '' '' @ show_nat (unat (EndSequence cur)) @ ''}''"

fun validateRanges_from :: "LedgerRange option \<Rightarrow> LedgerRange list \<Rightarrow> go_error option" where
  "validateRanges_from prev [] = None"
| "validateRanges_from prev (cur # rest) =
     (if StartSequence cur > EndSequence cur then Some (Errorf (''Invalid range: '' @ show_range cur @ '' from > to''))
      else if StartSequence cur = 0 then Some (Errorf (''Invalid range: '' @ show_range cur @ '' genesis ledger starts at 1''))
      else
        (case prev of
           None \<Rightarrow> validateRanges_from (Some cur) rest
         | Some p \<Rightarrow>
             if EndSequence p \<ge> StartSequence cur then Some (Errorf (''ranges are not sorted prevRange '' @ show_range p @ '' curRange '' @ show_range cur))
             else validateRanges_from (Some cur) rest))"

definition validateRanges :: "LedgerRange list \<Rightarrow> go_error option" where
  "validateRanges ledgerRanges = validateRanges_from None ledgerRanges"

text \<open>\<open>None\<close>: done. The state machine of a range stops after its first state, so one unit of fuel is enough.\<close>

definition reingest_once :: "('m, 'h, 's, 'r) system \<Rightarrow> LedgerRange \<Rightarrow> bool \<Rightarrow> ('s, 'r) world \<Rightarrow> go_error option \<times> ('s, 'r) world" where
  "reingest_once s cur force w =
     (case runStateMachine s 1 (reingestHistoryRangeState (StartSequence cur) (EndSequence cur) force) w of
        (Returned err, w') \<Rightarrow> (err, w')
      | (_, w') \<Rightarrow> (Some (Errorf ''panic: unexpected transaction''), w'))"

fun reingest_retry :: "('m, 'h, 's, 'r) system \<Rightarrow> LedgerRange \<Rightarrow> bool \<Rightarrow> nat \<Rightarrow> go_error option \<times> ('s, 'r) world \<Rightarrow> go_error option \<times> ('s, 'r) world" where
  "reingest_retry s cur force 0 r = r"
| "reingest_retry s cur force (Suc retries) r =
     (case r of
        (None, w) \<Rightarrow> (None, w)
      | (Some _, w) \<Rightarrow> reingest_retry s cur force retries (reingest_once s cur force w))"

fun ReingestRange_loop :: "('m, 'h, 's, 'r) system \<Rightarrow> bool \<Rightarrow> bool \<Rightarrow> LedgerRange list \<Rightarrow> ('s, 'r) world \<Rightarrow> go_error option \<times> ('s, 'r) world" where
  "ReingestRange_loop s force rebuildTradeAgg [] w = (None, w)"
| "ReingestRange_loop s force rebuildTradeAgg (cur # rest) w =
     (case reingest_retry s cur force (maxReingestRetries s) (reingest_once s cur force w) of
        (Some e, w') \<Rightarrow> (Some e, w')
      | (None, w') \<Rightarrow>
          if rebuildTradeAgg then
            check (RebuildTradeAggregationBuckets s (StartSequence cur) (EndSequence cur))
              (\<lambda>e. return (Some (Wrapped ''Error rebuilding trade aggregations'' e)))
              (\<lambda>_. ReingestRange_loop s force rebuildTradeAgg rest) w'
          else ReingestRange_loop s force rebuildTradeAgg rest w')"

definition ReingestRange :: "('m, 'h, 's, 'r) system \<Rightarrow> LedgerRange list \<Rightarrow> bool \<Rightarrow> bool \<Rightarrow> ('s, 'r) world \<Rightarrow> go_error option \<times> ('s, 'r) world" where
  "ReingestRange s ledgerRanges force rebuildTradeAgg w =
     (case validateRanges ledgerRanges of
        Some e \<Rightarrow> (Some e, w)
      | None \<Rightarrow> ReingestRange_loop s force rebuildTradeAgg ledgerRanges w)"

end
