(* ===== verification/IngestProof.thy ===== *)
theory IngestProof
  imports IngestFsm
begin

text \<open>
  Correctness of the ingestion state machine. The states are sequences of calls on a session, so
  the proofs use triples: \<open>triple P f Q\<close> says that from every world in \<open>P\<close> the code \<open>f\<close> ends with a
  result and a world in \<open>Q\<close>. The assertions follow a transaction from the stored database at its
  beginning: \<open>idle\<close> outside, \<open>in_tx\<close> while every call has succeeded, \<open>some_tx\<close> after a failure.
\<close>

named_theorems vc

section \<open>Triples\<close>

definition triple :: "('w \<Rightarrow> bool) \<Rightarrow> ('w \<Rightarrow> 'a \<times> 'w) \<Rightarrow> ('a \<Rightarrow> 'w \<Rightarrow> bool) \<Rightarrow> bool" where
  "triple P f Q \<longleftrightarrow> (\<forall>w. P w \<longrightarrow> (case f w of (r, w') \<Rightarrow> Q r w'))"

lemma triple_use: "triple P f Q \<Longrightarrow> P w \<Longrightarrow> f w = (r, w') \<Longrightarrow> Q r w'"
  by (auto simp: triple_def)

lemma triple_pre: "triple P f Q \<Longrightarrow> (\<And>w. P' w \<Longrightarrow> P w) \<Longrightarrow> triple P' f Q"
  by (auto simp: triple_def)

lemma triple_post: "triple P f Q \<Longrightarrow> (\<And>r w. Q r w \<Longrightarrow> Q' r w) \<Longrightarrow> triple P f Q'"
  by (fastforce simp: triple_def)

lemma triple_return: "(\<And>w. P w \<Longrightarrow> Q r w) \<Longrightarrow> triple P (return r) Q"
  by (simp add: triple_def return_def)

lemma triple_if: "(b \<Longrightarrow> triple P f Q) \<Longrightarrow> (\<not> b \<Longrightarrow> triple P g Q) \<Longrightarrow> triple P (if b then f else g) Q"
  by simp

lemma triple_check:
  "triple P call (\<lambda>r. case r of Inl e \<Rightarrow> PE e | Inr a \<Rightarrow> PA a) \<Longrightarrow> (\<And>e. triple (PE e) (fail e) Q) \<Longrightarrow>
   (\<And>a. triple (PA a) (rest a) Q) \<Longrightarrow> triple P (check call fail rest) Q"
  by (fastforce simp: triple_def check_def split: prod.splits sum.splits)

lemma triple_try_wrap:
  "triple P (check call (\<lambda>e. return (Inl (Wrapped msg e))) rest) Q \<Longrightarrow> triple P (try_wrap msg call rest) Q"
  by (simp add: try_wrap_def)

lemma triple_orElse:
  "triple P (check call (\<lambda>e. return (t, Some (Wrapped msg e))) rest) Q \<Longrightarrow> triple P (orElse t msg call rest) Q"
  by (simp add: orElse_def)

lemma triple_deferRollback:
  "triple P body (\<lambda>r w. Q r (Rollback w)) \<Longrightarrow> triple P (deferRollback body) Q"
  by (fastforce simp: triple_def deferRollback_def split: prod.splits)

section \<open>Assertions on a session\<close>

definition idle :: "('s, 'r) db \<Rightarrow> ('s, 'r) world \<Rightarrow> bool" where
  "idle D w \<longleftrightarrow> tx w = None \<and> stored w = D"

definition in_tx :: "('s, 'r) db \<Rightarrow> ('s, 'r) db \<Rightarrow> ('s, 'r) world \<Rightarrow> bool" where
  "in_tx D E w \<longleftrightarrow> stored w = D \<and> tx w = Some \<lparr>tx_db = E, tx_aborted = False\<rparr>"

definition some_tx :: "('s, 'r) db \<Rightarrow> ('s, 'r) db \<Rightarrow> ('s, 'r) world \<Rightarrow> bool" where
  "some_tx D E w \<longleftrightarrow> stored w = D \<and> (\<exists>t. tx w = Some t \<and> (tx_aborted t \<or> tx_db t = E))"

definition ended :: "(('s, 'r) db \<Rightarrow> bool) \<Rightarrow> ('s, 'r) world \<Rightarrow> bool" where
  "ended R w \<longleftrightarrow> tx w = None \<and> R (stored w)"

lemma Rollback_ended [simp]: "ended R w \<Longrightarrow> ended R (Rollback w)"
  by (simp add: ended_def Rollback_def)

lemma Rollback_in_tx: "in_tx D E w \<Longrightarrow> R D \<Longrightarrow> ended R (Rollback w)"
  by (auto simp: ended_def Rollback_def in_tx_def)

lemma Rollback_some_tx: "some_tx D E w \<Longrightarrow> R D \<Longrightarrow> ended R (Rollback w)"
  by (auto simp: ended_def Rollback_def some_tx_def)

lemma idle_ended: "idle D w \<Longrightarrow> R D \<Longrightarrow> ended R w"
  by (simp add: ended_def idle_def)

lemma ended_mono: "ended R w \<Longrightarrow> (\<And>d. R d \<Longrightarrow> R' d) \<Longrightarrow> ended R' w"
  by (simp add: ended_def)

lemma in_tx_some: "in_tx D E w \<Longrightarrow> some_tx D E w"
  by (auto simp: in_tx_def some_tx_def)

lemma calls_assertions [simp]:
  "idle D (w\<lparr>calls := n\<rparr>) = idle D w" "in_tx D E (w\<lparr>calls := n\<rparr>) = in_tx D E w"
  "some_tx D E (w\<lparr>calls := n\<rparr>) = some_tx D E w" "ended R (w\<lparr>calls := n\<rparr>) = ended R w"
  by (simp_all add: idle_def in_tx_def some_tx_def ended_def)

section \<open>What the key-value store says\<close>

definition last_ingested :: "('s, 'r) db \<Rightarrow> uint32 option" where
  "last_ingested d = (case key_value_store d lastLedgerKey of None \<Rightarrow> None | Some v \<Rightarrow> ParseUint32 v)"

definition version_of :: "('s, 'r) db \<Rightarrow> int option" where
  "version_of d =
     (case key_value_store d ingestVersionKey of None \<Rightarrow> Some 0 | Some v \<Rightarrow> if v = [] then Some 0 else ParseInt32 v)"

definition latest_history :: "('s, 'r) db \<Rightarrow> uint32" where
  "latest_history d = fold max (sequences d) 0"

definition set_last :: "uint32 \<Rightarrow> ('s, 'r) db \<Rightarrow> ('s, 'r) db" where
  "set_last l d = d\<lparr>key_value_store := (key_value_store d)(lastLedgerKey \<mapsto> FormatUint32 l)\<rparr>"

definition set_version :: "('s, 'r) db \<Rightarrow> ('s, 'r) db" where
  "set_version d = d\<lparr>key_value_store := (key_value_store d)(ingestVersionKey \<mapsto> show_nat (nat (u64 CurrentVersion)))\<rparr>"

definition set_invalid :: "bool \<Rightarrow> ('s, 'r) db \<Rightarrow> ('s, 'r) db" where
  "set_invalid b d = d\<lparr>key_value_store := (key_value_store d)(stateInvalidKey \<mapsto> FormatBool b)\<rparr>"

lemmas key_defs = lastLedgerKey_def ingestVersionKey_def stateInvalidKey_def

lemma ParseUint32_Format [simp]: "ParseUint32 (FormatUint32 n) = Some n"
proof -
  have "unat n < 2 ^ 32" using unsigned_less [of n] by simp
  then show ?thesis by (simp add: ParseUint32_def FormatUint32_def)
qed

lemma ParseInt32_Current: "ParseInt32 (show_nat (nat (u64 CurrentVersion))) = Some CurrentVersion"
proof -
  have "show_nat (nat (u64 CurrentVersion)) = show_int 18"
    by (simp add: show_int_def CurrentVersion_def u64_def)
  then show ?thesis
    by (simp add: ParseInt32_def ParseInt10_show_int in_int64_def in_int32_def MaxInt64_def MinInt64_def MaxInt32_def CurrentVersion_def)
qed

lemma last_ingested_set [simp]:
  "last_ingested (set_last l d) = Some l" "last_ingested (set_version d) = last_ingested d"
  "last_ingested (set_invalid b d) = last_ingested d"
  by (simp_all add: last_ingested_def set_last_def set_version_def set_invalid_def key_defs)

lemma version_of_set [simp]:
  "version_of (set_last l d) = version_of d" "version_of (set_version d) = Some CurrentVersion"
  "version_of (set_invalid b d) = version_of d"
  using ParseInt32_Current
  by (simp_all add: version_of_def set_last_def set_version_def set_invalid_def key_defs)

lemma tables_set [simp]:
  "state_tables (set_last l d) = state_tables d" "state_tables (set_version d) = state_tables d"
  "state_tables (set_invalid b d) = state_tables d"
  "history_ledgers (set_last l d) = history_ledgers d" "history_ledgers (set_version d) = history_ledgers d"
  "history_ledgers (set_invalid b d) = history_ledgers d"
  "history_rows (set_last l d) = history_rows d" "history_rows (set_version d) = history_rows d"
  "history_rows (set_invalid b d) = history_rows d"
  by (simp_all add: set_last_def set_version_def set_invalid_def)

section \<open>Rules for the calls\<close>

lemma tripleI: "(\<And>w r w'. P w \<Longrightarrow> f w = (r, w') \<Longrightarrow> Q r w') \<Longrightarrow> triple P f Q"
  by (auto simp: triple_def)

lemma checkI:
  assumes "\<And>w. P w \<Longrightarrow> (\<exists>e w'. call w = (Inl e, w') \<and> (case fail e w' of (r, w'') \<Rightarrow> Q r w''))
                    \<or> (\<exists>a w'. call w = (Inr a, w') \<and> (case rest a w' of (r, w'') \<Rightarrow> Q r w''))"
  shows "triple P (check call fail rest) Q"
  using assms by (fastforce simp: triple_def check_def)

lemma vc_Begin [vc]:
  assumes "\<And>e. triple (idle D) (fail e) Q" "triple (in_tx D D) (rest ()) Q"
  shows "triple (idle D) (check (Begin s) fail rest) Q"
proof (rule triple_check)
  show "triple (idle D) (Begin s) (\<lambda>r. case r of Inl _ \<Rightarrow> idle D | Inr _ \<Rightarrow> in_tx D D)"
    by (auto simp: triple_def idle_def in_tx_def Begin_def Let_def split: option.splits)
qed (use assms in auto)

lemma vc_Commit [vc]:
  assumes "\<And>e. triple (ended (\<lambda>d. d = D \<or> d = E)) (fail e) Q" "triple (idle E) (rest ()) Q"
  shows "triple (in_tx D E) (check (Commit s) fail rest) Q"
proof (rule triple_check)
  show "triple (in_tx D E) (Commit s) (\<lambda>r. case r of Inl _ \<Rightarrow> ended (\<lambda>d. d = D \<or> d = E) | Inr _ \<Rightarrow> idle E)"
    by (auto simp: triple_def idle_def in_tx_def ended_def Commit_def Let_def split: option.splits)
qed (use assms in auto)

lemma vc_Commit_some [vc]:
  assumes "\<And>e. triple (ended (\<lambda>d. d = D \<or> d = E)) (fail e) Q" "triple (idle E) (rest ()) Q"
  shows "triple (some_tx D E) (check (Commit s) fail rest) Q"
proof (rule triple_check)
  show "triple (some_tx D E) (Commit s) (\<lambda>r. case r of Inl _ \<Rightarrow> ended (\<lambda>d. d = D \<or> d = E) | Inr _ \<Rightarrow> idle E)"
    by (auto simp: triple_def idle_def some_tx_def ended_def Commit_def Let_def split: option.splits)
qed (use assms in auto)

lemma conn_stmt_triple:
  assumes "f E = (a, E')"
  shows "triple (in_tx D E) (conn_stmt msg s f) (\<lambda>r. case r of Inl _ \<Rightarrow> some_tx D E | Inr b \<Rightarrow> \<lambda>w. b = a \<and> in_tx D E' w)"
  using assms by (auto simp: triple_def in_tx_def some_tx_def conn_stmt_def Let_def split: option.splits)

lemma GetRaw_triple:
  "triple (in_tx D E) (GetRaw s f) (\<lambda>r. case r of Inl _ \<Rightarrow> some_tx D E | Inr b \<Rightarrow> \<lambda>w. b = f E \<and> in_tx D E w)"
  unfolding GetRaw_def by (rule conn_stmt_triple) simp

lemma ExecRaw_triple:
  "triple (in_tx D E) (ExecRaw s f) (\<lambda>r. case r of Inl _ \<Rightarrow> some_tx D E | Inr _ \<Rightarrow> in_tx D (f E))"
  unfolding ExecRaw_def using conn_stmt_triple [of "\<lambda>d. ((), f d)" E "()" "f E" D] by simp

lemma vc_ExecRaw:
  assumes "\<And>e. triple (some_tx D E) (fail e) Q" "triple (in_tx D (f E)) (rest ()) Q"
  shows "triple (in_tx D E) (check (ExecRaw s f) fail rest) Q"
  by (rule triple_check [OF ExecRaw_triple]) (use assms in auto)

lemma updates_ExecRaw:
  "UpdateLastLedgerIngest s l = ExecRaw s (set_last l)"
  "UpdateIngestVersion s CurrentVersion = ExecRaw s set_version"
  "UpdateExpStateInvalid s b = ExecRaw s (set_invalid b)"
  by (simp_all add: UpdateLastLedgerIngest_def UpdateIngestVersion_def UpdateExpStateInvalid_def
      updateValueInStore_def set_last_def [abs_def] set_version_def [abs_def] set_invalid_def [abs_def])

lemma vc_updates [vc]:
  "\<lbrakk>\<And>e. triple (some_tx D E) (fail e) Q; triple (in_tx D (set_last l E)) (rest ()) Q\<rbrakk>
    \<Longrightarrow> triple (in_tx D E) (check (UpdateLastLedgerIngest s l) fail rest) Q"
  "\<lbrakk>\<And>e. triple (some_tx D E) (fail e) Q; triple (in_tx D (set_version E)) (rest ()) Q\<rbrakk>
    \<Longrightarrow> triple (in_tx D E) (check (UpdateIngestVersion s CurrentVersion) fail rest) Q"
  "\<lbrakk>\<And>e. triple (some_tx D E) (fail e) Q; triple (in_tx D (set_invalid b E)) (rest ()) Q\<rbrakk>
    \<Longrightarrow> triple (in_tx D E) (check (UpdateExpStateInvalid s b) fail rest) Q"
  "\<lbrakk>\<And>e. triple (some_tx D E) (fail e) Q; triple (in_tx D (E\<lparr>state_tables := tabs\<rparr>)) (rest ()) Q\<rbrakk>
    \<Longrightarrow> triple (in_tx D E) (check (TruncateIngestStateTables s tabs) fail rest) Q"
  unfolding updates_ExecRaw TruncateIngestStateTables_def
  by (rule vc_ExecRaw; simp)+

lemma getValueFromStore_triple:
  "triple (in_tx D E) (getValueFromStore s key)
     (\<lambda>r. case r of
        Inl _ \<Rightarrow> some_tx D E
      | Inr v \<Rightarrow> \<lambda>w. v = (case key_value_store E key of None \<Rightarrow> [] | Some v \<Rightarrow> v) \<and> in_tx D E w)"
  unfolding getValueFromStore_def try_wrap_def
  by (rule triple_check [OF GetRaw_triple]) (auto intro!: triple_return)

lemma pure_triple:
  "(\<And>w. P w \<Longrightarrow> c \<Longrightarrow> Q r w) \<Longrightarrow> triple (\<lambda>w. c \<and> P w) (return r) Q"
  by (rule triple_return) auto

lemma GetLastLedgerIngest_triple:
  "triple (in_tx D E) (GetLastLedgerIngest s)
     (\<lambda>r. case r of Inl _ \<Rightarrow> some_tx D E | Inr l \<Rightarrow> \<lambda>w. last_ingested E = Some l \<and> in_tx D E w)"
  unfolding GetLastLedgerIngest_def
  by (rule triple_check [OF getValueFromStore_triple])
     (auto intro!: triple_return simp: triple_def return_def parse_ledger_def last_ingested_def in_tx_some
       split: option.splits)

lemma GetIngestVersion_triple:
  "triple (in_tx D E) (GetIngestVersion s)
     (\<lambda>r. case r of Inl _ \<Rightarrow> some_tx D E | Inr i \<Rightarrow> \<lambda>w. version_of E = Some i \<and> in_tx D E w)"
proof -
  have "triple (in_tx D E) (getIntValueFromStore s ingestVersionKey)
     (\<lambda>r. case r of Inl _ \<Rightarrow> some_tx D E | Inr i \<Rightarrow> \<lambda>w. version_of E = Some i \<and> in_tx D E w)"
    unfolding getIntValueFromStore_def
    by (rule triple_check [OF getValueFromStore_triple])
       (auto intro!: triple_return simp: triple_def return_def version_of_def in_tx_some split: option.splits)
  then show ?thesis
    unfolding GetIngestVersion_def try_wrap_def
    by (rule triple_check) (auto intro!: triple_return)
qed

lemma triple_fact: "(c \<Longrightarrow> triple P f Q) \<Longrightarrow> triple (\<lambda>w. c \<and> P w) f Q"
  by (auto simp: triple_def)

text \<open>Rebuilding the trade aggregations changes rows of the history only, also when it fails halfway.\<close>

lemma GetRow_triple:
  "triple (in_tx D E) (GetRow s f) (\<lambda>r. case r of Inl _ \<Rightarrow> some_tx D E | Inr a \<Rightarrow> \<lambda>w. f E = Some a \<and> in_tx D E w)"
  unfolding GetRow_def
  by (rule triple_check [OF GetRaw_triple])
     (auto intro!: triple_return simp: triple_def return_def in_tx_some split: option.splits)

lemma triple_ex: "(\<And>x. triple (P x) f Q) \<Longrightarrow> triple (\<lambda>w. \<exists>x. P x w) f Q"
  by (rule tripleI) (blast dest: triple_use)

lemma RebuildTradeAggregationTimes_triple:
  "triple (in_tx D E) (RebuildTradeAggregationTimes s a b)
     (\<lambda>r. case r of Inl _ \<Rightarrow> \<lambda>w. \<exists>rows. some_tx D (E\<lparr>history_rows := rows\<rparr>) w | Inr _ \<Rightarrow> \<lambda>w. \<exists>rows. in_tx D (E\<lparr>history_rows := rows\<rparr>) w)"
proof -
  have "\<exists>rows. some_tx D (E\<lparr>history_rows := rows\<rparr>) w" if "some_tx D E w" for w
    using that by (intro exI [of _ "history_rows E"]) simp
  then show ?thesis
    unfolding RebuildTradeAggregationTimes_def Let_def try_wrap_def
    by (intro vc_ExecRaw triple_return) auto
qed

lemma RebuildTradeAggregationBuckets_triple:
  "triple (in_tx D E) (RebuildTradeAggregationBuckets s a b)
     (\<lambda>r. case r of Inl _ \<Rightarrow> \<lambda>w. \<exists>rows. some_tx D (E\<lparr>history_rows := rows\<rparr>) w | Inr _ \<Rightarrow> \<lambda>w. \<exists>rows. in_tx D (E\<lparr>history_rows := rows\<rparr>) w)"
    (is "triple _ _ ?Q")
proof -
  have same: "\<exists>rows. some_tx D (E\<lparr>history_rows := rows\<rparr>) w" if "some_tx D E w" for w
    using that by (intro exI [of _ "history_rows E"]) simp
  have panic: "triple (in_tx D E) (return (Inl Panic)) ?Q"
    by (rule triple_return) (simp add: same in_tx_some)
  have row: "triple (in_tx D E) (check (GetRow s f) (\<lambda>e. return (Inl (Wrapped msg e))) rest) ?Q"
    if "\<And>x. triple (in_tx D E) (rest x) ?Q" for f :: "_ \<Rightarrow> int option" and msg rest
    by (rule triple_check [OF GetRow_triple]) (use that same in \<open>auto intro: triple_return triple_fact\<close>)
  show ?thesis
    unfolding RebuildTradeAggregationBuckets_def Let_def try_wrap_def
    by (cases "ToInt64 (toid_New a 0 0)"; cases "ToInt64 (toid_New (b + 1) 0 0)")
       (simp_all add: panic row RebuildTradeAggregationTimes_triple)
qed

lemma vc_RebuildTradeAggregationBuckets [vc]:
  assumes "\<And>e rows. triple (some_tx D (E\<lparr>history_rows := rows\<rparr>)) (fail e) Q"
    and "\<And>rows. triple (in_tx D (E\<lparr>history_rows := rows\<rparr>)) (rest ()) Q"
  shows "triple (in_tx D E) (check (RebuildTradeAggregationBuckets s a b) fail rest) Q"
  by (rule triple_check [OF RebuildTradeAggregationBuckets_triple])
     (use assms in \<open>auto intro!: triple_ex\<close>)

lemma vc_getters [vc]:
  "\<lbrakk>\<And>e. triple (some_tx D E) (fail1 e) Q; \<And>l. last_ingested E = Some l \<Longrightarrow> triple (in_tx D E) (rest1 l) Q\<rbrakk>
    \<Longrightarrow> triple (in_tx D E) (check (GetLastLedgerIngest s) fail1 rest1) Q"
  "\<lbrakk>\<And>e. triple (some_tx D E) (fail2 e) Q; \<And>i. version_of E = Some i \<Longrightarrow> triple (in_tx D E) (rest2 i) Q\<rbrakk>
    \<Longrightarrow> triple (in_tx D E) (check (GetIngestVersion s) fail2 rest2) Q"
  "\<lbrakk>\<And>e. triple (some_tx D E) (fail3 e) Q; triple (in_tx D E) (rest3 (latest_history E)) Q\<rbrakk>
    \<Longrightarrow> triple (in_tx D E) (check (GetLatestHistoryLedger s) fail3 rest3) Q"
  subgoal by (rule triple_check [OF GetLastLedgerIngest_triple]) (auto intro!: triple_fact)
  subgoal by (rule triple_check [OF GetIngestVersion_triple]) (auto intro!: triple_fact)
  subgoal unfolding GetLatestHistoryLedger_def LatestLedger_def latest_history_def
    by (rule triple_check [OF GetRaw_triple]) (auto intro!: triple_fact)
  done

lemma vc_outside_call:
  assumes "\<And>w n. P w \<Longrightarrow> P (w\<lparr>calls := n\<rparr>)" "\<And>e. triple P (fail e) Q" "\<And>n. triple P (rest (f n)) Q"
  shows "triple P (check (outside_call s f) fail rest) Q"
  using assms by (auto simp: triple_def check_def outside_call_def Let_def split: option.splits)

lemma vc_outside [vc]:
  "\<lbrakk>\<And>e. triple (idle D) (fail1 e) Q; \<And>n. triple (idle D) (rest1 (f n)) Q\<rbrakk> \<Longrightarrow> triple (idle D) (check (outside_call s f) fail1 rest1) Q"
  "\<lbrakk>\<And>e. triple (in_tx D E) (fail1 e) Q; \<And>n. triple (in_tx D E) (rest1 (f n)) Q\<rbrakk> \<Longrightarrow> triple (in_tx D E) (check (outside_call s f) fail1 rest1) Q"
  "\<lbrakk>\<And>e. triple (idle D) (fail2 e) Q; triple (idle D) (rest2 (ledgerCloseMeta s l)) Q\<rbrakk> \<Longrightarrow> triple (idle D) (check (GetLedger s l) fail2 rest2) Q"
  "\<lbrakk>\<And>e. triple (in_tx D E) (fail2 e) Q; triple (in_tx D E) (rest2 (ledgerCloseMeta s l)) Q\<rbrakk> \<Longrightarrow> triple (in_tx D E) (check (GetLedger s l) fail2 rest2) Q"
  "\<lbrakk>\<And>e. triple (idle D) (fail3 e) Q; triple (idle D) (rest3 ()) Q\<rbrakk> \<Longrightarrow> triple (idle D) (check (PrepareRange s a b) fail3 rest3) Q"
  "\<lbrakk>\<And>e. triple (in_tx D E) (fail3 e) Q; triple (in_tx D E) (rest3 ()) Q\<rbrakk> \<Longrightarrow> triple (in_tx D E) (check (PrepareRange s a b) fail3 rest3) Q"
  unfolding GetLedger_def PrepareRange_def by (rule vc_outside_call; simp)+

lemma vc_runner_call [vc]:
  assumes "\<And>e d' n e'. f n E = (d', Some e') \<Longrightarrow> triple (some_tx D d') (fail e) Q"
    and "\<And>d' n. f n E = (d', None) \<Longrightarrow> triple (in_tx D d') (rest ()) Q"
  shows "triple (in_tx D E) (check (runner_call f) fail rest) Q"
proof (rule tripleI)
  fix w r w'
  assume w: "in_tx D E w" and r: "check (runner_call f) fail rest w = (r, w')"
  obtain d' x where d': "f (calls w) E = (d', x)" by force
  show "Q r w'"
  proof (cases x)
    case None
    let ?w = "w\<lparr>calls := calls w + 1, tx := Some \<lparr>tx_db = d', tx_aborted = False\<rparr>\<rparr>"
    have "rest () ?w = (r, w')" "in_tx D d' ?w"
      using None w d' r by (auto simp: check_def runner_call_def Let_def in_tx_def)
    with assms(2) None d' show ?thesis by (auto dest!: triple_use)
  next
    case (Some p)
    let ?w = "w\<lparr>calls := calls w + 1, tx := Some \<lparr>tx_db = d', tx_aborted = snd p\<rparr>\<rparr>"
    have "fail (fst p) ?w = (r, w')" "some_tx D d' ?w"
      using Some w d' r by (auto simp: check_def runner_call_def Let_def in_tx_def some_tx_def split: prod.splits)
    moreover have "triple (some_tx D d') (fail (fst p)) Q" using assms(1) Some d' by blast
    ultimately show ?thesis by (blast dest: triple_use)
  qed
qed

lemma completeIngestion_triple:
  "triple (in_tx D E) (completeIngestion s l)
     (\<lambda>r. case r of
        Inl _ \<Rightarrow> (\<lambda>w. some_tx D E w \<or> ended (\<lambda>d. d = D \<or> l \<noteq> 0 \<and> d = set_last l E) w)
      | Inr _ \<Rightarrow> (\<lambda>w. l \<noteq> 0 \<and> idle (set_last l E) w))"
  unfolding completeIngestion_def try_wrap_def
  by (intro triple_if triple_return vc) (auto simp: in_tx_some ended_def)

lemma vc_completeIngestion [vc]:
  assumes "\<And>e. triple (some_tx D E) (fail e) Q"
    and "\<And>e. l \<noteq> 0 \<Longrightarrow> triple (ended (\<lambda>d. d = D \<or> d = set_last l E)) (fail e) Q"
    and "\<And>e. triple (idle D) (fail e) Q"
    and "l \<noteq> 0 \<Longrightarrow> triple (idle (set_last l E)) (rest ()) Q"
  shows "triple (in_tx D E) (check (completeIngestion s l) fail rest) Q"
proof (rule triple_check [OF completeIngestion_triple])
  fix e
  show "triple (\<lambda>w. some_tx D E w \<or> ended (\<lambda>d. d = D \<or> l \<noteq> 0 \<and> d = set_last l E) w) (fail e) Q"
    using assms(1-3) [of e] by (cases "l = 0") (auto simp: triple_def ended_def idle_def)
qed (use assms(4) in \<open>auto intro!: triple_fact\<close>)

lemma vc_maybePrepareRange [vc]:
  assumes "\<And>e. triple (idle D) (fail e) Q" "triple (idle D) (rest ()) Q"
  shows "triple (idle D) (check (maybePrepareRange s l) fail rest) Q"
proof (rule triple_check)
  show "triple (idle D) (maybePrepareRange s l) (\<lambda>r. case r of Inl _ \<Rightarrow> idle D | Inr _ \<Rightarrow> idle D)"
    unfolding maybePrepareRange_def try_wrap_def by (intro triple_if triple_return vc) auto
qed (use assms in auto)

lemma GetExpStateInvalid_idle:
  "triple (idle D) (GetExpStateInvalid s) (\<lambda>r. case r of Inl _ \<Rightarrow> idle D | Inr _ \<Rightarrow> idle D)"
proof -
  have "triple (idle D) (getValueFromStore s k) (\<lambda>r. case r of Inl _ \<Rightarrow> idle D | Inr _ \<Rightarrow> idle D)" for k
    by (auto simp: triple_def idle_def getValueFromStore_def try_wrap_def check_def GetRaw_def conn_stmt_def Let_def return_def
        split: option.splits)
  then show ?thesis
    unfolding GetExpStateInvalid_def
    by (rule triple_check) (auto simp: triple_def return_def split: option.splits)
qed

lemma maybeVerifyState_triple: "triple (idle D) (maybeVerifyState s l) (\<lambda>_. idle D)"
  unfolding maybeVerifyState_def
  by (rule triple_check [OF GetExpStateInvalid_idle]) (auto simp: triple_def return_def idle_def)

text \<open>Only the rows of the history may change when lookup tables are reaped.\<close>

lemma maybeReapLookupTables_triple:
  "triple (idle D) (maybeReapLookupTables s l) (\<lambda>_. ended (\<lambda>d. \<exists>rows. d = D\<lparr>history_rows := rows\<rparr>))"
proof -
  let ?Q = "\<lambda>d. \<exists>rows. d = D\<lparr>history_rows := rows\<rparr>"
  have D: "?Q D" by (rule exI [of _ "history_rows D"]) simp
  have body: "triple (in_tx D D)
      (check (\<lambda>w. ExecRaw s (\<lambda>d. d\<lparr>history_rows := ReapLookupTables s (calls w) (history_rows d)\<rparr>) w) (\<lambda>_. return ())
        (\<lambda>_. check (Commit s) (\<lambda>_. return ()) (\<lambda>_. return ()))) (\<lambda>_ w. ended ?Q (Rollback w))"
    by (auto simp: triple_def check_def return_def ExecRaw_def conn_stmt_def Commit_def Rollback_def in_tx_def ended_def Let_def D
        split: option.splits)
  show ?thesis
    unfolding maybeReapLookupTables_def
    by (intro triple_if triple_return vc triple_deferRollback body)
       (auto intro: idle_ended Rollback_some_tx simp: D)
qed

lemma markStateInvalid_triple:
  "triple (idle D) (markStateInvalid s) (\<lambda>_. ended (\<lambda>d. d = D \<or> d = set_invalid True D))"
  unfolding markStateInvalid_def updates_ExecRaw
  by (auto simp: triple_def check_def return_def ExecRaw_def conn_stmt_def idle_def ended_def Let_def split: option.splits)

section \<open>What a state does to the database\<close>

lemma Rollback_idle: "idle D w \<Longrightarrow> R D \<Longrightarrow> ended R (Rollback w)"
  by (simp add: ended_def Rollback_def idle_def)

lemma Rollback_ended_mono: "ended R w \<Longrightarrow> (\<And>d. R d \<Longrightarrow> R' d) \<Longrightarrow> ended R' (Rollback w)"
  by (simp add: ended_def Rollback_def)

lemmas rollback = Rollback_in_tx Rollback_some_tx Rollback_idle Rollback_ended_mono idle_ended

definition start_post :: "('s, 'r) db \<Rightarrow> outcome \<Rightarrow> ('s, 'r) db \<Rightarrow> bool" where
  "start_post D r d \<longleftrightarrow> d = D \<or> d = set_last 0 D"

lemma start_triple: "triple (idle D) (start_run s c) (\<lambda>r. ended (start_post D r))"
  unfolding start_run_def orElse_def Let_def
  by (intro triple_if triple_return vc triple_deferRollback)
     (auto simp: start_post_def intro: rollback)

definition archive_state :: "('m, 'h, 's, 'r) system \<Rightarrow> uint32 \<Rightarrow> ('s, 'r) db \<Rightarrow> ('s, 'r) db \<Rightarrow> bool" where
  "archive_state s c D d \<longleftrightarrow>
     (\<exists>skip pv h n d1. RunHistoryArchiveIngestion s c skip pv h n
        ((set_invalid False (set_last 0 D))\<lparr>state_tables := emptyStateTables s\<rparr>) = (d1, None)
      \<and> d = set_last c (set_version d1))"

definition build_post :: "('m, 'h, 's, 'r) system \<Rightarrow> uint32 \<Rightarrow> ('s, 'r) db \<Rightarrow> ('s, 'r) db \<Rightarrow> bool" where
  "build_post s c D d \<longleftrightarrow> d = D \<or> c \<noteq> 0 \<and> archive_state s c D d"

lemma build_tx_triple:
  "triple (idle D) (build_tx s c skip stp t pv h) (\<lambda>_. ended (build_post s c D))"
proof -
  let ?E = "(set_invalid False (set_last 0 D))\<lparr>state_tables := emptyStateTables s\<rparr>"
  have D: "build_post s c D D" by (simp add: build_post_def)
  have A: "build_post s c D (set_last c (set_version d1))"
    if "c \<noteq> 0" "(if c = 1 then RunHistoryArchiveIngestion s 1 False 0 (zeroHash s)
        else RunHistoryArchiveIngestion s c skip pv h) n ?E = (d1, None)" for n d1
    using that unfolding build_post_def archive_state_def by (cases "c = 1") fastforce+
  show ?thesis
    unfolding build_tx_def orElse_def
    by (intro triple_if triple_return vc triple_deferRollback)
       ((erule rollback; use D A in blast)+)
qed

lemma build_triple: "triple (idle D) (build_run s c skip stp) (\<lambda>_. ended (build_post s c D))"
  unfolding build_run_def orElse_def Let_def
  by (intro triple_if triple_return vc build_tx_triple) (auto simp: build_post_def intro: rollback)

definition ingest_ledger :: "('m, 'h, 's, 'r) system \<Rightarrow> uint32 \<Rightarrow> ('s, 'r) db \<Rightarrow> ('s, 'r) db \<Rightarrow> bool" where
  "ingest_ledger s l D d \<longleftrightarrow>
     (\<exists>n d1 rows. RunAllProcessorsOnLedger s (ledgerCloseMeta s l) n D = (d1, None)
        \<and> d = (set_last l d1)\<lparr>history_rows := rows\<rparr>)"

definition resume_post :: "('m, 'h, 's, 'r) system \<Rightarrow> uint32 \<Rightarrow> ('s, 'r) db \<Rightarrow> ('s, 'r) db \<Rightarrow> bool" where
  "resume_post s latest D d \<longleftrightarrow> d = D \<or>
     latest \<noteq> 0 \<and> latest + 1 \<noteq> 0 \<and> last_ingested D = Some latest \<and> version_of D = Some CurrentVersion
     \<and> (latest_history D = 0 \<or> latest_history D = latest) \<and> ingest_ledger s (latest + 1) D d"

lemma word_next_unique: "\<not> b + 1 < a \<Longrightarrow> \<not> a \<le> b \<Longrightarrow> a = b + (1 :: 'a::len word)"
  by (metis inc_le linorder_not_le order_antisym)

lemma set_last_rows: "set_last l (d\<lparr>history_rows := r\<rparr>) = (set_last l d)\<lparr>history_rows := r\<rparr>"
  by (simp add: set_last_def)

lemma resume_tail_triple:
  "triple (idle E) (\<lambda>w. case maybeVerifyState s l w of (_, w1) \<Rightarrow>
     (case maybeReapLookupTables s l w1 of (_, w2) \<Rightarrow> (r, w2))) (\<lambda>_. ended (\<lambda>d. \<exists>rows. d = E\<lparr>history_rows := rows\<rparr>))"
  by (rule tripleI)
     (auto split: prod.splits dest: triple_use [OF maybeVerifyState_triple] triple_use [OF maybeReapLookupTables_triple])

lemma resume_triple: "triple (idle D) (resume_run s l) (\<lambda>_. ended (resume_post s l D))"
proof -
  have ok: "resume_post s l D ((set_last (l + 1) d1)\<lparr>history_rows := rows\<rparr>)"
    if "l \<noteq> 0" "l + 1 \<noteq> 0" "\<not> a + 1 < l + 1" "\<not> l + 1 \<le> a" "last_ingested D = Some a"
      "version_of D = Some CurrentVersion" "\<not> (latest_history D \<noteq> 0 \<and> latest_history D \<noteq> a)"
      "RunAllProcessorsOnLedger s (ledgerCloseMeta s (l + 1)) n D = (d1, None)" for a d1 n rows
  proof -
    have "l = a" using word_next_unique [of a "l + 1"] that by simp
    with that show ?thesis unfolding resume_post_def ingest_ledger_def by blast
  qed
  have D: "resume_post s l D D" by (simp add: resume_post_def)
  show ?thesis
    unfolding resume_run_def orElse_def Let_def
    by (intro triple_if triple_return vc triple_deferRollback triple_post [OF resume_tail_triple])
       ((erule rollback; use D ok in \<open>auto simp: set_last_rows\<close>)+)
qed

text \<open>
  \<open>batches s D ls d\<close>: the transaction processors have run on the ledgers \<open>ls\<close>, in batches, and made \<open>d\<close>
  of \<open>D\<close>.
\<close>

inductive batches :: "('m, 'h, 's, 'r) system \<Rightarrow> ('s, 'r) db \<Rightarrow> uint32 list \<Rightarrow> ('s, 'r) db \<Rightarrow> bool" for s D where
  no_batch: "batches s D [] D"
| a_batch: "batches s D ls E \<Longrightarrow> RunTransactionProcessorsOnLedgers s (map (ledgerCloseMeta s) ls') n E = (E', None)
     \<Longrightarrow> batches s D (ls @ ls') E'"

definition range_list :: "uint32 \<Rightarrow> nat \<Rightarrow> uint32 list" where
  "range_list fromLedger k = map (\<lambda>i. fromLedger + of_nat i) [0..<k]"

lemma range_list_Suc: "range_list l (Suc k) = range_list l k @ [l + of_nat k]"
  by (simp add: range_list_def)

lemma vc_process_batch [vc]:
  assumes "\<And>e d' n e'. RunTransactionProcessorsOnLedgers s ls n E = (d', Some e') \<Longrightarrow> triple (some_tx D d') (fail e) Q"
    and "\<And>d' n. RunTransactionProcessorsOnLedgers s ls n E = (d', None) \<Longrightarrow> triple (in_tx D d') (rest ()) Q"
  shows "triple (in_tx D E) (check (process_batch s ls) fail rest) Q"
proof -
  have "check (process_batch s ls) fail rest = check (runner_call (RunTransactionProcessorsOnLedgers s ls)) (\<lambda>e. fail (Wrapped (batch_error s ls) e)) rest"
    by (rule ext) (auto simp: process_batch_def try_wrap_def check_def return_def split: prod.splits sum.splits)
  with assms show ?thesis by (auto intro: vc_runner_call)
qed

definition prefix_ingested :: "('m, 'h, 's, 'r) system \<Rightarrow> uint32 \<Rightarrow> nat \<Rightarrow> ('s, 'r) db \<Rightarrow> ('s, 'r) db \<Rightarrow> bool" where
  "prefix_ingested s fromLedger n D d \<longleftrightarrow> (\<exists>k \<le> n. batches s D (range_list fromLedger k) d)"

lemma prefix_none: "prefix_ingested s l n D D"
  unfolding prefix_ingested_def by (rule exI [of _ 0]) (simp add: range_list_def no_batch)

text \<open>
  Between the iterations the ledgers \<open>ls\<close> are ingested and \<open>ls'\<close> are waiting for their batch. An error of
  the backend commits the former.
\<close>

definition loop_failed :: "('m, 'h, 's, 'r) system \<Rightarrow> uint32 \<Rightarrow> nat \<Rightarrow> ('s, 'r) db \<Rightarrow> ('s, 'r) world \<Rightarrow> bool" where
  "loop_failed s l n D w \<longleftrightarrow> (\<exists>E. some_tx D E w) \<or> ended (prefix_ingested s l n D) w"

definition loop_done ::
    "('m, 'h, 's, 'r) system \<Rightarrow> uint32 \<Rightarrow> nat \<Rightarrow> uint32 \<Rightarrow> ('s, 'r) db \<Rightarrow> ('s, 'r) db \<Rightarrow> 'm list \<Rightarrow> ('s, 'r) world \<Rightarrow> bool" where
  "loop_done s l n toLedger D B ledgers w \<longleftrightarrow>
     (\<exists>E ls ls' k. in_tx D E w \<and> batches s B ls E \<and> ls @ ls' = range_list l k \<and> ledgers = map (ledgerCloseMeta s) ls'
        \<and> k \<le> n \<and> \<not> l + of_nat k \<le> toLedger)"

lemma loop_failedI: "some_tx D E w \<Longrightarrow> loop_failed s l n D w" "in_tx D E w \<Longrightarrow> loop_failed s l n D w"
  unfolding loop_failed_def by (blast intro: in_tx_some)+

lemma loop_doneI:
  "in_tx D E w \<Longrightarrow> batches s B ls E \<Longrightarrow> ls @ ls' = range_list l k \<Longrightarrow> k \<le> n \<Longrightarrow> \<not> l + of_nat k \<le> toLedger
    \<Longrightarrow> loop_done s l n toLedger D B (map (ledgerCloseMeta s) ls') w"
  unfolding loop_done_def by blast

lemma prefix_of_range: "ls @ ls' = range_list l k \<Longrightarrow> \<exists>j \<le> k. ls = range_list l j"
proof (intro exI conjI)
  assume e: "ls @ ls' = range_list l k"
  then show "length ls \<le> k" by (metis append_eq_conv_conj length_append length_map length_upt diff_zero le_add1 range_list_def)
  from e have "ls = take (length ls) (range_list l k)" by (metis append_eq_conv_conj)
  with \<open>length ls \<le> k\<close> show "ls = range_list l (length ls)" by (simp add: range_list_def take_map)
qed

lemma historyRange_loop_triple:
  assumes "batches s D ls E" "ls @ ls' = range_list l k" "cur = l + of_nat k" "k + fuel = n"
  shows "triple (in_tx D E) (historyRange_loop s toLedger fuel cur (map (ledgerCloseMeta s) ls'))
     (\<lambda>r. case r of Inl _ \<Rightarrow> loop_failed s l n D | Inr ledgers \<Rightarrow> loop_done s l n toLedger D D ledgers)"
  using assms
proof (induction fuel arbitrary: ls E ls' k cur)
  case 0
  then show ?case
    by (auto intro!: triple_return intro: loop_failedI loop_doneI)
next
  case (Suc fuel)
  let ?post = "\<lambda>r. case r of Inl _ \<Rightarrow> loop_failed s l n D | Inr ledgers \<Rightarrow> loop_done s l n toLedger D D ledgers"
  have nxt: "ls @ ls' @ [cur] = range_list l (Suc k)" "cur + 1 = l + of_nat (Suc k)" "Suc k + fuel = n"
    using Suc.prems by (simp_all add: range_list_Suc flip: append_assoc)
  obtain j where j: "j \<le> k" "ls = range_list l j" using prefix_of_range [OF Suc.prems(2)] by blast
  have commit: "triple (in_tx D E) (\<lambda>w. case Commit s w of (_, w') \<Rightarrow> (Inl (Wrapped m e), w')) ?post" for m e
  proof -
    have "prefix_ingested s l n D E"
      using Suc.prems(1,4) j unfolding prefix_ingested_def by (intro exI [of _ j]) auto
    then show ?thesis
      by (auto simp: triple_def loop_failed_def in_tx_def ended_def Commit_def Let_def prefix_none split: option.splits)
  qed
  have flush: "triple (in_tx D d') (historyRange_loop s toLedger fuel (cur + 1) []) ?post"
    if "RunTransactionProcessorsOnLedgers s (map (ledgerCloseMeta s) (ls' @ [cur])) m E = (d', None)" for m d'
    using Suc.IH [OF a_batch [OF Suc.prems(1) that] _ nxt(2,3), of "[]"] nxt(1) by simp
  have keep: "triple (in_tx D E) (historyRange_loop s toLedger fuel (cur + 1) (map (ledgerCloseMeta s) (ls' @ [cur]))) ?post"
    by (rule Suc.IH [OF Suc.prems(1) nxt(1) nxt(2,3)])
  show ?case
    unfolding historyRange_loop.simps Let_def
    using commit flush keep Suc.prems
    by (intro triple_if triple_return vc) (auto intro: loop_failedI loop_doneI)
qed

definition historyRange_post :: "('m, 'h, 's, 'r) system \<Rightarrow> uint32 \<Rightarrow> uint32 \<Rightarrow> ('s, 'r) db \<Rightarrow> ('s, 'r) db \<Rightarrow> bool" where
  "historyRange_post s l toLedger D d \<longleftrightarrow> d = D \<or>
     l \<noteq> 0 \<and> l \<le> toLedger \<and> latest_history D = l - 1 \<and> prefix_ingested s l (range_fuel l toLedger) D d"

lemma vc_loop:
  assumes "triple P call (\<lambda>r. case r of Inl _ \<Rightarrow> F | Inr a \<Rightarrow> G a)" "\<And>e. triple F (fail e) Q" "\<And>a. triple (G a) (rest a) Q"
  shows "triple P (check call fail rest) Q"
  using assms(1) by (rule triple_check) (use assms(2,3) in auto)

lemma loop_done_end:
  assumes "\<And>E ls ls' k. batches s B ls E \<Longrightarrow> ls @ ls' = range_list l k \<Longrightarrow> k \<le> n \<Longrightarrow> \<not> l + of_nat k \<le> toLedger
     \<Longrightarrow> ledgers = map (ledgerCloseMeta s) ls' \<Longrightarrow> triple (in_tx D E) f Q"
  shows "triple (loop_done s l n toLedger D B ledgers) f Q"
proof (rule tripleI)
  fix w r w'
  assume "loop_done s l n toLedger D B ledgers w" and f: "f w = (r, w')"
  then obtain E ls ls' k where "in_tx D E w" "batches s B ls E" "ls @ ls' = range_list l k"
    "ledgers = map (ledgerCloseMeta s) ls'" "k \<le> n" "\<not> l + of_nat k \<le> toLedger"
    unfolding loop_done_def by blast
  with assms f show "Q r w'" by (blast dest: triple_use)
qed

text \<open>The last batch, which may be empty.\<close>

lemma vc_last_batch:
  assumes "batches s B ls E" "ls @ ls' = range_list l k"
    and "\<And>e d' n e'. RunTransactionProcessorsOnLedgers s (map (ledgerCloseMeta s) ls') n E = (d', Some e') \<Longrightarrow> triple (some_tx D d') (fail e) Q"
    and "\<And>d'. batches s B (range_list l k) d' \<Longrightarrow> triple (in_tx D d') (rest ()) Q"
  shows "triple (in_tx D E)
     (check (if length (map (ledgerCloseMeta s) ls') > 0 then process_batch s (map (ledgerCloseMeta s) ls') else return (Inr ())) fail rest) Q"
proof (cases "ls' = []")
  case True
  with assms have "triple (in_tx D E) (rest ()) Q" by simp
  with True show ?thesis by (simp add: check_def return_def triple_def)
next
  case False
  have "triple (in_tx D E) (check (process_batch s (map (ledgerCloseMeta s) ls')) fail rest) Q"
    using assms(3,4) a_batch [OF assms(1), where ls' = ls', unfolded assms(2)] by (intro vc) blast+
  with False show ?thesis by simp
qed

lemma historyRange_triple: "triple (idle D) (historyRange_run s l toLedger) (\<lambda>_. ended (historyRange_post s l toLedger D))"
proof -
  let ?n = "range_fuel l toLedger" and ?post = "historyRange_post s l toLedger D"
  have D: "?post D" by (simp add: historyRange_post_def)
  have body: "triple (in_tx D D)
     (check (historyRange_loop s toLedger ?n l []) (\<lambda>e. return (start, Some e)) (\<lambda>ledgers.
      check (if length ledgers > 0 then process_batch s ledgers else return (Inr ())) (\<lambda>e. return (start, Some e)) (\<lambda>_.
      check (Commit s) (\<lambda>e. return (start, Some (Wrapped commitErrMsg e))) (\<lambda>_. return (start, None)))))
     (\<lambda>_ w. ended ?post (Rollback w))"
    if g: "l \<noteq> 0" "\<not> toLedger < l" "latest_history D = l - 1"
  proof -
    have ok: "?post d" if "prefix_ingested s l ?n D d" for d
      using that g by (simp add: historyRange_post_def linorder_not_less)
    have pre: "prefix_ingested s l ?n D d" if "batches s D (range_list l k) d" "k \<le> ?n" for k d
      using that unfolding prefix_ingested_def by blast
    show ?thesis
    proof (rule vc_loop [OF historyRange_loop_triple [of s D "[]" D "[]" l 0 l ?n ?n, simplified]])
      show "batches s D [] D" by (rule no_batch)
      show "[] = range_list l 0" by (simp add: range_list_def)
      show "triple (loop_failed s l ?n D) (return (start, Some e)) (\<lambda>_ w. ended ?post (Rollback w))" for e
        by (rule triple_return) (auto simp: loop_failed_def intro: rollback D ok)
    next
      fix ledgers
      show "triple (loop_done s l ?n toLedger D D ledgers)
        (check (if length ledgers > 0 then process_batch s ledgers else return (Inr ())) (\<lambda>e. return (start, Some e)) (\<lambda>_.
          check (Commit s) (\<lambda>e. return (start, Some (Wrapped commitErrMsg e))) (\<lambda>_. return (start, None))))
        (\<lambda>_ w. ended ?post (Rollback w))"
        by (rule loop_done_end, simp only:, erule vc_last_batch, assumption)
           (intro triple_return vc; erule rollback; use D ok pre in blast)+
    qed
  qed
  show ?thesis
    unfolding historyRange_run_def orElse_def
    by (intro triple_if triple_return vc triple_deferRollback body) (use D in \<open>auto intro: rollback\<close>)
qed

subsection \<open>Reingestion\<close>

definition delete_all :: "int \<Rightarrow> int \<Rightarrow> ('s, 'r) db \<Rightarrow> ('s, 'r) db" where
  "delete_all i j d = fold (delete_rows i j) history_tables d"

lemma vc_DeleteRangeAll [vc]:
  assumes "\<And>e. triple (some_tx D E) (fail e) Q" "triple (in_tx D (delete_all i j E)) (rest ()) Q"
  shows "triple (in_tx D E) (check (DeleteRangeAll s i j) fail rest) Q"
proof -
  have "triple (in_tx D E) (DeleteRange_tables s i j ts)
     (\<lambda>r. case r of Inl _ \<Rightarrow> (\<lambda>w. \<exists>t. stored w = D \<and> tx w = Some t \<and> tx_aborted t) | Inr _ \<Rightarrow> in_tx D (fold (delete_rows i j) ts E))"
    for ts
  proof (induction ts arbitrary: E)
    case (Cons t ts)
    have "triple (in_tx D E) (DeleteRange s i j t)
       (\<lambda>r. case r of Inl _ \<Rightarrow> (\<lambda>w. \<exists>t. stored w = D \<and> tx w = Some t \<and> tx_aborted t) | Inr _ \<Rightarrow> in_tx D (delete_rows i j t E))"
      by (auto simp: triple_def DeleteRange_def ExecRaw_def conn_stmt_def in_tx_def Let_def split: option.splits)
    then show ?case
      unfolding DeleteRange_tables.simps try_wrap_def
      by (rule triple_check) (use Cons in \<open>auto intro!: triple_return\<close>)
  qed (auto intro!: triple_return)
  from this [of history_tables] show ?thesis
    unfolding DeleteRangeAll_def
  proof (rule triple_check)
    show "triple (\<lambda>w. \<exists>t. stored w = D \<and> tx w = Some t \<and> tx_aborted t) (fail e) Q" for e
      by (rule triple_pre [OF assms(1)]) (auto simp: some_tx_def)
  qed (use assms(2) in \<open>simp add: delete_all_def\<close>)
qed

text \<open>What is in the working copy when reingestion fails after the deletion.\<close>

definition partly_ingested :: "('m, 'h, 's, 'r) system \<Rightarrow> uint32 \<Rightarrow> nat \<Rightarrow> ('s, 'r) db \<Rightarrow> ('s, 'r) db \<Rightarrow> bool" where
  "partly_ingested s l n B d \<longleftrightarrow>
     (\<exists>k \<le> n. \<exists>E. batches s B (range_list l k) E \<and>
        (d = E \<or> (\<exists>ls m e. RunTransactionProcessorsOnLedgers s (map (ledgerCloseMeta s) ls) m E = (d, Some e))))"

lemma partly_ingestedI:
  assumes "batches s B ls E" "ls @ ls' = range_list l k" "k \<le> n"
  shows "partly_ingested s l n B E"
    and "RunTransactionProcessorsOnLedgers s (map (ledgerCloseMeta s) ms) m E = (d, Some e) \<Longrightarrow> partly_ingested s l n B d"
proof -
  obtain j where j: "j \<le> k" "ls = range_list l j" using prefix_of_range [OF assms(2)] by blast
  then have "j \<le> n" "batches s B (range_list l j) E" using assms by auto
  then show "partly_ingested s l n B E"
    and "RunTransactionProcessorsOnLedgers s (map (ledgerCloseMeta s) ms) m E = (d, Some e) \<Longrightarrow> partly_ingested s l n B d"
    unfolding partly_ingested_def by blast+
qed

definition failed_at :: "('m, 'h, 's, 'r) system \<Rightarrow> uint32 \<Rightarrow> nat \<Rightarrow> ('s, 'r) db \<Rightarrow> ('s, 'r) db \<Rightarrow> ('s, 'r) world \<Rightarrow> bool" where
  "failed_at s l n D B w \<longleftrightarrow> (\<exists>E. partly_ingested s l n B E \<and> some_tx D E w)"

lemma failed_atI:
  "some_tx D E w \<Longrightarrow> partly_ingested s l n B E \<Longrightarrow> failed_at s l n D B w"
  "in_tx D E w \<Longrightarrow> partly_ingested s l n B E \<Longrightarrow> failed_at s l n D B w"
  unfolding failed_at_def by (blast intro: in_tx_some)+

lemma ingestRange_loop_triple:
  assumes "batches s B ls E" "ls @ ls' = range_list l k" "cur = l + of_nat k" "k + fuel = n"
  shows "triple (in_tx D E) (ingestRange_loop s toLedger fuel cur (map (ledgerCloseMeta s) ls'))
     (\<lambda>r. case r of Inl _ \<Rightarrow> failed_at s l n D B | Inr ledgers \<Rightarrow> loop_done s l n toLedger D B ledgers)"
  using assms
proof (induction fuel arbitrary: ls E ls' k cur)
  case 0
  then have "partly_ingested s l n B E" using partly_ingestedI(1) [of s B ls E ls' l k n] by simp
  with 0 show ?case
    by (auto intro!: triple_return intro: failed_atI loop_doneI)
next
  case (Suc fuel)
  let ?post = "\<lambda>r. case r of Inl _ \<Rightarrow> failed_at s l n D B | Inr ledgers \<Rightarrow> loop_done s l n toLedger D B ledgers"
  have nxt: "ls @ ls' @ [cur] = range_list l (Suc k)" "cur + 1 = l + of_nat (Suc k)" "Suc k + fuel = n"
    using Suc.prems by (simp_all add: range_list_Suc flip: append_assoc)
  have flush: "triple (in_tx D d') (ingestRange_loop s toLedger fuel (cur + 1) []) ?post"
    if "RunTransactionProcessorsOnLedgers s (map (ledgerCloseMeta s) (ls' @ [cur])) m E = (d', None)" for m d'
    using Suc.IH [OF a_batch [OF Suc.prems(1) that] _ nxt(2,3), of "[]"] nxt(1) by simp
  have keep: "triple (in_tx D E) (ingestRange_loop s toLedger fuel (cur + 1) (map (ledgerCloseMeta s) (ls' @ [cur]))) ?post"
    by (rule Suc.IH [OF Suc.prems(1) nxt(1) nxt(2,3)])
  have p: "partly_ingested s l n B E" using partly_ingestedI(1) [OF Suc.prems(1,2)] Suc.prems(4) by simp
  have pr: "partly_ingested s l n B d" if "RunTransactionProcessorsOnLedgers s (map (ledgerCloseMeta s) (ls' @ [cur])) m E = (d, Some e)" for m d e
    using partly_ingestedI(2) [OF Suc.prems(1,2) _ that] Suc.prems(4) by simp
  show ?case
    unfolding ingestRange_loop.simps Let_def try_wrap_def
    using flush keep p pr Suc.prems
    by (intro triple_if triple_return vc) (auto intro: failed_atI loop_doneI)
qed

lemma check_return: "check f (\<lambda>e. return (Inl e)) (\<lambda>_. return (Inr ())) = f"
  by (rule ext) (auto simp: check_def return_def split: prod.splits sum.splits)

lemma unat_add_nat: "unat l + k < 2 ^ 32 \<Longrightarrow> unat (l + of_nat k :: uint32) = unat l + k"
  by (simp add: unat_word_ariths unat_of_nat mod_add_right_eq)

lemma range_full: "k \<le> range_fuel l toLedger \<Longrightarrow> \<not> l + of_nat k \<le> toLedger \<Longrightarrow> k = range_fuel l toLedger"
proof (rule ccontr)
  assume k: "k \<le> range_fuel l toLedger" "\<not> l + of_nat k \<le> toLedger" "k \<noteq> range_fuel l toLedger"
  have "unat toLedger < 2 ^ 32" using unsigned_less [of toLedger] by simp
  with k(1,3) have "unat (l + of_nat k) \<le> unat toLedger"
    by (subst unat_add_nat) (simp_all add: range_fuel_def)
  with k(2) show False by (simp add: word_le_nat_alt)
qed

definition reingested :: "('m, 'h, 's, 'r) system \<Rightarrow> uint32 \<Rightarrow> uint32 \<Rightarrow> ('s, 'r) db \<Rightarrow> ('s, 'r) db \<Rightarrow> bool" where
  "reingested s l toLedger D d \<longleftrightarrow>
     (\<exists>i j. LedgerRangeInclusive l toLedger = Inr (i, j)
        \<and> batches s (delete_all (sint i) (sint j) D) (range_list l (range_fuel l toLedger)) d)"

definition partly_reingested :: "('m, 'h, 's, 'r) system \<Rightarrow> uint32 \<Rightarrow> uint32 \<Rightarrow> ('s, 'r) db \<Rightarrow> ('s, 'r) db \<Rightarrow> bool" where
  "partly_reingested s l toLedger D d \<longleftrightarrow>
     (\<exists>i j. LedgerRangeInclusive l toLedger = Inr (i, j)
        \<and> partly_ingested s l (range_fuel l toLedger) (delete_all (sint i) (sint j) D) d)"

lemma ingestRange_body_triple:
  fixes l toLedger
  defines "n \<equiv> range_fuel l toLedger"
  shows "triple (in_tx D E)
     (check (DeleteRangeAll s i j) (\<lambda>e. return (Inl (Wrapped m e))) (\<lambda>_.
      check (ingestRange_loop s toLedger n l []) (\<lambda>e. return (Inl e)) (\<lambda>ledgers.
      if length ledgers > 0 then process_batch s ledgers else return (Inr ()))))
     (\<lambda>r. case r of
        Inl _ \<Rightarrow> \<lambda>w. some_tx D E w \<or> failed_at s l n D (delete_all i j E) w
      | Inr _ \<Rightarrow> \<lambda>w. \<exists>d. batches s (delete_all i j E) (range_list l n) d \<and> in_tx D d w)"
    (is "triple _ _ ?post")
proof (intro vc triple_return)
  let ?B = "delete_all i j E"
  show "?post (Inl (Wrapped m e)) w" if "some_tx D E w" for w e using that by simp
  have last: "triple (in_tx D F) (if length ledgers > 0 then process_batch s ledgers else return (Inr ())) ?post"
    if b: "batches s ?B ls F" "ls @ ls' = range_list l k" and k: "k \<le> n" "\<not> l + of_nat k \<le> toLedger"
      and ledgers: "ledgers = map (ledgerCloseMeta s) ls'" for F ls ls' k ledgers
  proof -
    have "k = n" using k by (simp add: n_def range_full)
    have "triple (in_tx D F) (check (if length ledgers > 0 then process_batch s ledgers else return (Inr ()))
        (\<lambda>e. return (Inl e)) (\<lambda>_. return (Inr ()))) ?post"
      unfolding ledgers
    proof (rule vc_last_batch [OF b]; intro triple_return)
      fix e d' m e' w
      assume "RunTransactionProcessorsOnLedgers s (map (ledgerCloseMeta s) ls') m F = (d', Some e')" "some_tx D d' w"
      then show "?post (Inl e) w" using partly_ingestedI(2) [OF b k(1)] by (simp add: failed_atI(1))
    qed (use \<open>k = n\<close> in auto)
    then show ?thesis by (simp only: check_return)
  qed
  show "triple (in_tx D ?B) (check (ingestRange_loop s toLedger n l []) (\<lambda>e. return (Inl e)) (\<lambda>ledgers.
      if length ledgers > 0 then process_batch s ledgers else return (Inr ()))) ?post"
  proof (rule vc_loop [OF ingestRange_loop_triple [of s ?B "[]" ?B "[]" l 0 l n n, simplified]])
    show "batches s ?B [] ?B" by (rule no_batch)
    show "[] = range_list l 0" by (simp add: range_list_def)
    show "triple (failed_at s l n D ?B) (return (Inl e)) ?post" for e by (rule triple_return) simp
    show "triple (loop_done s l n toLedger D ?B ledgers) (if length ledgers > 0 then process_batch s ledgers else return (Inr ())) ?post" for ledgers
      by (rule loop_done_end) (rule last)
  qed
qed

lemma ingestRange_triple:
  "triple (in_tx D E) (ingestRange s l toLedger)
     (\<lambda>r. case r of
        Inl _ \<Rightarrow> \<lambda>w. some_tx D E w \<or> (\<exists>d. partly_reingested s l toLedger E d \<and> some_tx D d w)
      | Inr _ \<Rightarrow> \<lambda>w. \<exists>d. reingested s l toLedger E d \<and> in_tx D d w)"
    (is "triple _ _ ?post")
proof (rule tripleI)
  fix w r w'
  assume w: "in_tx D E w" and r: "ingestRange s l toLedger w = (r, w')"
  then have tx: "GetTx w \<noteq> None" by (simp add: in_tx_def GetTx_def)
  show "?post r w'"
  proof (cases "maxLedgerPerFlush s < 1")
    case True
    with w r tx show ?thesis by (auto simp: ingestRange_def intro: in_tx_some)
  next
    case flush: False
    show ?thesis
    proof (cases "LedgerRangeInclusive l toLedger")
      case (Inl e)
      with w r tx flush show ?thesis by (auto simp: ingestRange_def intro: in_tx_some)
    next
      case (Inr p)
      obtain i j where p: "p = (i, j)" by force
      from triple_use [OF ingestRange_body_triple w, of s "sint i" "sint j" "''error in DeleteRangeAll''" toLedger l r w']
      show ?thesis
        using r tx flush Inr p
        by (cases r)
           (auto simp: ingestRange_def try_wrap_def reingested_def partly_reingested_def failed_at_def split: sum.splits)
    qed
  qed
qed

lemma vc_NonBlocking [vc]:
  assumes "\<And>e. triple (idle D) (fail e) Q"
    and "\<And>l. (\<And>x. last_ingested D = Some x \<Longrightarrow> x = l) \<Longrightarrow> triple (idle D) (rest l) Q"
  shows "triple (idle D) (check (GetLastLedgerIngestNonBlocking s) fail rest) Q"
proof (rule triple_check)
  have "triple (idle D) (getValueFromStore s k)
      (\<lambda>r. case r of Inl _ \<Rightarrow> idle D | Inr v \<Rightarrow> (\<lambda>w. v = (case key_value_store D k of None \<Rightarrow> [] | Some v \<Rightarrow> v) \<and> idle D w))" for k
    by (auto simp: triple_def idle_def getValueFromStore_def try_wrap_def check_def GetRaw_def conn_stmt_def Let_def return_def
        split: option.splits)
  then show "triple (idle D) (GetLastLedgerIngestNonBlocking s)
      (\<lambda>r. case r of Inl _ \<Rightarrow> idle D | Inr l \<Rightarrow> (\<lambda>w. (\<forall>x. last_ingested D = Some x \<longrightarrow> x = l) \<and> idle D w))"
    unfolding GetLastLedgerIngestNonBlocking_def
    by (rule triple_check)
       (auto intro!: triple_return simp: triple_def return_def parse_ledger_def last_ingested_def ParseUint32_def split: option.splits)
qed (use assms in \<open>auto intro!: triple_fact\<close>)

definition reingest_post ::
    "('m, 'h, 's, 'r) system \<Rightarrow> uint32 \<Rightarrow> uint32 \<Rightarrow> bool \<Rightarrow> ('s, 'r) db \<Rightarrow> outcome \<Rightarrow> ('s, 'r) db \<Rightarrow> bool" where
  "reingest_post s l toLedger force D r d \<longleftrightarrow>
     fst r = stop \<and>
     (case snd r of
        None \<Rightarrow> reingested s l toLedger D d \<and> (\<not> force \<longrightarrow> (\<forall>x. last_ingested D = Some x \<longrightarrow> x = 0 \<or> toLedger < x))
      | Some _ \<Rightarrow> d = D \<or> reingested s l toLedger D d \<or> force \<and> partly_reingested s l toLedger D d)"

lemma vc_ingestRange:
  assumes "\<And>e. triple (some_tx D E) (fail e) Q"
    and "\<And>e d. partly_reingested s l toLedger E d \<Longrightarrow> triple (some_tx D d) (fail e) Q"
    and "\<And>d. reingested s l toLedger E d \<Longrightarrow> triple (in_tx D d) (rest ()) Q"
  shows "triple (in_tx D E) (check (ingestRange s l toLedger) fail rest) Q"
proof (rule triple_check [OF ingestRange_triple])
  fix e
  show "triple (\<lambda>w. some_tx D E w \<or> (\<exists>d. partly_reingested s l toLedger E d \<and> some_tx D d w)) (fail e) Q"
    using assms(1,2) by (blast intro: tripleI dest: triple_use)
next
  fix a
  show "triple (\<lambda>w. \<exists>d. reingested s l toLedger E d \<and> in_tx D d w) (rest a) Q"
    using assms(3) by (auto intro!: tripleI dest: triple_use)
qed

lemma vc_reingest_prepareRange [vc]:
  assumes "\<And>e. triple (idle D) (fail e) Q" "triple (idle D) (rest ()) Q"
  shows "triple (idle D) (check (reingest_prepareRange s l toLedger) fail rest) Q"
proof (rule triple_check)
  show "triple (idle D) (reingest_prepareRange s l toLedger) (\<lambda>r. case r of Inl _ \<Rightarrow> idle D | Inr _ \<Rightarrow> idle D)"
    unfolding reingest_prepareRange_def try_wrap_def by (intro triple_return vc) auto
qed (use assms in auto)

text \<open>The commit of the forced mode after an error, whose own error is dropped.\<close>

lemma vc_Commit_keep:
  assumes "triple (ended (\<lambda>d. d = D \<or> d = E)) (fail e0) Q" "triple (idle E) (rest ()) Q"
  shows "triple (some_tx D E)
     (check (\<lambda>w. case Commit s w of (Inl _, w') \<Rightarrow> (Inl e0, w') | (Inr _, w') \<Rightarrow> (Inr (), w')) fail rest) Q"
proof -
  have "check (\<lambda>w. case Commit s w of (Inl _, w') \<Rightarrow> (Inl e0, w') | (Inr _, w') \<Rightarrow> (Inr (), w')) fail rest
      = check (Commit s) (\<lambda>_. fail e0) rest"
    by (rule ext) (auto simp: check_def split: prod.splits sum.splits)
  then show ?thesis using assms by (simp add: vc_Commit_some)
qed


lemma reingest_forced_triple:
  fixes s D l toLedger
  defines "post \<equiv> reingest_post s l toLedger True D"
  shows "triple (in_tx D D)
     (check (ingestRange s l toLedger)
        (\<lambda>ingestErr. check (\<lambda>w. case Commit s w of (Inl _, w') \<Rightarrow> (Inl ingestErr, w') | (Inr _, w') \<Rightarrow> (Inr (), w'))
           (\<lambda>e. return (stop, Some (Wrapped commitErrMsg e))) (\<lambda>_. return (stop, Some ingestErr)))
        (\<lambda>_. check (Commit s) (\<lambda>e. return (stop, Some (Wrapped commitErrMsg e))) (\<lambda>_. return (stop, None))))
     (\<lambda>r w. ended (post r) (Rollback w))"
proof -
  have D: "post (stop, Some e) D" for e by (simp add: post_def reingest_post_def)
  have R: "post (stop, Some e) d" "post (stop, None) d" if "reingested s l toLedger D d" for e d
    using that by (simp_all add: post_def reingest_post_def)
  have P: "post (stop, Some e) d" if "partly_reingested s l toLedger D d" for e d
    using that by (simp add: post_def reingest_post_def)
  show ?thesis
    by (intro triple_return vc vc_ingestRange vc_Commit_keep; erule rollback; use D R P in blast)
qed

lemma reingest_unforced_triple:
  fixes s D l toLedger
  defines "post \<equiv> reingest_post s l toLedger False D"
  assumes "\<forall>x. last_ingested D = Some x \<longrightarrow> x = 0 \<or> toLedger < x"
  shows "triple (in_tx D D)
     (check (ingestRange s l toLedger) (\<lambda>e. return (stop, Some e))
        (\<lambda>_. check (Commit s) (\<lambda>e. return (stop, Some (Wrapped commitErrMsg e))) (\<lambda>_. return (stop, None))))
     (\<lambda>r w. ended (post r) (Rollback w))"
proof -
  have D: "post (stop, Some e) D" for e by (simp add: post_def reingest_post_def)
  have R: "post (stop, Some e) d" "post (stop, None) d" if "reingested s l toLedger D d" for e d
    using that assms(2) by (simp_all add: post_def reingest_post_def)
  show ?thesis
    by (intro triple_return vc vc_ingestRange; erule rollback; use D R in blast)
qed

lemma reingest_triple:
  "triple (idle D) (reingest_run s l0 toLedger force)
     (\<lambda>r. ended (reingest_post s (if l0 = 1 then 2 else l0) toLedger force D r))"
proof -
  let ?l = "if l0 = 1 then 2 else l0"
  have D: "reingest_post s ?l toLedger f D (stop, Some e) D" for e f by (simp add: reingest_post_def)
  show ?thesis
  proof (cases force)
    case True
    then have "force = True" by simp
    show ?thesis
      unfolding reingest_run_def orElse_def Let_def \<open>force = True\<close> if_True
      by (intro triple_if triple_return vc triple_deferRollback reingest_forced_triple; erule rollback; rule D)
  next
    case False
    then have "force = False" by simp
    show ?thesis
      unfolding reingest_run_def orElse_def Let_def \<open>force = False\<close> if_False
      by (intro triple_if triple_return vc triple_deferRollback reingest_unforced_triple;
          (erule rollback, rule D)?) (auto simp: linorder_not_le word_gt_0)
  qed
qed

subsection \<open>Every state ends outside a transaction\<close>

lemma Rollback_tx: "tx (Rollback w) = None"
  by (simp add: Rollback_def split: option.splits)

lemma command_triple:
  "triple (idle D) (orElse t m (Begin s) (\<lambda>_. deferRollback body)) (\<lambda>_. ended (\<lambda>_. True))"
  unfolding orElse_def
  by (intro vc triple_return triple_deferRollback) (auto simp: ended_def idle_def triple_def Rollback_tx split: prod.splits)

lemma run_triple: "triple (idle D) (run s n) (\<lambda>_. ended (\<lambda>_. True))"
proof (cases n)
  case (verifyRangeState a b c)
  then show ?thesis
    by (auto simp: verifyRange_run_def intro!: command_triple triple_return simp: ended_def idle_def)
next
  case stressTestState
  then show ?thesis by (simp add: stressTest_run_def command_triple)
next
  case (startState c)
  then show ?thesis by (auto intro!: triple_post [OF start_triple] simp: ended_def)
next
  case (buildState c k b)
  then show ?thesis by (auto intro!: triple_post [OF build_triple] simp: ended_def)
next
  case (resumeState l)
  then show ?thesis by (auto intro!: triple_post [OF resume_triple] simp: ended_def)
next
  case (historyRangeState a b)
  then show ?thesis by (auto intro!: triple_post [OF historyRange_triple] simp: ended_def)
next
  case (reingestHistoryRangeState a b c)
  then show ?thesis by (auto intro!: triple_post [OF reingest_triple] simp: ended_def)
qed (auto simp: waitForCheckpoint_run_def intro!: triple_return simp: ended_def idle_def)

lemma run_tx_None: "tx w = None \<Longrightarrow> run s n w = (r, w') \<Longrightarrow> tx w' = None"
  using triple_use [OF run_triple, of "stored w" w s n r w'] by (simp add: idle_def ended_def)

lemma machine_tx_None:
  "tx w = None \<Longrightarrow> runStateMachine s fuel n w = (r, w') \<Longrightarrow> tx w' = None \<and> r \<noteq> UnexpectedTransaction"
proof (induction fuel arbitrary: n w)
  case (Suc fuel)
  obtain t e w1 where 1: "run s n w = ((t, e), w1)" by (metis prod.collapse)
  with Suc.prems(1) have "tx w1 = None" by (rule run_tx_None)
  with Suc 1 show ?case by (auto simp: GetTx_def split: if_splits)
qed auto


text \<open>A compaction sequence is written as an unsigned and read as a signed number: from \<open>2 ^ 31\<close> on it cannot be read back.\<close>

lemma compaction_sequence_read:
  "ParseInt32 (FormatUint32 n) = (if uint n < 2 ^ 31 then Some (uint n) else None)"
proof -
  have "FormatUint32 n = show_int (uint n)" by (simp add: FormatUint32_def show_int_def)
  moreover have "0 \<le> uint n" "uint n < 2 ^ 32" using uint_lt2p [of n] by simp_all
  ultimately show ?thesis
    by (auto simp: ParseInt32_def ParseInt10_show_int in_int64_def in_int32_def MaxInt64_def MinInt64_def MaxInt32_def)
      (use uint_ge_0 [of n] in linarith)
qed

end
