(* ===== verification/IngestCluster.thy ===== *)
theory IngestCluster
  imports IngestProof
begin

text \<open>
  A cluster of ingesting instances on one database. Each instance runs the state machine; a state holds the
  lock on the last ingested ledger while it works on the database, so the states of
  different instances are executed one after the other, in any order. Instances may crash and start again,
  every call may fail, and the goroutine that verifies the state may mark it as invalid at any time.
\<close>

section \<open>What the state machine relies on\<close>

text \<open>
  \<open>S l\<close> are the state tables after ledger \<open>l\<close>. The contract of the processor runner: the state of a checkpoint is
  ingested into empty tables, all processors take the state from one ledger to the next and add the
  ledger to the history, and the transaction processors add ledgers to the history and leave the state alone. None
  of them touches the keys of the state machine.
\<close>

definition ledger_row :: "uint32 \<Rightarrow> int \<times> uint32" where
  "ledger_row l = ((case ToInt64 (toid_New l 0 0) of Inl _ \<Rightarrow> 0 | Inr i \<Rightarrow> sint i), l)"

lemma sint_small: "x < 2 ^ 31 \<Longrightarrow> sint (x :: uint32) = uint x"
proof -
  assume x: "x < 2 ^ 31"
  have "sint x = (uint x + 2 ^ 31) mod 2 ^ 32 - 2 ^ 31"
    by (simp add: sint_uint signed_take_bit_eq_take_bit_shift take_bit_eq_mod)
  moreover have "uint x < 2 ^ 31" using x by (simp add: word_less_def)
  ultimately show ?thesis using uint_ge_0 [of x] by simp
qed

lemma sint_pos_small: "0 \<le> sint x \<Longrightarrow> (x :: uint32) < 2 ^ 31"
proof (rule ccontr)
  assume s: "0 \<le> sint x" and x: "\<not> x < 2 ^ 31"
  have "sint x = (uint x + 2 ^ 31) mod 2 ^ 32 - 2 ^ 31"
    by (simp add: sint_uint signed_take_bit_eq_take_bit_shift take_bit_eq_mod)
  also have "(uint x + 2 ^ 31) mod 2 ^ 32 = (uint x - 2 ^ 31 + 2 ^ 32) mod 2 ^ 32" by (simp add: add.commute)
  also have "\<dots> = (uint x - 2 ^ 31) mod 2 ^ 32" by (rule mod_add_self2)
  also have "\<dots> = uint x - 2 ^ 31"
    by (rule mod_pos_pos_trivial) (use x uint_lt2p [of x] in \<open>simp_all add: word_less_def\<close>)
  finally show False using s uint_lt2p [of x] by simp
qed

lemma ledger_row_id: "q < 2 ^ 31 \<Longrightarrow> fst (ledger_row q) = uint q * 2 ^ 32"
  using ToInt64_value [OF toid_wf_ledger_start, of q] sint_ToInt64 [OF toid_wf_ledger_start, of q]
  by (simp add: ledger_row_def toid_value_ledger_start sint_small)

definition same_keys :: "('s, 'r) db \<Rightarrow> ('s, 'r) db \<Rightarrow> bool" where
  "same_keys d d' \<longleftrightarrow>
     key_value_store d' lastLedgerKey = key_value_store d lastLedgerKey
     \<and> key_value_store d' ingestVersionKey = key_value_store d ingestVersionKey
     \<and> key_value_store d' stateInvalidKey = key_value_store d stateInvalidKey"

definition archive_law :: "('m, 'h, 's, 'r) system \<Rightarrow> (uint32 \<Rightarrow> 's) \<Rightarrow> bool" where
  "archive_law s S \<longleftrightarrow>
     (\<forall>c skip pv h n d d'. RunHistoryArchiveIngestion s c skip pv h n d = (d', None) \<and> state_tables d = emptyStateTables s \<longrightarrow>
        state_tables d' = S c \<and> same_keys d d' \<and> history_ledgers d' = history_ledgers d)"

definition ledger_law :: "('m, 'h, 's, 'r) system \<Rightarrow> (uint32 \<Rightarrow> 's) \<Rightarrow> bool" where
  "ledger_law s S \<longleftrightarrow>
     (\<forall>l n d d'. RunAllProcessorsOnLedger s (ledgerCloseMeta s l) n d = (d', None) \<and> state_tables d = S (l - 1) \<longrightarrow>
        state_tables d' = S l \<and> same_keys d d' \<and> history_ledgers d' = history_ledgers d @ [ledger_row l])"

definition transaction_law :: "('m, 'h, 's, 'r) system \<Rightarrow> bool" where
  "transaction_law s \<longleftrightarrow>
     (\<forall>ls n d d' e. RunTransactionProcessorsOnLedgers s (map (ledgerCloseMeta s) ls) n d = (d', e) \<longrightarrow>
        state_tables d' = state_tables d \<and> same_keys d d'
        \<and> (e = None \<and> distinct ls \<longrightarrow> history_ledgers d' = history_ledgers d @ map ledger_row ls))"

definition runner_ok :: "('m, 'h, 's, 'r) system \<Rightarrow> (uint32 \<Rightarrow> 's) \<Rightarrow> bool" where
  "runner_ok s S \<longleftrightarrow> archive_law s S \<and> ledger_law s S \<and> transaction_law s"

lemma same_keys_refl [simp]: "same_keys d d"
  by (simp add: same_keys_def)

lemma same_keys_trans: "same_keys d e \<Longrightarrow> same_keys e f \<Longrightarrow> same_keys d f"
  by (simp add: same_keys_def)

lemma same_keys_read:
  "same_keys d d' \<Longrightarrow> last_ingested d' = last_ingested d" "same_keys d d' \<Longrightarrow> version_of d' = version_of d"
  by (simp_all add: same_keys_def last_ingested_def version_of_def)

lemma batches_ok:
  assumes "batches s D ls d" "transaction_law s" "distinct ls"
  shows "state_tables d = state_tables D \<and> same_keys D d \<and> history_ledgers d = history_ledgers D @ map ledger_row ls"
  using assms
proof (induction rule: batches.induct)
  case (a_batch ls E ls' n E')
  then have "state_tables E' = state_tables E \<and> same_keys E E' \<and> history_ledgers E' = history_ledgers E @ map ledger_row ls'"
    unfolding transaction_law_def by (metis distinct_append)
  with a_batch show ?case by (auto intro: same_keys_trans)
qed simp

section \<open>The invariant\<close>

text \<open>
  The state tables are those of the last ingested ledger, unless the database says that they have to be
  rebuilt (another version, or no ledger).
\<close>

definition consistent :: "(uint32 \<Rightarrow> 's) \<Rightarrow> ('s, 'r) db \<Rightarrow> bool" where
  "consistent S d \<longleftrightarrow>
     (\<forall>l. version_of d = Some CurrentVersion \<and> last_ingested d = Some l \<and> l \<noteq> 0 \<longrightarrow> state_tables d = S l)"

text \<open>The history has no gaps and no duplicates.\<close>

definition contiguous :: "('s, 'r) db \<Rightarrow> bool" where
  "contiguous d \<longleftrightarrow> distinct (sequences d) \<and> 0 \<notin> set (sequences d) \<and>
     (\<forall>x \<in> set (sequences d). \<forall>y \<in> set (sequences d). \<forall>z. x \<le> z \<and> z \<le> y \<longrightarrow> z \<in> set (sequences d))"

lemma sequences_rows: "history_ledgers d' = history_ledgers d @ map ledger_row ls \<Longrightarrow> sequences d' = sequences d @ ls"
  by (simp add: sequences_def ledger_row_def comp_def)

lemma latest_history_Max: "latest_history d = Max (insert 0 (set (sequences d)))"
  by (simp add: latest_history_def flip: Max.set_eq_fold)

lemma latest_history_ge: "x \<in> set (sequences d) \<Longrightarrow> x \<le> latest_history d"
  by (simp add: latest_history_Max)

lemma latest_history_0: "contiguous d \<Longrightarrow> latest_history d = 0 \<Longrightarrow> sequences d = []"
  using latest_history_ge [of _ d] by (cases "sequences d") (auto simp: contiguous_def)

lemma latest_history_in: "latest_history d \<noteq> 0 \<Longrightarrow> latest_history d \<in> set (sequences d)"
  using Max_in [of "insert 0 (set (sequences d))"] by (simp add: latest_history_Max)

lemma unat32: "unat (x :: uint32) < 2 ^ 32"
  using unsigned_less [of x] by simp

lemma archive_lawD:
  assumes "archive_law s S" "RunHistoryArchiveIngestion s c skip pv h n d = (d', None)" "state_tables d = emptyStateTables s"
  shows "state_tables d' = S c" "same_keys d d'" "history_ledgers d' = history_ledgers d"
  using assms unfolding archive_law_def by blast+

lemma ledger_lawD:
  assumes "ledger_law s S" "RunAllProcessorsOnLedger s (ledgerCloseMeta s l) n d = (d', None)" "state_tables d = S (l - 1)"
  shows "state_tables d' = S l" "same_keys d d'" "history_ledgers d' = history_ledgers d @ map ledger_row [l]"
  using assms(1) [unfolded ledger_law_def, rule_format, of l n d d'] assms(2,3) by simp_all

lemma set_range_list:
  assumes "unat l + k \<le> 2 ^ 32"
  shows "set (range_list l k) = {x. l \<le> x \<and> unat x < unat l + k}"
proof (intro set_eqI iffI)
  fix x
  assume "x \<in> set (range_list l k)"
  then obtain i where i: "i < k" "x = l + of_nat i" by (auto simp: range_list_def)
  with assms have "unat x = unat l + i" by (simp add: unat_add_nat)
  with i show "x \<in> {x. l \<le> x \<and> unat x < unat l + k}" by (simp add: word_le_nat_alt)
next
  fix x
  assume x: "x \<in> {x. l \<le> x \<and> unat x < unat l + k}"
  let ?i = "unat x - unat l"
  from x have i: "?i < k" "unat l + ?i = unat x" by (auto simp: word_le_nat_alt)
  with unat32 [of x] have "unat (l + of_nat ?i) = unat x" by (subst unat_add_nat) auto
  then have "x = l + of_nat ?i" by (simp add: word_unat_eq_iff)
  with i(1) show "x \<in> set (range_list l k)"
    unfolding range_list_def set_map by (intro image_eqI [of _ _ ?i]) simp_all
qed

lemma distinct_range_list:
  assumes "unat l + k \<le> 2 ^ 32"
  shows "distinct (range_list l k)"
proof -
  have "inj_on (\<lambda>i. l + of_nat i) {0..<k}"
  proof (rule inj_onI)
    fix i j
    assume ij: "i \<in> {0..<k}" "j \<in> {0..<k}" and e: "l + of_nat i = (l + of_nat j :: uint32)"
    then have "unat l + i < 2 ^ 32" "unat l + j < 2 ^ 32" using assms by auto
    then have "unat (l + of_nat i) = unat l + i" "unat (l + of_nat j) = unat l + j" by (simp_all only: unat_add_nat)
    with arg_cong [OF e, of unat] show "i = j" by (simp only: add_left_cancel)
  qed
  then show ?thesis by (simp add: range_list_def distinct_map)
qed

lemma unat_minus_1: "l \<noteq> 0 \<Longrightarrow> unat (l - 1 :: uint32) = unat l - 1"
  by (rule unat_minus_one)

lemma contiguous_extend:
  assumes d: "contiguous d" "l \<noteq> 0" "latest_history d = 0 \<or> latest_history d = l - 1"
    and k: "unat l + k \<le> 2 ^ 32" and d': "sequences d' = sequences d @ range_list l k"
  shows "contiguous d'"
proof -
  have pos: "0 < unat l" using d(2) by (simp add: unat_gt_0)
  have below: "unat x \<le> unat l - 1" if "x \<in> set (sequences d)" for x
  proof -
    have "latest_history d \<noteq> 0" using latest_history_0 [OF d(1)] that by auto
    with d have "latest_history d = l - 1" by simp
    with latest_history_ge [OF that] d(2) show ?thesis by (simp add: word_le_nat_alt unat_minus_1)
  qed
  have top: "z \<in> set (sequences d)" if "x \<in> set (sequences d)" "x \<le> z" "unat z < unat l" for x z
  proof -
    have "latest_history d \<noteq> 0" using latest_history_0 [OF d(1)] that(1) by auto
    then have "latest_history d \<in> set (sequences d)" by (rule latest_history_in)
    moreover have "latest_history d = l - 1" using d(3) \<open>latest_history d \<noteq> 0\<close> by simp
    moreover have "z \<le> l - 1" using that(3) d(2) by (simp add: word_le_nat_alt unat_minus_1)
    ultimately show ?thesis using d(1) that(1,2) unfolding contiguous_def by metis
  qed
  have disjoint: "x \<notin> set (range_list l k)" if "x \<in> set (sequences d)" for x
    using below [OF that] pos by (auto simp: set_range_list [OF k] word_le_nat_alt)
  have "z \<in> set (sequences d')" if "x \<in> set (sequences d')" "y \<in> set (sequences d')" "x \<le> z" "z \<le> y" for x y z
  proof (cases "unat z < unat l")
    case True
    then have "x \<in> set (sequences d)"
      using that(1,3) by (auto simp: d' set_range_list [OF k] word_le_nat_alt)
    then show ?thesis using top that(3) True by (simp add: d')
  next
    case False
    then have "y \<in> set (range_list l k)"
      using that(2,4) below [of y] pos by (auto simp: d' word_le_nat_alt)
    with that(4) False show ?thesis by (auto simp: d' set_range_list [OF k] word_le_nat_alt)
  qed
  moreover have "distinct (sequences d')" "0 \<notin> set (sequences d')"
    using d(1) disjoint distinct_range_list [OF k] pos
    by (auto simp: contiguous_def d' set_range_list [OF k] word_le_nat_alt d(2))
  ultimately show ?thesis unfolding contiguous_def by blast
qed

section \<open>Every state keeps the invariant\<close>

definition good :: "(uint32 \<Rightarrow> 's) \<Rightarrow> ('s, 'r) db \<Rightarrow> bool" where
  "good S d \<longleftrightarrow> consistent S d \<and> contiguous d"

lemma sequences_sets [simp]:
  "sequences (set_last l d) = sequences d" "sequences (set_version d) = sequences d" "sequences (set_invalid b d) = sequences d"
  by (simp_all add: sequences_def)

lemma contiguous_cong: "sequences d' = sequences d \<Longrightarrow> contiguous d' = contiguous d"
  by (simp add: contiguous_def)

lemma good_start: "good S D \<Longrightarrow> start_post D r d \<Longrightarrow> good S d"
  by (auto simp: good_def start_post_def consistent_def contiguous_cong [of "set_last 0 D" D])

lemma good_invalid: "good S D \<Longrightarrow> good S (set_invalid b D)"
  by (auto simp: good_def consistent_def contiguous_cong [of "set_invalid b D" D])

lemma good_build:
  assumes "good S D" "build_post s c D d" "archive_law s S"
  shows "good S d"
proof (cases "d = D")
  case False
  let ?E = "(set_invalid False (set_last 0 D))\<lparr>state_tables := emptyStateTables s\<rparr>"
  from False assms(2) obtain skip pv h n d1 where
    1: "RunHistoryArchiveIngestion s c skip pv h n ?E = (d1, None)" and d: "d = set_last c (set_version d1)"
    by (auto simp: build_post_def archive_state_def)
  have "state_tables d1 = S c" "history_ledgers d1 = history_ledgers D"
    using archive_lawD [OF assms(3) 1] by simp_all
  then have "sequences d = sequences D" "consistent S d" by (simp_all add: d sequences_def consistent_def)
  then show ?thesis using assms(1) contiguous_cong [of d D] by (simp add: good_def)
qed (use assms in simp)

lemma good_resume:
  assumes "good S D" "resume_post s l D d" "ledger_law s S"
  shows "good S d"
proof (cases "d = D")
  case False
  with assms(2) obtain n d1 rows where
    l: "l \<noteq> 0" "l + 1 \<noteq> 0" "last_ingested D = Some l" "version_of D = Some CurrentVersion"
      "latest_history D = 0 \<or> latest_history D = l" and
    1: "RunAllProcessorsOnLedger s (ledgerCloseMeta s (l + 1)) n D = (d1, None)" and
    d: "d = (set_last (l + 1) d1)\<lparr>history_rows := rows\<rparr>"
    unfolding resume_post_def ingest_ledger_def by auto
  have "state_tables D = S l" using assms(1) l by (auto simp: good_def consistent_def)
  then have "state_tables D = S (l + 1 - 1)" by simp
  note d1 = ledger_lawD [OF assms(3) 1 this]
  have "sequences d = sequences D @ range_list (l + 1) 1"
    using sequences_rows [OF d1(3)] by (simp add: d sequences_def range_list_def)
  moreover have "unat (l + 1) + 1 \<le> 2 ^ 32" using unat32 [of "l + 1"] by simp
  ultimately have "contiguous d"
    using assms(1) l by (intro contiguous_extend [of D "l + 1" 1 d]) (auto simp: good_def)
  moreover have "last_ingested d = Some (l + 1)" "state_tables d = S (l + 1)"
    using d1 by (simp_all add: d last_ingested_def set_last_def)
  ultimately show ?thesis by (simp add: good_def consistent_def)
qed (use assms in simp)

lemma good_historyRange:
  assumes "good S D" "historyRange_post s l toLedger D d" "transaction_law s"
  shows "good S d"
proof (cases "d = D")
  case False
  with assms(2) obtain k where l: "l \<noteq> 0" "l \<le> toLedger" "latest_history D = l - 1"
    and k: "k \<le> range_fuel l toLedger" and b: "batches s D (range_list l k) d"
    by (auto simp: historyRange_post_def prefix_ingested_def)
  have bound: "unat l + k \<le> 2 ^ 32" using k l(2) unat32 [of toLedger] by (simp add: range_fuel_def word_le_nat_alt)
  note d = batches_ok [OF b assms(3) distinct_range_list [OF bound]]
  from bound assms(1) l d have "contiguous d"
    by (intro contiguous_extend [of D l k d]) (auto simp: good_def intro: sequences_rows)
  with assms(1) d show ?thesis by (simp add: good_def consistent_def same_keys_read [of D d])
qed (use assms in simp)

section \<open>The cluster\<close>

text \<open>The states of an instance started by \<open>Run\<close>, \<open>BuildState\<close> or \<open>BuildGenesisState\<close>.\<close>

fun instance_node :: "node \<Rightarrow> bool" where
  "instance_node stressTestState = False"
| "instance_node (verifyRangeState _ _ _) = False"
| "instance_node (reingestHistoryRangeState _ _ _) = False"
| "instance_node _ = True"

lemma goes_check:
  "(\<And>e. triple (\<lambda>_. True) (fail e) (\<lambda>r _. Q r)) \<Longrightarrow> (\<And>a. triple (\<lambda>_. True) (rest a) (\<lambda>r _. Q r)) \<Longrightarrow>
   triple (\<lambda>_. True) (check call fail rest) (\<lambda>r _. Q r)"
  by (rule triple_check [where PE = "\<lambda>_ _. True" and PA = "\<lambda>_ _. True"]) (auto simp: triple_def split: sum.splits)

lemma goes_deferRollback:
  "triple (\<lambda>_. True) body (\<lambda>r _. Q r) \<Longrightarrow> triple (\<lambda>_. True) (deferRollback body) (\<lambda>r _. Q r)"
  by (rule triple_deferRollback)

lemma goes_last:
  "Q r \<Longrightarrow> triple (\<lambda>_. True) (\<lambda>w. case f w of (_, w1) \<Rightarrow> (case g w1 of (_, w2) \<Rightarrow> (r, w2))) (\<lambda>r _. Q r)"
  by (auto simp: triple_def split: prod.splits)

lemmas goes = goes_check goes_deferRollback goes_last triple_return triple_if

lemmas transitions = stop_def start_def rebuild_def resume_def resumeImmediately_def retryResume_def historyRange_def waitForCheckPoint_def

subsection \<open>The transitions\<close>

text \<open>
  The transitions that \<^verbatim>\<open>fsm.go\<close> names for each state, with the pause before the next state and the error that goes with them. A build
  state of the commands (\<^verbatim>\<open>stop\<close> set) always stops; a resume state repeats its ledger after an error and goes on with a later ledger otherwise.
\<close>

fun successor :: "node \<Rightarrow> transition \<Rightarrow> go_error option \<Rightarrow> bool" where
  "successor stopState t err \<longleftrightarrow> t = stop \<and> err \<noteq> None"
| "successor (startState suggested) t err \<longleftrightarrow>
     t = start \<or>
     err = None \<and>
       (case next_node t of
          stopState \<Rightarrow> t = stop
        | waitForCheckpointState \<Rightarrow> t = waitForCheckPoint
        | buildState c _ _ \<Rightarrow> t = rebuild c \<and> (suggested = 0 \<or> c = suggested)
        | historyRangeState a b \<Rightarrow> t = historyRange a b \<and> 1 < a \<and> a \<le> b
        | resumeState l \<Rightarrow> t = resume l \<and> l \<noteq> 0
        | _ \<Rightarrow> False)"
| "successor (buildState c _ stp) t err \<longleftrightarrow>
     (if stp then t = stop else t = start \<or> t = resume c \<and> c \<noteq> 0 \<and> err = None)"
| "successor (resumeState l) t err \<longleftrightarrow>
     t = start \<or>
     l \<noteq> 0 \<and>
       (case err of
          Some _ \<Rightarrow> t = retryResume l
        | None \<Rightarrow> (case next_node t of resumeState m \<Rightarrow> t = resumeImmediately m \<and> l + 1 \<le> m | _ \<Rightarrow> False))"
| "successor waitForCheckpointState t err \<longleftrightarrow> t = start \<and> err = None"
| "successor (historyRangeState _ _) t err \<longleftrightarrow> t = start"
| "successor _ t err \<longleftrightarrow> t = stop"

text \<open>The first states of the commands: one run of such a state is the whole run of the machine.\<close>

fun one_shot :: "node \<Rightarrow> bool" where
  "one_shot (buildState _ _ stp) = stp"
| "one_shot n = (\<not> instance_node n)"

lemma next_ledger_bounds:
  assumes "(x :: uint32) \<noteq> 0" "x < y"
  shows "1 < x + 1" "x + 1 \<le> y"
proof -
  have "unat (x + 1) = unat x + 1" using assms(2) unat32 [of y] by (simp add: word_less_nat_alt unat_add_nat [of x 1, simplified])
  moreover have "unat x \<noteq> 0" using assms(1) by (simp add: unat_eq_0)
  ultimately show "1 < x + 1" "x + 1 \<le> y" using assms(2) by (simp_all add: word_less_nat_alt word_le_nat_alt)
qed

lemma start_successor: "triple (\<lambda>_. True) (start_run s c) (\<lambda>r _. successor (startState c) (fst r) (snd r))"
  unfolding start_run_def orElse_def Let_def
  by (intro goes) (auto simp: transitions next_ledger_bounds)

lemma build_successor: "triple (\<lambda>_. True) (build_run s c k b) (\<lambda>r _. successor (buildState c k b) (fst r) (snd r))"
proof -
  have "triple (\<lambda>_. True) (build_tx s c k b (if b then stop else start) pv h) (\<lambda>r _. successor (buildState c k b) (fst r) (snd r))"
    if "c \<noteq> 0" for pv h
    unfolding build_tx_def orElse_def using that by (intro goes) simp_all
  then show ?thesis unfolding build_run_def orElse_def Let_def by (intro goes) simp_all
qed

lemma resume_successor: "triple (\<lambda>_. True) (resume_run s l) (\<lambda>r _. successor (resumeState l) (fst r) (snd r))"
  unfolding resume_run_def orElse_def Let_def
  by (intro goes) (auto simp: transitions)

lemma historyRange_successor: "triple (\<lambda>_. True) (historyRange_run s a b) (\<lambda>r _. successor (historyRangeState a b) (fst r) (snd r))"
  unfolding historyRange_run_def orElse_def by (intro goes) simp_all

lemma stressTest_successor: "triple (\<lambda>_. True) (stressTest_run s) (\<lambda>r _. successor stressTestState (fst r) (snd r))"
  unfolding stressTest_run_def orElse_def Let_def by (intro goes) simp_all

lemma verifyRange_successor: "triple (\<lambda>_. True) (verifyRange_run s a b v) (\<lambda>r _. successor (verifyRangeState a b v) (fst r) (snd r))"
proof -
  have "triple (\<lambda>_. True) (\<lambda>w. if v then ((stop, verifyState s (calls w)), w\<lparr>calls := calls w + 1\<rparr>) else ((stop, None), w))
      (\<lambda>r _. successor (verifyRangeState a b v) (fst r) (snd r))"
    by (simp add: triple_def)
  then show ?thesis unfolding verifyRange_run_def orElse_def by (intro goes) simp_all
qed

lemma reingest_successor: "triple (\<lambda>_. True) (reingest_run s a b f) (\<lambda>r _. successor (reingestHistoryRangeState a b f) (fst r) (snd r))"
  unfolding reingest_run_def orElse_def Let_def by (intro goes) simp_all

lemmas successors = start_successor build_successor resume_successor historyRange_successor stressTest_successor verifyRange_successor reingest_successor

lemma run_successor:
  assumes "run s n w = ((t, err), w')"
  shows "successor n t err"
proof -
  have "triple (\<lambda>_. True) (run s n) (\<lambda>r _. successor n (fst r) (snd r))"
    by (cases n) (use successors [of s] in \<open>auto intro!: triple_return simp: waitForCheckpoint_run_def\<close>)
  from triple_use [OF this TrueI assms] show ?thesis by simp
qed

lemma one_shot_successor: "one_shot n \<Longrightarrow> successor n t err \<Longrightarrow> t = stop"
  by (cases n) auto

lemma instance_node_closed:
  assumes "instance_node n" "run s n w = ((t, e), w')"
  shows "instance_node (next_node t)"
proof -
  have "successor n t e" by (rule run_successor [OF assms(2)])
  with assms(1) show ?thesis by (cases n) (auto simp: transitions split: node.splits option.splits if_splits)
qed

subsection \<open>The steps of the cluster\<close>

lemma good_run:
  assumes "runner_ok s S" "good S (stored w)" "tx w = None" "instance_node n" "run s n w = (r, w')"
  shows "good S (stored w')"
proof -
  have w: "idle (stored w) w" using assms(3) by (simp add: idle_def)
  note ok = assms(1) [unfolded runner_ok_def] and r = assms(5)
  show ?thesis
  proof (cases n)
    case (startState c)
    with r have "start_run s c w = (r, w')" by simp
    from triple_use [OF start_triple w this] show ?thesis by (auto simp: ended_def intro: good_start [OF assms(2)])
  next
    case (buildState c k b)
    with r have "build_run s c k b w = (r, w')" by simp
    from triple_use [OF build_triple w this] ok show ?thesis by (auto simp: ended_def intro: good_build [OF assms(2)])
  next
    case (resumeState l)
    with r have "resume_run s l w = (r, w')" by simp
    from triple_use [OF resume_triple w this] ok show ?thesis by (auto simp: ended_def intro: good_resume [OF assms(2)])
  next
    case (historyRangeState a b)
    with r have "historyRange_run s a b w = (r, w')" by simp
    from triple_use [OF historyRange_triple w this] ok show ?thesis by (auto simp: ended_def intro: good_historyRange [OF assms(2)])
  qed (use assms in \<open>auto simp: waitForCheckpoint_run_def return_def\<close>)
qed

text \<open>\<open>systems\<close>: the configurations, with what may fail and how the outside answers, in which a state may run.\<close>

inductive cluster_step ::
    "('m, 'h, 's, 'r) system set \<Rightarrow> ('s, 'r) db \<times> (nat \<Rightarrow> node) \<Rightarrow> ('s, 'r) db \<times> (nat \<Rightarrow> node) \<Rightarrow> bool" for systems where
  instance_runs: "s \<in> systems \<Longrightarrow> tx w = None \<Longrightarrow> nodes i \<noteq> stopState \<Longrightarrow>
     run s (nodes i) w = ((t, e), w') \<Longrightarrow> cluster_step systems (stored w, nodes) (stored w', nodes(i := next_node t))"
| instance_starts: "n = startState 0 \<or> n = buildState c skip True \<Longrightarrow> cluster_step systems (d, nodes) (d, nodes(i := n))"
| verification_fails: "s \<in> systems \<Longrightarrow> tx w = None \<Longrightarrow> markStateInvalid s w = (u, w') \<Longrightarrow>
     cluster_step systems (stored w, nodes) (stored w', nodes)"

abbreviation cluster_reachable ::
    "('m, 'h, 's, 'r) system set \<Rightarrow> ('s, 'r) db \<times> (nat \<Rightarrow> node) \<Rightarrow> ('s, 'r) db \<times> (nat \<Rightarrow> node) \<Rightarrow> bool" where
  "cluster_reachable systems \<equiv> (cluster_step systems)\<^sup>*\<^sup>*"

lemma cluster_step_good:
  assumes "cluster_step systems c c'" "\<And>s. s \<in> systems \<Longrightarrow> runner_ok s S" "good S (fst c) \<and> (\<forall>i. instance_node (snd c i))"
  shows "good S (fst c') \<and> (\<forall>i. instance_node (snd c' i))"
  using assms
proof (induction rule: cluster_step.induct)
  case (instance_runs s w nodes i t e w')
  then show ?case using good_run [of s S w "nodes i" "(t, e)" w'] instance_node_closed [of "nodes i" s w t e w'] by auto
next
  case (verification_fails s w u w' nodes)
  then have "ended (\<lambda>d. d = stored w \<or> d = set_invalid True (stored w)) w'"
    using triple_use [OF markStateInvalid_triple, of "stored w" w s u w'] by (simp add: idle_def)
  with verification_fails show ?case by (auto simp: ended_def intro: good_invalid)
qed auto

lemma cluster_step_mono: "cluster_step systems c c' \<Longrightarrow> systems \<subseteq> systems' \<Longrightarrow> cluster_step systems' c c'"
  by (induction rule: cluster_step.induct) (auto intro: cluster_step.intros)

interpretation cluster: step_invariant
  "cluster_step {s :: ('m, 'h, 's, 'r) system. runner_ok s S}" "\<lambda>c. good S (fst c) \<and> (\<forall>i. instance_node (snd c i))"
  for S :: "uint32 \<Rightarrow> 's"
  by unfold_locales (blast dest: cluster_step_good)

lemma cluster_good:
  assumes "cluster_reachable systems c c'" "\<And>s. s \<in> systems \<Longrightarrow> runner_ok s S" "good S (fst c) \<and> (\<forall>i. instance_node (snd c i))"
  shows "good S (fst c') \<and> (\<forall>i. instance_node (snd c' i))"
proof -
  have "systems \<subseteq> {s. runner_ok s S}" (is "_ \<subseteq> ?ok") using assms(2) by blast
  then have step: "cluster_step ?ok x y" if "cluster_step systems x y" for x y
    using that by (rule cluster_step_mono [rotated])
  show ?thesis by (rule cluster.restricted_inv [OF assms(1) _ assms(3)]) (rule step)
qed

end
