(* ===== verification/ProcessorRunner.thy ===== *)
theory ProcessorRunner
  imports IngestCluster "HOL-Library.AList"
begin

text \<open>
  The processor runner (\<^verbatim>\<open>processor_runner.go\<close>, \<^verbatim>\<open>group_processors.go\<close>, \<^verbatim>\<open>processors/main.go\<close>): it streams the changes
  and the transactions of a ledger through groups of processors and flushes what they have collected. The
  processor of ledgers (\<^verbatim>\<open>ledgers_processor.go\<close>) is modelled; the others are a parameter: each works on a state of
  its own and, when it commits or flushes, on the database. Readers are the sequences of what
  they return until \<^verbatim>\<open>io.EOF\<close>. Statistics, durations and logging are left out.
\<close>

section \<open>Processors\<close>

text \<open>An effect ends with an error, if any, and with the answer whether a statement of the transaction has failed.\<close>

type_synonym fault = "(go_error \<times> bool) option"

type_synonym ('p, 's, 'r) effect = "'p \<times> ('s, 'r) db \<Rightarrow> ('p \<times> ('s, 'r) db) \<times> fault"

record ('c, 'p, 's, 'r) changeProcessor =
  cp_Name :: string
  cp_ProcessChange :: "'c \<Rightarrow> ('p, 's, 'r) effect"
  cp_Commit :: "('p, 's, 'r) effect"

record ('m, 't, 'p, 's, 'r) transactionProcessor =
  tp_Name :: string
  tp_ProcessTransaction :: "'m \<Rightarrow> 't \<Rightarrow> 'p \<Rightarrow> 'p \<times> go_error option"
  tp_Flush :: "('p, 's, 'r) effect"

record ('p, 's, 'r) lazyLoader =
  ll_Name :: string
  ll_Exec :: "('p, 's, 'r) effect"

record 't filterer =
  f_Name :: string
  f_FilterTransaction :: "'t \<Rightarrow> go_error + bool"

definition wrap_fault :: "string \<Rightarrow> fault \<Rightarrow> fault" where
  "wrap_fault msg = map_option (\<lambda>(e, aborted). (Wrapped msg e, aborted))"

text \<open>One effect after the other, up to the first error: the loops of the groups.\<close>

fun run_effects :: "string \<Rightarrow> ('p, 's, 'r) effect list \<Rightarrow> ('p, 's, 'r) effect" where
  "run_effects msg [] st = (st, None)"
| "run_effects msg (f # fs) st =
     (case f st of
        (st', None) \<Rightarrow> run_effects msg fs st'
      | (st', Some e) \<Rightarrow> (st', wrap_fault msg (Some e)))"

definition group_ProcessChange :: "('c, 'p, 's, 'r) changeProcessor list \<Rightarrow> 'c \<Rightarrow> ('p, 's, 'r) effect" where
  "group_ProcessChange processors change =
     run_effects ''error in ProcessChange'' (map (\<lambda>p. cp_ProcessChange p change) processors)"

definition group_Commit :: "('c, 'p, 's, 'r) changeProcessor list \<Rightarrow> ('p, 's, 'r) effect" where
  "group_Commit processors = run_effects ''error in Commit'' (map cp_Commit processors)"

fun streamChanges ::
    "('c, 'p, 's, 'r) changeProcessor list \<Rightarrow> (go_error + 'c) list \<Rightarrow> ('p, 's, 'r) effect" where
  "streamChanges processors [] st = (st, None)"
| "streamChanges processors (Inl e # reader) st = (st, Some (Wrapped ''could not read transaction'' e, False))"
| "streamChanges processors (Inr change # reader) st =
     (case group_ProcessChange processors change st of
        (st', None) \<Rightarrow> streamChanges processors reader st'
      | (st', Some e) \<Rightarrow> (st', wrap_fault ''could not process change'' (Some e)))"

section \<open>The processor of ledgers\<close>

record ledgerInfo =
  header_LedgerSeq :: uint32
  successTxCount :: nat
  failedTxCount :: nat
  opCount :: nat
  txSetOpCount :: nat

type_synonym LedgersProcessor = "(uint32 \<times> ledgerInfo) list"

definition ProcessLedger :: "uint32 \<Rightarrow> LedgersProcessor \<Rightarrow> LedgersProcessor" where
  "ProcessLedger sequence ledgers =
     (case map_of ledgers sequence of
        Some _ \<Rightarrow> ledgers
      | None \<Rightarrow> ledgers @ [(sequence, \<lparr>header_LedgerSeq = sequence, successTxCount = 0, failedTxCount = 0, opCount = 0, txSetOpCount = 0\<rparr>)])"

definition count_transaction :: "nat \<Rightarrow> bool \<Rightarrow> ledgerInfo \<Rightarrow> ledgerInfo" where
  "count_transaction ops successful entry0 =
     (let entry = entry0\<lparr>txSetOpCount := txSetOpCount entry0 + ops\<rparr> in
      if successful then entry\<lparr>successTxCount := successTxCount entry + 1, opCount := opCount entry + ops\<rparr>
      else entry\<lparr>failedTxCount := failedTxCount entry + 1\<rparr>)"

definition ledgers_ProcessTransaction :: "uint32 \<Rightarrow> nat \<Rightarrow> bool \<Rightarrow> LedgersProcessor \<Rightarrow> LedgersProcessor" where
  "ledgers_ProcessTransaction sequence ops successful ledgers =
     (let ledgers' = ProcessLedger sequence ledgers in
      AList.map_entry sequence (count_transaction ops successful) ledgers')"

text \<open>
  The map of ledgers is an association list in the order in which the ledgers came in.
  \<^verbatim>\<open>ledgerHeaderToMap\<close> panics on a sequence that is negative as \<^verbatim>\<open>int32\<close>; the table of ledgers has a unique index on
  the sequence.
\<close>

definition row_id :: "uint32 \<Rightarrow> int option" where
  "row_id sequence = (case ToInt64 (toid_New sequence 0 0) of Inl _ \<Rightarrow> None | Inr i \<Rightarrow> Some (sint i))"

definition ledgers_Flush :: "go_error option \<Rightarrow> LedgersProcessor \<Rightarrow> ('s, 'r) db \<Rightarrow> ('s, 'r) db \<times> fault" where
  "ledgers_Flush execError ledgers d =
     (if length ledgers = 0 then (d, None)
      else
        (let seqs = map (\<lambda>(_, entry). header_LedgerSeq entry) ledgers in
         if \<exists>q \<in> set seqs. row_id q = None then (d, Some (Panic, False))
         else
           (case execError of
              Some e \<Rightarrow> (d, Some (Wrapped ''error flushing ledgers'' e, True))
            | None \<Rightarrow>
                if \<not> distinct (seqs @ sequences d)
                then (d, Some (Wrapped ''error flushing ledgers'' (Errorf ''duplicate key value violates unique constraint''), True))
                else (d\<lparr>history_ledgers := history_ledgers d @ map (\<lambda>q. (the (row_id q), q)) seqs\<rparr>, None))))"

section \<open>Groups of transaction processors\<close>

datatype ('m, 't, 'p, 's, 'r) member = LedgersMember | OtherMember "('m, 't, 'p, 's, 'r) transactionProcessor"

text \<open>
  What the runner is built from. The processors, loaders and filters are those of call \<open>n\<close>; the processor of
  ledgers stands between \<open>processorsBefore\<close> and \<open>processorsAfter\<close>.
\<close>

record ('m, 'c, 't, 'h, 'p, 's, 'r) processorRunner =
  pr_ProtocolVersion :: "'m \<Rightarrow> uint32"
  pr_LedgerSequence :: "'m \<Rightarrow> uint32"
  changeReader :: "'m \<Rightarrow> go_error + (go_error + 'c) list"
  transactionReader :: "'m \<Rightarrow> go_error + (go_error + 't) list"
  archiveReader :: "uint32 \<Rightarrow> go_error + (go_error + 'c) list"
  archiveBucketListHash :: "uint32 \<Rightarrow> go_error + 'h"
  genesisChange :: 'c
  initialState :: 'p
  changeProcessors :: "nat \<Rightarrow> bool \<Rightarrow> uint32 \<Rightarrow> ('c, 'p, 's, 'r) changeProcessor list"
  processorsBefore :: "nat \<Rightarrow> ('m, 't, 'p, 's, 'r) transactionProcessor list"
  processorsAfter :: "nat \<Rightarrow> ('m, 't, 'p, 's, 'r) transactionProcessor list"
  lazyLoaders :: "nat \<Rightarrow> ('p, 's, 'r) lazyLoader list"
  configuredFilters :: "nat \<Rightarrow> 't filterer list"
  filteredTmpProcessors :: "nat \<Rightarrow> ('m, 't, 'p, 's, 'r) transactionProcessor list"
  deleteFilteredTmp :: "nat \<Rightarrow> ('s, 'r) db \<Rightarrow> ('s, 'r) db"
  ledgersExecError :: "nat \<Rightarrow> go_error option"
  tx_opCount :: "'t \<Rightarrow> nat"
  tx_Successful :: "'t \<Rightarrow> bool"
  EnableIngestionFiltering :: bool

definition MaxSupportedProtocolVersion :: uint32 where "MaxSupportedProtocolVersion = 20"

definition checkIfProtocolVersionSupported :: "uint32 \<Rightarrow> go_error option" where
  "checkIfProtocolVersionSupported v =
     (if v > MaxSupportedProtocolVersion then Some (Errorf ''This Aurora version does not support protocol version'') else None)"

definition buildTransactionProcessor ::
    "('m, 'c, 't, 'h, 'p, 's, 'r) processorRunner \<Rightarrow> nat \<Rightarrow> ('m, 't, 'p, 's, 'r) member list" where
  "buildTransactionProcessor pr n =
     map OtherMember (processorsBefore pr n) @ [LedgersMember] @ map OtherMember (processorsAfter pr n)"

definition buildTransactionFilterer :: "('m, 'c, 't, 'h, 'p, 's, 'r) processorRunner \<Rightarrow> nat \<Rightarrow> 't filterer list" where
  "buildTransactionFilterer pr n = (if EnableIngestionFiltering pr then configuredFilters pr n else [])"

definition buildFilteredOutProcessor ::
    "('m, 'c, 't, 'h, 'p, 's, 'r) processorRunner \<Rightarrow> nat \<Rightarrow> ('m, 't, 'p, 's, 'r) member list" where
  "buildFilteredOutProcessor pr n = (if EnableIngestionFiltering pr then map OtherMember (filteredTmpProcessors pr n) else [])"

fun member_Name :: "('m, 't, 'p, 's, 'r) member \<Rightarrow> string" where
  "member_Name LedgersMember = ''processors.LedgersProcessor''"
| "member_Name (OtherMember p) = tp_Name p"

fun group_ProcessTransaction ::
    "('m, 'c, 't, 'h, 'p, 's, 'r) processorRunner \<Rightarrow> ('m, 't, 'p, 's, 'r) member list \<Rightarrow> 'm \<Rightarrow> 't \<Rightarrow>
      LedgersProcessor \<times> 'p \<Rightarrow> (LedgersProcessor \<times> 'p) \<times> go_error option" where
  "group_ProcessTransaction pr [] m t st = (st, None)"
| "group_ProcessTransaction pr (LedgersMember # ms) m t (ledgers, p) =
     group_ProcessTransaction pr ms m t
       (ledgers_ProcessTransaction (pr_LedgerSequence pr m) (tx_opCount pr t) (tx_Successful pr t) ledgers, p)"
| "group_ProcessTransaction pr (OtherMember x # ms) m t (ledgers, p) =
     (case tp_ProcessTransaction x m t p of
        (p', None) \<Rightarrow> group_ProcessTransaction pr ms m t (ledgers, p')
      | (p', Some e) \<Rightarrow> ((ledgers, p'), Some (Wrapped ''error in ProcessTransaction'' e)))"

fun group_FilterTransaction :: "'t filterer list \<Rightarrow> 't \<Rightarrow> go_error + bool" where
  "group_FilterTransaction [] t = Inr True"
| "group_FilterTransaction (f # fs) t =
     (case f_FilterTransaction f t of
        Inl e \<Rightarrow> Inl (Wrapped ''error in FilterTransaction'' e)
      | Inr include \<Rightarrow> if \<not> include then Inr False else group_FilterTransaction fs t)"

fun StreamLedgerTransactions ::
    "('m, 'c, 't, 'h, 'p, 's, 'r) processorRunner \<Rightarrow> 't filterer list \<Rightarrow> ('m, 't, 'p, 's, 'r) member list \<Rightarrow>
      ('m, 't, 'p, 's, 'r) member list \<Rightarrow> 'm \<Rightarrow> (go_error + 't) list \<Rightarrow> LedgersProcessor \<times> 'p \<Rightarrow> (LedgersProcessor \<times> 'p) \<times> go_error option" where
  "StreamLedgerTransactions pr filters filteredOut grp m [] st = (st, None)"
| "StreamLedgerTransactions pr filters filteredOut grp m (Inl e # reader) st =
     (st, Some (Wrapped ''could not read transaction'' e))"
| "StreamLedgerTransactions pr filters filteredOut grp m (Inr t # reader) st =
     (case group_FilterTransaction filters t of
        Inl e \<Rightarrow> (st, Some (Wrapped ''could not filter transaction'' e))
      | Inr include \<Rightarrow>
          (case group_ProcessTransaction pr (if include then grp else filteredOut) m t st of
             (st', Some e) \<Rightarrow> (st', Some (Wrapped ''could not process transaction'' e))
           | (st', None) \<Rightarrow> StreamLedgerTransactions pr filters filteredOut grp m reader st'))"

definition streamLedger ::
    "('m, 'c, 't, 'h, 'p, 's, 'r) processorRunner \<Rightarrow> 't filterer list \<Rightarrow> ('m, 't, 'p, 's, 'r) member list \<Rightarrow>
      ('m, 't, 'p, 's, 'r) member list \<Rightarrow> 'm \<Rightarrow> LedgersProcessor \<times> 'p \<Rightarrow> (LedgersProcessor \<times> 'p) \<times> go_error option" where
  "streamLedger pr filters filteredOut grp m st =
     (case checkIfProtocolVersionSupported (pr_ProtocolVersion pr m) of
        Some e \<Rightarrow> (st, Some (Wrapped ''Error while checking for supported protocol version'' e))
      | None \<Rightarrow>
          (case transactionReader pr m of
             Inl e \<Rightarrow> (st, Some (Wrapped ''Error creating ledger reader'' e))
           | Inr reader \<Rightarrow>
               (case StreamLedgerTransactions pr filters filteredOut grp m reader st of
                  (st', Some e) \<Rightarrow> (st', Some (Wrapped ''Error streaming changes from ledger'' e))
                | (st', None) \<Rightarrow> (st', None))))"

text \<open>First the loaders, then the processors.\<close>

fun flush_members ::
    "go_error option \<Rightarrow> ('m, 't, 'p, 's, 'r) member list \<Rightarrow> LedgersProcessor \<Rightarrow> ('p, 's, 'r) effect" where
  "flush_members execError [] ledgers st = (st, None)"
| "flush_members execError (LedgersMember # ms) ledgers (p, d) =
     (case ledgers_Flush execError ledgers d of
        (d', None) \<Rightarrow> flush_members execError ms ledgers (p, d')
      | (d', Some e) \<Rightarrow> ((p, d'), wrap_fault ''error in Flush'' (Some e)))"
| "flush_members execError (OtherMember x # ms) ledgers (p, d) =
     (case tp_Flush x (p, d) of
        (st', None) \<Rightarrow> flush_members execError ms ledgers st'
      | (st', Some e) \<Rightarrow> (st', wrap_fault ''error in Flush'' (Some e)))"

definition group_Flush ::
    "go_error option \<Rightarrow> ('p, 's, 'r) lazyLoader list \<Rightarrow> ('m, 't, 'p, 's, 'r) member list \<Rightarrow> LedgersProcessor \<Rightarrow> ('p, 's, 'r) effect" where
  "group_Flush execError loaders grp ledgers st =
     (case run_effects ''error during lazy loader resolution'' (map ll_Exec loaders) st of
        (st', Some e) \<Rightarrow> (st', Some e)
      | (st', None) \<Rightarrow> flush_members execError grp ledgers st')"

definition flushProcessors ::
    "('m, 'c, 't, 'h, 'p, 's, 'r) processorRunner \<Rightarrow> nat \<Rightarrow> ('m, 't, 'p, 's, 'r) member list \<Rightarrow>
      ('m, 't, 'p, 's, 'r) member list \<Rightarrow> LedgersProcessor \<Rightarrow> ('p, 's, 'r) effect" where
  "flushProcessors pr n filteredOut grp ledgers st =
     (case (if EnableIngestionFiltering pr then
              (case group_Flush (ledgersExecError pr n) [] filteredOut ledgers st of
                 (st', Some e) \<Rightarrow> (st', wrap_fault ''Error flushing temp filtered tx from processor'' (Some e))
               | ((p, d), None) \<Rightarrow> ((p, deleteFilteredTmp pr n d), None))
            else (st, None)) of
        (st1, Some e) \<Rightarrow> (st1, Some e)
      | (st1, None) \<Rightarrow>
          (case group_Flush (ledgersExecError pr n) (lazyLoaders pr n) grp ledgers st1 of
             (st2, Some e) \<Rightarrow> (st2, wrap_fault ''Error flushing changes from processor'' (Some e))
           | (st2, None) \<Rightarrow> (st2, None)))"

section \<open>The runner\<close>

text \<open>\<open>Inl\<close>: a name is registered twice.\<close>

fun register :: "string list \<Rightarrow> string list \<Rightarrow> go_error + string list" where
  "register registry [] = Inr registry"
| "register registry (name # names) =
     (if name \<in> set registry then Inl (Errorf (name @ '' is duplicated'')) else register (registry @ [name]) names)"

definition validateBucketList :: "('m, 'c, 't, 'h, 'p, 's, 'r) processorRunner \<Rightarrow> uint32 \<Rightarrow> 'h \<Rightarrow> go_error option" where
  "validateBucketList pr ledgerSequence ledgerBucketHashList =
     (case archiveBucketListHash pr ledgerSequence of
        Inl e \<Rightarrow> Some (Wrapped ''Error getting bucket list hash'' e)
      | Inr historyBucketListHash \<Rightarrow>
          if historyBucketListHash \<noteq> ledgerBucketHashList
          then Some (Errorf ''Bucket list hash of history archive and ledger header does not match'') else None)"

definition with_state :: "('p \<times> ('s, 'r) db) \<times> fault \<Rightarrow> ('s, 'r) db \<times> fault" where
  "with_state r = (case r of ((p, d), e) \<Rightarrow> (d, e))"

definition runner_RunHistoryArchiveIngestion ::
    "('m, 'c, 't, 'h, 'p, 's, 'r) processorRunner \<Rightarrow> uint32 \<Rightarrow> bool \<Rightarrow> uint32 \<Rightarrow> 'h \<Rightarrow> nat \<Rightarrow> ('s, 'r) db \<Rightarrow> ('s, 'r) db \<times> fault" where
  "runner_RunHistoryArchiveIngestion pr checkpoint skip protocolVersion bucketListHash n d =
     (let processors = changeProcessors pr n True checkpoint; st = (initialState pr, d);
          commit = (\<lambda>st'. case group_Commit processors st' of
                            (st'', Some e) \<Rightarrow> (st'', wrap_fault ''Error committing changes from processor'' (Some e))
                          | (st'', None) \<Rightarrow> (st'', None))
      in case register [] (map cp_Name processors) of
           Inl e \<Rightarrow> (d, Some (e, False))
         | Inr _ \<Rightarrow>
             if checkpoint = 1 then
               (case group_ProcessChange processors (genesisChange pr) st of
                  (st', Some e) \<Rightarrow> with_state (st', wrap_fault ''Error ingesting genesis ledger'' (Some e))
                | (st', None) \<Rightarrow> with_state (commit st'))
             else
               (case (if skip then None
                      else case checkIfProtocolVersionSupported protocolVersion of
                             Some e \<Rightarrow> Some (Wrapped ''Error while checking for supported protocol version'' e)
                           | None \<Rightarrow> map_option (Wrapped ''Error validating bucket list from HAS'') (validateBucketList pr checkpoint bucketListHash)) of
                  Some e \<Rightarrow> (d, Some (e, False))
                | None \<Rightarrow>
                    (case archiveReader pr checkpoint of
                       Inl e \<Rightarrow> (d, Some (Wrapped ''Error creating HAS reader'' e, False))
                     | Inr reader \<Rightarrow>
                         (case streamChanges processors reader st of
                            (st', Some e) \<Rightarrow> with_state (st', wrap_fault ''Error streaming changes from HAS'' (Some e))
                          | (st', None) \<Rightarrow> with_state (commit st')))))"

definition runChangeProcessorOnLedger ::
    "('m, 'c, 't, 'h, 'p, 's, 'r) processorRunner \<Rightarrow> ('c, 'p, 's, 'r) changeProcessor list \<Rightarrow> 'm \<Rightarrow> ('s, 'r) db \<Rightarrow> ('s, 'r) db \<times> fault" where
  "runChangeProcessorOnLedger pr processors ledger d =
     (case changeReader pr ledger of
        Inl e \<Rightarrow> (d, Some (Wrapped ''Error creating ledger change reader'' e, False))
      | Inr reader \<Rightarrow>
          (case streamChanges processors reader (initialState pr, d) of
             (st, Some e) \<Rightarrow> with_state (st, wrap_fault ''Error streaming changes from ledger'' (Some e))
           | (st, None) \<Rightarrow>
               (case group_Commit processors st of
                  (st', Some e) \<Rightarrow> with_state (st', wrap_fault ''Error committing changes from processor'' (Some e))
                | (st', None) \<Rightarrow> with_state (st', None))))"

definition runTransactionProcessorsOnLedger ::
    "('m, 'c, 't, 'h, 'p, 's, 'r) processorRunner \<Rightarrow> string list \<Rightarrow> 'm \<Rightarrow> nat \<Rightarrow> ('s, 'r) db \<Rightarrow> ('s, 'r) db \<times> fault" where
  "runTransactionProcessorsOnLedger pr registry ledger n d =
     (let ledgers = ProcessLedger (pr_LedgerSequence pr ledger) [];
          filters = buildTransactionFilterer pr n; filteredOut = buildFilteredOutProcessor pr n; grp = buildTransactionProcessor pr n
      in case register registry (map f_Name filters @ map member_Name grp @ map ll_Name (lazyLoaders pr n) @ map member_Name filteredOut) of
           Inl e \<Rightarrow> (d, Some (e, False))
         | Inr _ \<Rightarrow>
             (case streamLedger pr filters filteredOut grp ledger (ledgers, initialState pr) of
                (st, Some e) \<Rightarrow> (d, Some (Wrapped ''Error streaming changes from ledger'' e, False))
              | ((ledgers', p), None) \<Rightarrow> with_state (flushProcessors pr n filteredOut grp ledgers' (p, d))))"

definition runner_RunAllProcessorsOnLedger ::
    "('m, 'c, 't, 'h, 'p, 's, 'r) processorRunner \<Rightarrow> 'm \<Rightarrow> nat \<Rightarrow> ('s, 'r) db \<Rightarrow> ('s, 'r) db \<times> fault" where
  "runner_RunAllProcessorsOnLedger pr ledger n d =
     (case checkIfProtocolVersionSupported (pr_ProtocolVersion pr ledger) of
        Some e \<Rightarrow> (d, Some (Wrapped ''Error while checking for supported protocol version'' e, False))
      | None \<Rightarrow>
          (let processors = changeProcessors pr n False (pr_LedgerSequence pr ledger) in
           case register [] (map cp_Name processors) of
             Inl e \<Rightarrow> (d, Some (e, False))
           | Inr registry \<Rightarrow>
               (case runChangeProcessorOnLedger pr processors ledger d of
                  (d', Some e) \<Rightarrow> (d', Some e)
                | (d', None) \<Rightarrow> runTransactionProcessorsOnLedger pr registry ledger n d')))"

fun stream_batch ::
    "('m, 'c, 't, 'h, 'p, 's, 'r) processorRunner \<Rightarrow> 't filterer list \<Rightarrow> ('m, 't, 'p, 's, 'r) member list \<Rightarrow>
      ('m, 't, 'p, 's, 'r) member list \<Rightarrow> 'm list \<Rightarrow> LedgersProcessor \<times> 'p \<Rightarrow> (LedgersProcessor \<times> 'p) \<times> go_error option" where
  "stream_batch pr filters filteredOut grp [] st = (st, None)"
| "stream_batch pr filters filteredOut grp (ledger # rest) (ledgers, p) =
     (case streamLedger pr filters filteredOut grp ledger (ProcessLedger (pr_LedgerSequence pr ledger) ledgers, p) of
        (st, Some e) \<Rightarrow> (st, Some (Wrapped ''Error streaming changes during ledger batch'' e))
      | (st, None) \<Rightarrow> stream_batch pr filters filteredOut grp rest st)"

definition runner_RunTransactionProcessorsOnLedgers ::
    "('m, 'c, 't, 'h, 'p, 's, 'r) processorRunner \<Rightarrow> 'm list \<Rightarrow> nat \<Rightarrow> ('s, 'r) db \<Rightarrow> ('s, 'r) db \<times> fault" where
  "runner_RunTransactionProcessorsOnLedgers pr ledgers n d =
     (let filters = buildTransactionFilterer pr n; filteredOut = buildFilteredOutProcessor pr n; grp = buildTransactionProcessor pr n
      in case stream_batch pr filters filteredOut grp ledgers ([], initialState pr) of
           (st, Some e) \<Rightarrow> (d, Some (e, False))
         | ((ls, p), None) \<Rightarrow> with_state (flushProcessors pr n filteredOut grp ls (p, d)))"

section \<open>The runner keeps its contract\<close>

definition with_runner :: "('m, 'h, 's, 'r) system \<Rightarrow> ('m, 'c, 't, 'h, 'p, 's, 'r) processorRunner \<Rightarrow> ('m, 'h, 's, 'r) system" where
  "with_runner s pr =
     s\<lparr>RunHistoryArchiveIngestion := runner_RunHistoryArchiveIngestion pr,
       RunAllProcessorsOnLedger := runner_RunAllProcessorsOnLedger pr,
       RunTransactionProcessorsOnLedgers := runner_RunTransactionProcessorsOnLedgers pr\<rparr>"

text \<open>
  What is asked of the processors: those of changes write the state tables only, those of transactions and their
  loaders write history tables other than the ledgers, and the changes of a checkpoint and of a ledger have the effect
  on the state that they describe.
\<close>

definition frame :: "(('s, 'r) db \<Rightarrow> ('s, 'r) db \<Rightarrow> bool) \<Rightarrow> ('p, 's, 'r) effect \<Rightarrow> bool" where
  "frame R f \<longleftrightarrow> (\<forall>st st' e. f st = (st', e) \<longrightarrow> R (snd st) (snd st'))"

definition keeps_history :: "('s, 'r) db \<Rightarrow> ('s, 'r) db \<Rightarrow> bool" where
  "keeps_history d d' \<longleftrightarrow> same_keys d d' \<and> history_ledgers d' = history_ledgers d"

definition keeps_all :: "('s, 'r) db \<Rightarrow> ('s, 'r) db \<Rightarrow> bool" where
  "keeps_all d d' \<longleftrightarrow> keeps_history d d' \<and> state_tables d' = state_tables d"

definition frames_ok :: "('m, 'c, 't, 'h, 'p, 's, 'r) processorRunner \<Rightarrow> bool" where
  "frames_ok pr \<longleftrightarrow>
     (\<forall>n a l. \<forall>x \<in> set (changeProcessors pr n a l). frame keeps_history (cp_Commit x) \<and> (\<forall>c. frame keeps_history (cp_ProcessChange x c)))
     \<and> (\<forall>n. \<forall>x \<in> set (processorsBefore pr n) \<union> set (processorsAfter pr n) \<union> set (filteredTmpProcessors pr n). frame keeps_all (tp_Flush x))
     \<and> (\<forall>n. \<forall>x \<in> set (lazyLoaders pr n). frame keeps_all (ll_Exec x))
     \<and> (\<forall>n d. keeps_all d (deleteFilteredTmp pr n d))"

definition ledger_changes_ok :: "('m, 'h, 's, 'r) system \<Rightarrow> ('m, 'c, 't, 'h, 'p, 's, 'r) processorRunner \<Rightarrow> (uint32 \<Rightarrow> 's) \<Rightarrow> bool" where
  "ledger_changes_ok s pr S \<longleftrightarrow>
     (\<forall>l. pr_LedgerSequence pr (ledgerCloseMeta s l) = l) \<and>
     (\<forall>l n d reader st st'. changeReader pr (ledgerCloseMeta s l) = Inr reader
        \<and> streamChanges (changeProcessors pr n False l) reader (initialState pr, d) = (st, None)
        \<and> group_Commit (changeProcessors pr n False l) st = (st', None) \<and> state_tables d = S (l - 1)
        \<longrightarrow> state_tables (snd st') = S l)"

definition archive_changes_ok :: "('m, 'h, 's, 'r) system \<Rightarrow> ('m, 'c, 't, 'h, 'p, 's, 'r) processorRunner \<Rightarrow> (uint32 \<Rightarrow> 's) \<Rightarrow> bool" where
  "archive_changes_ok s pr S \<longleftrightarrow>
     (\<forall>l n d reader st st'. (if l = 1 then reader = [Inr (genesisChange pr)] else archiveReader pr l = Inr reader)
        \<and> streamChanges (changeProcessors pr n True l) reader (initialState pr, d) = (st, None)
        \<and> group_Commit (changeProcessors pr n True l) st = (st', None) \<and> state_tables d = emptyStateTables s
        \<longrightarrow> state_tables (snd st') = S l)"

lemma keeps_trans [trans]:
  "keeps_history d e \<Longrightarrow> keeps_history e f \<Longrightarrow> keeps_history d f" "keeps_all d e \<Longrightarrow> keeps_all e f \<Longrightarrow> keeps_all d f"
  by (auto simp: keeps_history_def keeps_all_def intro: same_keys_trans)

lemma keeps_refl [simp]: "keeps_history d d" "keeps_all d d"
  by (simp_all add: keeps_history_def keeps_all_def)

lemma frameD: "frame R f \<Longrightarrow> f st = (st', e) \<Longrightarrow> R (snd st) (snd st')"
  unfolding frame_def by blast

lemma frameI: "(\<And>st st' e. f st = (st', e) \<Longrightarrow> R (snd st) (snd st')) \<Longrightarrow> frame R f"
  unfolding frame_def by blast

lemma frame_run_effects:
  assumes "\<And>f. f \<in> set fs \<Longrightarrow> frame R f" "\<And>d. R d d" "\<And>d e f. R d e \<Longrightarrow> R e f \<Longrightarrow> R d f"
  shows "frame R (run_effects msg fs)"
proof -
  have "run_effects msg fs st = (st', e) \<Longrightarrow> R (snd st) (snd st')" for st st' e
    using assms(1)
  proof (induction fs arbitrary: st)
    case (Cons f fs)
    obtain st1 e1 where 1: "f st = (st1, e1)" by (metis surj_pair)
    then have "R (snd st) (snd st1)" using Cons.prems(2) [of f] by (auto dest: frameD)
    moreover have "R (snd st1) (snd st')" if "e1 = None"
      using Cons.IH [of st1] Cons.prems 1 that by simp
    ultimately show ?case using Cons.prems(1) 1 by (cases e1) (simp, blast intro: assms(3), simp)
  qed (simp add: assms(2))
  then show ?thesis by (rule frameI)
qed

lemma frame_changes:
  assumes "frames_ok pr"
  shows "frame keeps_history (group_Commit (changeProcessors pr n a l))"
    and "frame keeps_history (streamChanges (changeProcessors pr n a l) reader)"
proof -
  have p: "frame keeps_history (cp_Commit x)" "frame keeps_history (cp_ProcessChange x c)"
    if "x \<in> set (changeProcessors pr n a l)" for x c
    using assms that by (auto simp: frames_ok_def)
  show "frame keeps_history (group_Commit (changeProcessors pr n a l))"
    unfolding group_Commit_def by (rule frame_run_effects) (auto intro: p keeps_trans)
  have g: "frame keeps_history (group_ProcessChange (changeProcessors pr n a l) c)" for c
    unfolding group_ProcessChange_def by (rule frame_run_effects) (auto intro: p keeps_trans)
  have "streamChanges (changeProcessors pr n a l) reader st = (st', e) \<Longrightarrow> keeps_history (snd st) (snd st')" for st st' e
  proof (induction reader arbitrary: st)
    case (Cons x reader)
    show ?case
    proof (cases x)
      case (Inr c)
      obtain st1 e1 where 1: "group_ProcessChange (changeProcessors pr n a l) c st = (st1, e1)" by (metis surj_pair)
      then have "keeps_history (snd st) (snd st1)" using g by (blast dest: frameD)
      moreover have "keeps_history (snd st1) (snd st')" if "e1 = None"
        using Cons.IH [of st1] Cons.prems 1 Inr that by simp
      ultimately show ?thesis using Cons.prems 1 Inr by (cases e1) (simp, blast intro: keeps_trans, simp)
    qed (use Cons.prems in simp)
  qed simp
  then show "frame keeps_history (streamChanges (changeProcessors pr n a l) reader)" by (rule frameI)
qed

lemma run_changes:
  assumes "frames_ok pr" "streamChanges (changeProcessors pr n a l) reader (p, d) = (st, e1)"
    "group_Commit (changeProcessors pr n a l) st = (st', e2)"
  shows "keeps_history d (snd st')"
  using frameD [OF frame_changes(2) [OF assms(1)] assms(2)] frameD [OF frame_changes(1) [OF assms(1)] assms(3)]
  by (auto intro: keeps_trans)

text \<open>The collected ledgers: one entry for each sequence, with that sequence in its header.\<close>

definition collected :: "LedgersProcessor \<Rightarrow> bool" where
  "collected ledgers \<longleftrightarrow> distinct (map fst ledgers) \<and> (\<forall>(q, entry) \<in> set ledgers. header_LedgerSeq entry = q)"

lemma ProcessLedger_collected:
  assumes "collected ledgers"
  shows "collected (ProcessLedger q ledgers)"
    and "map fst (ProcessLedger q ledgers) = (if q \<in> fst ` set ledgers then map fst ledgers else map fst ledgers @ [q])"
proof -
  have "map_of ledgers q = None \<longleftrightarrow> q \<notin> fst ` set ledgers" by (simp add: map_of_eq_None_iff)
  then show "collected (ProcessLedger q ledgers)"
    and "map fst (ProcessLedger q ledgers) = (if q \<in> fst ` set ledgers then map fst ledgers else map fst ledgers @ [q])"
    using assms by (auto simp: collected_def ProcessLedger_def split: option.splits)
qed

lemma map_entry_collected:
  assumes "collected ledgers" "\<And>e. header_LedgerSeq (f e) = header_LedgerSeq e"
  shows "collected (AList.map_entry q f ledgers)" "map fst (AList.map_entry q f ledgers) = map fst ledgers"
proof -
  show keys: "map fst (AList.map_entry q f ledgers) = map fst ledgers" by (induction ledgers) auto
  have "\<forall>(q', entry) \<in> set (AList.map_entry q f ledgers). header_LedgerSeq entry = q'"
    using assms by (induction ledgers) (auto simp: collected_def split: if_splits)
  with keys assms(1) show "collected (AList.map_entry q f ledgers)" by (simp add: collected_def)
qed

lemma ledgers_ProcessTransaction_collected:
  assumes "collected ledgers" "q \<in> fst ` set ledgers"
  shows "collected (ledgers_ProcessTransaction q ops ok ledgers)"
    and "map fst (ledgers_ProcessTransaction q ops ok ledgers) = map fst ledgers"
  using map_entry_collected [OF ProcessLedger_collected(1) [OF assms(1)], of "count_transaction ops ok" q q]
    ProcessLedger_collected(2) [OF assms(1), of q] assms(2)
  by (simp_all add: ledgers_ProcessTransaction_def Let_def count_transaction_def)

lemma group_ProcessTransaction_collected:
  assumes "group_ProcessTransaction pr ms m t (ledgers, p) = ((ledgers', p'), e)" "collected ledgers" "pr_LedgerSequence pr m \<in> fst ` set ledgers"
  shows "collected ledgers' \<and> map fst ledgers' = map fst ledgers"
  using assms
proof (induction ms arbitrary: ledgers p)
  case (Cons x ms)
  show ?case
  proof (cases x)
    case LedgersMember
    let ?l = "ledgers_ProcessTransaction (pr_LedgerSequence pr m) (tx_opCount pr t) (tx_Successful pr t) ledgers"
    note l = ledgers_ProcessTransaction_collected [OF Cons.prems(2,3), of "tx_opCount pr t" "tx_Successful pr t"]
    then have "pr_LedgerSequence pr m \<in> fst ` set ?l" using Cons.prems(3) by (metis list.set_map)
    with Cons.IH [of ?l p] Cons.prems(1) LedgersMember l show ?thesis by simp
  next
    case (OtherMember y)
    obtain p1 e1 where "tp_ProcessTransaction y m t p = (p1, e1)" by (metis surj_pair)
    with Cons OtherMember show ?thesis by (cases e1) auto
  qed
qed auto

lemma StreamLedgerTransactions_collected:
  assumes "StreamLedgerTransactions pr fs out grp m reader (ledgers, p) = ((ledgers', p'), e)" "collected ledgers"
    "pr_LedgerSequence pr m \<in> fst ` set ledgers"
  shows "collected ledgers' \<and> map fst ledgers' = map fst ledgers"
  using assms
proof (induction reader arbitrary: ledgers p)
  case (Cons x reader)
  show ?case
  proof (cases x)
    case (Inl e')
    with Cons.prems show ?thesis by simp
  next
    case (Inr t)
    show ?thesis
    proof (cases "group_FilterTransaction fs t")
      case (Inl e')
      with Inr Cons.prems show ?thesis by simp
    next
      case inc: (Inr b)
      obtain l1 p1 e1 where 1: "group_ProcessTransaction pr (if b then grp else out) m t (ledgers, p) = ((l1, p1), e1)"
        by (metis surj_pair)
      note g = group_ProcessTransaction_collected [OF 1 Cons.prems(2,3)]
      then have "pr_LedgerSequence pr m \<in> fst ` set l1" using Cons.prems(3) by (metis list.set_map)
      with Cons.IH [of l1 p1] Cons.prems(1) Inr inc 1 g show ?thesis by (cases e1) auto
    qed
  qed
qed auto

lemma streamLedger_collected:
  assumes "streamLedger pr fs out grp m (ledgers, p) = ((ledgers', p'), e)" "collected ledgers" "pr_LedgerSequence pr m \<in> fst ` set ledgers"
  shows "collected ledgers' \<and> map fst ledgers' = map fst ledgers"
  using assms
  by (auto simp: streamLedger_def split: option.splits sum.splits prod.splits dest: StreamLedgerTransactions_collected)

lemma stream_batch_collected:
  assumes "stream_batch pr fs out grp (map f ls) (ledgers, p) = ((ledgers', p'), None)" "collected ledgers"
    "\<And>l. pr_LedgerSequence pr (f l) = l"
  shows "collected ledgers' \<and> (distinct (map fst ledgers @ ls) \<longrightarrow> map fst ledgers' = map fst ledgers @ ls)"
  using assms(1,2)
proof (induction ls arbitrary: ledgers p)
  case (Cons l ls)
  let ?l = "ProcessLedger l ledgers"
  have keys: "map fst ?l = (if l \<in> fst ` set ledgers then map fst ledgers else map fst ledgers @ [l])" and c: "collected ?l"
    using ProcessLedger_collected [OF Cons.prems(2), of l] by auto
  have "l \<in> set (map fst ?l)" unfolding keys by simp
  then have mem: "pr_LedgerSequence pr (f l) \<in> fst ` set ?l" by (simp add: assms(3))
  obtain l1 p1 e1 where 1: "streamLedger pr fs out grp (f l) (?l, p) = ((l1, p1), e1)" by (metis surj_pair)
  note s = streamLedger_collected [OF 1 c mem]
  show ?case
  proof (cases e1)
    case None
    have "stream_batch pr fs out grp (map f ls) (l1, p1) = ((ledgers', p'), None)"
      using Cons.prems(1) 1 None by (simp add: assms(3))
    from Cons.IH [OF this] s keys show ?thesis by auto
  next
    case (Some e)
    with Cons.prems(1) 1 show ?thesis by (simp add: assms(3))
  qed
qed simp


text \<open>What a flush does to the database: it adds the collected ledgers to the history, once, and leaves the rest alone.\<close>

definition adds :: "uint32 list \<Rightarrow> fault \<Rightarrow> ('s, 'r) db \<Rightarrow> ('s, 'r) db \<Rightarrow> bool" where
  "adds ls e d d' \<longleftrightarrow> state_tables d' = state_tables d \<and> same_keys d d'
     \<and> (e = None \<longrightarrow> history_ledgers d' = history_ledgers d @ map ledger_row ls)"

lemma keeps_all_adds: "keeps_all d d' \<Longrightarrow> adds [] e d d'"
  by (simp add: keeps_all_def keeps_history_def adds_def)

lemma adds_error: "adds ls e d d' \<Longrightarrow> adds ls' (Some x) d d'"
  by (simp add: adds_def)

lemma adds_trans: "adds ls None d d1 \<Longrightarrow> adds ls' e d1 d2 \<Longrightarrow> adds (ls @ ls') e d d2"
  by (auto simp: adds_def intro: same_keys_trans)

lemma ledgers_Flush_adds:
  assumes "ledgers_Flush execError ledgers d = (d', e)" "collected ledgers"
  shows "adds (map fst ledgers) e d d'"
proof -
  have seqs: "map (\<lambda>(_, entry). header_LedgerSeq entry) ledgers = map fst ledgers"
    using assms(2) by (auto simp: collected_def intro!: map_cong)
  have row: "(the (row_id q), q) = ledger_row q" if "row_id q \<noteq> None" for q
    using that by (auto simp: row_id_def ledger_row_def split: sum.splits)
  have rows: "map (\<lambda>q. (the (row_id q), q)) qs = map ledger_row qs" if "\<not> (\<exists>q \<in> set qs. row_id q = None)" for qs
    using that by (intro map_cong) (auto intro: row)
  show ?thesis
  proof (cases "ledgers = []")
    case False
    then show ?thesis
      using assms(1) rows [of "map fst ledgers"]
      by (simp add: ledgers_Flush_def Let_def seqs split: if_splits option.splits)
        (auto simp: adds_def same_keys_def comp_def)
  qed (use assms(1) in \<open>simp add: ledgers_Flush_def adds_def\<close>)
qed

lemma wrap_fault_Some [simp]: "wrap_fault msg (Some x) = None \<longleftrightarrow> False" "wrap_fault msg None = None"
  by (auto simp: wrap_fault_def)

lemma flush_others:
  assumes "flush_members execError (map OtherMember xs) ledgers (p, d) = ((p', d'), e)"
    "\<And>x. x \<in> set xs \<Longrightarrow> frame keeps_all (tp_Flush x)"
  shows "keeps_all d d'"
  using assms
proof (induction xs arbitrary: p d)
  case (Cons x xs)
  obtain p1 d1 e1 where 1: "tp_Flush x (p, d) = ((p1, d1), e1)" by (metis surj_pair)
  then have "keeps_all d d1" using Cons.prems(2) [of x] by (auto dest: frameD)
  moreover have "keeps_all d1 d'" if "e1 = None" using Cons.IH [of p1 d1] Cons.prems 1 that by simp
  ultimately show ?case using Cons.prems(1) 1 by (cases e1) (simp, blast intro: keeps_trans, simp)
qed simp

lemma flush_append:
  "flush_members execError (ms @ ms') ledgers st =
     (case flush_members execError ms ledgers st of
        (st', None) \<Rightarrow> flush_members execError ms' ledgers st' | (st', Some e) \<Rightarrow> (st', Some e))"
proof (induction ms arbitrary: st)
  case (Cons x ms)
  obtain p d where [simp]: "st = (p, d)" by (metis surj_pair)
  show ?case using Cons.IH by (cases x) (auto simp: wrap_fault_def split: prod.splits option.splits)
qed simp

lemma flush_group_adds:
  assumes f: "flush_members execError (map OtherMember xs @ [LedgersMember] @ map OtherMember ys) ledgers (p, d) = ((p', d'), e)"
    and xs: "\<And>x. x \<in> set xs \<Longrightarrow> frame keeps_all (tp_Flush x)" and ys: "\<And>x. x \<in> set ys \<Longrightarrow> frame keeps_all (tp_Flush x)"
    and c: "collected ledgers"
  shows "adds (map fst ledgers) e d d'"
proof -
  obtain p1 d1 e1 where 1: "flush_members execError (map OtherMember xs) ledgers (p, d) = ((p1, d1), e1)" by (metis surj_pair)
  have k1: "keeps_all d d1" using flush_others [OF 1 xs] .
  obtain d2 e2 where 2: "ledgers_Flush execError ledgers d1 = (d2, e2)" by (metis surj_pair)
  note k2 = ledgers_Flush_adds [OF 2 c]
  obtain p3 d3 e3 where 3: "flush_members execError (map OtherMember ys) ledgers (p1, d2) = ((p3, d3), e3)" by (metis surj_pair)
  have k3: "keeps_all d2 d3" using flush_others [OF 3 ys] .
  note t = adds_trans [OF keeps_all_adds [OF k1] k2, simplified]
  show ?thesis
  proof (cases e1)
    case (Some x)
    with f 1 k1 show ?thesis by (auto simp: flush_append intro: adds_error keeps_all_adds)
  next
    case e1: None
    show ?thesis
    proof (cases e2)
      case (Some x)
      with f e1 1 2 t show ?thesis by (auto simp: flush_append wrap_fault_def intro: adds_error)
    next
      case None
      with t have "adds (map fst ledgers) e3 d d3"
        using adds_trans [OF _ keeps_all_adds [OF k3], of "map fst ledgers" d e3] by simp
      with f e1 None 1 2 3 show ?thesis by (auto simp: flush_append)
    qed
  qed
qed

lemma flushProcessors_adds:
  assumes f: "flushProcessors pr n (buildFilteredOutProcessor pr n) (buildTransactionProcessor pr n) ledgers (p, d) = ((p', d'), e)"
    and ok: "frames_ok pr" and c: "collected ledgers"
  shows "adds (map fst ledgers) e d d'"
proof -
  have x: "frame keeps_all (tp_Flush x)"
    if "x \<in> set (processorsBefore pr n) \<or> x \<in> set (processorsAfter pr n) \<or> x \<in> set (filteredTmpProcessors pr n)" for x
    using ok that by (auto simp: frames_ok_def)
  have loaders: "frame keeps_all (run_effects msg (map ll_Exec (lazyLoaders pr n)))" for msg
    by (rule frame_run_effects) (use ok in \<open>auto simp: frames_ok_def intro: keeps_trans\<close>)
  obtain p1 d1 e1 where 1: "flush_members (ledgersExecError pr n) (map OtherMember (filteredTmpProcessors pr n)) ledgers (p, d) = ((p1, d1), e1)"
    by (metis surj_pair)
  have k1: "keeps_all d d1" using flush_others [OF 1] x by blast
  then have k1': "keeps_all d (deleteFilteredTmp pr n d1)" using ok by (auto simp: frames_ok_def intro: keeps_trans)
  have main: "adds (map fst ledgers) e d d'"
    if g: "group_Flush (ledgersExecError pr n) (lazyLoaders pr n) (buildTransactionProcessor pr n) ledgers (q, d2) = ((p', d'), e')"
      and k: "keeps_all d d2" and e: "e' = None \<longleftrightarrow> e = None" for q d2 e'
  proof -
    obtain p3 d3 e3 where 3: "run_effects ''error during lazy loader resolution'' (map ll_Exec (lazyLoaders pr n)) (q, d2) = ((p3, d3), e3)"
      by (metis surj_pair)
    have k3: "keeps_all d d3" using frameD [OF loaders 3] k by (auto intro: keeps_trans)
    have "adds (map fst ledgers) e' d d'"
    proof (cases e3)
      case None
      with g 3 have "flush_members (ledgersExecError pr n) (buildTransactionProcessor pr n) ledgers (p3, d3) = ((p', d'), e')"
        by (simp add: group_Flush_def)
      then have "adds (map fst ledgers) e' d3 d'"
        unfolding buildTransactionProcessor_def by (rule flush_group_adds) (use x c in auto)
      with adds_trans [OF keeps_all_adds [OF k3] this] show ?thesis by simp
    next
      case (Some y)
      with g 3 k3 show ?thesis by (auto simp: group_Flush_def intro: adds_error keeps_all_adds)
    qed
    with e show ?thesis by (auto simp: adds_def)
  qed
  obtain p5 d5 e5 where 5:
    "group_Flush (ledgersExecError pr n) (lazyLoaders pr n) (buildTransactionProcessor pr n) ledgers
       (if EnableIngestionFiltering pr then (p1, deleteFilteredTmp pr n d1) else (p, d)) = ((p5, d5), e5)"
    by (metis surj_pair)
  show ?thesis
  proof (cases "EnableIngestionFiltering pr \<and> e1 \<noteq> None")
    case True
    with f 1 k1 show ?thesis
      by (auto simp: flushProcessors_def buildFilteredOutProcessor_def group_Flush_def wrap_fault_def intro!: adds_error [OF keeps_all_adds])
  next
    case False
    with f 1 5 have "(p5, d5) = (p', d')" "e5 = None \<longleftrightarrow> e = None"
      by (auto simp: flushProcessors_def buildFilteredOutProcessor_def group_Flush_def [of _ "[]"] wrap_fault_def split: option.splits if_splits)
    with main 5 k1' show ?thesis by (auto split: if_splits)
  qed
qed


lemma archive_ingestion_ok:
  assumes "frames_ok pr" "archive_changes_ok s pr S" "state_tables d = emptyStateTables s"
    "runner_RunHistoryArchiveIngestion pr c skip pv h n d = (d', None)"
  shows "state_tables d' = S c \<and> keeps_history d d'"
proof -
  let ?ps = "changeProcessors pr n True c"
  have "\<exists>reader st st'. (if c = 1 then reader = [Inr (genesisChange pr)] else archiveReader pr c = Inr reader)
      \<and> streamChanges ?ps reader (initialState pr, d) = (st, None) \<and> group_Commit ?ps st = (st', None) \<and> d' = snd st'"
  proof (cases "c = 1")
    case True
    with assms(4) show ?thesis
      by (force simp: runner_RunHistoryArchiveIngestion_def Let_def with_state_def split: sum.splits prod.splits option.splits)
  next
    case False
    with assms(4) show ?thesis
      by (simp add: runner_RunHistoryArchiveIngestion_def Let_def with_state_def split: sum.splits prod.splits option.splits if_splits)
        force+
  qed
  then obtain reader st st' where *: "if c = 1 then reader = [Inr (genesisChange pr)] else archiveReader pr c = Inr reader"
    "streamChanges ?ps reader (initialState pr, d) = (st, None)" "group_Commit ?ps st = (st', None)" "d' = snd st'" by blast
  then show ?thesis
    using run_changes [OF assms(1) *(2,3)] assms(2,3) unfolding archive_changes_ok_def by blast
qed

lemma transaction_processors_ok:
  assumes "frames_ok pr" "\<And>l. pr_LedgerSequence pr (f l) = l"
    "runner_RunTransactionProcessorsOnLedgers pr (map f ls) n d = (d', e)"
  shows "state_tables d' = state_tables d \<and> same_keys d d'
     \<and> (e = None \<and> distinct ls \<longrightarrow> history_ledgers d' = history_ledgers d @ map ledger_row ls)"
proof -
  let ?out = "buildFilteredOutProcessor pr n" and ?grp = "buildTransactionProcessor pr n"
  obtain ls' p e1 where 1: "stream_batch pr (buildTransactionFilterer pr n) ?out ?grp (map f ls) ([], initialState pr) = ((ls', p), e1)"
    by (metis surj_pair)
  show ?thesis
  proof (cases e1)
    case None
    with 1 have c: "collected ls'" "distinct ls \<longrightarrow> map fst ls' = ls"
      using stream_batch_collected [of pr _ ?out ?grp f ls "[]"] assms(2) by (auto simp: collected_def)
    obtain p2 d2 e2 where 2: "flushProcessors pr n ?out ?grp ls' (p, d) = ((p2, d2), e2)" by (metis surj_pair)
    from assms(3) 1 2 None have "d' = d2" "e = e2"
      by (simp_all add: runner_RunTransactionProcessorsOnLedgers_def Let_def with_state_def)
    with flushProcessors_adds [OF 2 assms(1) c(1)] c(2) show ?thesis by (auto simp: adds_def)
  next
    case (Some x)
    with assms(3) 1 show ?thesis by (auto simp: runner_RunTransactionProcessorsOnLedgers_def Let_def)
  qed
qed

lemma all_processors_ok:
  assumes "frames_ok pr" "ledger_changes_ok s pr S" "state_tables d = S (l - 1)"
    "runner_RunAllProcessorsOnLedger pr (ledgerCloseMeta s l) n d = (d', None)"
  shows "state_tables d' = S l \<and> same_keys d d' \<and> history_ledgers d' = history_ledgers d @ [ledger_row l]"
proof -
  let ?m = "ledgerCloseMeta s l" and ?ps = "changeProcessors pr n False l"
    and ?out = "buildFilteredOutProcessor pr n" and ?grp = "buildTransactionProcessor pr n"
  have [simp]: "pr_LedgerSequence pr ?m = l" using assms(2) by (simp add: ledger_changes_ok_def)
  obtain registry d1 where 1: "runChangeProcessorOnLedger pr ?ps ?m d = (d1, None)"
    "runTransactionProcessorsOnLedger pr registry ?m n d1 = (d', None)"
    using assms(4) by (auto simp: runner_RunAllProcessorsOnLedger_def Let_def split: option.splits sum.splits prod.splits)
  from 1(1) obtain reader st st' where 2: "changeReader pr ?m = Inr reader"
    "streamChanges ?ps reader (initialState pr, d) = (st, None)" "group_Commit ?ps st = (st', None)" "d1 = snd st'"
    by (auto simp: runChangeProcessorOnLedger_def with_state_def split: sum.splits option.splits prod.splits)
  have k: "keeps_history d d1" using run_changes [OF assms(1) 2(2,3)] 2(4) by simp
  have S: "state_tables d1 = S l" using assms(2,3) 2 unfolding ledger_changes_ok_def by blast
  let ?ls = "ProcessLedger l []"
  have c: "collected ?ls" "map fst ?ls = [l]" by (simp_all add: ProcessLedger_def collected_def)
  obtain ls' p e2 where 3: "streamLedger pr (buildTransactionFilterer pr n) ?out ?grp ?m (?ls, initialState pr) = ((ls', p), e2)"
    by (metis surj_pair)
  have "pr_LedgerSequence pr ?m \<in> fst ` set ?ls" by (simp add: ProcessLedger_def)
  from streamLedger_collected [OF 3 c(1) this] c(2) have c': "collected ls'" "map fst ls' = [l]" by simp_all
  obtain p3 d3 e3 where 4: "flushProcessors pr n ?out ?grp ls' (p, d1) = ((p3, d3), e3)" by (metis surj_pair)
  have "e2 = None \<and> d3 = d' \<and> e3 = None"
    using 1(2) 3 4 by (cases e2) (auto simp: runTransactionProcessorsOnLedger_def Let_def with_state_def split: sum.splits)
  with flushProcessors_adds [OF 4 assms(1) c'(1)] c'(2) have "adds [l] None d1 d'" by simp
  with k S show ?thesis by (auto simp: adds_def keeps_history_def intro: same_keys_trans)
qed

lemma runner_contract:
  assumes "frames_ok pr" "ledger_changes_ok s pr S" "archive_changes_ok s pr S"
  shows "runner_ok (with_runner s pr) S"
proof -
  have [simp]: "RunHistoryArchiveIngestion (with_runner s pr) = runner_RunHistoryArchiveIngestion pr"
    "RunAllProcessorsOnLedger (with_runner s pr) = runner_RunAllProcessorsOnLedger pr"
    "RunTransactionProcessorsOnLedgers (with_runner s pr) = runner_RunTransactionProcessorsOnLedgers pr"
    "ledgerCloseMeta (with_runner s pr) = ledgerCloseMeta s" "emptyStateTables (with_runner s pr) = emptyStateTables s"
    by (simp_all add: with_runner_def)
  have seq: "pr_LedgerSequence pr (ledgerCloseMeta s l) = l" for l using assms(2) by (simp add: ledger_changes_ok_def)
  have "archive_law (with_runner s pr) S"
    unfolding archive_law_def
  proof (intro allI impI, elim conjE)
    fix c skip pv h n d d'
    assume "RunHistoryArchiveIngestion (with_runner s pr) c skip pv h n d = (d', None)" "state_tables d = emptyStateTables (with_runner s pr)"
    then show "state_tables d' = S c \<and> same_keys d d' \<and> history_ledgers d' = history_ledgers d"
      using archive_ingestion_ok [OF assms(1,3), of d c skip pv h n d'] by (simp add: keeps_history_def)
  qed
  moreover have "ledger_law (with_runner s pr) S"
    unfolding ledger_law_def
  proof (intro allI impI, elim conjE)
    fix l n d d'
    assume "RunAllProcessorsOnLedger (with_runner s pr) (ledgerCloseMeta (with_runner s pr) l) n d = (d', None)" "state_tables d = S (l - 1)"
    then show "state_tables d' = S l \<and> same_keys d d' \<and> history_ledgers d' = history_ledgers d @ [ledger_row l]"
      using all_processors_ok [OF assms(1,2), of d l n d'] by simp
  qed
  moreover have "transaction_law (with_runner s pr)"
    unfolding transaction_law_def
  proof (intro allI impI)
    fix ls n d d' e
    assume "RunTransactionProcessorsOnLedgers (with_runner s pr) (map (ledgerCloseMeta (with_runner s pr)) ls) n d = (d', e)"
    then show "state_tables d' = state_tables d \<and> same_keys d d'
        \<and> (e = None \<and> distinct ls \<longrightarrow> history_ledgers d' = history_ledgers d @ map ledger_row ls)"
      using transaction_processors_ok [OF assms(1) seq, of ls n d d' e] by simp
  qed
  ultimately show ?thesis by (simp add: runner_ok_def)
qed

end
