(* ===== verification/OrderBookStream.thy ===== *)
theory OrderBookStream
  imports OfferTables OrderBook ProcessorRunner
begin

text \<open>
  The stream that keeps an order book in memory equal to the tables of offers and pools (\<^verbatim>\<open>ingest/orderbook.go\<close>). Every
  poll reads, in one read-only transaction, how far the ingestion has come; it then applies the rows that were changed
  since the last poll to the graph, or clears the graph and reads all rows again.

  The code works on the stream and on the session; the state here is a pair of both. \<^verbatim>\<open>verifyAllOffers\<close>, \<^verbatim>\<open>verifyAllLiquidityPools\<close>
  and the part of \<^verbatim>\<open>Update\<close> that calls them once an hour are left out; all that they change of the stream is that \<^verbatim>\<open>lastLedger\<close> becomes 0
  when they find a difference, which is \<open>forget\<close>. Rows that the code adds to the graph while it reads them
  are added here after they have been read: a query that fails makes the code discard them. Logging and gauges are left out.
\<close>

section \<open>The state\<close>

record OrderBookStream =
  stream_graph :: OrderBookGraph
  stream_lastLedger :: uint32

definition NewOrderBookStream :: "OrderBookGraph \<Rightarrow> OrderBookStream" where
  "NewOrderBookStream g = \<lparr>stream_graph = g, stream_lastLedger = 0\<rparr>"

record ingestionStatus =
  HistoryConsistentWithState :: bool
  StateInvalid :: bool
  LastIngestedLedger :: uint32
  LastOfferCompactionLedger :: uint32
  LastLiquidityPoolCompactionLedger :: uint32

definition BeginTx :: "'y outside_scheme \<Rightarrow> ('s, 'r) world \<Rightarrow> (go_error + unit) \<times> ('s, 'r) world" where
  "BeginTx s w =
     (if tx w \<noteq> None then (Inl (Errorf ''already in transaction''), w)
      else
        (let w1 = w\<lparr>calls := calls w + 1\<rparr> in
         case fails s (calls w) of
           Some e \<Rightarrow> (Inl (handleError s (calls w) ''beginTx failed'' e), w1)
         | None \<Rightarrow> (Inr (), w1\<lparr>tx := Some \<lparr>tx_db = stored w, tx_aborted = False\<rparr>\<rparr>)))"

definition getIngestionStatus :: "'y outside_scheme \<Rightarrow> ('s, 'r) world \<Rightarrow> (go_error + ingestionStatus) \<times> ('s, 'r) world" where
  "getIngestionStatus s =
     try_wrap ''Error from GetExpStateInvalid'' (GetExpStateInvalid s) (\<lambda>invalid.
     try_wrap ''Error from GetLatestHistoryLedger'' (GetLatestHistoryLedger s) (\<lambda>lastHistoryLedger.
     try_wrap ''Error from GetLastLedgerIngestNonBlocking'' (GetLastLedgerIngestNonBlocking s) (\<lambda>lastIngested.
     try_wrap ''Error from GetOfferCompactionSequence'' (GetOfferCompactionSequence s) (\<lambda>offerCompaction.
     try_wrap ''Error from GetLiquidityPoolCompactionSequence'' (GetLiquidityPoolCompactionSequence s) (\<lambda>poolCompaction.
     return (Inr \<lparr>HistoryConsistentWithState = (lastIngested = lastHistoryLedger \<or> lastHistoryLedger = 0),
                  StateInvalid = invalid, LastIngestedLedger = lastIngested,
                  LastOfferCompactionLedger = offerCompaction, LastLiquidityPoolCompactionLedger = poolCompaction\<rparr>))))))"

section \<open>Updates\<close>

definition on_session :: "('w \<Rightarrow> 'a \<times> 'w) \<Rightarrow> 'b \<times> 'w \<Rightarrow> 'a \<times> 'b \<times> 'w" where
  "on_session f st = (case st of (b, w) \<Rightarrow> case f w of (r, w') \<Rightarrow> (r, b, w'))"

definition on_stream :: "('b \<Rightarrow> 'a \<times> 'b) \<Rightarrow> 'b \<times> 'w \<Rightarrow> 'a \<times> 'b \<times> 'w" where
  "on_stream f st = (case st of (b, w) \<Rightarrow> case f b of (r, b') \<Rightarrow> (r, b', w))"

definition deferDiscard :: "(OrderBookStream \<times> 'w \<Rightarrow> 'a \<times> OrderBookStream \<times> 'w) \<Rightarrow> OrderBookStream \<times> 'w \<Rightarrow> 'a \<times> OrderBookStream \<times> 'w" where
  "deferDiscard body st = (case body st of (r, ob, w) \<Rightarrow> (r, ob\<lparr>stream_graph := Discard (stream_graph ob)\<rparr>, w))"

text \<open>A loop over rows that ends at the first error.\<close>

fun each_row :: "('a \<Rightarrow> OrderBookStream \<Rightarrow> (go_error + unit) \<times> OrderBookStream) \<Rightarrow> 'a list \<Rightarrow> OrderBookStream \<Rightarrow> (go_error + unit) \<times> OrderBookStream" where
  "each_row f [] ob = (Inr (), ob)"
| "each_row f (row # rows) ob =
     (case f row ob of
        (Inl e, ob') \<Rightarrow> (Inl e, ob')
      | (Inr _, ob') \<Rightarrow> each_row f rows ob')"

definition stream_offer :: "OfferRow \<Rightarrow> OrderBookStream \<Rightarrow> (go_error + unit) \<times> OrderBookStream" where
  "stream_offer offer ob =
     (case offerToXDR offer of
        Inl e \<Rightarrow> (Inl e, ob)
      | Inr entry \<Rightarrow> (Inr (), ob\<lparr>stream_graph := AddOffers (stream_graph ob) [entry]\<rparr>))"

definition stream_pool :: "PoolRow \<Rightarrow> OrderBookStream \<Rightarrow> (go_error + unit) \<times> OrderBookStream" where
  "stream_pool liquidityPool ob =
     (case liquidityPoolToXDR liquidityPool of
        Inl e \<Rightarrow> (Inl (Wrapped ''Invalid liquidity pool row, unable to marshal to xdr'' e), ob)
      | Inr entry \<Rightarrow> (Inr (), ob\<lparr>stream_graph := AddLiquidityPools (stream_graph ob) [entry]\<rparr>))"

definition update_offer :: "OfferRow \<Rightarrow> OrderBookStream \<Rightarrow> (go_error + unit) \<times> OrderBookStream" where
  "update_offer offer ob =
     (if or_Deleted offer then (Inr (), ob\<lparr>stream_graph := RemoveOffer (stream_graph ob) (or_OfferID offer)\<rparr>)
      else stream_offer offer ob)"

definition update_pool :: "PoolRow \<Rightarrow> OrderBookStream \<Rightarrow> (go_error + unit) \<times> OrderBookStream" where
  "update_pool liquidityPool ob =
     (case liquidityPoolToXDR liquidityPool of
        Inl e \<Rightarrow> (Inl (Wrapped ''Error converting liquidity pool row to xdr'' e), ob)
      | Inr poolXDR \<Rightarrow>
          (Inr (),
           ob\<lparr>stream_graph :=
                (if lr_Deleted liquidityPool then RemoveLiquidityPool (stream_graph ob) poolXDR
                 else AddLiquidityPools (stream_graph ob) [poolXDR])\<rparr>))"

text \<open>\<^verbatim>\<open>Apply\<close> either returns an error or panics.\<close>

definition apply_updates :: "ingestionStatus \<Rightarrow> bool \<Rightarrow> OrderBookStream \<Rightarrow> (go_error + bool) \<times> OrderBookStream" where
  "apply_updates status reset ob =
     (case Apply (stream_graph ob) (uint (LastIngestedLedger status)) of
        (g, Some errUnexpectedLedger) \<Rightarrow>
          (Inl (Wrapped ''Error applying changes to order book'' (Errorf ''cannot apply unexpected ledger'')), ob\<lparr>stream_graph := g\<rparr>)
      | (g, Some _) \<Rightarrow> (Inl go_error.Panic, ob\<lparr>stream_graph := g\<rparr>)
      | (g, None) \<Rightarrow> (Inr reset, ob\<lparr>stream_graph := g, stream_lastLedger := LastIngestedLedger status\<rparr>))"

definition must_reset :: "ingestionStatus \<Rightarrow> uint32 \<Rightarrow> bool" where
  "must_reset status seq \<longleftrightarrow>
     (if StateInvalid status then True
      else if \<not> HistoryConsistentWithState status then True
      else if LastIngestedLedger status < seq then True
      else if seq > 0 \<and> seq < LastOfferCompactionLedger status then True
      else if LastOfferCompactionLedger status \<noteq> LastLiquidityPoolCompactionLedger status then True
      else seq = 0)"

definition update_reset ::
    "'y outside_scheme \<Rightarrow> TxOptions option \<Rightarrow> ingestionStatus \<Rightarrow> OrderBookStream \<times> ('x stateTables_scheme, 'r) world \<Rightarrow>
      (go_error + bool) \<times> OrderBookStream \<times> ('x stateTables_scheme, 'r) world" where
  "update_reset s opts status st =
     (case st of (ob0, w) \<Rightarrow>
        (let ob = ob0\<lparr>stream_graph := Clear (stream_graph ob0), stream_lastLedger := 0\<rparr> in
         if StateInvalid status \<or> \<not> HistoryConsistentWithState status then (Inr True, ob, w)
         else
           deferDiscard (
             try_wrap ''Error loading offers into orderbook'' (on_session (StreamAllOffers s opts)) (\<lambda>offers.
             check (on_stream (each_row stream_offer offers)) (\<lambda>e. return (Inl e)) (\<lambda>_.
             try_wrap ''Error loading liquidity pools into orderbook'' (on_session (StreamAllLiquidityPools s)) (\<lambda>pools.
             try_wrap ''Error loading liquidity pools into orderbook'' (on_stream (each_row stream_pool pools)) (\<lambda>_.
             on_stream (apply_updates status True)))))) (ob, w)))"

definition update_changes ::
    "'y outside_scheme \<Rightarrow> ingestionStatus \<Rightarrow> uint32 \<Rightarrow> OrderBookStream \<times> ('x stateTables_scheme, 'r) world \<Rightarrow>
      (go_error + bool) \<times> OrderBookStream \<times> ('x stateTables_scheme, 'r) world" where
  "update_changes s status seq =
     deferDiscard (
       try_wrap ''Error from GetUpdatedOffers'' (on_session (GetUpdatedOffers s seq)) (\<lambda>offers.
       try_wrap ''Error from GetUpdatedLiquidityPools'' (on_session (GetUpdatedLiquidityPools s seq)) (\<lambda>pools.
       check (on_stream (each_row update_offer offers)) (\<lambda>e. return (Inl e)) (\<lambda>_.
       check (on_stream (each_row update_pool pools)) (\<lambda>e. return (Inl e)) (\<lambda>_.
       on_stream (apply_updates status False))))))"

text \<open>\<open>update\<close> returns whether the order book graph was reset.\<close>

definition update ::
    "'y outside_scheme \<Rightarrow> TxOptions option \<Rightarrow> ingestionStatus \<Rightarrow> OrderBookStream \<times> ('x stateTables_scheme, 'r) world \<Rightarrow>
      (go_error + bool) \<times> OrderBookStream \<times> ('x stateTables_scheme, 'r) world" where
  "update s opts status st =
     (let seq = stream_lastLedger (fst st) in
      if must_reset status seq then update_reset s opts status st
      else if LastIngestedLedger status = seq then (Inr False, st)
      else update_changes s status seq st)"

text \<open>\<^verbatim>\<open>Update\<close> up to the verification; it returns whether the graph was reset.\<close>

definition readOnlyOptions :: TxOptions where
  "readOnlyOptions = \<lparr>opt_ReadOnly = True, opt_RepeatableRead = True\<rparr>"

definition deferSessionRollback :: "('b \<times> ('s, 'r) world \<Rightarrow> 'a \<times> 'b \<times> ('s, 'r) world) \<Rightarrow> 'b \<times> ('s, 'r) world \<Rightarrow> 'a \<times> 'b \<times> ('s, 'r) world" where
  "deferSessionRollback body st = (case body st of (r, b, w) \<Rightarrow> (r, b, Rollback w))"

definition Update ::
    "'y outside_scheme \<Rightarrow> OrderBookStream \<times> ('x stateTables_scheme, 'r) world \<Rightarrow>
      (go_error + bool) \<times> OrderBookStream \<times> ('x stateTables_scheme, 'r) world" where
  "Update s =
     try_wrap ''Error starting repeatable read transaction'' (on_session (BeginTx s)) (\<lambda>_.
     deferSessionRollback (
       try_wrap ''Error obtaining ingestion status'' (on_session (getIngestionStatus s)) (\<lambda>status.
       try_wrap ''Error updating'' (update s (Some readOnlyOptions) status) (\<lambda>reset.
       return (Inr reset)))))"

definition forget :: "OrderBookStream \<Rightarrow> OrderBookStream" where
  "forget ob = ob\<lparr>stream_lastLedger := 0\<rparr>"

section \<open>The processors of the two tables as members of a group\<close>

text \<open>
  The runner gives a processor the database of its transaction. The state is the one of both processors with the number of
  calls that they have made.
\<close>

type_synonym table_processors = "(OffersProcessor \<times> LiquidityPoolsChangeProcessor) \<times> nat"

definition as_effect ::
    "(OffersProcessor \<times> LiquidityPoolsChangeProcessor \<Rightarrow> ('s, 'r) world \<Rightarrow> (go_error + unit) \<times> (OffersProcessor \<times> LiquidityPoolsChangeProcessor) \<times> ('s, 'r) world) \<Rightarrow>
      (table_processors, 's, 'r) effect" where
  "as_effect f st =
     (case st of ((p, n), d) \<Rightarrow>
      (case f p \<lparr>stored = d, tx = Some \<lparr>tx_db = d, tx_aborted = False\<rparr>, calls = n, verifications = []\<rparr> of
         (r, p', w) \<Rightarrow>
           (((p', calls w), visible w),
            (case r of
               Inl e \<Rightarrow> Some (e, (case tx w of Some t \<Rightarrow> tx_aborted t | None \<Rightarrow> False))
             | Inr _ \<Rightarrow> None))))"

definition with_offers ::
    "(OffersProcessor \<Rightarrow> 'w \<Rightarrow> 'a \<times> OffersProcessor \<times> 'w) \<Rightarrow>
      OffersProcessor \<times> LiquidityPoolsChangeProcessor \<Rightarrow> 'w \<Rightarrow> 'a \<times> (OffersProcessor \<times> LiquidityPoolsChangeProcessor) \<times> 'w" where
  "with_offers f p w = (case f (fst p) w of (r, q, w') \<Rightarrow> (r, (q, snd p), w'))"

definition with_pools ::
    "(LiquidityPoolsChangeProcessor \<Rightarrow> 'w \<Rightarrow> 'a \<times> LiquidityPoolsChangeProcessor \<times> 'w) \<Rightarrow>
      OffersProcessor \<times> LiquidityPoolsChangeProcessor \<Rightarrow> 'w \<Rightarrow> 'a \<times> (OffersProcessor \<times> LiquidityPoolsChangeProcessor) \<times> 'w" where
  "with_pools f p w = (case f (snd p) w of (r, q, w') \<Rightarrow> (r, (fst p, q), w'))"

definition offers_member :: "'y outside_scheme \<Rightarrow> ('z Change, table_processors, 'x stateTables_scheme, 'r) changeProcessor" where
  "offers_member s =
     \<lparr>cp_Name = ''processors.OffersProcessor'',
      cp_ProcessChange = (\<lambda>change. as_effect (with_offers (offers_ProcessChange s change))),
      cp_Commit = as_effect (with_offers (offers_Commit s))\<rparr>"

definition pools_member :: "'y outside_scheme \<Rightarrow> ('z Change, table_processors, 'x stateTables_scheme, 'r) changeProcessor" where
  "pools_member s =
     \<lparr>cp_Name = ''processors.LiquidityPoolsChangeProcessor'',
      cp_ProcessChange = (\<lambda>change. as_effect (with_pools (pools_ProcessChange s change))),
      cp_Commit = as_effect (with_pools (pools_Commit s))\<rparr>"

text \<open>What the runner does with the changes of one ledger, for these two processors.\<close>

definition ingest_tables ::
    "'y outside_scheme \<Rightarrow> uint32 \<Rightarrow> 'z Change list \<Rightarrow> nat \<Rightarrow> ('x stateTables_scheme, 'r) db \<Rightarrow> ('x stateTables_scheme, 'r) db option" where
  "ingest_tables s sequence changes n d =
     (let processors = [offers_member s, pools_member s] in
      case streamChanges processors (map Inr changes) (((NewOffersProcessor sequence, NewLiquidityPoolsChangeProcessor sequence), n), d) of
        (_, Some _) \<Rightarrow> None
      | (st, None) \<Rightarrow>
          (case group_Commit processors st of
             (_, Some _) \<Rightarrow> None
           | ((_, d'), None) \<Rightarrow> Some d'))"

end
