(* ===== verification/StreamProof.thy ===== *)
theory StreamProof
  imports OrderBookStream OrderBookInv
begin

text \<open>
  The order book stream keeps its graph equal to the tables. The argument is about one table and is made once, in the locale
  \<open>followed_table\<close>: between two polls the entries in the graph may lag behind, but every row that differs was modified after the
  ledger of the last poll. It rests on two things: the processors mark rows as deleted
  instead of deleting them, and a compaction deletes only rows that a stream has seen or will reset itself for.
\<close>

section \<open>Following a table\<close>

text \<open>What a table of rows with a key becomes when rows are upserted.\<close>

definition upserted :: "('r \<Rightarrow> 'i) \<Rightarrow> 'r set \<Rightarrow> 'r set \<Rightarrow> 'r set" where
  "upserted ident T N = {r \<in> T. ident r \<notin> ident ` N} \<union> N"

definition compacted :: "('r \<Rightarrow> uint32) \<Rightarrow> ('r \<Rightarrow> bool) \<Rightarrow> uint32 \<Rightarrow> 'r set \<Rightarrow> 'r set" where
  "compacted modified dead c T = {r \<in> T. \<not> (dead r \<and> modified r \<le> c)}"

definition lags ::
    "('r \<Rightarrow> uint32) \<Rightarrow> ('r \<Rightarrow> bool) \<Rightarrow> ('r \<Rightarrow> 'e) \<Rightarrow> ('e \<Rightarrow> 'k) \<Rightarrow> uint32 \<Rightarrow> 'r set \<Rightarrow> 'e set \<Rightarrow> bool" where
  "lags modified dead entry key L T G \<longleftrightarrow>
     (\<forall>r \<in> T. \<not> dead r \<longrightarrow> modified r \<le> L \<longrightarrow> entry r \<in> G) \<and>
     (\<forall>x \<in> G. \<exists>r \<in> T. key (entry r) = key x \<and> (modified r > L \<or> \<not> dead r \<and> entry r = x))"

lemma upserted_empty [simp]: "upserted ident T {} = T"
  by (simp add: upserted_def)

lemma upserted_upserted:
  "ident ` A \<inter> ident ` B = {} \<Longrightarrow> upserted ident (upserted ident T A) B = upserted ident T (A \<union> B)"
  by (auto simp: upserted_def)

lemma compacted_upserted:
  "compacted modified dead c (upserted ident (compacted modified dead c T) N) = compacted modified dead c (upserted ident T N)"
  by (auto simp: upserted_def compacted_def)

lemma compacted_idem [simp]: "compacted modified dead c (compacted modified dead c T) = compacted modified dead c T"
  by (auto simp: compacted_def)

lemma inj_on_upserted: "inj_on ident T \<Longrightarrow> inj_on ident N \<Longrightarrow> inj_on ident (upserted ident T N)"
  unfolding upserted_def by (intro inj_on_Un [THEN iffD2] conjI) (auto intro: inj_on_subset)

text \<open>What one changed row does to the entries.\<close>

definition row_effect :: "('r \<Rightarrow> bool) \<Rightarrow> ('r \<Rightarrow> 'e) \<Rightarrow> ('e \<Rightarrow> 'k) \<Rightarrow> 'r \<Rightarrow> 'e set \<Rightarrow> 'e set" where
  "row_effect dead entry key r G =
     (let rest = {x \<in> G. key x \<noteq> key (entry r)} in if dead r then rest else insert (entry r) rest)"

locale followed_table =
  fixes ident :: "'r \<Rightarrow> 'i" and modified :: "'r \<Rightarrow> uint32" and dead :: "'r \<Rightarrow> bool" and entry :: "'r \<Rightarrow> 'e"
    and key :: "'e \<Rightarrow> 'k" and good :: "'r \<Rightarrow> bool"
  assumes same_key: "good r \<Longrightarrow> good r' \<Longrightarrow> key (entry r) = key (entry r') \<longleftrightarrow> ident r = ident r'"
begin

lemma live_lags: "lags modified dead entry key L T (entry ` {r \<in> T. \<not> dead r})"
  by (auto simp: lags_def)

lemma lags_upserted:
  assumes "lags modified dead entry key L T G" "\<forall>r \<in> T \<union> N. good r" "\<forall>r \<in> N. modified r > L"
  shows "lags modified dead entry key L (upserted ident T N) G"
  unfolding lags_def
proof (intro conjI ballI impI)
  show "entry r \<in> G" if "r \<in> upserted ident T N" "\<not> dead r" "modified r \<le> L" for r
    using that assms(1,3) by (auto simp: upserted_def lags_def)
  fix x assume "x \<in> G"
  with assms(1) obtain r where r: "r \<in> T" "key (entry r) = key x" "modified r > L \<or> \<not> dead r \<and> entry r = x"
    by (auto simp: lags_def)
  show "\<exists>r \<in> upserted ident T N. key (entry r) = key x \<and> (modified r > L \<or> \<not> dead r \<and> entry r = x)"
  proof (cases "ident r \<in> ident ` N")
    case True
    then obtain n where n: "n \<in> N" "ident n = ident r" by force
    then have "key (entry n) = key x" using same_key [of n r] assms(2) r by auto
    then show ?thesis using n assms(3) by (intro bexI [of _ n]) (auto simp: upserted_def)
  next
    case False
    then show ?thesis using r by (intro bexI [of _ r]) (auto simp: upserted_def)
  qed
qed

lemma lags_compacted:
  "lags modified dead entry key L T G \<Longrightarrow> c \<le> L \<Longrightarrow> lags modified dead entry key L (compacted modified dead c T) G"
  unfolding lags_def compacted_def by (fastforce dest: leD order_trans)

lemma catch_up:
  assumes "lags modified dead entry key L T G" "\<forall>r \<in> T. good r" "inj_on ident T"
  shows "{x \<in> G. key x \<notin> (\<lambda>r. key (entry r)) ` {r \<in> T. modified r > L}} \<union> entry ` {r \<in> T. modified r > L \<and> \<not> dead r} =
    entry ` {r \<in> T. \<not> dead r}" (is "?kept \<union> ?new = _")
proof (intro equalityI subsetI)
  show "x \<in> entry ` {r \<in> T. \<not> dead r}" if x: "x \<in> ?kept \<union> ?new" for x
  proof (cases "x \<in> ?kept")
    case True
    then obtain r where "r \<in> T" "key (entry r) = key x" "modified r > L \<or> \<not> dead r \<and> entry r = x"
      using assms(1) by (auto simp: lags_def)
    moreover from this have "\<not> modified r > L" using True by force
    ultimately show ?thesis by auto
  qed (use x in auto)
  fix x assume "x \<in> entry ` {r \<in> T. \<not> dead r}"
  then obtain r where r: "r \<in> T" "\<not> dead r" "x = entry r" by auto
  show "x \<in> ?kept \<union> ?new"
  proof (cases "modified r > L")
    case False
    then have "x \<in> G" using r assms(1) by (auto simp: lags_def)
    moreover have "key x \<noteq> key (entry r')" if "r' \<in> T" "modified r' > L" for r'
      using that r False assms(2,3) same_key [of r r'] by (auto dest: inj_onD)
    ultimately show ?thesis by auto
  qed (use r in auto)
qed

lemma fold_rows:
  assumes "distinct (map ident rows)" "\<forall>r \<in> set rows. good r"
  shows "fold (row_effect dead entry key) rows G =
    {x \<in> G. key x \<notin> (\<lambda>r. key (entry r)) ` set rows} \<union> entry ` {r \<in> set rows. \<not> dead r}"
  using assms
proof (induction rows arbitrary: G)
  case (Cons r rows)
  then have "key (entry r) \<noteq> key (entry r')" if "r' \<in> set rows" for r'
    using that same_key [of r r'] by force
  then show ?case
    using Cons.IH [of "row_effect dead entry key r G"] Cons.prems by (auto simp: row_effect_def Let_def)
qed simp

lemma caught_up:
  assumes "lags modified dead entry key L T G" "\<forall>r \<in> T. modified r \<le> L"
  shows "G = entry ` {r \<in> T. \<not> dead r}"
  using assms unfolding lags_def by (fastforce dest: leD)

end

section \<open>Rows and entries\<close>

lemma hex_value_digit_nat: "n < 16 \<Longrightarrow> hex_value (''0123456789abcdef'' ! n) = Some (of_nat n)"
proof -
  assume "n < 16"
  then have "n \<in> set [0..<16]" by simp
  moreover have "\<forall>n \<in> set [0..<16]. hex_value (''0123456789abcdef'' ! n) = Some (of_nat n)" by code_simp
  ultimately show ?thesis by blast
qed

lemma hex_value_digit: "unat b < 16 \<Longrightarrow> hex_value (hex_digit b) = Some b"
  using hex_value_digit_nat [of "unat b"] by (simp add: hex_digit_def)

lemma byte_nibbles: "push_bit 4 (drop_bit 4 b) OR (b AND 15) = (b :: byte)"
proof -
  have "b AND 15 = take_bit 4 b" by (simp add: take_bit_eq_mask mask_eq_exp_minus_1)
  moreover have "push_bit 4 (drop_bit 4 b) OR take_bit 4 b = b" by (rule bit_word_eqI) (auto simp: bit_simps)
  ultimately show ?thesis by simp
qed

lemma nibble_bounds: "unat (drop_bit 4 (b :: byte)) < 16" "unat (b AND 15 :: byte) < 16"
proof -
  have "unat b < 256" using unsigned_less [of b] by simp
  then show "unat (drop_bit 4 b) < 16" by (simp add: drop_bit_eq_div unat_div)
  have "b AND 15 = take_bit 4 b" by (simp add: take_bit_eq_mask mask_eq_exp_minus_1)
  then show "unat (b AND 15 :: byte) < 16" by (simp add: take_bit_eq_mod unat_mod)
qed

lemma hex_roundtrip: "hex_DecodeString (hex_EncodeToString bs) = Some bs"
  by (induction bs) (simp_all add: hex_EncodeToString_def hex_value_digit nibble_bounds byte_nibbles)

lemma PoolIDToString_roundtrip: "hex_DecodeString (PoolIDToString i) = Some (be_bytes 32 i)"
  by (simp add: PoolIDToString_def hex_roundtrip)

lemma PoolIDToString_inject: "PoolIDToString i = PoolIDToString j \<longleftrightarrow> i = j"
  using PoolIDToString_roundtrip [of i] PoolIDToString_roundtrip [of j] be_bytes_inject [of 32 i j] by auto

lemma Address_total: "Address aid = Inr (case aid of Ed25519 k \<Rightarrow> key_str k)"
  by (cases aid) (simp add: Address_def)

lemma u32_s32: "0 \<le> x \<Longrightarrow> x < 4294967296 \<Longrightarrow> u32 (s32 x) = x"
  by (simp add: u32_def s32_def mod_diff_left_eq)

lemma s32_u32: "in_int32 x \<Longrightarrow> s32 (u32 x) = x"
  by (simp add: u32_def s32_def mod_add_left_eq in_int32_def MaxInt32_def)

text \<open>The ranges of the integers of an entry that its row stores with another sign.\<close>

definition pool_in_range :: "LiquidityPoolEntry \<Rightarrow> bool" where
  "pool_in_range e \<longleftrightarrow>
     (\<forall>cp. lp_ConstantProduct e = Some cp \<longrightarrow>
        in_int32 (pp_Fee (cp_Params cp)) \<and> in_int64 (cp_ReserveA cp) \<and> in_int64 (cp_ReserveB cp) \<and>
        in_int64 (cp_TotalPoolShares cp) \<and> in_int64 (cp_PoolSharesTrustLineCount cp))"

definition offer_in_range :: "OfferEntry \<Rightarrow> bool" where
  "offer_in_range x \<longleftrightarrow> 0 \<le> of_Flags x \<and> of_Flags x < 4294967296"

lemma offer_row:
  assumes "le_Data entry = EntryOffer x" "offer_in_range x"
  obtains row where "offer_ledgerEntryToRow entry = Inr row" "offerToXDR row = Inr x" "or_OfferID row = of_OfferId x"
    "\<not> or_Deleted row" "or_LastModifiedLedger row = word_of_int (le_LastModifiedLedgerSeq entry)"
proof -
  obtain sponsor where "ledgerEntrySponsorToNullString entry = Inr sponsor"
    by (cases "SponsoringID entry") (simp_all add: ledgerEntrySponsorToNullString_def Address_total)
  with assms that show thesis
    by (cases "of_SellerId x")
       (simp add: offer_ledgerEntryToRow_def Address_total offerToXDR_def MustAddress_def SetAddress_key u32_s32 offer_in_range_def)
qed

lemma pool_row:
  assumes "le_Data entry = EntryLiquidityPool e" "pool_in_range e" "lp_ConstantProduct e \<noteq> None"
  obtains row where "pool_ledgerEntryToRow entry = Inr row" "liquidityPoolToXDR row = Inr e" "lr_PoolID row = PoolIDToString (lp_LiquidityPoolId e)"
    "\<not> lr_Deleted row" "lr_LastModifiedLedger row = word_of_int (le_LastModifiedLedgerSeq entry)"
proof -
  obtain cp where cp: "lp_ConstantProduct e = Some cp" using assms(3) by auto
  obtain row where row: "pool_ledgerEntryToRow entry = Inr row" using assms(1) cp by (simp add: pool_ledgerEntryToRow_def)
  then have "liquidityPoolToXDR row = Inr e"
    using assms(1,2) cp
    by (auto simp: pool_ledgerEntryToRow_def liquidityPoolToXDR_def PoolIDToString_roundtrip of_be_bytes_inverse pool_in_range_def
          s32_u32 s64_id)
  with row that show thesis using assms(1) cp by (auto simp: pool_ledgerEntryToRow_def)
qed

section \<open>Reading in a transaction\<close>

definition quiet :: "'y outside_scheme \<Rightarrow> bool" where
  "quiet s \<longleftrightarrow> (\<forall>n. fails s n = None)"

definition reading :: "('s, 'r) db \<Rightarrow> 'y outside_scheme \<Rightarrow> ('s, 'r) world \<Rightarrow> bool" where
  "reading D s w \<longleftrightarrow> stored w = D \<and> (\<exists>a. tx w = Some \<lparr>tx_db = D, tx_aborted = a\<rparr> \<and> (quiet s \<longrightarrow> \<not> a))"

text \<open>A call that only reads: it can fail when a statement fails, and otherwise its result satisfies \<open>Q\<close>.\<close>

definition reads :: "('s, 'r) db \<Rightarrow> 'y outside_scheme \<Rightarrow> (('s, 'r) world \<Rightarrow> (go_error + 'a) \<times> ('s, 'r) world) \<Rightarrow> ('a \<Rightarrow> bool) \<Rightarrow> bool" where
  "reads D s call Q \<longleftrightarrow> triple (reading D s) call (\<lambda>r w. reading D s w \<and> (case r of Inl _ \<Rightarrow> \<not> quiet s | Inr a \<Rightarrow> Q a))"

lemma reads_stmt: "reads D s (conn_stmt msg s (\<lambda>d. (f d, d))) (\<lambda>a. a = f D)"
  by (auto simp: reads_def triple_def reading_def conn_stmt_def Let_def quiet_def split: option.splits)

lemma reads_raw:
  "reads D s (GetRaw s f) (\<lambda>a. a = f D)" "reads D s (SelectRaw s f) (\<lambda>a. a = f D)" "reads D s (QueryRaw s f) (\<lambda>a. a = f D)"
  by (simp_all add: GetRaw_def SelectRaw_def QueryRaw_def reads_stmt)

lemma reads_check:
  assumes "reads D s call Q" "\<And>a. Q a \<Longrightarrow> reads D s (rest a) R" "\<And>e. \<exists>e'. fail e = return (Inl e')"
  shows "reads D s (check call fail rest) R"
  unfolding reads_def triple_def
proof (intro allI impI)
  fix w assume w: "reading D s w"
  obtain r w1 where c: "call w = (r, w1)" by (metis surj_pair)
  then have r: "reading D s w1" "case r of Inl _ \<Rightarrow> \<not> quiet s | Inr a \<Rightarrow> Q a"
    using assms(1) w unfolding reads_def by (auto dest: triple_use)
  show "case check call fail rest w of (r, w') \<Rightarrow> reading D s w' \<and> (case r of Inl _ \<Rightarrow> \<not> quiet s | Inr a \<Rightarrow> R a)"
  proof (cases r)
    case (Inl e)
    then show ?thesis using c r assms(3) [of e] by (auto simp: check_def return_def)
  next
    case (Inr a)
    then show ?thesis using c r assms(2) [of a] by (auto simp: check_def reads_def triple_def)
  qed
qed

lemma reads_try_wrap: "reads D s call Q \<Longrightarrow> (\<And>a. Q a \<Longrightarrow> reads D s (rest a) R) \<Longrightarrow> reads D s (try_wrap msg call rest) R"
  unfolding try_wrap_def by (erule reads_check) auto

lemma reads_return: "Q a \<Longrightarrow> reads D s (return (Inr a)) Q"
  by (simp add: reads_def triple_def return_def)

lemma reads_if: "(b \<Longrightarrow> reads D s f Q) \<Longrightarrow> (\<not> b \<Longrightarrow> reads D s g Q) \<Longrightarrow> reads D s (if b then f else g) Q"
  by simp

definition kv_number :: "string \<Rightarrow> ('s, 'r) db \<Rightarrow> uint32 \<Rightarrow> bool" where
  "kv_number k d n \<longleftrightarrow> (case key_value_store d k of None \<Rightarrow> n = 0 | Some v \<Rightarrow> v = FormatUint32 n)"

definition kv_invalid :: "('s, 'r) db \<Rightarrow> bool \<Rightarrow> bool" where
  "kv_invalid d b \<longleftrightarrow> (case key_value_store d stateInvalidKey of None \<Rightarrow> \<not> b | Some v \<Rightarrow> v = FormatBool b)"

lemma reads_store: "reads D s (getValueFromStore s k) (\<lambda>v. v = (case key_value_store D k of None \<Rightarrow> [] | Some v \<Rightarrow> v))"
  unfolding getValueFromStore_def by (rule reads_try_wrap [OF reads_raw(1)]) (simp add: reads_return)

lemma FormatUint32_ne [simp]: "FormatUint32 n \<noteq> []"
  using show_nat_digits [of "unat n"] by (simp add: FormatUint32_def)

lemma ParseInt32_Format: "n < 2 ^ 31 \<Longrightarrow> ParseInt32 (FormatUint32 n) = Some (uint n)"
proof -
  assume "n < 2 ^ 31"
  then have n: "uint n < 2147483648" by (simp add: word_less_def)
  have f: "FormatUint32 n = show_int (uint n)" unfolding FormatUint32_def show_int_def unat_eq_nat_uint by simp
  have "0 \<le> uint n" by simp
  with n have "in_int64 (uint n)" "in_int32 (uint n)"
    unfolding in_int64_def in_int32_def MaxInt64_def MinInt64_def MaxInt32_def by linarith+
  then show ?thesis unfolding f ParseInt32_def by (simp only: ParseInt10_show_int if_True option.case)
qed

lemma reads_last: "kv_number lastLedgerKey D n \<Longrightarrow> reads D s (GetLastLedgerIngestNonBlocking s) (\<lambda>a. a = n)"
  unfolding GetLastLedgerIngestNonBlocking_def
  by (rule reads_check [OF reads_store]) (auto simp: kv_number_def parse_ledger_def reads_return split: option.splits)

lemma reads_compaction:
  assumes "kv_number k D n" "n < 2 ^ 31"
  shows "reads D s (getIntValueFromStore s k) (\<lambda>a. a = uint n)"
  unfolding getIntValueFromStore_def
  by (rule reads_check [OF reads_store]) (use assms in \<open>auto simp: kv_number_def ParseInt32_Format reads_return split: option.splits\<close>)

lemma reads_compactions:
  "kv_number offerCompactionSequence D n \<Longrightarrow> n < 2 ^ 31 \<Longrightarrow> reads D s (GetOfferCompactionSequence s) (\<lambda>a. a = n)"
  "kv_number liquidityPoolCompactionSequence D n \<Longrightarrow> n < 2 ^ 31 \<Longrightarrow> reads D s (GetLiquidityPoolCompactionSequence s) (\<lambda>a. a = n)"
  unfolding GetOfferCompactionSequence_def GetLiquidityPoolCompactionSequence_def
  by (rule reads_try_wrap [OF reads_compaction], assumption, assumption, simp add: reads_return)+

lemma reads_invalid: "kv_invalid D b \<Longrightarrow> reads D s (GetExpStateInvalid s) (\<lambda>a. a = b)"
  unfolding GetExpStateInvalid_def
  by (rule reads_check [OF reads_store])
     (auto simp: kv_invalid_def FormatBool_def ParseBool_def reads_return split: option.splits)

lemma reads_latest: "reads D s (GetLatestHistoryLedger s) (\<lambda>a. a = latest_history D)"
  unfolding GetLatestHistoryLedger_def LatestLedger_def latest_history_def by (rule reads_raw)

definition status_at :: "('s, 'r) db \<Rightarrow> bool \<Rightarrow> uint32 \<Rightarrow> uint32 \<Rightarrow> ingestionStatus" where
  "status_at D invalid l c =
     \<lparr>HistoryConsistentWithState = (l = latest_history D \<or> latest_history D = 0), StateInvalid = invalid, LastIngestedLedger = l,
      LastOfferCompactionLedger = c, LastLiquidityPoolCompactionLedger = c\<rparr>"

lemma reads_status:
  assumes "kv_invalid D b" "kv_number lastLedgerKey D l" "kv_number offerCompactionSequence D c"
    "kv_number liquidityPoolCompactionSequence D c" "c < 2 ^ 31"
  shows "reads D s (getIngestionStatus s) (\<lambda>status. status = status_at D b l c)"
  unfolding getIngestionStatus_def
  by (rule reads_try_wrap [OF reads_invalid [OF assms(1)]], rule reads_try_wrap [OF reads_latest],
      rule reads_try_wrap [OF reads_last [OF assms(2)]], rule reads_try_wrap [OF reads_compactions(1) [OF assms(3,5)]],
      rule reads_try_wrap [OF reads_compactions(2) [OF assms(4,5)]], simp add: reads_return status_at_def)

section \<open>The two tables\<close>

definition offer_entry :: "OfferRow \<Rightarrow> OfferEntry" where
  "offer_entry r = projr (offerToXDR r)"

definition good_offer :: "OfferRow \<Rightarrow> bool" where
  "good_offer r \<longleftrightarrow> (\<exists>x. offerToXDR r = Inr x \<and> valid_offer x \<and> 0 < or_OfferID r)"

text \<open>
  The ID of a pool is a hash of its pair of assets. \<open>pid\<close> is that function and \<open>K\<close> a set of pairs without a collision that has the pairs
  of all pools.
\<close>

definition pool_entry_of :: "PoolRow \<Rightarrow> LiquidityPoolEntry" where
  "pool_entry_of r = projr (liquidityPoolToXDR r)"

definition pool_identified :: "((Asset \<times> Asset) option \<Rightarrow> 256 word) \<Rightarrow> (Asset \<times> Asset) option set \<Rightarrow> LiquidityPoolEntry \<Rightarrow> bool" where
  "pool_identified pid K e \<longleftrightarrow> inj_on pid K \<and> getPoolAssets e \<in> K \<and> lp_LiquidityPoolId e = pid (getPoolAssets e)"

definition good_pool :: "((Asset \<times> Asset) option \<Rightarrow> 256 word) \<Rightarrow> (Asset \<times> Asset) option set \<Rightarrow> PoolRow \<Rightarrow> bool" where
  "good_pool pid K r \<longleftrightarrow>
     (\<exists>e. liquidityPoolToXDR r = Inr e \<and> valid_pool e \<and> pool_identified pid K e \<and> lr_PoolID r = PoolIDToString (lp_LiquidityPoolId e))"

lemma good_offerD:
  assumes "good_offer r"
  shows "offerToXDR r = Inr (offer_entry r)" "valid_offer (offer_entry r)" "0 < or_OfferID r" "of_OfferId (offer_entry r) = or_OfferID r"
  using assms by (auto simp: good_offer_def offer_entry_def offerToXDR_def split: sum.splits)

lemma good_poolD:
  assumes "good_pool pid K r"
  shows "liquidityPoolToXDR r = Inr (pool_entry_of r)" "valid_pool (pool_entry_of r)" "pool_identified pid K (pool_entry_of r)"
    "lr_PoolID r = PoolIDToString (lp_LiquidityPoolId (pool_entry_of r))"
  using assms by (auto simp: good_pool_def pool_entry_of_def)

interpretation ot: followed_table or_OfferID or_LastModifiedLedger or_Deleted offer_entry of_OfferId good_offer
  by unfold_locales (simp add: good_offerD)

interpretation pt: followed_table lr_PoolID lr_LastModifiedLedger lr_Deleted pool_entry_of getPoolAssets "good_pool pid K" for pid K
  by unfold_locales (auto simp: good_poolD PoolIDToString_inject pool_identified_def dest!: good_poolD(3) dest: inj_onD)

definition offer_op :: "OfferRow \<Rightarrow> orderBookOperation" where
  "offer_op r = (if or_Deleted r then removeOfferOperation (or_OfferID r) else addOfferOperation (offer_entry r))"

definition pool_op :: "PoolRow \<Rightarrow> orderBookOperation" where
  "pool_op r = (if lr_Deleted r then removeLiquidityPoolOperation (pool_entry_of r) else addLiquidityPoolOperation (pool_entry_of r))"

lemma spec_offer_ops:
  "\<forall>r \<in> set rows. good_offer r \<Longrightarrow>
   fold spec_op (map offer_op rows) (A, B) = (fold (row_effect or_Deleted offer_entry of_OfferId) rows A, B)"
  by (induction rows arbitrary: A) (auto simp: offer_op_def row_effect_def Let_def good_offerD)

lemma spec_pool_ops:
  "fold spec_op (map pool_op rows) (A, B) = (A, fold (row_effect lr_Deleted pool_entry_of getPoolAssets) rows B)"
  by (induction rows arbitrary: B) (auto simp: pool_op_def row_effect_def Let_def)

lemma valid_offer_op: "good_offer r \<Longrightarrow> valid_op (offer_op r)"
  by (simp add: offer_op_def good_offerD)

lemma valid_pool_op: "good_pool pid K r \<Longrightarrow> valid_op (pool_op r)"
  by (simp add: pool_op_def good_poolD)

section \<open>Queueing rows\<close>

lemma foldl_enqueue:
  "foldl enqueue g ops = g\<lparr>batchedUpdates := (batchedUpdates g)\<lparr>operations := operations (batchedUpdates g) @ ops\<rparr>\<rparr>"
  by (induction ops arbitrary: g) (simp_all add: enqueue_def)

lemma each_row_ops:
  "(\<And>r ob. r \<in> set rows \<Longrightarrow> f r ob = (Inr (), ob\<lparr>stream_graph := enqueue (stream_graph ob) (op r)\<rparr>)) \<Longrightarrow>
   each_row f rows ob = (Inr (), ob\<lparr>stream_graph := foldl enqueue (stream_graph ob) (map op rows)\<rparr>)"
  by (induction rows arbitrary: ob) simp_all

lemma each_update_offer:
  "\<forall>r \<in> set rows. good_offer r \<Longrightarrow>
   each_row update_offer rows ob = (Inr (), ob\<lparr>stream_graph := foldl enqueue (stream_graph ob) (map offer_op rows)\<rparr>)"
  by (rule each_row_ops) (simp add: update_offer_def stream_offer_def offer_op_def good_offerD AddOffers_def RemoveOffer_def)

lemma each_stream_offer:
  "\<forall>r \<in> set rows. good_offer r \<and> \<not> or_Deleted r \<Longrightarrow>
   each_row stream_offer rows ob = (Inr (), ob\<lparr>stream_graph := foldl enqueue (stream_graph ob) (map offer_op rows)\<rparr>)"
  by (rule each_row_ops) (simp add: stream_offer_def offer_op_def good_offerD AddOffers_def)

lemma each_update_pool:
  "\<forall>r \<in> set rows. good_pool pid K r \<Longrightarrow>
   each_row update_pool rows ob = (Inr (), ob\<lparr>stream_graph := foldl enqueue (stream_graph ob) (map pool_op rows)\<rparr>)"
  by (rule each_row_ops) (auto simp: update_pool_def pool_op_def good_poolD AddLiquidityPools_def RemoveLiquidityPool_def)

lemma each_stream_pool:
  "\<forall>r \<in> set rows. good_pool pid K r \<and> \<not> lr_Deleted r \<Longrightarrow>
   each_row stream_pool rows ob = (Inr (), ob\<lparr>stream_graph := foldl enqueue (stream_graph ob) (map pool_op rows)\<rparr>)"
  by (rule each_row_ops) (auto simp: stream_pool_def pool_op_def good_poolD AddLiquidityPools_def)

section \<open>Reading all offers\<close>

lemma sorted_filter_last:
  assumes "sorted (map f (xs @ [x] @ ys))" "distinct (map f (xs @ [x] @ ys))"
  shows "filter (\<lambda>y. f y > (f x :: int)) (xs @ [x] @ ys) = ys"
proof -
  have "f x \<le> f y" if "y \<in> set ys" for y using that assms(1) by (simp add: sorted_append)
  moreover have "f y \<noteq> f x" if "y \<in> set ys" for y
    using that assms(2) by (simp add: image_iff) metis
  ultimately have "f x < f y" if "y \<in> set ys" for y using that by force
  then show ?thesis using assms(1) by (auto simp: sorted_append filter_empty_conv not_less)
qed

lemma strict_filter_take:
  assumes "sorted (map f xs)" "distinct (map f xs)" "take n xs \<noteq> []"
  shows "filter (\<lambda>x. f x > (f (last (take n xs)) :: int)) xs = drop n xs"
proof -
  have "xs = butlast (take n xs) @ [last (take n xs)] @ drop n xs"
    by (simp only: append_assoc [symmetric] append_butlast_last_id [OF assms(3)] append_take_drop_id)
  then show ?thesis using assms(1,2) sorted_filter_last by metis
qed

abbreviation live_after :: "('x stateTables_scheme, 'r) db \<Rightarrow> int \<Rightarrow> OfferRow list" where
  "live_after D lastID \<equiv> sort_key or_OfferID (filter (\<lambda>r. \<not> or_Deleted r \<and> or_OfferID r > lastID) (offers_table (state_tables D)))"

lemma reads_batch: "reads D s (streamAllOffersBatch s lastID n) (\<lambda>rows. rows = take n (live_after D lastID))"
  unfolding streamAllOffersBatch_def by (rule reads_try_wrap [OF reads_raw(3)]) (simp add: reads_return)

lemma live_after_next:
  assumes "distinct (map or_OfferID (offers_table (state_tables D)))" "take n (live_after D lastID) \<noteq> []"
  shows "live_after D (or_OfferID (last (take n (live_after D lastID)))) = drop n (live_after D lastID)" (is "live_after D ?m = _")
    and "or_OfferID (last (take n (live_after D lastID))) > lastID"
proof -
  let ?xs = "live_after D lastID"
  have "last (take n ?xs) \<in> set ?xs" using assms(2) by (metis last_in_set in_set_takeD)
  then show m: "?m > lastID" by simp
  have "distinct (map or_OfferID ?xs)" using assms(1) by (simp add: distinct_map inj_on_def)
  then have "filter (\<lambda>r. or_OfferID r > ?m) ?xs = drop n ?xs" using assms(2) by (intro strict_filter_take) auto
  moreover have "filter (\<lambda>r. or_OfferID r > ?m) ?xs = live_after D ?m"
    using m by (simp add: filter_sort) (rule arg_cong [of _ _ "sort_key or_OfferID"], auto intro: filter_cong)
  ultimately show "live_after D ?m = drop n ?xs" by simp
qed

lemma reads_stream_loop:
  assumes "distinct (map or_OfferID (offers_table (state_tables D)))" "length (live_after D lastID) < fuel"
  shows "reads D s (StreamAllOffers_loop s fuel lastID seen) (\<lambda>rows. rows = seen @ live_after D lastID)"
  using assms(2)
proof (induction fuel arbitrary: lastID seen)
  case (Suc fuel)
  let ?rows = "take offersBatchSize (live_after D lastID)"
  have "reads D s (let nextID = if rows = [] then lastID else or_OfferID (last rows) in
      if lastID = nextID then return (Inr (seen @ rows)) else StreamAllOffers_loop s fuel nextID (seen @ rows))
      (\<lambda>rows. rows = seen @ live_after D lastID)" if "rows = ?rows" for rows
  proof (cases "rows = []")
    case True
    then have "live_after D lastID = []" using that by (simp add: offersBatchSize_def)
    with True show ?thesis by (simp add: reads_return)
  next
    case False
    then have ne: "?rows \<noteq> []" using that by blast
    note n = live_after_next [OF assms(1) ne]
    let ?m = "or_OfferID (last ?rows)"
    have "length (live_after D ?m) < fuel" unfolding n(1) length_drop
    proof -
      have "0 < length (live_after D lastID)" using ne by (metis length_greater_0_conv take_Nil)
      then show "length (live_after D lastID) - offersBatchSize < fuel" using Suc.prems unfolding offersBatchSize_def by linarith
    qed
    then have "reads D s (StreamAllOffers_loop s fuel ?m (seen @ ?rows)) (\<lambda>rows. rows = (seen @ ?rows) @ live_after D ?m)"
      by (rule Suc.IH)
    moreover have "(seen @ ?rows) @ live_after D ?m = seen @ live_after D lastID" unfolding n(1) by simp
    ultimately show ?thesis using n(2) ne unfolding that by (simp del: append_assoc)
  qed
  then show ?case
    unfolding StreamAllOffers_loop.simps by (intro reads_check [OF reads_batch]) auto
qed simp

lemma reads_all_offers:
  assumes "distinct (map or_OfferID (offers_table (state_tables D)))" "\<forall>r \<in> set (offers_table (state_tables D)). 0 < or_OfferID r"
  shows "reads D s (StreamAllOffers s (Some readOnlyOptions))
    (\<lambda>rows. rows = sort_key or_OfferID (filter (\<lambda>r. \<not> or_Deleted r) (offers_table (state_tables D))))"
proof -
  let ?n = "length (offers_table (state_tables D)) + 1"
  have "filter (\<lambda>r. \<not> or_Deleted r \<and> or_OfferID r > 0) (offers_table (state_tables D)) = filter (\<lambda>r. \<not> or_Deleted r) (offers_table (state_tables D))"
    using assms(2) by (auto intro: filter_cong)
  moreover have "reads D s (StreamAllOffers_loop s ?n 0 []) (\<lambda>rows. rows = [] @ live_after D 0)"
    by (rule reads_stream_loop [OF assms(1)]) (simp add: le_imp_less_Suc)
  ultimately have "reads D s (StreamAllOffers_loop s ?n 0 [])
    (\<lambda>rows. rows = sort_key or_OfferID (filter (\<lambda>r. \<not> or_Deleted r) (offers_table (state_tables D))))" by simp
  moreover have "StreamAllOffers s (Some readOnlyOptions) w = StreamAllOffers_loop s ?n 0 [] w" if "reading D s w" for w
  proof -
    have "tx w \<noteq> None" "visible w = D" using that by (auto simp: reading_def visible_def)
    then show ?thesis by (auto simp: StreamAllOffers_def GetTx_def readOnlyOptions_def simp del: StreamAllOffers_loop.simps)
  qed
  ultimately show ?thesis by (simp add: reads_def triple_def)
qed

lemma reads_all_pools:
  "reads D s (StreamAllLiquidityPools s) (\<lambda>rows. rows = filter (\<lambda>r. \<not> lr_Deleted r) (liquidity_pools (state_tables D)))"
  unfolding StreamAllLiquidityPools_def by (rule reads_try_wrap [OF reads_raw(3)]) (simp add: reads_return)


section \<open>One poll\<close>

text \<open>The book that the tables hold: the entries of the rows that are not deleted.\<close>

definition live_book :: "('x stateTables_scheme, 'r) db \<Rightarrow> book" where
  "live_book D =
     ({x. \<exists>r \<in> set (offers_table (state_tables D)). \<not> or_Deleted r \<and> offerToXDR r = Inr x},
      {e. \<exists>r \<in> set (liquidity_pools (state_tables D)). \<not> lr_Deleted r \<and> liquidityPoolToXDR r = Inr e})"

definition tables_ok :: "((Asset \<times> Asset) option \<Rightarrow> 256 word) \<Rightarrow> (Asset \<times> Asset) option set \<Rightarrow> uint32 \<Rightarrow> ('x stateTables_scheme, 'r) db \<Rightarrow> bool" where
  "tables_ok pid K l D \<longleftrightarrow>
     distinct (map or_OfferID (offers_table (state_tables D))) \<and> distinct (map lr_PoolID (liquidity_pools (state_tables D))) \<and>
     (\<forall>r \<in> set (offers_table (state_tables D)). good_offer r \<and> or_LastModifiedLedger r \<le> l) \<and>
     (\<forall>r \<in> set (liquidity_pools (state_tables D)). good_pool pid K r \<and> lr_LastModifiedLedger r \<le> l)"

definition book_lags :: "uint32 \<Rightarrow> ('x stateTables_scheme, 'r) db \<Rightarrow> book \<Rightarrow> bool" where
  "book_lags L D G \<longleftrightarrow>
     lags or_LastModifiedLedger or_Deleted offer_entry of_OfferId L (set (offers_table (state_tables D))) (fst G) \<and>
     lags lr_LastModifiedLedger lr_Deleted pool_entry_of getPoolAssets L (set (liquidity_pools (state_tables D))) (snd G)"

definition graph_ok :: "OrderBookGraph \<Rightarrow> bool" where
  "graph_ok g \<longleftrightarrow> graph_inv g \<and> batchedUpdates g = batch"

text \<open>
  \<open>follows rebuilt l m D ob\<close>: the graph of the stream has nothing queued; unless the state was rebuilt under the stream, its ledger is not above the last
  ingested ledger \<open>l\<close>, and if no deleted rows that it has not seen were removed from the tables (the last removal was up to \<open>m\<close>), the graph lacks nothing but the rows that were changed since.
\<close>

definition follows :: "bool \<Rightarrow> uint32 \<Rightarrow> uint32 \<Rightarrow> ('x stateTables_scheme, 'r) db \<Rightarrow> OrderBookStream \<Rightarrow> bool" where
  "follows rebuilt l m D ob \<longleftrightarrow>
     graph_ok (stream_graph ob) \<and>
     (stream_lastLedger ob \<noteq> 0 \<longrightarrow>
        lastLedger (stream_graph ob) = uint (stream_lastLedger ob) \<and>
        (\<not> rebuilt \<longrightarrow> stream_lastLedger ob \<le> l \<and>
           (m \<le> stream_lastLedger ob \<longrightarrow> book_lags (stream_lastLedger ob) D (contents (stream_graph ob)))))"

lemma follows_mono: "follows False l m D ob \<Longrightarrow> follows rebuilt l m D ob"
  by (simp add: follows_def)

lemma live_book_entries:
  assumes "tables_ok pid K l D"
  shows "live_book D =
    (offer_entry ` {r \<in> set (offers_table (state_tables D)). \<not> or_Deleted r},
     pool_entry_of ` {r \<in> set (liquidity_pools (state_tables D)). \<not> lr_Deleted r})"
proof -
  have "offerToXDR r = Inr x \<longleftrightarrow> x = offer_entry r" if "r \<in> set (offers_table (state_tables D))" for r x
    using assms that good_offerD(1) [of r] by (auto simp: tables_ok_def)
  moreover have "liquidityPoolToXDR r = Inr e \<longleftrightarrow> e = pool_entry_of r" if "r \<in> set (liquidity_pools (state_tables D))" for r e
    using assms that good_poolD(1) [of pid K r] by (auto simp: tables_ok_def)
  ultimately show ?thesis by (auto simp: live_book_def)
qed

lemma live_book_lags: "tables_ok pid K l D \<Longrightarrow> book_lags L D (live_book D)"
  by (simp add: book_lags_def live_book_entries ot.live_lags pt.live_lags)

lemma Discard_graph_ok [simp]: "graph_ok g \<Longrightarrow> Discard g = g"
  by (simp add: graph_ok_def Discard_def)

lemma Discard_enqueued [simp]: "Discard (foldl enqueue g ops) = Discard g"
  by (simp add: foldl_enqueue Discard_def)

lemma graph_ok_Clear [simp]: "graph_ok (Clear g)"
  by (simp add: graph_ok_def graph_inv_Clear) (simp add: Clear_def)

lemma apply_updates_correct:
  assumes "graph_ok g" "\<forall>op \<in> set ops. valid_op op" "lastLedger g = 0 \<or> lastLedger g < uint (LastIngestedLedger status)"
    "stream_graph ob = foldl enqueue g ops"
  obtains g' where "apply_updates status reset ob = (Inr reset, ob\<lparr>stream_graph := g', stream_lastLedger := LastIngestedLedger status\<rparr>)"
    "graph_ok g'" "contents g' = fold spec_op ops (contents g)" "lastLedger g' = uint (LastIngestedLedger status)"
proof -
  let ?g = "foldl enqueue g ops"
  have g: "graph_inv ?g" "contents ?g = contents g" "operations (batchedUpdates ?g) = ops" "\<not> committed (batchedUpdates ?g)"
    "lastLedger ?g = lastLedger g"
    using assms(1) by (simp_all add: foldl_enqueue graph_ok_def graph_inv_fields batch_def)
  then obtain g' where "Apply ?g (uint (LastIngestedLedger status)) = (g', None)" "graph_inv g'" "batchedUpdates g' = batch"
    "contents g' = fold spec_op ops (contents g)" "lastLedger g' = uint (LastIngestedLedger status)"
    using Apply_correct [of ?g "uint (LastIngestedLedger status)"] assms(2,3) by auto
  with that assms(4) show thesis by (simp add: apply_updates_def graph_ok_def)
qed

lemma session_cases:
  assumes "reads D s call Q" "reading D s w" "try_wrap msg (on_session call) rest (b, w) = (r, st)"
  obtains (failed) e w1 where "r = Inl e" "st = (b, w1)" "reading D s w1" "\<not> quiet s"
    | (ok) a w1 where "Q a" "reading D s w1" "rest a (b, w1) = (r, st)"
proof -
  obtain q w1 where q: "call w = (q, w1)" by (metis surj_pair)
  then have "reading D s w1" "case q of Inl _ \<Rightarrow> \<not> quiet s | Inr a \<Rightarrow> Q a"
    using assms(1,2) unfolding reads_def by (auto dest: triple_use)
  then show thesis
    using assms(3) q that by (cases q) (auto simp: try_wrap_def check_def on_session_def return_def)
qed

lemma rows_step:
  "f ob = (Inr (), ob') \<Longrightarrow> check (on_stream f) fail rest (ob, w) = rest () (ob', w)"
  "f ob = (Inr (), ob') \<Longrightarrow> try_wrap msg (on_stream f) rest (ob, w) = rest () (ob', w)"
  by (simp_all add: check_def try_wrap_def on_stream_def)


text \<open>The contents of a graph to which a list of changed rows of both tables is applied.\<close>

lemma contents_rows:
  assumes "\<forall>r \<in> set rows. good_offer r" "\<forall>r \<in> set rows'. good_pool pid K r" "distinct (map or_OfferID rows)" "distinct (map lr_PoolID rows')"
  shows "fold spec_op (map offer_op rows @ map pool_op rows') (A, B) =
    ({x \<in> A. of_OfferId x \<notin> (\<lambda>r. of_OfferId (offer_entry r)) ` set rows} \<union> offer_entry ` {r \<in> set rows. \<not> or_Deleted r},
     {e \<in> B. getPoolAssets e \<notin> (\<lambda>r. getPoolAssets (pool_entry_of r)) ` set rows'} \<union> pool_entry_of ` {r \<in> set rows'. \<not> lr_Deleted r})"
  using ot.fold_rows [OF assms(3,1)] pt.fold_rows [OF assms(4,2)] by (simp add: spec_offer_ops assms(1) spec_pool_ops)

lemma rows_valid:
  "\<forall>r \<in> set rows. good_offer r \<Longrightarrow> \<forall>r \<in> set rows'. good_pool pid K r \<Longrightarrow>
   \<forall>op \<in> set (map offer_op rows @ map pool_op rows'). valid_op op"
  by (auto simp: valid_offer_op valid_pool_op)

definition waiting :: "ingestionStatus \<Rightarrow> bool" where
  "waiting status \<longleftrightarrow> StateInvalid status \<or> \<not> HistoryConsistentWithState status"

text \<open>The rows that were changed after ledger \<open>L\<close>, applied to a set of offers and pools.\<close>

definition changes_since :: "uint32 \<Rightarrow> ('x stateTables_scheme, 'r) db \<Rightarrow> book \<Rightarrow> book" where
  "changes_since L D =
     fold spec_op (map offer_op (filter (\<lambda>r. or_LastModifiedLedger r > L) (offers_table (state_tables D))) @
       map pool_op (filter (\<lambda>r. lr_LastModifiedLedger r > L) (liquidity_pools (state_tables D))))"

text \<open>What a poll of the stream \<open>ob\<close> returns and makes of it.\<close>

definition poll_result ::
    "'y outside_scheme \<Rightarrow> ingestionStatus \<Rightarrow> bool \<Rightarrow> ('x stateTables_scheme, 'r) db \<Rightarrow> OrderBookStream \<Rightarrow> go_error + bool \<Rightarrow> OrderBookStream \<Rightarrow> bool" where
  "poll_result s status rebuilt D ob r ob' \<longleftrightarrow>
     (case r of
        Inl _ \<Rightarrow> \<not> quiet s
      | Inr reset \<Rightarrow>
          reset = must_reset status (stream_lastLedger ob) \<and>
          stream_lastLedger ob' = (if waiting status then 0 else LastIngestedLedger status) \<and>
          (reset \<or> \<not> rebuilt \<longrightarrow> contents (stream_graph ob') = (if waiting status then ({}, {}) else live_book D)) \<and>
          (\<not> reset \<longrightarrow> contents (stream_graph ob') = changes_since (stream_lastLedger ob) D (contents (stream_graph ob))))"

lemma synced_follows:
  assumes "tables_ok pid K l D" "graph_ok g" "lastLedger g = uint l" "contents g = live_book D"
  shows "follows False l m D \<lparr>stream_graph = g, stream_lastLedger = l\<rparr>"
  using assms live_book_lags [OF assms(1), of l] by (simp add: follows_def)

lemma update_reset_outcome:
  assumes D: "tables_ok pid K l D" and w: "reading D s w" and l: "LastIngestedLedger status = l" and reset: "must_reset status (stream_lastLedger ob)"
    and run: "update_reset s (Some readOnlyOptions) status (ob, w) = (r, ob', w')"
  shows "reading D s w' \<and> follows False l m D ob' \<and> poll_result s status rebuilt D ob r ob'"
proof (cases "waiting status")
  case True
  then show ?thesis using run w reset by (auto simp: update_reset_def waiting_def follows_def poll_result_def graph_inv_Clear)
next
  case False
  let ?T = "offers_table (state_tables D)" and ?P = "liquidity_pools (state_tables D)"
  let ?ob = "ob\<lparr>stream_graph := Clear (stream_graph ob), stream_lastLedger := 0\<rparr>"
  let ?rows = "sort_key or_OfferID (filter (\<lambda>r. \<not> or_Deleted r) ?T)" and ?rows' = "filter (\<lambda>r. \<not> lr_Deleted r) ?P"
  have T: "distinct (map or_OfferID ?T)" "\<forall>r \<in> set ?T. good_offer r" "\<forall>r \<in> set ?T. 0 < or_OfferID r"
    and P: "distinct (map lr_PoolID ?P)" "\<forall>r \<in> set ?P. good_pool pid K r"
    using D good_offerD(3) by (auto simp: tables_ok_def)
  have rows: "\<forall>r \<in> set ?rows. good_offer r \<and> \<not> or_Deleted r" "\<forall>r \<in> set ?rows. good_offer r" "distinct (map or_OfferID ?rows)"
    using T by (auto simp: distinct_map inj_on_def)
  have rows': "\<forall>r \<in> set ?rows'. good_pool pid K r \<and> \<not> lr_Deleted r" "\<forall>r \<in> set ?rows'. good_pool pid K r" "distinct (map lr_PoolID ?rows')"
    using P by (auto simp: distinct_map inj_on_def)
  obtain ob1 where ob': "ob' = ob1\<lparr>stream_graph := Discard (stream_graph ob1)\<rparr>"
    and body: "try_wrap ''Error loading offers into orderbook'' (on_session (StreamAllOffers s (Some readOnlyOptions))) (\<lambda>offers.
             check (on_stream (each_row stream_offer offers)) (\<lambda>e. return (Inl e)) (\<lambda>_.
             try_wrap ''Error loading liquidity pools into orderbook'' (on_session (StreamAllLiquidityPools s)) (\<lambda>pools.
             try_wrap ''Error loading liquidity pools into orderbook'' (on_stream (each_row stream_pool pools)) (\<lambda>_.
             on_stream (apply_updates status True))))) (?ob, w) = (r, ob1, w')"
    using run False by (auto simp: update_reset_def waiting_def deferDiscard_def split: prod.splits)
  show ?thesis
    using reads_all_offers [OF T(1,3)] w body
  proof (cases rule: session_cases)
    case (failed e w1)
    then show ?thesis using ob' by (simp add: poll_result_def follows_def)
  next
    case (ok offers w1)
    note step = ok(3) [unfolded ok(1) rows_step(1) [of "each_row stream_offer ?rows", OF each_stream_offer [OF rows(1)]]]
    show ?thesis
      using reads_all_pools ok(2) step
    proof (cases rule: session_cases)
      case (failed e w2)
      then show ?thesis using ob' by (simp add: poll_result_def follows_def)
    next
      case (ok pools w2)
      let ?ob2 = "?ob\<lparr>stream_graph := foldl enqueue (Clear (stream_graph ob)) (map offer_op ?rows @ map pool_op ?rows')\<rparr>"
      have "apply_updates status True ?ob2 = (r, ob1)" "w' = w2"
        using ok(3) unfolding ok(1) rows_step(2) [of "each_row stream_pool ?rows'", OF each_stream_pool [OF rows'(1)]]
        by (auto simp: on_stream_def split: prod.splits)
      moreover have sg: "stream_graph ?ob2 = foldl enqueue (Clear (stream_graph ob)) (map offer_op ?rows @ map pool_op ?rows')" by simp
      have "lastLedger (Clear (stream_graph ob)) = 0 \<or> lastLedger (Clear (stream_graph ob)) < uint (LastIngestedLedger status)"
        by (simp add: Clear_def)
      from apply_updates_correct [OF graph_ok_Clear rows_valid [OF rows(2) rows'(2)] this sg, of True]
      obtain g where "apply_updates status True ?ob2 = (Inr True, ?ob2\<lparr>stream_graph := g, stream_lastLedger := LastIngestedLedger status\<rparr>)"
        "graph_ok g" "contents g = fold spec_op (map offer_op ?rows @ map pool_op ?rows') (contents (Clear (stream_graph ob)))"
        "lastLedger g = uint (LastIngestedLedger status)" .
      moreover have "fold spec_op (map offer_op ?rows @ map pool_op ?rows') ({}, {}) = live_book D"
        unfolding contents_rows [OF rows(2) rows'(2) rows(3) rows'(3)] live_book_entries [OF D] by auto
      ultimately show ?thesis
        using synced_follows [OF D, of g m] ok(2) ob' False l reset by (auto simp: poll_result_def follows_def graph_inv_Clear)
    qed
  qed
qed


lemma update_changes_outcome:
  assumes D: "tables_ok pid K l D" and w: "reading D s w" and l: "LastIngestedLedger status = l" and ob: "follows rebuilt l m D ob"
    and L: "stream_lastLedger ob = L" "L \<noteq> 0" "m \<le> L" "L < l" "\<not> waiting status" "\<not> must_reset status L"
    and run: "update_changes s status L (ob, w) = (r, ob', w')"
  shows "reading D s w' \<and> follows rebuilt l m D ob' \<and> poll_result s status rebuilt D ob r ob'"
proof -
  let ?T = "offers_table (state_tables D)" and ?P = "liquidity_pools (state_tables D)"
  let ?rows = "filter (\<lambda>r. or_LastModifiedLedger r > L) ?T" and ?rows' = "filter (\<lambda>r. lr_LastModifiedLedger r > L) ?P"
  have T: "distinct (map or_OfferID ?T)" "\<forall>r \<in> set ?T. good_offer r" and P: "distinct (map lr_PoolID ?P)" "\<forall>r \<in> set ?P. good_pool pid K r"
    using D by (auto simp: tables_ok_def)
  have rows: "\<forall>r \<in> set ?rows. good_offer r" "distinct (map or_OfferID ?rows)" using T by (auto simp: distinct_map inj_on_def)
  have rows': "\<forall>r \<in> set ?rows'. good_pool pid K r" "distinct (map lr_PoolID ?rows')" using P by (auto simp: distinct_map inj_on_def)
  have g: "graph_ok (stream_graph ob)" "lastLedger (stream_graph ob) = uint L" "\<not> rebuilt \<longrightarrow> book_lags L D (contents (stream_graph ob))"
    using ob L by (auto simp: follows_def)
  have same: "ob\<lparr>stream_graph := Discard (stream_graph ob)\<rparr> = ob" using g(1) by simp
  obtain ob1 where ob': "ob' = ob1\<lparr>stream_graph := Discard (stream_graph ob1)\<rparr>"
    and body: "try_wrap ''Error from GetUpdatedOffers'' (on_session (GetUpdatedOffers s L)) (\<lambda>offers.
       try_wrap ''Error from GetUpdatedLiquidityPools'' (on_session (GetUpdatedLiquidityPools s L)) (\<lambda>pools.
       check (on_stream (each_row update_offer offers)) (\<lambda>e. return (Inl e)) (\<lambda>_.
       check (on_stream (each_row update_pool pools)) (\<lambda>e. return (Inl e)) (\<lambda>_.
       on_stream (apply_updates status False))))) (ob, w) = (r, ob1, w')"
    using run by (auto simp: update_changes_def deferDiscard_def split: prod.splits)
  have reads: "reads D s (GetUpdatedOffers s L) (\<lambda>a. a = ?rows)" "reads D s (GetUpdatedLiquidityPools s L) (\<lambda>a. a = ?rows')"
    unfolding GetUpdatedOffers_def GetUpdatedLiquidityPools_def by (rule reads_raw(2))+
  show ?thesis
    using reads(1) w body
  proof (cases rule: session_cases)
    case (failed e w1)
    then show ?thesis using ob' ob same by (simp add: poll_result_def)
  next
    case (ok offers w1)
    show ?thesis
      using reads(2) ok(2,3)
    proof (cases rule: session_cases)
      case (failed e w2)
      then show ?thesis using ob' ob same by (simp add: poll_result_def)
    next
      case (ok pools w2)
      let ?ob2 = "ob\<lparr>stream_graph := foldl enqueue (stream_graph ob) (map offer_op ?rows @ map pool_op ?rows')\<rparr>"
      have "apply_updates status False ?ob2 = (r, ob1)" "w' = w2"
        using ok(3) unfolding ok(1) \<open>offers = ?rows\<close> rows_step(1) [of "each_row update_offer ?rows", OF each_update_offer [OF rows(1)]]
          rows_step(1) [of "each_row update_pool ?rows'", OF each_update_pool [OF rows'(1)]]
        by (auto simp: on_stream_def split: prod.splits)
      moreover have sg: "stream_graph ?ob2 = foldl enqueue (stream_graph ob) (map offer_op ?rows @ map pool_op ?rows')" by simp
      have "lastLedger (stream_graph ob) = 0 \<or> lastLedger (stream_graph ob) < uint (LastIngestedLedger status)"
        using g(2) L(4) l by (simp add: word_less_def)
      from apply_updates_correct [OF g(1) rows_valid [OF rows(1) rows'(1)] this sg, of False]
      obtain g' where "apply_updates status False ?ob2 = (Inr False, ?ob2\<lparr>stream_graph := g', stream_lastLedger := LastIngestedLedger status\<rparr>)"
        "graph_ok g'" "contents g' = fold spec_op (map offer_op ?rows @ map pool_op ?rows') (contents (stream_graph ob))"
        "lastLedger g' = uint (LastIngestedLedger status)" .
      moreover have "fold spec_op (map offer_op ?rows @ map pool_op ?rows') (fst (contents (stream_graph ob)), snd (contents (stream_graph ob))) = live_book D"
        if "\<not> rebuilt"
        unfolding contents_rows [OF rows(1) rows'(1) rows(2) rows'(2)] live_book_entries [OF D]
        using ot.catch_up [of L "set ?T" "fst (contents (stream_graph ob))"] pt.catch_up [of L "set ?P" "snd (contents (stream_graph ob))" pid K]
          g(3) T P that by (simp add: book_lags_def distinct_map)
      ultimately show ?thesis
        using synced_follows [OF D, of g' m] ok(2) ob' L l by (auto simp: poll_result_def follows_def changes_since_def)
    qed
  qed
qed

lemma update_outcome:
  assumes D: "tables_ok pid K l D" and w: "reading D s w" and ob: "follows rebuilt l m D ob" and m: "m \<le> c"
    and run: "update s (Some readOnlyOptions) (status_at D b l c) (ob, w) = (r, ob', w')"
  shows "reading D s w' \<and> follows (rebuilt \<and> r \<noteq> Inr True) l m D ob' \<and> poll_result s (status_at D b l c) rebuilt D ob r ob'"
proof -
  let ?status = "status_at D b l c" and ?L = "stream_lastLedger ob"
  have l: "LastIngestedLedger ?status = l" by (simp add: status_at_def)
  show ?thesis
  proof (cases "must_reset ?status ?L")
    case True
    then show ?thesis using run update_reset_outcome [OF D w l True, of r ob' w' m rebuilt] by (simp add: update_def follows_mono)
  next
    case False
    then have L: "?L \<noteq> 0" "c \<le> ?L" "?L \<le> l" "\<not> waiting ?status"
      by (auto simp: must_reset_def status_at_def waiting_def word_gt_0 split: if_splits)
    have mL: "m \<le> ?L" using m L(2) by simp
    show ?thesis
    proof (cases "l = ?L")
      case True
      then have "r = Inr False" "ob' = ob" "w' = w" using run False l by (simp_all add: update_def)
      moreover have "contents (stream_graph ob) = live_book D" if "\<not> rebuilt"
        using ot.caught_up [of ?L "set (offers_table (state_tables D))" "fst (contents (stream_graph ob))"]
          pt.caught_up [of ?L "set (liquidity_pools (state_tables D))" "snd (contents (stream_graph ob))"]
          ob L(1) mL D True that unfolding live_book_entries [OF D]
        by (auto simp: follows_def book_lags_def tables_ok_def prod_eq_iff)
      moreover have "changes_since ?L D G = G" for G using D True by (auto simp: changes_since_def tables_ok_def not_less filter_empty_conv)
      ultimately show ?thesis using w ob L(4) True l False by (simp add: poll_result_def)
    next
      case neq: False
      then have "update_changes s ?status ?L (ob, w) = (r, ob', w')" "?L < l" using run False l L(3) by (auto simp: update_def)
      then have "reading D s w' \<and> follows rebuilt l m D ob' \<and> poll_result s ?status rebuilt D ob r ob'"
        using L mL False by (intro update_changes_outcome [OF D w l ob refl])
      moreover from this have "r \<noteq> Inr True" using False by (auto simp: poll_result_def)
      ultimately show ?thesis by simp
    qed
  qed
qed


definition db_ok ::
    "((Asset \<times> Asset) option \<Rightarrow> 256 word) \<Rightarrow> (Asset \<times> Asset) option set \<Rightarrow> uint32 \<Rightarrow> uint32 \<Rightarrow> ('x stateTables_scheme, 'r) db \<Rightarrow> bool" where
  "db_ok pid K l c D \<longleftrightarrow>
     tables_ok pid K l D \<and> kv_number lastLedgerKey D l \<and> kv_number offerCompactionSequence D c \<and>
     kv_number liquidityPoolCompactionSequence D c \<and> c < 2 ^ 31"

lemma BeginTx_cases:
  assumes "idle D w"
  obtains (failed) e w1 where "BeginTx s w = (Inl e, w1)" "idle D w1" "\<not> quiet s"
    | (ok) w1 where "BeginTx s w = (Inr (), w1)" "reading D s w1"
  using assms that by (cases "fails s (calls w)") (auto simp: BeginTx_def idle_def Let_def quiet_def reading_def)

lemma reading_Rollback: "reading D s w \<Longrightarrow> idle D (Rollback w)"
  by (auto simp: reading_def idle_def Rollback_def)

lemma Update_outcome:
  assumes D: "db_ok pid K l c D" "kv_invalid D b" and w: "idle D w" and ob: "follows rebuilt l m D ob" and m: "m \<le> c"
    and run: "Update s (ob, w) = (r, ob', w')"
  shows "idle D w' \<and> follows (rebuilt \<and> r \<noteq> Inr True) l m D ob' \<and> poll_result s (status_at D b l c) rebuilt D ob r ob'"
proof -
  have T: "tables_ok pid K l D" and status: "reads D s (getIngestionStatus s) (\<lambda>status. status = status_at D b l c)"
    using D by (auto simp: db_ok_def intro: reads_status)
  show ?thesis
    using w
  proof (cases rule: BeginTx_cases [where s = s])
    case (failed e w1)
    then show ?thesis
      using run ob by (auto simp: Update_def try_wrap_def check_def on_session_def return_def poll_result_def)
  next
    case (ok w1)
    then obtain w2 where w': "w' = Rollback w2"
      and body: "try_wrap ''Error obtaining ingestion status'' (on_session (getIngestionStatus s)) (\<lambda>status.
        try_wrap ''Error updating'' (update s (Some readOnlyOptions) status) (\<lambda>reset. return (Inr reset))) (ob, w1) = (r, ob', w2)"
      using run by (auto simp: Update_def try_wrap_def [of "''Error starting repeatable read transaction''"] check_def [of "on_session (BeginTx s)"]
          on_session_def [of "BeginTx s"] deferSessionRollback_def split: prod.splits)
    show ?thesis
      using status ok(2) body
    proof (cases rule: session_cases)
      case (failed e w3)
      then show ?thesis using ob w' by (auto simp: poll_result_def reading_Rollback)
    next
      case (ok status w3)
      obtain r1 ob1 w4 where u: "update s (Some readOnlyOptions) (status_at D b l c) (ob, w3) = (r1, ob1, w4)" by (metis surj_pair)
      from update_outcome [OF T ok(2) ob m u] ok(1,3) w' u show ?thesis
        by (cases r1) (auto simp: try_wrap_def check_def return_def poll_result_def reading_Rollback)
    qed
  qed
qed

section \<open>What the processors write\<close>

lemma try_wrap_ok: "try_wrap msg call rest w = (Inr a, w') \<Longrightarrow> \<exists>x w1. call w = (Inr x, w1) \<and> rest x w1 = (Inr a, w')"
  by (auto simp: try_wrap_def check_def return_def split: prod.splits sum.splits)

lemma exec_ok: "ExecRaw s f w = (Inr u, w') \<Longrightarrow> in_tx X D w \<Longrightarrow> in_tx X (f D) w'"
  by (auto simp: ExecRaw_def conn_stmt_def in_tx_def Let_def split: option.splits)

lemma exec_constrained_ok: "ExecConstrained s ok f w = (Inr u, w') \<Longrightarrow> in_tx X D w \<Longrightarrow> ok D \<and> in_tx X (f D) w'"
  by (auto simp: ExecConstrained_def visible_def ExecRaw_def conn_stmt_def in_tx_def Let_def split: option.splits if_splits)

lemma upsert_row_keys: "distinct (map key t) \<Longrightarrow> distinct (map key (upsert_row key row t))"
  by (auto simp: upsert_row_def distinct_map intro: inj_on_subset)

lemma upsert_rows:
  "distinct (map key rows) \<Longrightarrow> distinct (map key t) \<Longrightarrow>
   set (fold (upsert_row key) rows t) = upserted key (set t) (set rows) \<and> distinct (map key (fold (upsert_row key) rows t))"
proof (induction rows arbitrary: t)
  case (Cons row rows)
  have "set (upsert_row key row t) = upserted key (set t) {row}" by (auto simp: upsert_row_def upserted_def)
  then show ?case
    using Cons.IH [OF _ upsert_row_keys [OF Cons.prems(2), of row]] Cons.prems(1) by (simp add: upserted_upserted)
qed simp

abbreviation otab :: "('x stateTables_scheme, 'r) db \<Rightarrow> OfferRow list" where
  "otab D \<equiv> offers_table (state_tables D)"

abbreviation ptab :: "('x stateTables_scheme, 'r) db \<Rightarrow> PoolRow list" where
  "ptab D \<equiv> liquidity_pools (state_tables D)"

text \<open>The compaction at the end of a ledger; there is none in the first ledgers.\<close>

definition cleaned :: "('r \<Rightarrow> uint32) \<Rightarrow> ('r \<Rightarrow> bool) \<Rightarrow> uint32 \<Rightarrow> 'r set \<Rightarrow> 'r set" where
  "cleaned modified dead sequence T = (if sequence > compactionWindow then compacted modified dead (sequence - compactionWindow) T else T)"

definition compaction_noted :: "string \<Rightarrow> uint32 \<Rightarrow> ('s, 'r) db \<Rightarrow> ('s, 'r) db \<Rightarrow> bool" where
  "compaction_noted k sequence D D' \<longleftrightarrow>
     key_value_store D' =
       (if sequence > compactionWindow then (key_value_store D)(k \<mapsto> FormatUint32 (sequence - compactionWindow)) else key_value_store D)"

lemma cleaned_upserted:
  "cleaned modified dead q (upserted ident (cleaned modified dead q T) N) = cleaned modified dead q (upserted ident T N)"
  by (simp add: cleaned_def compacted_upserted)

lemma flush_ok:
  assumes "offers_flushCache s p w = (Inr u, w')" "in_tx X D w" "distinct (map or_OfferID (otab D))"
    "distinct (map or_OfferID (insertBatch p @ batchUpdateOffers p))"
  obtains D' where "in_tx X D' w'" "set (otab D') = upserted or_OfferID (set (otab D)) (set (insertBatch p) \<union> set (batchUpdateOffers p))"
    "distinct (map or_OfferID (otab D'))" "ptab D' = ptab D" "key_value_store D' = key_value_store D"
proof -
  let ?I = "insertBatch p" and ?U = "batchUpdateOffers p"
  obtain w1 where ins: "InsertOffers s ?I w = (Inr (), w1)"
    and ups: "(if length ?U > 0 then try_wrap ''errors in UpsertOffers'' (UpsertOffers s ?U) (\<lambda>_. return (Inr ())) else return (Inr ())) w1 = (Inr u, w')"
    using assms(1) by (auto simp: offers_flushCache_def check_def return_def split: prod.splits sum.splits)
  let ?D1 = "update_offers (\<lambda>t. t @ ?I) D"
  have 1: "distinct (map or_OfferID (otab D @ ?I))" "in_tx X ?D1 w1"
    using ins assms(2,3) by (auto simp: InsertOffers_def dest: exec_constrained_ok split: if_splits)
  have "set (otab D @ ?I) = upserted or_OfferID (set (otab D)) (set ?I)" using 1(1) by (auto simp: upserted_def)
  moreover have "or_OfferID ` set ?I \<inter> or_OfferID ` set ?U = {}" using assms(4) by simp
  ultimately have both: "upserted or_OfferID (set (otab ?D1)) (set ?U) = upserted or_OfferID (set (otab D)) (set ?I \<union> set ?U)"
    by (simp add: upserted_upserted)
  show thesis
  proof (cases "?U = []")
    case True
    then show thesis using that [of ?D1] ups 1 both by (auto simp: return_def)
  next
    case False
    then have "UpsertOffers s ?U w1 = (Inr (), w')" using ups by (auto simp: return_def dest!: try_wrap_ok)
    then have "in_tx X (update_offers (fold (upsert_row or_OfferID) ?U) ?D1) w'"
      using 1(2) by (auto simp: UpsertOffers_def dest!: exec_constrained_ok)
    then show thesis using that upsert_rows [of or_OfferID ?U "otab D @ ?I"] assms(4) 1(1) both by simp
  qed
qed

lemma compact_offers_ok:
  assumes "CompactOffers s c w = (Inr u, w')" "in_tx X D w"
  obtains D' where "in_tx X D' w'" "otab D' = filter (\<lambda>r. \<not> (or_Deleted r \<and> or_LastModifiedLedger r \<le> c)) (otab D)" "ptab D' = ptab D"
    "key_value_store D' = (key_value_store D)(offerCompactionSequence \<mapsto> FormatUint32 c)"
proof -
  obtain w1 w2 where "ExecRaw s (update_offers (filter (\<lambda>r. \<not> (or_Deleted r \<and> or_LastModifiedLedger r \<le> c)))) w = (Inr (), w1)"
    "UpdateOfferCompactionSequence s c w1 = (Inr (), w2)" "w' = w2"
    using assms(1) by (auto simp: CompactOffers_def return_def dest!: try_wrap_ok)
  then show thesis
    using that assms(2) by (auto simp: UpdateOfferCompactionSequence_def updateValueInStore_def dest!: exec_ok)
qed

lemma compact_pools_ok:
  assumes "CompactLiquidityPools s c w = (Inr u, w')" "in_tx X D w"
  obtains D' where "in_tx X D' w'" "ptab D' = filter (\<lambda>r. \<not> (lr_Deleted r \<and> lr_LastModifiedLedger r \<le> c)) (ptab D)" "otab D' = otab D"
    "key_value_store D' = (key_value_store D)(liquidityPoolCompactionSequence \<mapsto> FormatUint32 c)"
proof -
  obtain w1 w2 where "ExecRaw s (update_pools (filter (\<lambda>r. \<not> (lr_Deleted r \<and> lr_LastModifiedLedger r \<le> c)))) w = (Inr (), w1)"
    "UpdateLiquidityPoolCompactionSequence s c w1 = (Inr (), w2)" "w' = w2"
    using assms(1) by (auto simp: CompactLiquidityPools_def return_def dest!: try_wrap_ok)
  then show thesis
    using that assms(2) by (auto simp: UpdateLiquidityPoolCompactionSequence_def updateValueInStore_def dest!: exec_ok)
qed

lemma distinct_map_filter_key: "distinct (map key t) \<Longrightarrow> distinct (map key (filter P t))"
  by (auto simp: distinct_map intro: inj_on_subset)

lemma offers_commit_ok:
  assumes "offers_Commit s p w = (Inr u, p', w')" "in_tx X D w" "distinct (map or_OfferID (otab D))"
    "distinct (map or_OfferID (insertBatch p @ batchUpdateOffers p))" "op_sequence p = q"
  obtains D' where "in_tx X D' w'"
    "set (otab D') = cleaned or_LastModifiedLedger or_Deleted q (upserted or_OfferID (set (otab D)) (set (insertBatch p) \<union> set (batchUpdateOffers p)))"
    "distinct (map or_OfferID (otab D'))" "ptab D' = ptab D" "compaction_noted offerCompactionSequence q D D'"
proof -
  obtain w1 where 1: "offers_flushCache s p w = (Inr (), w1)"
    and 2: "q > compactionWindow \<Longrightarrow> CompactOffers s (q - compactionWindow) w1 = (Inr (), w')" "\<not> q > compactionWindow \<Longrightarrow> w' = w1"
    using assms(1,5) by (auto simp: offers_Commit_def split: prod.splits sum.splits if_splits)
  obtain D1 where D1: "in_tx X D1 w1" "set (otab D1) = upserted or_OfferID (set (otab D)) (set (insertBatch p) \<union> set (batchUpdateOffers p))"
    "distinct (map or_OfferID (otab D1))" "ptab D1 = ptab D" "key_value_store D1 = key_value_store D"
    using flush_ok [OF 1 assms(2-4)] .
  show thesis
  proof (cases "q > compactionWindow")
    case True
    show thesis
      by (rule compact_offers_ok [OF 2(1) [OF True] D1(1)], rule that)
         (use True D1 in \<open>auto simp: cleaned_def compacted_def compaction_noted_def distinct_map_filter_key\<close>)
  next
    case False
    then show thesis using that [of D1] D1 2(2) by (auto simp: cleaned_def compaction_noted_def)
  qed
qed


lemma pools_commit_ok:
  assumes "pools_Commit s p w = (Inr u, p', w')" "in_tx X D w" "distinct (map lr_PoolID (ptab D))" "distinct (map lr_PoolID (lps p))" "lp_sequence p = q"
  obtains D' where "in_tx X D' w'" "p' = p\<lparr>lps := []\<rparr>"
    "set (ptab D') = cleaned lr_LastModifiedLedger lr_Deleted q (upserted lr_PoolID (set (ptab D)) (set (lps p)))"
    "distinct (map lr_PoolID (ptab D'))" "otab D' = otab D" "compaction_noted liquidityPoolCompactionSequence q D D'"
proof -
  obtain w1 where 1: "(if length (lps p) > 0
      then try_wrap ''error upserting liquidity pools'' (UpsertLiquidityPools s (lps p)) (\<lambda>_. return (Inr ())) w else (Inr (), w)) = (Inr (), w1)"
    and 2: "q > compactionWindow \<Longrightarrow> CompactLiquidityPools s (q - compactionWindow) w1 = (Inr (), w')" "\<not> q > compactionWindow \<Longrightarrow> w' = w1"
    and p': "p' = p\<lparr>lps := []\<rparr>"
    using assms(1,5) unfolding pools_Commit_def by (auto split: prod.splits sum.splits if_splits)
  obtain D1 where D1: "in_tx X D1 w1" "set (ptab D1) = upserted lr_PoolID (set (ptab D)) (set (lps p))"
    "distinct (map lr_PoolID (ptab D1))" "otab D1 = otab D" "key_value_store D1 = key_value_store D"
  proof (cases "lps p = []")
    case True
    then show thesis using that [of D] 1 assms(2,3) by simp
  next
    case False
    then have "UpsertLiquidityPools s (lps p) w = (Inr (), w1)" using 1 by (auto simp: return_def dest!: try_wrap_ok)
    then have "in_tx X (update_pools (fold (upsert_row lr_PoolID) (lps p)) D) w1"
      using assms(2) by (auto simp: UpsertLiquidityPools_def dest!: exec_constrained_ok)
    then show thesis using that upsert_rows [OF assms(4,3)] by simp
  qed
  show thesis
  proof (cases "q > compactionWindow")
    case True
    show thesis
      by (rule compact_pools_ok [OF 2(1) [OF True] D1(1)], rule that)
         (use True D1 p' in \<open>auto simp: cleaned_def compacted_def compaction_noted_def distinct_map_filter_key\<close>)
  next
    case False
    then show thesis using that [of D1] D1 2(2) p' by (auto simp: cleaned_def compaction_noted_def)
  qed
qed

subsection \<open>One change\<close>

text \<open>The row that a change writes.\<close>

definition offer_change_row :: "uint32 \<Rightarrow> 'z Change \<Rightarrow> OfferRow" where
  "offer_change_row q c =
     (case Post c of
        Some post \<Rightarrow> projr (offer_ledgerEntryToRow post)
      | None \<Rightarrow> (projr (offer_ledgerEntryToRow (the (Pre c))))\<lparr>or_Deleted := True, or_LastModifiedLedger := q\<rparr>)"

definition pool_change_row :: "uint32 \<Rightarrow> 'z Change \<Rightarrow> PoolRow" where
  "pool_change_row q c =
     (case Post c of
        Some post \<Rightarrow> projr (pool_ledgerEntryToRow post)
      | None \<Rightarrow> (projr (pool_ledgerEntryToRow (the (Pre c))))\<lparr>lr_Deleted := True, lr_LastModifiedLedger := q\<rparr>)"

abbreviation buffered :: "OffersProcessor \<Rightarrow> OfferRow list" where
  "buffered p \<equiv> insertBatch p @ batchUpdateOffers p"

text \<open>The tables as they will be once the buffers are flushed.\<close>

definition offers_after :: "OffersProcessor \<Rightarrow> ('x stateTables_scheme, 'r) db \<Rightarrow> OfferRow set" where
  "offers_after p D = upserted or_OfferID (set (otab D)) (set (buffered p))"

definition pools_after :: "LiquidityPoolsChangeProcessor \<Rightarrow> ('x stateTables_scheme, 'r) db \<Rightarrow> PoolRow set" where
  "pools_after p D = cleaned lr_LastModifiedLedger lr_Deleted (lp_sequence p) (upserted lr_PoolID (set (ptab D)) (set (lps p)))"

lemma maybe_flush_ok:
  assumes "offers_maybeFlush s p w = (Inr u, p', w')" "in_tx X D w" "distinct (map or_OfferID (otab D))" "distinct (map or_OfferID (buffered p))"
  obtains D' where "in_tx X D' w'" "offers_after p' D' = offers_after p D" "distinct (map or_OfferID (otab D'))" "distinct (map or_OfferID (buffered p'))"
    "set (buffered p') \<subseteq> set (buffered p)" "op_sequence p' = op_sequence p" "ptab D' = ptab D" "key_value_store D' = key_value_store D"
proof (cases "length (insertBatch p) + length (batchUpdateOffers p) > maxBatchSize")
  case True
  then have f: "offers_flushCache s p w = (Inr (), w')" "p' = offers_reset p"
    using assms(1) by (auto simp: offers_maybeFlush_def split: prod.splits sum.splits)
  obtain D1 where "in_tx X D1 w'" "set (otab D1) = upserted or_OfferID (set (otab D)) (set (insertBatch p) \<union> set (batchUpdateOffers p))"
    "distinct (map or_OfferID (otab D1))" "ptab D1 = ptab D" "key_value_store D1 = key_value_store D"
    using flush_ok [OF f(1) assms(2-4)] .
  then show thesis by (intro that [of D1]) (simp_all add: f(2) offers_reset_def offers_after_def)
next
  case False
  then have "p' = p" "w' = w" using assms(1) by (simp_all add: offers_maybeFlush_def)
  then show thesis using that [of D] assms by simp
qed

lemma offers_change_ok:
  assumes run: "offers_ProcessChange s c p w = (Inr u, p', w')" "ch_Type c = LedgerEntryTypeOffer"
    and w: "in_tx X D w" "distinct (map or_OfferID (otab D))" "distinct (map or_OfferID (buffered p))"
    and fresh: "or_OfferID (offer_change_row (op_sequence p) c) \<notin> or_OfferID ` set (buffered p)"
  obtains D' where "in_tx X D' w'" "offers_after p' D' = upserted or_OfferID (offers_after p D) {offer_change_row (op_sequence p) c}"
    "distinct (map or_OfferID (otab D'))" "distinct (map or_OfferID (buffered p'))"
    "set (buffered p') \<subseteq> insert (offer_change_row (op_sequence p) c) (set (buffered p))" "op_sequence p' = op_sequence p" "ptab D' = ptab D"
    "key_value_store D' = key_value_store D"
proof -
  let ?row = "offer_change_row (op_sequence p) c"
  obtain p1 where p1: "offers_maybeFlush s p1 w = (Inr u, p', w')" "op_sequence p1 = op_sequence p"
    "set (buffered p1) = insert ?row (set (buffered p))" "distinct (map or_OfferID (buffered p1))"
  proof (cases "Pre c")
    case None
    then obtain post row where "Post c = Some post" "offer_ledgerEntryToRow post = Inr row"
      using run by (auto simp: offers_ProcessChange_def split: option.splits sum.splits)
    then have "offers_maybeFlush s (p\<lparr>insertBatch := insertBatch p @ [?row]\<rparr>) w = (Inr u, p', w')"
      using None run by (simp add: offers_ProcessChange_def offer_change_row_def)
    then show thesis
      by (rule that) (use w(3) fresh in \<open>auto simp: image_iff\<close>)
  next
    case (Some pre)
    have "offers_maybeFlush s (p\<lparr>batchUpdateOffers := batchUpdateOffers p @ [?row]\<rparr>) w = (Inr u, p', w')"
      using Some run by (cases "Post c") (auto simp: offers_ProcessChange_def offer_change_row_def split: sum.splits)
    then show thesis
      by (rule that) (use w(3) fresh in \<open>auto simp: image_iff\<close>)
  qed
  have "offers_after p1 D = upserted or_OfferID (offers_after p D) {?row}"
    unfolding offers_after_def p1(3) using fresh by (subst upserted_upserted) auto
  moreover obtain D1 where "in_tx X D1 w'" "offers_after p' D1 = offers_after p1 D" "distinct (map or_OfferID (otab D1))"
    "distinct (map or_OfferID (buffered p'))" "set (buffered p') \<subseteq> set (buffered p1)" "op_sequence p' = op_sequence p1" "ptab D1 = ptab D"
    "key_value_store D1 = key_value_store D"
    using maybe_flush_ok [OF p1(1) w(1,2) p1(4)] .
  ultimately show thesis using p1(2,3) by (intro that [of D1]) simp_all
qed


text \<open>A flush of the pools compacts the table, possibly before the end of the ledger.\<close>

definition pool_compaction_maybe :: "uint32 \<Rightarrow> ('s, 'r) db \<Rightarrow> ('s, 'r) db \<Rightarrow> bool" where
  "pool_compaction_maybe q D D' \<longleftrightarrow> key_value_store D' = key_value_store D \<or> compaction_noted liquidityPoolCompactionSequence q D D'"

lemma pools_change_ok:
  assumes run: "pools_ProcessChange s c p w = (Inr u, p', w')" "ch_Type c = LedgerEntryTypeLiquidityPool"
    and w: "in_tx X D w" "distinct (map lr_PoolID (ptab D))" "distinct (map lr_PoolID (lps p))"
    and fresh: "lr_PoolID (pool_change_row (lp_sequence p) c) \<notin> lr_PoolID ` set (lps p)"
  obtains D' where "in_tx X D' w'"
    "pools_after p' D' = cleaned lr_LastModifiedLedger lr_Deleted (lp_sequence p) (upserted lr_PoolID (pools_after p D) {pool_change_row (lp_sequence p) c})"
    "distinct (map lr_PoolID (ptab D'))" "distinct (map lr_PoolID (lps p'))"
    "set (lps p') \<subseteq> insert (pool_change_row (lp_sequence p) c) (set (lps p))" "lp_sequence p' = lp_sequence p" "otab D' = otab D"
    "pool_compaction_maybe (lp_sequence p) D D'"
proof -
  let ?row = "pool_change_row (lp_sequence p) c" and ?q = "lp_sequence p"
  let ?p = "p\<lparr>lps := lps p @ [?row]\<rparr>"
  have add: "pools_add s p ?row w = (Inr u, p', w')"
    using run by (cases "Pre c"; cases "Post c") (auto simp: pools_ProcessChange_def pool_change_row_def split: sum.splits)
  have d: "distinct (map lr_PoolID (lps ?p))" using w(3) fresh by auto
  have "pools_after ?p D = cleaned lr_LastModifiedLedger lr_Deleted ?q (upserted lr_PoolID (set (ptab D)) (set (lps p) \<union> {?row}))"
    by (simp add: pools_after_def)
  also have "upserted lr_PoolID (set (ptab D)) (set (lps p) \<union> {?row}) = upserted lr_PoolID (upserted lr_PoolID (set (ptab D)) (set (lps p))) {?row}"
    using fresh by (subst upserted_upserted) auto
  finally have after: "pools_after ?p D = cleaned lr_LastModifiedLedger lr_Deleted ?q (upserted lr_PoolID (pools_after p D) {?row})"
    by (simp add: pools_after_def cleaned_upserted)
  show thesis
  proof (cases "length (lps ?p) > maxBatchSize")
    case True
    then have c: "pools_Commit s ?p w = (Inr (), p', w')"
      using add by (auto simp: pools_add_def Let_def split: prod.splits sum.splits)
    obtain D1 where "in_tx X D1 w'" "p' = ?p\<lparr>lps := []\<rparr>"
      "set (ptab D1) = cleaned lr_LastModifiedLedger lr_Deleted ?q (upserted lr_PoolID (set (ptab D)) (set (lps ?p)))"
      "distinct (map lr_PoolID (ptab D1))" "otab D1 = otab D" "compaction_noted liquidityPoolCompactionSequence ?q D D1"
      using pools_commit_ok [OF c w(1,2) d, of ?q] by auto
    moreover from this have "pools_after p' D1 = pools_after ?p D"
      by (simp add: pools_after_def) (simp add: cleaned_def)
    ultimately show thesis using after by (intro that [of D1]) (auto simp: pool_compaction_maybe_def)
  next
    case False
    then have "p' = ?p" "w' = w" using add by (simp_all add: pools_add_def Let_def)
    then show thesis using after w d by (intro that [of D]) (auto simp: pool_compaction_maybe_def)
  qed
qed

subsection \<open>The changes of a ledger\<close>

definition offer_rows :: "uint32 \<Rightarrow> 'z Change list \<Rightarrow> OfferRow list" where
  "offer_rows q cs = map (offer_change_row q) (filter (\<lambda>c. ch_Type c = LedgerEntryTypeOffer) cs)"

definition pool_rows :: "uint32 \<Rightarrow> 'z Change list \<Rightarrow> PoolRow list" where
  "pool_rows q cs = map (pool_change_row q) (filter (\<lambda>c. ch_Type c = LedgerEntryTypeLiquidityPool) cs)"

text \<open>After the changes \<open>cs\<close> of ledger \<open>q\<close>, from the database \<open>D0\<close>.\<close>

definition processed :: "uint32 \<Rightarrow> ('x stateTables_scheme, 'r) db \<Rightarrow> 'z Change list \<Rightarrow> OffersProcessor \<times> LiquidityPoolsChangeProcessor \<Rightarrow>
    ('x stateTables_scheme, 'r) db \<Rightarrow> bool" where
  "processed q D0 cs ps D \<longleftrightarrow>
     op_sequence (fst ps) = q \<and> lp_sequence (snd ps) = q \<and>
     distinct (map or_OfferID (otab D)) \<and> distinct (map lr_PoolID (ptab D)) \<and>
     distinct (map or_OfferID (buffered (fst ps))) \<and> distinct (map lr_PoolID (lps (snd ps))) \<and>
     set (buffered (fst ps)) \<subseteq> set (offer_rows q cs) \<and> set (lps (snd ps)) \<subseteq> set (pool_rows q cs) \<and>
     offers_after (fst ps) D = upserted or_OfferID (set (otab D0)) (set (offer_rows q cs)) \<and>
     pools_after (snd ps) D = cleaned lr_LastModifiedLedger lr_Deleted q (upserted lr_PoolID (set (ptab D0)) (set (pool_rows q cs))) \<and>
     pool_compaction_maybe q D0 D"

lemma as_effect_ok:
  assumes "as_effect f ((p, n), D) = (((p', n'), D'), None)"
  obtains w w' where "in_tx D D w" "f p w = (Inr (), p', w')" "\<forall>X E. in_tx X E w' \<longrightarrow> D' = E"
proof -
  let ?w = "\<lparr>stored = D, tx = Some \<lparr>tx_db = D, tx_aborted = False\<rparr>, calls = n, verifications = []\<rparr>"
  obtain r q w' where "f p ?w = (r, q, w')" by (metis surj_pair)
  then show thesis
    using assms that [of ?w w'] by (cases r) (auto simp: as_effect_def in_tx_def visible_def)
qed

lemma effects_ok: "run_effects msg (f # fs) st = (st', None) \<Longrightarrow> \<exists>st1. f st = (st1, None) \<and> run_effects msg fs st1 = (st', None)"
  by (auto simp: wrap_fault_def split: prod.splits option.splits)

lemma pool_compaction_trans: "pool_compaction_maybe q D D1 \<Longrightarrow> pool_compaction_maybe q D1 D2 \<Longrightarrow> pool_compaction_maybe q D D2"
  by (auto simp: pool_compaction_maybe_def compaction_noted_def)

lemma rows_snoc:
  "offer_rows q (cs @ [c]) = offer_rows q cs @ (if ch_Type c = LedgerEntryTypeOffer then [offer_change_row q c] else [])"
  "pool_rows q (cs @ [c]) = pool_rows q cs @ (if ch_Type c = LedgerEntryTypeLiquidityPool then [pool_change_row q c] else [])"
  by (simp_all add: offer_rows_def pool_rows_def)

lemma processed_offer:
  assumes eff: "as_effect (with_offers (offers_ProcessChange s c)) ((ps, n), D) = (((ps', n'), D'), None)"
    and inv: "processed q D0 cs ps D" and fresh: "distinct (map or_OfferID (offer_rows q (cs @ [c])))"
  shows "processed q D0 (if ch_Type c = LedgerEntryTypeOffer then cs @ [c] else cs) ps' D'"
proof -
  obtain w w' where w: "in_tx D D w" "\<forall>X E. in_tx X E w' \<longrightarrow> D' = E"
    and run: "offers_ProcessChange s c (fst ps) w = (Inr (), fst ps', w')" "snd ps' = snd ps"
    by (rule as_effect_ok [OF eff]) (auto simp: with_offers_def split: prod.splits)
  show ?thesis
  proof (cases "ch_Type c = LedgerEntryTypeOffer")
    case True
    let ?row = "offer_change_row (op_sequence (fst ps)) c"
    have q: "op_sequence (fst ps) = q" using inv by (simp add: processed_def)
    have new: "or_OfferID ?row \<notin> or_OfferID ` set (offer_rows q cs)" using fresh True q by (simp add: rows_snoc)
    then have "or_OfferID ?row \<notin> or_OfferID ` set (buffered (fst ps))" using inv unfolding processed_def by blast
    with run True w(1) inv obtain D1 where "in_tx D D1 w'" "offers_after (fst ps') D1 = upserted or_OfferID (offers_after (fst ps) D) {?row}"
      "distinct (map or_OfferID (otab D1))" "distinct (map or_OfferID (buffered (fst ps')))"
      "set (buffered (fst ps')) \<subseteq> insert ?row (set (buffered (fst ps)))" "op_sequence (fst ps') = op_sequence (fst ps)" "ptab D1 = ptab D"
      "key_value_store D1 = key_value_store D"
      using offers_change_ok [of s c "fst ps" w "()" "fst ps'" w' D D] unfolding processed_def by blast
    moreover have "upserted or_OfferID (upserted or_OfferID (set (otab D0)) (set (offer_rows q cs))) {?row} =
        upserted or_OfferID (set (otab D0)) (insert ?row (set (offer_rows q cs)))"
      using new by (subst upserted_upserted) auto
    ultimately show ?thesis
      using inv run(2) True q w(2)
      by (auto simp: processed_def rows_snoc pools_after_def pool_compaction_maybe_def compaction_noted_def)
  next
    case False
    then have "fst ps' = fst ps" "w' = w" using run by (simp_all add: offers_ProcessChange_def)
    then have "ps' = ps" "D' = D" using run(2) w by (blast intro: prod_eqI)+
    then show ?thesis using inv False by simp
  qed
qed


lemma processed_pool:
  assumes eff: "as_effect (with_pools (pools_ProcessChange s c)) ((ps, n), D) = (((ps', n'), D'), None)"
    and inv: "processed q D0 cs ps D" and type: "ch_Type c = LedgerEntryTypeLiquidityPool"
    and fresh: "distinct (map lr_PoolID (pool_rows q (cs @ [c])))"
  shows "processed q D0 (cs @ [c]) ps' D'"
proof -
  obtain w w' where w: "in_tx D D w" "\<forall>X E. in_tx X E w' \<longrightarrow> D' = E"
    and run: "pools_ProcessChange s c (snd ps) w = (Inr (), snd ps', w')" "fst ps' = fst ps"
    by (rule as_effect_ok [OF eff]) (auto simp: with_pools_def split: prod.splits)
  let ?row = "pool_change_row q c" and ?clean = "cleaned lr_LastModifiedLedger lr_Deleted q"
  have q: "lp_sequence (snd ps) = q" using inv by (simp add: processed_def)
  have new: "lr_PoolID ?row \<notin> lr_PoolID ` set (pool_rows q cs)" using fresh type q by (simp add: rows_snoc)
  then have "lr_PoolID ?row \<notin> lr_PoolID ` set (lps (snd ps))" using inv unfolding processed_def by blast
  with run type w(1) inv obtain D1 where D1: "in_tx D D1 w'"
    "pools_after (snd ps') D1 = ?clean (upserted lr_PoolID (pools_after (snd ps) D) {?row})"
    "distinct (map lr_PoolID (ptab D1))" "distinct (map lr_PoolID (lps (snd ps')))" "set (lps (snd ps')) \<subseteq> insert ?row (set (lps (snd ps)))"
    "lp_sequence (snd ps') = q" "otab D1 = otab D" "pool_compaction_maybe q D D1"
    using pools_change_ok [of s c "snd ps" w "()" "snd ps'" w' D D, unfolded q] unfolding processed_def by blast
  have "?clean (upserted lr_PoolID (pools_after (snd ps) D) {?row}) = ?clean (upserted lr_PoolID (set (ptab D0)) (insert ?row (set (pool_rows q cs))))"
  proof -
    have "upserted lr_PoolID (upserted lr_PoolID (set (ptab D0)) (set (pool_rows q cs))) {?row} =
        upserted lr_PoolID (set (ptab D0)) (insert ?row (set (pool_rows q cs)))"
      using new by (subst upserted_upserted) auto
    moreover have "pools_after (snd ps) D = ?clean (upserted lr_PoolID (set (ptab D0)) (set (pool_rows q cs)))"
      using inv unfolding processed_def by blast
    ultimately show ?thesis by (simp add: cleaned_upserted)
  qed
  moreover have "pool_compaction_maybe q D0 D1" using inv D1(8) unfolding processed_def by (blast intro: pool_compaction_trans)
  ultimately show ?thesis
    using inv run(2) type q w(2) D1 by (auto simp: processed_def rows_snoc offers_after_def)
qed

lemma processed_other:
  assumes "as_effect (with_pools (pools_ProcessChange s c)) ((ps, n), D) = (((ps', n'), D'), None)" "ch_Type c \<noteq> LedgerEntryTypeLiquidityPool"
  shows "ps' = ps \<and> D' = D"
proof -
  obtain w w' where w: "in_tx D D w" "\<forall>X E. in_tx X E w' \<longrightarrow> D' = E"
    and run: "pools_ProcessChange s c (snd ps) w = (Inr (), snd ps', w')" "fst ps' = fst ps"
    by (rule as_effect_ok [OF assms(1)]) (auto simp: with_pools_def split: prod.splits)
  then have "snd ps' = snd ps" "w' = w" using assms(2) by (simp_all add: pools_ProcessChange_def)
  then show ?thesis using run(2) w by (blast intro: prod_eqI)
qed

lemma group_change_ok:
  assumes run: "group_ProcessChange [offers_member s, pools_member s] c ((ps, n), D) = (((ps', n'), D'), None)"
    and inv: "processed q D0 cs ps D"
    and fresh: "distinct (map or_OfferID (offer_rows q (cs @ [c])))" "distinct (map lr_PoolID (pool_rows q (cs @ [c])))"
  shows "processed q D0 (cs @ [c]) ps' D'"
proof -
  obtain ps1 n1 D1 where 1: "as_effect (with_offers (offers_ProcessChange s c)) ((ps, n), D) = (((ps1, n1), D1), None)"
    and 2: "as_effect (with_pools (pools_ProcessChange s c)) ((ps1, n1), D1) = (((ps', n'), D'), None)"
    using run unfolding group_ProcessChange_def offers_member_def pools_member_def
    by (auto simp del: run_effects.simps dest!: effects_ok) (auto simp: prod_eq_iff)
  note inv1 = processed_offer [OF 1 inv fresh(1)]
  show ?thesis
  proof (cases "ch_Type c = LedgerEntryTypeLiquidityPool")
    case True
    then show ?thesis using processed_pool [OF 2 _ True fresh(2)] inv1 by simp
  next
    case False
    then show ?thesis using processed_other [OF 2 False] inv1 by (auto simp: processed_def rows_snoc split: if_splits)
  qed
qed

lemma stream_changes_ok:
  assumes "streamChanges [offers_member s, pools_member s] (map Inr cs') ((ps, n), D) = (((ps', n'), D'), None)" "processed q D0 cs ps D"
    "distinct (map or_OfferID (offer_rows q (cs @ cs')))" "distinct (map lr_PoolID (pool_rows q (cs @ cs')))"
  shows "processed q D0 (cs @ cs') ps' D'"
  using assms
proof (induction cs' arbitrary: cs ps n D)
  case (Cons c cs')
  obtain ps1 n1 D1 f where g: "group_ProcessChange [offers_member s, pools_member s] c ((ps, n), D) = (((ps1, n1), D1), f)"
    by (metis surj_pair)
  then have f: "f = None" and rest: "streamChanges [offers_member s, pools_member s] (map Inr cs') ((ps1, n1), D1) = (((ps', n'), D'), None)"
    using Cons.prems(1) by (auto simp: wrap_fault_def split: option.splits)
  have "distinct (map or_OfferID (offer_rows q (cs @ [c])))" "distinct (map lr_PoolID (pool_rows q (cs @ [c])))"
    using Cons.prems(3,4) by (simp_all add: offer_rows_def pool_rows_def split: if_splits)
  from group_change_ok [OF g [unfolded f] Cons.prems(2) this] Cons.IH [OF rest, of "cs @ [c]"] Cons.prems(3,4) show ?case by simp
qed simp

lemma ingest_tables_ok:
  assumes run: "ingest_tables s q cs n D = Some D'"
    and tables: "distinct (map or_OfferID (otab D))" "distinct (map lr_PoolID (ptab D))"
    and fresh: "distinct (map or_OfferID (offer_rows q cs))" "distinct (map lr_PoolID (pool_rows q cs))"
  shows "set (otab D') = cleaned or_LastModifiedLedger or_Deleted q (upserted or_OfferID (set (otab D)) (set (offer_rows q cs)))"
    and "set (ptab D') = cleaned lr_LastModifiedLedger lr_Deleted q (upserted lr_PoolID (set (ptab D)) (set (pool_rows q cs)))"
    and "distinct (map or_OfferID (otab D'))" "distinct (map lr_PoolID (ptab D'))"
    and "key_value_store D' = (if q > compactionWindow
      then (key_value_store D)(offerCompactionSequence \<mapsto> FormatUint32 (q - compactionWindow),
             liquidityPoolCompactionSequence \<mapsto> FormatUint32 (q - compactionWindow))
      else key_value_store D)"
proof -
  let ?new = "(NewOffersProcessor q, NewLiquidityPoolsChangeProcessor q)"
  obtain ps1 n1 D1 ps2 n2 D2 ps3 n3 where 1: "streamChanges [offers_member s, pools_member s] (map Inr cs) ((?new, n), D) = (((ps1, n1), D1), None)"
    and 2: "as_effect (with_offers (offers_Commit s)) ((ps1, n1), D1) = (((ps2, n2), D2), None)"
    and 3: "as_effect (with_pools (pools_Commit s)) ((ps2, n2), D2) = (((ps3, n3), D'), None)"
    using run unfolding ingest_tables_def Let_def group_Commit_def
    by (auto simp: offers_member_def pools_member_def simp del: run_effects.simps split: prod.splits option.splits dest!: effects_ok)
       (auto simp: prod_eq_iff)
  have "processed q D [] ?new D"
    using tables by (auto simp: processed_def NewOffersProcessor_def NewLiquidityPoolsChangeProcessor_def offer_rows_def pool_rows_def
        offers_after_def pools_after_def pool_compaction_maybe_def)
  then have inv: "processed q D cs ps1 D1" using stream_changes_ok [OF 1, of q D "[]"] fresh by simp
  obtain w2 w2' where w2: "in_tx D1 D1 w2" "\<forall>X E. in_tx X E w2' \<longrightarrow> D2 = E"
    "offers_Commit s (fst ps1) w2 = (Inr (), fst ps2, w2')" "snd ps2 = snd ps1"
    by (rule as_effect_ok [OF 2]) (auto simp: with_offers_def split: prod.splits)
  obtain E where "in_tx D1 E w2'" and E: "set (otab E) = cleaned or_LastModifiedLedger or_Deleted q (offers_after (fst ps1) D1)"
    "distinct (map or_OfferID (otab E))" "ptab E = ptab D1" "compaction_noted offerCompactionSequence q D1 E"
    by (rule offers_commit_ok [OF w2(3,1), of q]) (use inv in \<open>auto simp: processed_def offers_after_def\<close>)
  then have D2: "D2 = E" using w2(2) by blast
  obtain w3 w3' where w3: "in_tx D2 D2 w3" "\<forall>X E. in_tx X E w3' \<longrightarrow> D' = E" "pools_Commit s (snd ps2) w3 = (Inr (), snd ps3, w3')"
    by (rule as_effect_ok [OF 3]) (auto simp: with_pools_def split: prod.splits)
  obtain F where "in_tx D2 F w3'"
    and F: "set (ptab F) = cleaned lr_LastModifiedLedger lr_Deleted q (upserted lr_PoolID (set (ptab D2)) (set (lps (snd ps1))))"
    "distinct (map lr_PoolID (ptab F))" "otab F = otab D2" "compaction_noted liquidityPoolCompactionSequence q D2 F"
    by (rule pools_commit_ok [OF w3(3,1), of q]) (use inv D2 E w2(4) in \<open>auto simp: processed_def\<close>)
  then have D': "D' = F" using w3(2) by blast
  show "set (otab D') = cleaned or_LastModifiedLedger or_Deleted q (upserted or_OfferID (set (otab D)) (set (offer_rows q cs)))"
    "distinct (map or_OfferID (otab D'))" "distinct (map lr_PoolID (ptab D'))"
    using E(1,2) F(2,3) inv unfolding D' D2 processed_def by simp_all
  show "set (ptab D') = cleaned lr_LastModifiedLedger lr_Deleted q (upserted lr_PoolID (set (ptab D)) (set (pool_rows q cs)))"
    using F(1) inv unfolding D' D2 E(3) processed_def pools_after_def by auto
  show "key_value_store D' = (if q > compactionWindow
      then (key_value_store D)(offerCompactionSequence \<mapsto> FormatUint32 (q - compactionWindow),
             liquidityPoolCompactionSequence \<mapsto> FormatUint32 (q - compactionWindow))
      else key_value_store D)"
    using E(4) F(4) inv unfolding D' D2 processed_def pool_compaction_maybe_def compaction_noted_def
    by (auto simp: offerCompactionSequence_def liquidityPoolCompactionSequence_def fun_upd_twist)
qed


section \<open>The life of a stream\<close>

text \<open>
  What the network guarantees of the changes of a ledger: offers have a positive ID, a positive price and two different assets, pools have
  a body whose assets are ordered and an ID that identifies the pair, integers are in their range,
  and an entry is changed at most once (changes are compacted). A changed entry carries the sequence of the ledger; an
  entry from a checkpoint of the history archive carries the sequence of its last change.
\<close>

definition entry_ok :: "((Asset \<times> Asset) option \<Rightarrow> 256 word) \<Rightarrow> (Asset \<times> Asset) option set \<Rightarrow> 'z LedgerEntry \<Rightarrow> bool" where
  "entry_ok pid K entry \<longleftrightarrow>
     (case le_Data entry of
        EntryOffer x \<Rightarrow> valid_offer x \<and> offer_in_range x \<and> 0 < of_OfferId x
      | EntryLiquidityPool e \<Rightarrow> valid_pool e \<and> pool_in_range e \<and> pool_identified pid K e
      | _ \<Rightarrow> True)"

definition change_ok :: "((Asset \<times> Asset) option \<Rightarrow> 256 word) \<Rightarrow> (Asset \<times> Asset) option set \<Rightarrow> 'z Change \<Rightarrow> bool" where
  "change_ok pid K c \<longleftrightarrow>
     (Pre c \<noteq> None \<or> Post c \<noteq> None) \<and>
     (\<forall>entry \<in> set_option (Pre c) \<union> set_option (Post c). data_Type (le_Data entry) = ch_Type c \<and> entry_ok pid K entry)"

definition changes_ok :: "((Asset \<times> Asset) option \<Rightarrow> 256 word) \<Rightarrow> (Asset \<times> Asset) option set \<Rightarrow> uint32 \<Rightarrow> 'z Change list \<Rightarrow> bool" where
  "changes_ok pid K q cs \<longleftrightarrow>
     (\<forall>c \<in> set cs. change_ok pid K c) \<and> distinct (map or_OfferID (offer_rows q cs)) \<and> distinct (map lr_PoolID (pool_rows q cs))"

definition ledger_changes :: "((Asset \<times> Asset) option \<Rightarrow> 256 word) \<Rightarrow> (Asset \<times> Asset) option set \<Rightarrow> uint32 \<Rightarrow> 'z Change list \<Rightarrow> bool" where
  "ledger_changes pid K q cs \<longleftrightarrow>
     changes_ok pid K q cs \<and> (\<forall>c \<in> set cs. \<forall>entry. Post c = Some entry \<longrightarrow> le_LastModifiedLedgerSeq entry = uint q)"

definition archive_changes :: "((Asset \<times> Asset) option \<Rightarrow> 256 word) \<Rightarrow> (Asset \<times> Asset) option set \<Rightarrow> uint32 \<Rightarrow> 'z Change list \<Rightarrow> bool" where
  "archive_changes pid K q cs \<longleftrightarrow>
     changes_ok pid K q cs \<and>
     (\<forall>c \<in> set cs. Pre c = None \<and>
        (\<forall>entry. Post c = Some entry \<longrightarrow> 0 \<le> le_LastModifiedLedgerSeq entry \<and> le_LastModifiedLedgerSeq entry \<le> uint q))"

definition truncated :: "('x stateTables_scheme, 'r) db \<Rightarrow> ('x stateTables_scheme, 'r) db" where
  "truncated D = D\<lparr>state_tables := (state_tables D)\<lparr>offers_table := [], liquidity_pools := []\<rparr>\<rparr>"

text \<open>
  The database and a stream that polls it. Between polls the ingestion commits ledgers; it builds the state from a checkpoint; the
  history and the flag of an invalid state change. A poll may fail at any statement. After a failed verification the stream forgets its ledger. The
  parts of an entry that these processors do not read are byte strings.

  \<open>stream_run pid K rebuilt D ob\<close>: such a run ends with database \<open>D\<close> and stream \<open>ob\<close>; \<open>rebuilt\<close> records whether the state was built again since the last
  poll that reset the stream. A build empties the tables first, so the deletions since the last poll leave no rows.
\<close>

inductive stream_run ::
    "((Asset \<times> Asset) option \<Rightarrow> 256 word) \<Rightarrow> (Asset \<times> Asset) option set \<Rightarrow> bool \<Rightarrow> ('x stateTables_scheme, 'r) db \<Rightarrow> OrderBookStream \<Rightarrow> bool"
    for pid :: "(Asset \<times> Asset) option \<Rightarrow> 256 word" and K :: "(Asset \<times> Asset) option set" where
  start: "otab D = [] \<Longrightarrow> ptab D = [] \<Longrightarrow> key_value_store D = Map.empty \<Longrightarrow> stream_run pid K False D (NewOrderBookStream NewOrderBookGraph)"
| ledger: "stream_run pid K rebuilt D ob \<Longrightarrow> kv_number lastLedgerKey D l \<Longrightarrow> l < q \<Longrightarrow> q < 2 ^ 31 \<Longrightarrow>
    ledger_changes pid K q (cs :: byte list Change list) \<Longrightarrow> ingest_tables (s :: outside) q cs n D = Some D' \<Longrightarrow>
    stream_run pid K rebuilt (set_last q D') ob"
| build: "stream_run pid K rebuilt D ob \<Longrightarrow> q < 2 ^ 31 \<Longrightarrow> archive_changes pid K q (cs :: byte list Change list) \<Longrightarrow>
    ingest_tables (s :: outside) q cs n (truncated D) = Some D' \<Longrightarrow> stream_run pid K True (set_last q D') ob"
| poll: "stream_run pid K rebuilt D ob \<Longrightarrow> idle D w \<Longrightarrow> Update (s :: outside) (ob, w) = (r, ob', w') \<Longrightarrow>
    stream_run pid K (rebuilt \<and> r \<noteq> Inr True) (stored w') ob'"
| forget: "stream_run pid K rebuilt D ob \<Longrightarrow> stream_run pid K rebuilt D (forget ob)"
| other: "stream_run pid K rebuilt D ob \<Longrightarrow> otab D' = otab D \<Longrightarrow> ptab D' = ptab D \<Longrightarrow>
    \<forall>k. k \<in> {lastLedgerKey, offerCompactionSequence, liquidityPoolCompactionSequence} \<longrightarrow> key_value_store D' k = key_value_store D k \<Longrightarrow>
    kv_invalid D' b \<Longrightarrow> stream_run pid K rebuilt D' ob"

text \<open>\<open>m\<close> is the ledger of the last compaction since the state was built, which the recorded one, \<open>c\<close>, may exceed.\<close>

definition run_inv ::
    "((Asset \<times> Asset) option \<Rightarrow> 256 word) \<Rightarrow> (Asset \<times> Asset) option set \<Rightarrow> bool \<Rightarrow> uint32 \<Rightarrow> uint32 \<Rightarrow> uint32 \<Rightarrow> ('x stateTables_scheme, 'r) db \<Rightarrow> OrderBookStream \<Rightarrow> bool" where
  "run_inv pid K rebuilt l c m D ob \<longleftrightarrow>
     db_ok pid K l c D \<and> (\<exists>b. kv_invalid D b) \<and> m \<le> c \<and> (m = 0 \<or> m \<le> l - compactionWindow \<and> compactionWindow < l) \<and> follows rebuilt l m D ob"

lemma XDR_of_deleted [simp]:
  "offerToXDR (r\<lparr>or_Deleted := d, or_LastModifiedLedger := q\<rparr>) = offerToXDR r"
  "liquidityPoolToXDR (e\<lparr>lr_Deleted := d, lr_LastModifiedLedger := q\<rparr>) = liquidityPoolToXDR e"
  by (simp_all add: offerToXDR_def liquidityPoolToXDR_def split: sum.splits list.splits option.splits prod.splits)

lemma change_row_ok:
  assumes "change_ok pid K c"
  shows "ch_Type c = LedgerEntryTypeOffer \<Longrightarrow> good_offer (offer_change_row q c) \<and>
      or_LastModifiedLedger (offer_change_row q c) = (case Post c of None \<Rightarrow> q | Some entry \<Rightarrow> word_of_int (le_LastModifiedLedgerSeq entry))"
    and "ch_Type c = LedgerEntryTypeLiquidityPool \<Longrightarrow> good_pool pid K (pool_change_row q c) \<and>
      lr_LastModifiedLedger (pool_change_row q c) = (case Post c of None \<Rightarrow> q | Some entry \<Rightarrow> word_of_int (le_LastModifiedLedgerSeq entry))"
proof -
  obtain entry where entry: "entry \<in> set_option (Pre c) \<union> set_option (Post c)" "data_Type (le_Data entry) = ch_Type c" "entry_ok pid K entry"
    "(case Post c of None \<Rightarrow> the (Pre c) | Some post \<Rightarrow> post) = entry"
    using assms by (cases "Post c") (auto simp: change_ok_def)
  show "good_offer (offer_change_row q c) \<and> or_LastModifiedLedger (offer_change_row q c) =
      (case Post c of None \<Rightarrow> q | Some entry \<Rightarrow> word_of_int (le_LastModifiedLedgerSeq entry))" if type: "ch_Type c = LedgerEntryTypeOffer"
  proof -
    obtain x where x: "le_Data entry = EntryOffer x" "valid_offer x" "offer_in_range x" "0 < of_OfferId x"
      using entry(2,3) type by (cases "le_Data entry") (auto simp: data_Type_def entry_ok_def)
    obtain row where "offer_ledgerEntryToRow entry = Inr row" "offerToXDR row = Inr x" "or_OfferID row = of_OfferId x"
      "or_LastModifiedLedger row = word_of_int (le_LastModifiedLedgerSeq entry)" using offer_row [OF x(1,3)] by blast
    then show ?thesis
      using x entry(4) by (cases "Post c") (auto simp: good_offer_def offer_change_row_def)
  qed
  show "good_pool pid K (pool_change_row q c) \<and> lr_LastModifiedLedger (pool_change_row q c) =
      (case Post c of None \<Rightarrow> q | Some entry \<Rightarrow> word_of_int (le_LastModifiedLedgerSeq entry))" if type: "ch_Type c = LedgerEntryTypeLiquidityPool"
  proof -
    obtain e where e: "le_Data entry = EntryLiquidityPool e" "valid_pool e" "pool_in_range e" "pool_identified pid K e"
      using entry(2,3) type by (cases "le_Data entry") (auto simp: data_Type_def entry_ok_def)
    have "lp_ConstantProduct e \<noteq> None" using e(2) by (auto simp: valid_pool_def)
    then obtain row where "pool_ledgerEntryToRow entry = Inr row" "liquidityPoolToXDR row = Inr e"
      "lr_PoolID row = PoolIDToString (lp_LiquidityPoolId e)" "lr_LastModifiedLedger row = word_of_int (le_LastModifiedLedgerSeq entry)"
      using pool_row [OF e(1,3)] by blast
    then show ?thesis
      using e entry(4) by (cases "Post c") (auto simp: good_pool_def pool_change_row_def)
  qed
qed

lemma changed_rows_ok:
  assumes "changes_ok pid K q cs"
  shows "\<forall>r \<in> set (offer_rows q cs). good_offer r" "\<forall>r \<in> set (pool_rows q cs). good_pool pid K r"
proof -
  have c: "change_ok pid K c" if "c \<in> set cs" for c using assms that by (simp add: changes_ok_def)
  show "\<forall>r \<in> set (offer_rows q cs). good_offer r" "\<forall>r \<in> set (pool_rows q cs). good_pool pid K r"
    using change_row_ok [OF c] by (simp_all add: offer_rows_def pool_rows_def)
qed

lemma rows_modified:
  assumes "changes_ok pid K q cs"
  shows "\<forall>r \<in> set (offer_rows q cs). \<exists>c \<in> set cs.
      or_LastModifiedLedger r = (case Post c of None \<Rightarrow> q | Some entry \<Rightarrow> word_of_int (le_LastModifiedLedgerSeq entry))"
    "\<forall>r \<in> set (pool_rows q cs). \<exists>c \<in> set cs.
      lr_LastModifiedLedger r = (case Post c of None \<Rightarrow> q | Some entry \<Rightarrow> word_of_int (le_LastModifiedLedgerSeq entry))"
proof -
  have c: "change_ok pid K c" if "c \<in> set cs" for c using assms that by (simp add: changes_ok_def)
  show "\<forall>r \<in> set (offer_rows q cs). \<exists>c \<in> set cs.
      or_LastModifiedLedger r = (case Post c of None \<Rightarrow> q | Some entry \<Rightarrow> word_of_int (le_LastModifiedLedgerSeq entry))"
    using change_row_ok(1) [OF c] by (auto simp: offer_rows_def)
  show "\<forall>r \<in> set (pool_rows q cs). \<exists>c \<in> set cs.
      lr_LastModifiedLedger r = (case Post c of None \<Rightarrow> q | Some entry \<Rightarrow> word_of_int (le_LastModifiedLedgerSeq entry))"
    using change_row_ok(2) [OF c] by (auto simp: pool_rows_def)
qed

lemma ledger_rows:
  assumes "ledger_changes pid K q cs"
  shows "\<forall>r \<in> set (offer_rows q cs). or_LastModifiedLedger r = q" "\<forall>r \<in> set (pool_rows q cs). lr_LastModifiedLedger r = q"
  using assms rows_modified [of pid K q cs] by (fastforce simp: ledger_changes_def split: option.splits)+

lemma word_of_int_le: "0 \<le> m \<Longrightarrow> m \<le> uint q \<Longrightarrow> word_of_int m \<le> (q :: uint32)"
proof -
  assume m: "0 \<le> m" "m \<le> uint q"
  moreover have "uint q < 2 ^ 32" using uint_lt2p [of q] by simp
  ultimately show ?thesis by (simp add: word_le_def uint_word_of_int)
qed

lemma archive_rows:
  assumes "archive_changes pid K q cs"
  shows "\<forall>r \<in> set (offer_rows q cs). or_LastModifiedLedger r \<le> q" "\<forall>r \<in> set (pool_rows q cs). lr_LastModifiedLedger r \<le> q"
  using assms rows_modified [of pid K q cs] by (fastforce simp: archive_changes_def word_of_int_le split: option.splits)+

lemma cleaned_subset: "cleaned modified dead q T \<subseteq> T"
  by (auto simp: cleaned_def compacted_def)

lemma ingest_tables_inv:
  assumes "ingest_tables s q cs n D = Some D'" "changes_ok pid K q cs" "tables_ok pid K l D" "otab D = [] \<and> ptab D = [] \<or> l \<le> q"
    "\<forall>r \<in> set (offer_rows q cs). or_LastModifiedLedger r \<le> q" "\<forall>r \<in> set (pool_rows q cs). lr_LastModifiedLedger r \<le> q"
  shows "tables_ok pid K q (set_last q D')"
proof -
  have "distinct (map or_OfferID (otab D))" "distinct (map lr_PoolID (ptab D))" "distinct (map or_OfferID (offer_rows q cs))"
    "distinct (map lr_PoolID (pool_rows q cs))" using assms(2,3) by (simp_all add: changes_ok_def tables_ok_def)
  note r = ingest_tables_ok [OF assms(1) this]
  have "set (otab D') \<subseteq> set (otab D) \<union> set (offer_rows q cs)" "set (ptab D') \<subseteq> set (ptab D) \<union> set (pool_rows q cs)"
    using r(1,2) cleaned_subset by (fastforce simp: upserted_def)+
  moreover have "\<forall>r \<in> set (otab D) \<union> set (offer_rows q cs). good_offer r \<and> or_LastModifiedLedger r \<le> q"
    "\<forall>r \<in> set (ptab D) \<union> set (pool_rows q cs). good_pool pid K r \<and> lr_LastModifiedLedger r \<le> q"
    using assms(3-6) changed_rows_ok [OF assms(2)] by (auto simp: tables_ok_def)
  ultimately show ?thesis using r(3,4) unfolding tables_ok_def set_last_def by auto
qed


lemma follows_ledger:
  assumes D: "tables_ok pid K l D" and cs: "ledger_changes pid K q cs" and run: "ingest_tables s q cs n D = Some D'" and q: "l < q"
    and ob: "follows rebuilt l m D ob" and m: "m = 0 \<or> m \<le> l - compactionWindow \<and> compactionWindow < l"
    and m': "m' = (if q > compactionWindow then q - compactionWindow else m)"
  shows "follows rebuilt q m' (set_last q D') ob"
proof (cases "stream_lastLedger ob \<noteq> 0 \<and> m' \<le> stream_lastLedger ob \<and> \<not> rebuilt")
  case True
  let ?L = "stream_lastLedger ob" and ?G = "contents (stream_graph ob)"
  have L: "?L \<le> l" "lastLedger (stream_graph ob) = uint ?L" "graph_ok (stream_graph ob)" using ob True by (auto simp: follows_def)
  have "m \<le> m'"
    using m q unfolding m' compactionWindow_def by (auto simp: word_le_nat_alt word_less_nat_alt unat_sub_if_size)
  then have "book_lags ?L D ?G" using ob True by (auto simp: follows_def)
  then have lags: "lags or_LastModifiedLedger or_Deleted offer_entry of_OfferId ?L (set (otab D)) (fst ?G)"
    "lags lr_LastModifiedLedger lr_Deleted pool_entry_of getPoolAssets ?L (set (ptab D)) (snd ?G)" by (simp_all add: book_lags_def)
  have ok: "changes_ok pid K q cs" using cs by (simp add: ledger_changes_def)
  have good: "\<forall>r \<in> set (otab D) \<union> set (offer_rows q cs). good_offer r" "\<forall>r \<in> set (ptab D) \<union> set (pool_rows q cs). good_pool pid K r"
    using D changed_rows_ok [OF ok] by (auto simp: tables_ok_def)
  have newer: "\<forall>r \<in> set (offer_rows q cs). or_LastModifiedLedger r > ?L" "\<forall>r \<in> set (pool_rows q cs). lr_LastModifiedLedger r > ?L"
    using ledger_rows [OF cs] L(1) q by auto
  note l1 = ot.lags_upserted [OF lags(1) good(1) newer(1)] and l2 = pt.lags_upserted [OF lags(2) good(2) newer(2)]
  have cut: "q - compactionWindow \<le> ?L" if "q > compactionWindow" using True that by (simp add: m')
  have "book_lags ?L (set_last q D') ?G"
    using ingest_tables_ok(1,2) [OF run] D ok l1 l2 ot.lags_compacted [OF l1 cut] pt.lags_compacted [OF l2 cut]
    by (simp add: book_lags_def set_last_def tables_ok_def changes_ok_def cleaned_def)
  then show ?thesis using L q by (auto simp: follows_def)
next
  case False
  then show ?thesis using ob q by (auto simp: follows_def)
qed

lemma key_value_after:
  assumes "ingest_tables s q cs n D = Some D'" "distinct (map or_OfferID (otab D))" "distinct (map lr_PoolID (ptab D))" "changes_ok pid K q cs"
    "kv_number offerCompactionSequence D c" "kv_number liquidityPoolCompactionSequence D c" "kv_invalid D b"
  shows "kv_number lastLedgerKey (set_last q D') q" "kv_invalid (set_last q D') b"
    "kv_number offerCompactionSequence (set_last q D') (if q > compactionWindow then q - compactionWindow else c)"
    "kv_number liquidityPoolCompactionSequence (set_last q D') (if q > compactionWindow then q - compactionWindow else c)"
  using ingest_tables_ok(5) [OF assms(1-3)] assms(4-7)
  by (auto simp: changes_ok_def kv_number_def kv_invalid_def set_last_def lastLedgerKey_def stateInvalidKey_def
      offerCompactionSequence_def liquidityPoolCompactionSequence_def)

lemma cutoff_bounds:
  "q < 2 ^ 31 \<Longrightarrow> c < 2 ^ 31 \<Longrightarrow> (if q > compactionWindow then q - compactionWindow else c) < (2 ^ 31 :: uint32)"
  by (auto simp: compactionWindow_def word_less_nat_alt unat_sub_if_size)


lemma FormatUint32_inject: "FormatUint32 m = FormatUint32 n \<longleftrightarrow> m = n"
  by (metis ParseUint32_Format option.inject)

lemma kv_number_unique: "kv_number k D m \<Longrightarrow> kv_number k D n \<Longrightarrow> m = n"
  by (cases "key_value_store D k") (simp_all add: kv_number_def FormatUint32_inject)

lemma kv_invalid_unique: "kv_invalid D a \<Longrightarrow> kv_invalid D b \<Longrightarrow> a = b"
  by (auto simp: kv_invalid_def FormatBool_def split: option.splits if_splits)

lemma run_inv_ledger:
  assumes inv: "run_inv pid K rebuilt l c m D ob" and step: "l < q" "q < 2 ^ 31" "ledger_changes pid K q cs" "ingest_tables s q cs n D = Some D'"
  shows "run_inv pid K rebuilt q (if q > compactionWindow then q - compactionWindow else c) (if q > compactionWindow then q - compactionWindow else m) (set_last q D') ob"
    (is "run_inv pid K rebuilt q ?c ?m _ _")
proof -
  obtain b where D: "tables_ok pid K l D" "kv_number offerCompactionSequence D c" "kv_number liquidityPoolCompactionSequence D c" "c < 2 ^ 31"
    "kv_invalid D b" and m: "m \<le> c" "m = 0 \<or> m \<le> l - compactionWindow \<and> compactionWindow < l" and ob: "follows rebuilt l m D ob"
    using inv by (auto simp: run_inv_def db_ok_def)
  have ok: "changes_ok pid K q cs" using step(3) by (simp add: ledger_changes_def)
  have d: "distinct (map or_OfferID (otab D))" "distinct (map lr_PoolID (ptab D))" using D(1) by (simp_all add: tables_ok_def)
  have "tables_ok pid K q (set_last q D')"
    using ledger_rows [OF step(3)] step(1) by (intro ingest_tables_inv [OF step(4) ok D(1)]) auto
  moreover have "?m \<le> ?c" "?m = 0 \<or> ?m \<le> q - compactionWindow \<and> compactionWindow < q" using m step(1) by auto
  ultimately show ?thesis
    using key_value_after [OF step(4) d ok D(2,3,5)] cutoff_bounds [OF step(2) D(4)] follows_ledger [OF D(1) step(3,4,1) ob m(2) refl]
    unfolding run_inv_def db_ok_def by blast
qed

lemma run_inv_build:
  assumes inv: "run_inv pid K rebuilt l c m D ob" and step: "q < 2 ^ 31" "archive_changes pid K q cs" "ingest_tables s q cs n (truncated D) = Some D'"
  shows "run_inv pid K True q (if q > compactionWindow then q - compactionWindow else c) (if q > compactionWindow then q - compactionWindow else 0) (set_last q D') ob"
    (is "run_inv pid K True q ?c ?m _ _")
proof -
  obtain b where D: "kv_number offerCompactionSequence D c" "kv_number liquidityPoolCompactionSequence D c" "c < 2 ^ 31"
    "kv_invalid D b" and ob: "follows rebuilt l m D ob"
    using inv by (auto simp: run_inv_def db_ok_def)
  let ?D = "truncated D"
  have ok: "changes_ok pid K q cs" using step(2) by (simp add: archive_changes_def)
  have D0: "otab ?D = []" "ptab ?D = []" "key_value_store ?D = key_value_store D" by (simp_all add: truncated_def)
  then have t: "tables_ok pid K 0 ?D" and d: "distinct (map or_OfferID (otab ?D))" "distinct (map lr_PoolID (ptab ?D))"
    by (simp_all add: tables_ok_def)
  have kv: "kv_number offerCompactionSequence ?D c" "kv_number liquidityPoolCompactionSequence ?D c" "kv_invalid ?D b"
    using D D0(3) by (simp_all add: kv_number_def kv_invalid_def)
  have "tables_ok pid K q (set_last q D')"
    using archive_rows [OF step(2)] D0 by (intro ingest_tables_inv [OF step(3) ok t]) auto
  moreover have "?m \<le> ?c" "?m = 0 \<or> ?m \<le> q - compactionWindow \<and> compactionWindow < q" by auto
  moreover have "follows True q ?m (set_last q D') ob" using ob by (simp add: follows_def)
  ultimately show ?thesis
    using key_value_after [OF step(3) d ok kv] cutoff_bounds [OF step(1) D(3)] unfolding run_inv_def db_ok_def by blast
qed

lemma run_inv_start:
  assumes "otab D = []" "ptab D = []" "key_value_store D = Map.empty"
  shows "run_inv pid K False 0 0 0 D (NewOrderBookStream NewOrderBookGraph)"
  using assms
  by (simp add: run_inv_def db_ok_def tables_ok_def kv_number_def kv_invalid_def follows_def NewOrderBookStream_def NewOrderBookGraph_def)
     (rule exI [of _ False], simp)

lemma stream_run_inv: "stream_run pid K rebuilt D ob \<Longrightarrow> \<exists>l c m. run_inv pid K rebuilt l c m D ob"
proof (induction rule: stream_run.induct)
  case (start D)
  then show ?case using run_inv_start by blast
next
  case (ledger rebuilt D ob l q cs s n D')
  then obtain l' c m where "run_inv pid K rebuilt l' c m D ob" by blast
  moreover from this have "l' = l" using ledger(2) kv_number_unique unfolding run_inv_def db_ok_def by blast
  ultimately show ?case using run_inv_ledger ledger(3-6) by blast
next
  case (build rebuilt D ob q cs s n D')
  then obtain l c m where "run_inv pid K rebuilt l c m D ob" by blast
  from run_inv_build [OF this build(2-4)] show ?case by blast
next
  case (poll rebuilt D ob w s r ob' w')
  then obtain l c m where inv: "run_inv pid K rebuilt l c m D ob" by blast
  then obtain b where b: "kv_invalid D b" by (auto simp: run_inv_def)
  have "db_ok pid K l c D" "follows rebuilt l m D ob" "m \<le> c" using inv by (simp_all add: run_inv_def)
  from Update_outcome [OF this(1) b poll(2) this(2,3) poll(3)] inv
  have "run_inv pid K (rebuilt \<and> r \<noteq> Inr True) l c m (stored w') ob'" by (simp add: run_inv_def idle_def)
  then show ?case by blast
next
  case (forget rebuilt D ob)
  then show ?case by (auto simp: run_inv_def follows_def OrderBookStream.forget_def)
next
  case (other rebuilt D ob D' b)
  then obtain l c m where inv: "run_inv pid K rebuilt l c m D ob" by blast
  have "run_inv pid K rebuilt l c m D' ob"
    using inv other(2-5) by (auto simp: run_inv_def db_ok_def tables_ok_def kv_number_def follows_def book_lags_def)
  then show ?case by blast
qed

section \<open>Properties\<close>

lemma run_poll:
  assumes "stream_run pid K rebuilt D ob" "kv_number lastLedgerKey D l" "kv_number offerCompactionSequence D c" "kv_invalid D b"
    "idle D w" "Update s (ob, w) = (r, ob', w')"
  shows "idle D w' \<and> poll_result s (status_at D b l c) rebuilt D ob r ob'"
proof -
  obtain l' c' m where inv: "run_inv pid K rebuilt l' c' m D ob" using stream_run_inv [OF assms(1)] by blast
  then have "l' = l" "c' = c" using assms(2,3) kv_number_unique unfolding run_inv_def db_ok_def by blast+
  with inv have "db_ok pid K l c D" "follows rebuilt l m D ob" "m \<le> c" by (simp_all add: run_inv_def)
  from Update_outcome [OF this(1) assms(4,5) this(2,3) assms(6)] show ?thesis by simp
qed

text \<open>
  C3. A poll of the order book stream does not change the database, and it fails only when a statement fails. When it succeeds, it has reset the graph
  exactly if the state is invalid, the history lags behind it, the stream had no ledger, or its ledger is above the last ingested one or below the last
  compaction. After a reset, and without one unless the state was rebuilt since the last reset, the graph holds exactly the offers and pools of the rows that are not deleted, or
  nothing while the state is invalid or the history lags. Otherwise the rows changed since the last poll are applied to what the graph held. This
  holds after every sequence of committed ledgers below \<open>2\<^sup>3\<^sup>1\<close> whose changes obey the rules of the network, rebuilt states, polls, failed polls, failed verifications
  and changes of the history.

  A state that is rebuilt between two polls, at a ledger within the window of compaction, is not noticed: see \<open>rebuilt_state_unnoticed\<close>.
\<close>

theorem order_book_follows_tables:
  assumes "stream_run pid K rebuilt D ob" "kv_number lastLedgerKey D l" "kv_number offerCompactionSequence D c" "kv_invalid D b"
    "idle D w" "Update s (ob, w) = (r, ob', w')"
    and "L = stream_lastLedger ob" "lagging \<longleftrightarrow> b \<or> l \<noteq> latest_history D \<and> latest_history D \<noteq> 0"
  shows "idle D w' \<and>
    (case r of
       Inl _ \<Rightarrow> \<exists>n. fails s n \<noteq> None
     | Inr reset \<Rightarrow>
         (reset \<longleftrightarrow> lagging \<or> L = 0 \<or> l < L \<or> L < c) \<and>
         (reset \<or> \<not> rebuilt \<longrightarrow> contents (stream_graph ob') = (if lagging then ({}, {}) else live_book D)) \<and>
         (\<not> reset \<longrightarrow> contents (stream_graph ob') = changes_since L D (contents (stream_graph ob))))"
  using run_poll [OF assms(1-6)] assms(7,8)
  by (auto simp: poll_result_def quiet_def waiting_def status_at_def must_reset_def word_gt_0 split: sum.splits if_splits)

text \<open>A first ledger that creates an offer, and the first poll.\<close>

definition poll_demo_db :: "(stateTables, unit) db" where
  "poll_demo_db = \<lparr>key_value_store = Map.empty, history_ledgers = [], history_rows = [], state_tables = \<lparr>offers_table = [], liquidity_pools = []\<rparr>\<rparr>"

definition poll_demo_outside :: outside where
  "poll_demo_outside = \<lparr>fails = (\<lambda>_. None), commitApplied = (\<lambda>_. False), knownError = (\<lambda>_. False)\<rparr>"

definition poll_demo_change :: "byte list Change" where
  "poll_demo_change = \<lparr>ch_Type = LedgerEntryTypeOffer, Pre = None,
     Post = Some \<lparr>le_LastModifiedLedgerSeq = 1, le_Data = EntryOffer sample_offer, le_Ext = LedgerEntryExtV0\<rparr>\<rparr>"

definition poll_demo_ingested :: "(stateTables, unit) db" where
  "poll_demo_ingested = set_last 1 (the (ingest_tables poll_demo_outside 1 [poll_demo_change] 0 poll_demo_db))"

lemma poll_demo_ingest: "\<exists>D'. ingest_tables poll_demo_outside 1 [poll_demo_change] 0 poll_demo_db = Some D' \<and> history_ledgers D' = []"
proof -
  obtain row where "offer_ledgerEntryToRow (the (Post poll_demo_change)) = Inr row"
    by (rule offer_row [of "the (Post poll_demo_change)" sample_offer]) (auto simp: poll_demo_change_def offer_in_range_def sample_offer_def)
  then show ?thesis
    by (simp add: ingest_tables_def offers_member_def pools_member_def group_ProcessChange_def group_Commit_def as_effect_def with_offers_def
        with_pools_def offers_ProcessChange_def pools_ProcessChange_def poll_demo_change_def offers_maybeFlush_def maxBatchSize_def
        NewOffersProcessor_def NewLiquidityPoolsChangeProcessor_def visible_def offers_Commit_def offers_flushCache_def check_def InsertOffers_def
        GetTx_def ExecConstrained_def ExecRaw_def conn_stmt_def poll_demo_db_def poll_demo_outside_def return_def pools_Commit_def compactionWindow_def Let_def)
qed

lemma poll_demo_ledger: "ledger_changes pid K 1 [poll_demo_change]"
  by (simp add: ledger_changes_def changes_ok_def change_ok_def entry_ok_def poll_demo_change_def data_Type_def offer_rows_def pool_rows_def
      valid_offer_def valid_price_def offer_in_range_def sample_offer_def MaxInt32_def)

lemma poll_demo_row: "offer_rows 1 [poll_demo_change] = [r] \<Longrightarrow> offer_entry r = sample_offer \<and> \<not> or_Deleted r"
  by (rule offer_row [of "the (Post poll_demo_change)" sample_offer])
     (auto simp: poll_demo_change_def offer_in_range_def sample_offer_def offer_rows_def offer_change_row_def offer_entry_def)

lemma poll_demo_facts:
  "stream_run pid K False poll_demo_ingested (NewOrderBookStream NewOrderBookGraph)" "kv_number lastLedgerKey poll_demo_ingested 1"
  "kv_number offerCompactionSequence poll_demo_ingested 0" "kv_invalid poll_demo_ingested False"
  "latest_history poll_demo_ingested = 0" "live_book poll_demo_ingested = ({sample_offer}, {})"
proof -
  obtain D' where D': "ingest_tables poll_demo_outside 1 [poll_demo_change] 0 poll_demo_db = Some D'" "history_ledgers D' = []" using poll_demo_ingest by blast
  then have d: "poll_demo_ingested = set_last 1 D'" by (simp add: poll_demo_ingested_def)
  have db: "otab poll_demo_db = []" "ptab poll_demo_db = []" "key_value_store poll_demo_db = Map.empty" by (simp_all add: poll_demo_db_def)
  have run: "stream_run pid K False poll_demo_db (NewOrderBookStream NewOrderBookGraph)" using db by (rule stream_run.start)
  then show "stream_run pid K False poll_demo_ingested (NewOrderBookStream NewOrderBookGraph)"
    unfolding d by (rule stream_run.ledger [OF _ _ _ _ poll_demo_ledger D'(1), of _ _ _ _ 0]) (simp_all add: kv_number_def db)
  have inv: "run_inv pid K False 1 (if 1 > compactionWindow then 1 - compactionWindow else 0) (if 1 > compactionWindow then 1 - compactionWindow else 0) poll_demo_ingested (NewOrderBookStream NewOrderBookGraph)"
    unfolding d using run_inv_start [OF db] by (rule run_inv_ledger [OF _ _ _ poll_demo_ledger D'(1)]) simp_all
  then show "kv_number lastLedgerKey poll_demo_ingested 1" "kv_number offerCompactionSequence poll_demo_ingested 0"
    by (simp_all add: run_inv_def db_ok_def compactionWindow_def)
  have ok: "changes_ok pid K 1 [poll_demo_change]" using poll_demo_ledger by (simp add: ledger_changes_def)
  note t = ingest_tables_ok [OF D'(1)]
  have rows: "offer_rows 1 [poll_demo_change] = [offer_change_row 1 poll_demo_change]" "pool_rows 1 [poll_demo_change] = []"
    by (simp_all add: offer_rows_def pool_rows_def poll_demo_change_def)
  show "latest_history poll_demo_ingested = 0" using D'(2) by (simp add: d set_last_def latest_history_def sequences_def)
  show "kv_invalid poll_demo_ingested False"
    using t(5) rows db by (simp add: d set_last_def kv_invalid_def compactionWindow_def stateInvalidKey_def lastLedgerKey_def)
  have "set (otab poll_demo_ingested) = {offer_change_row 1 poll_demo_change}" "ptab poll_demo_ingested = []"
    using t(1,2) rows db by (simp_all add: d set_last_def cleaned_def compactionWindow_def upserted_def)
  moreover have "tables_ok pid K 1 poll_demo_ingested" using inv by (simp add: run_inv_def db_ok_def)
  ultimately show "live_book poll_demo_ingested = ({sample_offer}, {})"
    using live_book_entries poll_demo_row [OF rows(1)] by fastforce
qed

theorem order_book_follows_tables_witness:
  "\<exists>reset ob' w'. Update poll_demo_outside (NewOrderBookStream NewOrderBookGraph, \<lparr>stored = poll_demo_ingested, tx = None, calls = 0, verifications = []\<rparr>) =
      (Inr reset, ob', w') \<and> stored w' = poll_demo_ingested \<and> contents (stream_graph ob') = ({sample_offer}, {})"
proof -
  let ?w = "\<lparr>stored = poll_demo_ingested, tx = None, calls = 0, verifications = []\<rparr>"
  obtain r ob' w' where u: "Update poll_demo_outside (NewOrderBookStream NewOrderBookGraph, ?w) = (r, ob', w')" by (metis surj_pair)
  have "idle poll_demo_ingested ?w" by (simp add: idle_def)
  from order_book_follows_tables [OF poll_demo_facts(1-4) this u refl refl] show ?thesis
    using u by (cases r) (auto simp: poll_demo_facts(5,6) idle_def poll_demo_outside_def NewOrderBookStream_def)
qed
text \<open>
  The offer is deleted in ledger 2, and before the next poll the state is built again at ledger 3, as after an upgrade of the ingestion: the poll does not
  reset the graph, which keeps the offer although no row of the tables has it.
\<close>

lemma rebuilt_state_unnoticed:
  "\<exists>(D :: (stateTables, unit) db) ob w ob' w'. stream_run pid K True D ob \<and> kv_number lastLedgerKey D 3 \<and> kv_invalid D False \<and> latest_history D = 0 \<and>
     idle D w \<and> Update poll_demo_outside (ob, w) = (Inr False, ob', w') \<and>
     live_book D = ({}, {}) \<and> contents (stream_graph ob') = ({sample_offer}, {})"
proof -
  let ?D = poll_demo_ingested and ?w = "\<lambda>D. \<lparr>stored = D, tx = None, calls = 0, verifications = []\<rparr> :: (stateTables, unit) world"
  obtain r ob w where u: "Update poll_demo_outside (NewOrderBookStream NewOrderBookGraph, ?w ?D) = (r, ob, w)" by (metis surj_pair)
  have idle: "idle D (?w D)" for D by (simp add: idle_def)
  have q: "quiet poll_demo_outside" by (simp add: quiet_def poll_demo_outside_def)
  note first = run_poll [OF poll_demo_facts(1-4) idle u]
  then have ob: "contents (stream_graph ob) = ({sample_offer}, {})" "stream_lastLedger ob = 1" and w: "idle ?D w"
    using q poll_demo_facts(5,6) by (cases r; auto simp: poll_result_def waiting_def status_at_def)+
  have run: "stream_run pid K False ?D ob"
    using stream_run.poll [OF poll_demo_facts(1) idle u] w by (simp add: idle_def)
  let ?T = "truncated ?D"
  have T: "otab ?T = []" "ptab ?T = []" "key_value_store ?T = key_value_store ?D" "history_ledgers ?T = history_ledgers ?D"
    by (simp_all add: truncated_def)
  have cs: "archive_changes pid K 3 ([] :: byte list Change list)"
    by (simp add: archive_changes_def changes_ok_def offer_rows_def pool_rows_def)
  have build: "ingest_tables poll_demo_outside 3 ([] :: byte list Change list) 0 ?T = Some ?T"
    by (simp add: ingest_tables_def offers_member_def pools_member_def group_Commit_def as_effect_def with_offers_def with_pools_def
        NewOffersProcessor_def NewLiquidityPoolsChangeProcessor_def visible_def offers_Commit_def offers_flushCache_def check_def
        InsertOffers_def GetTx_def ExecConstrained_def ExecRaw_def conn_stmt_def poll_demo_outside_def return_def pools_Commit_def compactionWindow_def Let_def)
  let ?E = "set_last 3 ?T"
  have "stream_run pid K True ?E ob" by (rule stream_run.build [OF run _ cs build]) simp
  moreover have kv: "kv_number lastLedgerKey ?E 3" "kv_number offerCompactionSequence ?E 0" "kv_invalid ?E False"
    using poll_demo_facts(3,4) T(3)
    by (simp_all add: kv_number_def kv_invalid_def set_last_def lastLedgerKey_def offerCompactionSequence_def stateInvalidKey_def)
  moreover have h: "latest_history ?E = 0" using poll_demo_facts(5) T(4) by (simp add: set_last_def latest_history_def sequences_def)
  moreover have E: "otab ?E = []" "ptab ?E = []" using T by (simp_all add: set_last_def)
  then have "live_book ?E = ({}, {})" by (simp add: live_book_def)
  moreover obtain r' ob' w' where u': "Update poll_demo_outside (ob, ?w ?E) = (r', ob', w')" by (metis surj_pair)
  from run_poll [OF calculation(1) kv idle u'] q E h ob have "r' = Inr False" "contents (stream_graph ob') = ({sample_offer}, {})"
    by (cases r'; auto simp: poll_result_def waiting_def status_at_def must_reset_def changes_since_def)+
  ultimately show ?thesis using u' idle by blast
qed

end
