(* ===== verification/IngestLive.thy ===== *)
theory IngestLive
  imports IngestCluster
begin

text \<open>
  Progress of an ingesting instance: as long as no call fails, the state machine gets from every database
  to the resume state, and from there ingests ledger after ledger.
\<close>

named_theorems live

section \<open>Calls that do not fail\<close>

definition calm :: "('m, 'h, 's, 'r) system \<Rightarrow> uint32 \<Rightarrow> bool" where
  "calm s c \<longleftrightarrow>
     (\<forall>n. fails s n = None) \<and> (\<forall>n. latestCheckpoint s n = c) \<and> (\<forall>n. \<not> ctxDone s n) \<and> maxLedgerPerFlush s \<ge> 1
     \<and> (\<forall>n d. \<exists>d'. RunHistoryArchiveIngestion s 1 False 0 (zeroHash s) n d = (d', None))
     \<and> (\<forall>l n d. \<exists>d'. RunHistoryArchiveIngestion s l False (lcm_ProtocolVersion s (ledgerCloseMeta s l))
           (lcm_BucketListHash s (ledgerCloseMeta s l)) n d = (d', None))
     \<and> (\<forall>l n d. l < 2 ^ 31 \<and> distinct (sequences d @ [l]) \<longrightarrow>
           (\<exists>d'. RunAllProcessorsOnLedger s (ledgerCloseMeta s l) n d = (d', None)))
     \<and> (\<forall>ls n d. (\<forall>l \<in> set ls. l < 2 ^ 31) \<and> distinct (sequences d @ ls) \<longrightarrow>
           (\<exists>d'. RunTransactionProcessorsOnLedgers s (map (ledgerCloseMeta s) ls) n d = (d', None)))"

lemma calmD:
  assumes "calm s c"
  shows "fails s n = None" "latestCheckpoint s n = c" "\<not> ctxDone s n" "maxLedgerPerFlush s \<ge> 1"
    "\<exists>d'. RunHistoryArchiveIngestion s 1 False 0 (zeroHash s) n d = (d', None)"
    "\<exists>d'. RunHistoryArchiveIngestion s l False (lcm_ProtocolVersion s (ledgerCloseMeta s l)) (lcm_BucketListHash s (ledgerCloseMeta s l)) n d = (d', None)"
    "k < 2 ^ 31 \<Longrightarrow> distinct (sequences d @ [k]) \<Longrightarrow> \<exists>d'. RunAllProcessorsOnLedger s (ledgerCloseMeta s k) n d = (d', None)"
    "(\<And>k. k \<in> set ls \<Longrightarrow> k < 2 ^ 31) \<Longrightarrow> distinct (sequences d @ ls) \<Longrightarrow>
      \<exists>d'. RunTransactionProcessorsOnLedgers s (map (ledgerCloseMeta s) ls) n d = (d', None)"
  using assms unfolding calm_def by blast+

text \<open>A call that succeeds: the failure branch plays no part.\<close>

lemma live_check:
  "(\<And>w r w'. P w \<Longrightarrow> call w = (r, w') \<Longrightarrow> \<exists>a. r = Inr a \<and> PA a w') \<Longrightarrow> (\<And>a. triple (PA a) (rest a) Q)
    \<Longrightarrow> triple P (check call fail rest) Q"
  by (fastforce simp: triple_def check_def split: prod.splits sum.splits)

lemma live_value:
  assumes "\<And>w r w'. P w \<Longrightarrow> call w = (r, w') \<Longrightarrow> r = Inr v \<and> P' w'" "triple P' (rest v) Q"
  shows "triple P (check call fail rest) Q"
  by (rule live_check [where PA = "\<lambda>a w. a = v \<and> P' w"]) (use assms in \<open>auto intro: triple_fact\<close>)

lemma live_db:
  assumes "calm s c"
  shows "triple (in_tx D D) (rest1 ()) Q \<Longrightarrow> triple (idle D) (check (Begin s) fail1 rest1) Q"
    and "triple (idle E) (rest2 ()) Q \<Longrightarrow> triple (in_tx D E) (check (Commit s) fail2 rest2) Q"
    and "last_ingested E = Some l \<Longrightarrow> triple (in_tx D E) (rest3 l) Q \<Longrightarrow> triple (in_tx D E) (check (GetLastLedgerIngest s) fail3 rest3) Q"
    and "version_of E = Some v \<Longrightarrow> triple (in_tx D E) (rest4 v) Q \<Longrightarrow> triple (in_tx D E) (check (GetIngestVersion s) fail4 rest4) Q"
    and "triple (in_tx D E) (rest5 (latest_history E)) Q \<Longrightarrow> triple (in_tx D E) (check (GetLatestHistoryLedger s) fail5 rest5) Q"
proof -
  note nf = calmD(1) [OF assms]
  show "triple (in_tx D D) (rest1 ()) Q \<Longrightarrow> triple (idle D) (check (Begin s) fail1 rest1) Q"
    by (rule live_check [where PA = "\<lambda>_. in_tx D D"]) (auto simp: idle_def in_tx_def Begin_def nf)
  show "triple (idle E) (rest2 ()) Q \<Longrightarrow> triple (in_tx D E) (check (Commit s) fail2 rest2) Q"
    by (rule live_check [where PA = "\<lambda>_. idle E"]) (auto simp: idle_def in_tx_def Commit_def nf)
  show "triple (in_tx D E) (check (GetLastLedgerIngest s) fail3 rest3) Q" if "last_ingested E = Some l" "triple (in_tx D E) (rest3 l) Q"
    by (rule live_value [where v = l and rest = rest3, OF _ that(2)]) (use that(1) in \<open>auto simp: in_tx_def GetLastLedgerIngest_def getValueFromStore_def try_wrap_def check_def GetRaw_def
         conn_stmt_def return_def parse_ledger_def nf last_ingested_def ParseUint32_def split: option.splits if_splits\<close>)
  show "triple (in_tx D E) (check (GetIngestVersion s) fail4 rest4) Q" if "version_of E = Some v" "triple (in_tx D E) (rest4 v) Q"
    by (rule live_value [where v = v and rest = rest4, OF _ that(2)]) (use that(1) in \<open>auto simp: in_tx_def GetIngestVersion_def getIntValueFromStore_def getValueFromStore_def try_wrap_def
         check_def GetRaw_def conn_stmt_def return_def nf version_of_def split: option.splits if_splits\<close>)
  show "triple (in_tx D E) (rest5 (latest_history E)) Q \<Longrightarrow> triple (in_tx D E) (check (GetLatestHistoryLedger s) fail5 rest5) Q"
    by (erule live_value [where v = "latest_history E" and rest = rest5, rotated]) (auto simp: in_tx_def GetLatestHistoryLedger_def LatestLedger_def GetRaw_def conn_stmt_def nf latest_history_def)
qed

lemmas live_session [live] = live_db(1,2,5)

lemma live_ExecRaw:
  assumes "calm s c" "triple (in_tx D (f E)) (rest ()) Q"
  shows "triple (in_tx D E) (check (ExecRaw s f) fail rest) Q"
  by (rule live_check [where PA = "\<lambda>_. in_tx D (f E)"])
     (use assms(2) in \<open>auto simp: in_tx_def ExecRaw_def conn_stmt_def calmD(1) [OF assms(1)]\<close>)

lemma live_updates [live]:
  assumes "calm s c"
  shows "triple (in_tx D (set_last l E)) (rest ()) Q \<Longrightarrow> triple (in_tx D E) (check (UpdateLastLedgerIngest s l) fail rest) Q"
    and "triple (in_tx D (set_version E)) (rest ()) Q \<Longrightarrow> triple (in_tx D E) (check (UpdateIngestVersion s CurrentVersion) fail rest) Q"
    and "triple (in_tx D (set_invalid b E)) (rest ()) Q \<Longrightarrow> triple (in_tx D E) (check (UpdateExpStateInvalid s b) fail rest) Q"
    and "triple (in_tx D (E\<lparr>state_tables := tabs\<rparr>)) (rest ()) Q \<Longrightarrow> triple (in_tx D E) (check (TruncateIngestStateTables s tabs) fail rest) Q"
  unfolding updates_ExecRaw TruncateIngestStateTables_def
  by (rule live_ExecRaw [OF assms]; simp)+

text \<open>Rebuilding the trade aggregations succeeds as soon as the history has a ledger of the range.\<close>

definition usable :: "('s, 'r) world \<Rightarrow> bool" where
  "usable w \<longleftrightarrow> (case tx w of None \<Rightarrow> True | Some t \<Rightarrow> \<not> tx_aborted t)"

lemma stmt_ok:
  assumes "calm s c" "usable w"
  shows "\<exists>w'. conn_stmt msg s f w = (Inr (fst (f (visible w))), w') \<and> usable w' \<and> visible w' = snd (f (visible w))"
  using assms(2)
  by (cases "tx w"; cases "f (visible w)") (simp_all add: conn_stmt_def visible_def usable_def calmD(1) [OF assms(1)])

lemma GetRow_ok:
  assumes "calm s c" "usable w" "f (visible w) = Some a"
  shows "\<exists>w'. GetRow s f w = (Inr a, w') \<and> usable w' \<and> visible w' = visible w"
  using stmt_ok [OF assms(1,2), of "''get failed''" "\<lambda>d. (f d, d)"] assms(3)
  by (auto simp: GetRow_def GetRaw_def check_def return_def)

lemma RebuildTradeAggregationTimes_ok:
  assumes "calm s c" "usable w"
  shows "\<exists>w'. RebuildTradeAggregationTimes s a b w = (Inr (), w')"
proof -
  have "\<exists>w'. ExecRaw s f w = (Inr (), w') \<and> usable w'" if "usable w" for f w
    using stmt_ok [OF assms(1) that, of "''exec failed''" "\<lambda>d. ((), f d)"] by (auto simp: ExecRaw_def)
  then show ?thesis
    unfolding RebuildTradeAggregationTimes_def Let_def try_wrap_def check_def return_def
    using assms(2) by (smt (verit) old.prod.case old.sum.simps(6))
qed

lemma ledger_timestamps_ex:
  assumes "a \<le> k" "k \<le> b" "b < 2 ^ 31 - 1" "ledger_row k \<in> set (history_ledgers d)"
  obtains i j where "ToInt64 (toid_New a 0 0) = Inr i" "ToInt64 (toid_New (b + 1) 0 0) = Inr j"
    "ledger_timestamps s (sint i) (sint j) d \<noteq> []"
proof -
  have u: "unat (b + of_nat 1) = unat b + 1" by (rule unat_add_nat) (use assms(3) in \<open>simp add: word_less_nat_alt\<close>)
  have lt: "a < 2 ^ 31" "k < 2 ^ 31" "b + 1 < 2 ^ 31"
    using assms(1-3) u by (simp_all add: word_less_nat_alt word_le_nat_alt)
  have wf: "toid_wf (toid_New a 0 0)" "toid_wf (toid_New (b + 1) 0 0)"
    using toid_wf_ledger_start sint_small [OF lt(1)] sint_small [OF lt(3)] by simp_all
  from ToInt64_value [OF wf(1)] ToInt64_value [OF wf(2)]
  obtain i j where i: "ToInt64 (toid_New a 0 0) = Inr i" and j: "ToInt64 (toid_New (b + 1) 0 0) = Inr j" by blast
  have "sint i = uint a * 2 ^ 32" "sint j = uint (b + 1) * 2 ^ 32"
    using sint_ToInt64 [OF wf(1) i] sint_ToInt64 [OF wf(2) j] sint_small [OF lt(1)] sint_small [OF lt(3)]
    by (simp_all add: toid_value_ledger_start)
  moreover have "fst (ledger_row k) = uint k * 2 ^ 32" by (rule ledger_row_id [OF lt(2)])
  moreover have "uint a \<le> uint k" "uint k < uint (b + 1)" using assms(1,2) arg_cong [OF u, of int] by (simp_all add: word_le_def)
  ultimately have "sint i \<le> fst (ledger_row k)" "fst (ledger_row k) < sint j" by simp_all
  then have "ledger_row k \<in> set (sort_key fst (filter (\<lambda>(x, _). sint i \<le> x \<and> x < sint j) (history_ledgers d)))"
    unfolding set_sort set_filter mem_Collect_eq case_prod_beta using assms(4) by blast
  then have "ledger_timestamps s (sint i) (sint j) d \<noteq> []"
    unfolding ledger_timestamps_def by (cases "sort_key fst (filter (\<lambda>(x, _). sint i \<le> x \<and> x < sint j) (history_ledgers d))") simp_all
  with i j show thesis by (rule that)
qed

lemma RebuildTradeAggregationBuckets_ok:
  assumes "calm s c" "usable w" "a \<le> k" "k \<le> b" "b < 2 ^ 31 - 1" "ledger_row k \<in> set (history_ledgers (visible w))"
  shows "\<exists>w'. RebuildTradeAggregationBuckets s a b w = (Inr (), w')"
proof -
  obtain i j where ij: "ToInt64 (toid_New a 0 0) = Inr i" "ToInt64 (toid_New (b + 1) 0 0) = Inr j"
    and ne: "ledger_timestamps s (sint i) (sint j) (visible w) \<noteq> []"
    using ledger_timestamps_ex [OF assms(3-6)] .
  let ?t = "ledger_timestamps s (sint i) (sint j)"
  obtain x xs y ys where x: "?t (visible w) = x # xs" and y: "rev (?t (visible w)) = y # ys"
    using ne by (metis list.exhaust rev_is_Nil_conv)
  obtain w1 where 1: "GetRow s (\<lambda>d. case ?t d of [] \<Rightarrow> None | t # _ \<Rightarrow> Some t) w = (Inr x, w1)" "usable w1" "visible w1 = visible w"
    using GetRow_ok [OF assms(1,2), of "\<lambda>d. case ?t d of [] \<Rightarrow> None | t # _ \<Rightarrow> Some t" x] x by auto
  obtain w2 where 2: "GetRow s (\<lambda>d. case rev (?t d) of [] \<Rightarrow> None | t # _ \<Rightarrow> Some t) w1 = (Inr y, w2)" "usable w2"
    using GetRow_ok [OF assms(1) 1(2), of "\<lambda>d. case rev (?t d) of [] \<Rightarrow> None | t # _ \<Rightarrow> Some t" y] 1(3) y by auto
  show ?thesis
    unfolding RebuildTradeAggregationBuckets_def Let_def try_wrap_def check_def
    using RebuildTradeAggregationTimes_ok [OF assms(1) 2(2)] 1(1) 2(1) by (simp add: ij)
qed

lemma live_RebuildTradeAggregationBuckets:
  assumes "calm s c" "l < 2 ^ 31 - 1" "ledger_row l \<in> set (history_ledgers E)"
    and "\<And>rows. triple (in_tx D (E\<lparr>history_rows := rows\<rparr>)) (rest ()) Q"
  shows "triple (in_tx D E) (check (RebuildTradeAggregationBuckets s l l) fail rest) Q"
proof (rule live_check [where PA = "\<lambda>_ w. \<exists>rows. in_tx D (E\<lparr>history_rows := rows\<rparr>) w"])
  fix w r w'
  assume w: "in_tx D E w" and r: "RebuildTradeAggregationBuckets s l l w = (r, w')"
  have "usable w" "visible w = E" using w by (simp_all add: usable_def visible_def in_tx_def)
  with RebuildTradeAggregationBuckets_ok [OF assms(1) _ order_refl order_refl assms(2), of w] assms(3) r have "r = Inr ()" by auto
  with triple_use [OF RebuildTradeAggregationBuckets_triple w r]
  show "\<exists>a. r = Inr a \<and> (\<exists>rows. in_tx D (E\<lparr>history_rows := rows\<rparr>) w')" by simp
qed (use assms(4) in \<open>auto intro: triple_ex\<close>)

lemma live_outside_call:
  assumes "calm s c" "\<And>n. f n = a" "\<And>w n. P w \<Longrightarrow> P (w\<lparr>calls := n\<rparr>)" "triple P (rest a) Q"
  shows "triple P (check (outside_call s f) fail rest) Q"
  by (rule live_value [where v = a and rest = rest, OF _ assms(4)]) (use assms(3) in \<open>auto simp: outside_call_def assms(2) calmD(1) [OF assms(1)]\<close>)

lemma live_outside [live]:
  assumes "calm s c"
  shows "triple (in_tx D E) (rest1 c) Q \<Longrightarrow> triple (in_tx D E) (check (outside_call s (latestCheckpoint s)) fail1 rest1) Q"
    and "triple (idle D) (rest2 (ledgerCloseMeta s l)) Q \<Longrightarrow> triple (idle D) (check (GetLedger s l) fail2 rest2) Q"
    and "triple (in_tx D E) (rest2 (ledgerCloseMeta s l)) Q \<Longrightarrow> triple (in_tx D E) (check (GetLedger s l) fail2 rest2) Q"
  unfolding GetLedger_def using calmD(2) [OF assms]
  by (auto intro!: live_outside_call [OF assms])

lemma live_maybePrepareRange [live]:
  assumes "calm s c" "triple (idle D) (rest ()) Q"
  shows "triple (idle D) (check (maybePrepareRange s l) fail rest) Q"
  by (rule live_check [where PA = "\<lambda>_. idle D"])
     (use assms(2) in \<open>auto simp: idle_def maybePrepareRange_def try_wrap_def check_def outside_call_def PrepareRange_def return_def
       calmD(1) [OF assms(1)] split: if_splits\<close>)

lemma live_runner_call:
  assumes "\<And>n. \<exists>d'. f n E = (d', None)" "\<And>n d'. f n E = (d', None) \<Longrightarrow> triple (in_tx D d') (rest ()) Q"
  shows "triple (in_tx D E) (check (runner_call f) fail rest) Q"
proof (rule live_check [where PA = "\<lambda>_ w. \<exists>n d'. f n E = (d', None) \<and> in_tx D d' w"])
  fix w r w'
  assume w: "in_tx D E w" and r: "runner_call f w = (r, w')"
  obtain d' where "f (calls w) E = (d', None)" using assms(1) by blast
  with w r show "\<exists>a. r = Inr a \<and> (\<exists>n d'. f n E = (d', None) \<and> in_tx D d' w')"
    by (auto simp: runner_call_def in_tx_def Let_def)
next
  show "triple (\<lambda>w. \<exists>n d'. f n E = (d', None) \<and> in_tx D d' w) (rest a) Q" for a
    using assms(2) by (auto intro!: tripleI dest: triple_use)
qed

lemma live_completeIngestion [live]:
  assumes "calm s c" "l \<noteq> 0" "triple (idle (set_last l E)) (rest ()) Q"
  shows "triple (in_tx D E) (check (completeIngestion s l) fail rest) Q"
proof -
  have "triple (in_tx D E) (completeIngestion s l) (\<lambda>r w. r = Inr () \<and> idle (set_last l E) w)"
    unfolding completeIngestion_def try_wrap_def if_not_P [OF assms(2)]
    by (intro live [OF assms(1)] triple_return) simp
  then show ?thesis
    by (intro live_check [where PA = "\<lambda>_. idle (set_last l E)"]) (use assms(3) in \<open>auto dest: triple_use\<close>)
qed

section \<open>What each state does when nothing fails\<close>

lemma live_deferRollback:
  "triple P body (\<lambda>r w. Q r w \<and> tx w = None) \<Longrightarrow> triple P (deferRollback body) Q"
  by (rule triple_deferRollback) (erule triple_post, simp add: Rollback_def)

lemma Rollback_idle_eq: "in_tx D E w \<Longrightarrow> idle D (Rollback w)" "idle D w \<Longrightarrow> idle D (Rollback w)"
  by (simp_all add: in_tx_def idle_def Rollback_def)

lemma start_live:
  fixes D :: "('s, 'r) db"
  defines "h \<equiv> latest_history D"
  assumes calm: "calm s c" and D: "last_ingested D = Some l" "version_of D = Some v" "v \<le> CurrentVersion"
  shows "triple (idle D) (start_run s 0) (\<lambda>r w. snd r = None \<and>
     (if v \<noteq> CurrentVersion \<or> l = 0 then
        fst r = (if h = 0 \<or> h = c then rebuild c else if h > c then waitForCheckPoint else historyRange (h + 1) c) \<and> idle D w
      else if h > l then fst r = start \<and> idle (set_last 0 D) w
      else fst r = (if h \<noteq> 0 \<and> h < l then historyRange (h + 1) l else resume l) \<and> idle D w))"
  unfolding start_run_def orElse_def Let_def h_def
  by (intro triple_if triple_return live [OF calm] triple_deferRollback live_db(3) [OF calm D(1)] live_db(4) [OF calm D(2)])
     (use D(3) in \<open>auto intro: Rollback_idle_eq split: if_splits\<close>)

lemma build_live:
  assumes calm: "calm s c" and D: "last_ingested D = Some l" "version_of D = Some v" "v \<noteq> CurrentVersion \<or> l = 0" and b: "b \<noteq> 0"
  shows "triple (idle D) (build_run s b False False) (\<lambda>r w. r = (resume b, None) \<and> ended (archive_state s b D) w)"
proof -
  define source where "source pv h \<longleftrightarrow> b = 1 \<or> pv = lcm_ProtocolVersion s (ledgerCloseMeta s b) \<and> h = lcm_BucketListHash s (ledgerCloseMeta s b)" for pv h
  have ok: "\<exists>d'. (if b = 1 then RunHistoryArchiveIngestion s 1 False 0 (zeroHash s)
        else RunHistoryArchiveIngestion s b False pv h) n d = (d', None)" if "source pv h" for pv h n d
    using calmD(5,6) [OF calm] that by (auto simp: source_def)
  have A: "archive_state s b D (set_last b (set_version d'))"
    if "(if b = 1 then RunHistoryArchiveIngestion s 1 False 0 (zeroHash s) else RunHistoryArchiveIngestion s b False pv h) n
        ((set_invalid False (set_last 0 D))\<lparr>state_tables := emptyStateTables s\<rparr>) = (d', None)" for pv h n d'
    using that unfolding archive_state_def by (cases "b = 1") fastforce+
  have tx: "triple (idle D) (build_tx s b False False start pv h) (\<lambda>r w. r = (resume b, None) \<and> ended (archive_state s b D) w)" if "source pv h" for pv h
    unfolding build_tx_def orElse_def
    by (intro triple_if triple_return live [OF calm] triple_deferRollback live_db(3) [OF calm D(1)] live_db(4) [OF calm D(2)] live_runner_call b ok [OF that])
       (use D(3) in \<open>simp add: word_gt_0\<close>, use A in \<open>simp_all add: idle_def ended_def Rollback_def\<close>)
  show ?thesis
    unfolding build_run_def orElse_def Let_def if_not_P [OF b] if_False
    by (intro triple_if triple_return live [OF calm] tx) (simp_all add: source_def)
qed

lemma resume_live:
  assumes calm: "calm s c" and D: "last_ingested D = Some l" "version_of D = Some CurrentVersion"
      "latest_history D = 0 \<or> latest_history D = l" "distinct (sequences D)" "state_tables D = S l"
    and law: "ledger_law s S" and l: "l \<noteq> 0" "l + 1 \<noteq> 0" "l + 1 < 2 ^ 31 - 1"
  shows "triple (idle D) (resume_run s l) (\<lambda>r w. r = (resumeImmediately (l + 1), None) \<and> ended (ingest_ledger s (l + 1) D) w)"
proof -
  have next_gt: "\<not> l + 1 \<le> l" using l(2) unatSuc [of l] by (simp add: add.commute word_le_nat_alt)
  have "distinct (sequences D @ [l + 1])" using latest_history_ge [of "l + 1" D] D(3,4) next_gt l(2) by auto
  moreover have "l + 1 < 2 ^ 31" using l(3) by (rule order_less_trans) simp
  ultimately have all_ok: "\<exists>d'. RunAllProcessorsOnLedger s (ledgerCloseMeta s (l + 1)) n D = (d', None)" for n
    by (intro calmD(7) [OF calm])
  have row: "ledger_row (l + 1) \<in> set (history_ledgers d')"
    if "RunAllProcessorsOnLedger s (ledgerCloseMeta s (l + 1)) n D = (d', None)" for n d'
    using ledger_lawD(3) [OF law that] D(5) by simp
  have A: "ingest_ledger s (l + 1) D ((set_last (l + 1) d')\<lparr>history_rows := rows\<rparr>)"
    if "RunAllProcessorsOnLedger s (ledgerCloseMeta s (l + 1)) n D = (d', None)" for n d' rows
    using that unfolding ingest_ledger_def by blast
  have tail: "triple (idle ((set_last (l + 1) d')\<lparr>history_rows := rows\<rparr>))
      (\<lambda>w. case maybeVerifyState s (l + 1) w of (_, w1) \<Rightarrow>
       (case maybeReapLookupTables s (l + 1) w1 of (_, w2) \<Rightarrow> ((resumeImmediately (l + 1), None), w2)))
      (\<lambda>r w. r = (resumeImmediately (l + 1), None) \<and> ended (ingest_ledger s (l + 1) D) (Rollback w))"
    if "RunAllProcessorsOnLedger s (ledgerCloseMeta s (l + 1)) n D = (d', None)" for n d' rows
  proof (rule tripleI)
    let ?f = "\<lambda>w. case maybeVerifyState s (l + 1) w of (_, w1) \<Rightarrow>
       (case maybeReapLookupTables s (l + 1) w1 of (_, w2) \<Rightarrow> ((resumeImmediately (l + 1), None), w2))"
    fix w r w'
    assume i: "idle ((set_last (l + 1) d')\<lparr>history_rows := rows\<rparr>) w" and r: "?f w = (r, w')"
    from triple_use [OF resume_tail_triple i r]
    have "ended (ingest_ledger s (l + 1) D) w'" using A [OF that] by (auto simp: ended_def)
    with r show "r = (resumeImmediately (l + 1), None) \<and> ended (ingest_ledger s (l + 1) D) (Rollback w')"
      by (auto split: prod.splits)
  qed
  show ?thesis
    unfolding resume_run_def orElse_def Let_def if_not_P [OF l(1)]
    by (intro triple_if triple_return live [OF calm] triple_deferRollback live_db(3) [OF calm D(1)] live_db(4) [OF calm D(2)]
        live_runner_call live_RebuildTradeAggregationBuckets [OF calm l(3)] l(1,2) all_ok)
       (use next_gt D(3) tail row in \<open>auto simp: set_last_rows\<close>)
qed

lemma live_process_batch:
  assumes "calm s c" "\<And>k. k \<in> set ls \<Longrightarrow> k < 2 ^ 31" "distinct (sequences E @ ls)"
    "\<And>n d'. RunTransactionProcessorsOnLedgers s (map (ledgerCloseMeta s) ls) n E = (d', None) \<Longrightarrow> triple (in_tx D d') (rest ()) Q"
  shows "triple (in_tx D E) (check (process_batch s (map (ledgerCloseMeta s) ls)) fail rest) Q"
proof -
  let ?ms = "map (ledgerCloseMeta s) ls"
  have "check (process_batch s ?ms) fail rest = check (runner_call (RunTransactionProcessorsOnLedgers s ?ms)) (\<lambda>e. fail (Wrapped (batch_error s ?ms) e)) rest"
    by (rule ext) (auto simp: process_batch_def try_wrap_def check_def return_def split: prod.splits sum.splits)
  with assms(4) calmD(8) [OF assms(1-3)] show ?thesis by (auto intro: live_runner_call)
qed

text \<open>The ledgers of a range that the history does not have yet: no batch of them is refused.\<close>

definition fresh :: "('m, 'h, 's, 'r) system \<Rightarrow> uint32 \<Rightarrow> uint32 \<Rightarrow> ('s, 'r) db \<Rightarrow> bool" where
  "fresh s l toLedger D \<longleftrightarrow> transaction_law s \<and> distinct (sequences D @ range_list l (range_fuel l toLedger)) \<and> l \<le> toLedger \<and> toLedger < 2 ^ 31"

lemma range_list_prefix: "k \<le> n \<Longrightarrow> range_list l n = range_list l k @ range_list (l + of_nat k) (n - k)"
  by (rule nth_equalityI) (auto simp: range_list_def nth_append simp flip: of_nat_add)

lemma fresh_batch:
  assumes "fresh s l toLedger D" "batches s D ls E" "ls @ ls' = range_list l k" "k \<le> range_fuel l toLedger"
  shows "distinct (sequences E @ ls')" "q \<in> set ls' \<Longrightarrow> q < 2 ^ 31"
proof -
  have fuel: "unat l + range_fuel l toLedger \<le> 2 ^ 31"
    using assms(1) by (simp add: fresh_def range_fuel_def word_le_nat_alt word_less_nat_alt)
  have d: "distinct (sequences D @ ls @ ls')"
    using assms(1) range_list_prefix [OF assms(4), of l] by (auto simp: fresh_def simp flip: assms(3))
  with batches_ok [OF assms(2)] assms(1) have "sequences E = sequences D @ ls"
    by (auto simp: fresh_def intro: sequences_rows)
  with d show "distinct (sequences E @ ls')" by auto
  show "q < 2 ^ 31" if "q \<in> set ls'"
  proof -
    have "q \<in> set (range_list l k)" using that by (simp flip: assms(3))
    moreover have "unat l + k \<le> 2 ^ 32" using fuel assms(4) by simp
    ultimately have "unat q < unat l + k" by (simp add: set_range_list)
    with fuel assms(4) show ?thesis by (simp add: word_less_nat_alt)
  qed
qed

lemma range_end:
  assumes "toLedger + 1 \<noteq> 0"
  shows "\<not> l + of_nat (range_fuel l toLedger) \<le> toLedger \<or> \<not> l \<le> toLedger"
proof (cases "l \<le> toLedger")
  case True
  have "unat (toLedger + 1) = unat toLedger + 1" using unatSuc [of toLedger] assms by (simp add: add.commute)
  then have "unat toLedger + 1 < 2 ^ 32" using unat32 [of "toLedger + 1"] by simp
  moreover have "unat l + range_fuel l toLedger = unat toLedger + 1" using True by (simp add: range_fuel_def word_le_nat_alt)
  ultimately show ?thesis by (simp add: word_le_nat_alt unat_add_nat)
qed simp

lemma historyRange_loop_live:
  assumes calm: "calm s c" and "toLedger + 1 \<noteq> 0" and fresh: "fresh s l toLedger D"
    and "batches s D ls E" "ls @ ls' = range_list l k" "cur = l + of_nat k" "k + fuel = range_fuel l toLedger"
  shows "triple (in_tx D E) (historyRange_loop s toLedger fuel cur (map (ledgerCloseMeta s) ls'))
     (\<lambda>r w. \<exists>ledgers. r = Inr ledgers \<and> loop_done s l (range_fuel l toLedger) toLedger D D ledgers w)"
  using assms(4-7)
proof (induction fuel arbitrary: ls E ls' k cur)
  case 0
  have "\<not> cur \<le> toLedger" using range_end [OF assms(2), of l] fresh 0 by (simp add: fresh_def)
  with 0 show ?case by (auto intro!: triple_return intro: loop_doneI)
next
  case (Suc fuel)
  let ?post = "\<lambda>r w. \<exists>ledgers. r = Inr ledgers \<and> loop_done s l (range_fuel l toLedger) toLedger D D ledgers w"
  have nxt: "ls @ ls' @ [cur] = range_list l (Suc k)" "cur + 1 = l + of_nat (Suc k)" "Suc k + fuel = range_fuel l toLedger"
    using Suc.prems by (simp_all add: range_list_Suc flip: append_assoc)
  have flush: "triple (in_tx D d') (historyRange_loop s toLedger fuel (cur + 1) []) ?post"
    if "RunTransactionProcessorsOnLedgers s (map (ledgerCloseMeta s) (ls' @ [cur])) m E = (d', None)" for m d'
    using Suc.IH [OF a_batch [OF Suc.prems(1) that] _ nxt(2,3), of "[]"] nxt(1) by simp
  have keep: "triple (in_tx D E) (historyRange_loop s toLedger fuel (cur + 1) (map (ledgerCloseMeta s) (ls' @ [cur]))) ?post"
    by (rule Suc.IH [OF Suc.prems(1) nxt(1) nxt(2,3)])
  have batch: "distinct (sequences E @ ls' @ [cur])" "\<And>q. q \<in> set (ls' @ [cur]) \<Longrightarrow> q < 2 ^ 31"
    using fresh_batch [OF fresh Suc.prems(1) nxt(1)] nxt(3) by auto
  note process = live_process_batch [OF calm batch(2,1), unfolded map_append list.map]
  show ?case
    unfolding historyRange_loop.simps Let_def
    using flush keep Suc.prems
    by (intro triple_if triple_return live [OF calm] process) (auto intro: loop_doneI)
qed

lemma historyRange_live:
  assumes calm: "calm s c" and D: "last_ingested D = Some x" "latest_history D = l - 1"
    and l: "l \<noteq> 0" "l \<le> toLedger" "toLedger + 1 \<noteq> 0" and fresh: "fresh s l toLedger D"
  shows "triple (idle D) (historyRange_run s l toLedger)
     (\<lambda>r w. r = (start, None) \<and> ended (batches s D (range_list l (range_fuel l toLedger))) w)"
proof -
  let ?n = "range_fuel l toLedger"
  let ?post = "\<lambda>r w. r = (start, None) \<and> ended (batches s D (range_list l ?n)) (Rollback w)"
  have g: "\<not> (l = 0 \<or> toLedger = 0 \<or> toLedger < l)" "\<not> maxLedgerPerFlush s < 1"
    using l calmD(4) [OF calm] by (auto simp: linorder_not_less [symmetric] word_gt_0)
  have last: "triple (in_tx D E)
      (check (if length ledgers > 0 then process_batch s ledgers else return (Inr ())) (\<lambda>e. return (start, Some e)) (\<lambda>_.
        check (Commit s) (\<lambda>e. return (start, Some (Wrapped commitErrMsg e))) (\<lambda>_. return (start, None)))) ?post"
    if b: "batches s D ls E" "ls @ ls' = range_list l k" and k: "k \<le> ?n" "\<not> l + of_nat k \<le> toLedger"
      and ledgers: "ledgers = map (ledgerCloseMeta s) ls'" for E ls ls' k ledgers
  proof -
    have "k = ?n" by (rule range_full [OF k])
    have commit: "triple (in_tx D d) (check (Commit s) (\<lambda>e. return (start, Some (Wrapped commitErrMsg e))) (\<lambda>_. return (start, None))) ?post"
      if "batches s D (range_list l ?n) d" for d
      by (intro live [OF calm] triple_return) (use that in \<open>simp add: idle_def ended_def Rollback_def\<close>)
    show ?thesis
    proof (cases "ls' = []")
      case True
      with b \<open>k = ?n\<close> commit [of E] show ?thesis by (simp add: ledgers check_def return_def triple_def)
    next
      case False
      have "triple (in_tx D E) (check (process_batch s ledgers) (\<lambda>e. return (start, Some e)) (\<lambda>_.
        check (Commit s) (\<lambda>e. return (start, Some (Wrapped commitErrMsg e))) (\<lambda>_. return (start, None)))) ?post"
        using a_batch [OF b(1), of ls'] b(2) \<open>k = ?n\<close>
        unfolding ledgers
        by (intro live_process_batch [OF calm] commit) (use fresh_batch [OF fresh b k(1)] in auto)
      with False show ?thesis by (simp add: ledgers)
    qed
  qed
  have loop: "triple (in_tx D D) (check (historyRange_loop s toLedger ?n l []) (\<lambda>e. return (start, Some e)) (\<lambda>ledgers.
      check (if length ledgers > 0 then process_batch s ledgers else return (Inr ())) (\<lambda>e. return (start, Some e)) (\<lambda>_.
      check (Commit s) (\<lambda>e. return (start, Some (Wrapped commitErrMsg e))) (\<lambda>_. return (start, None))))) ?post"
  proof (rule live_check [where PA = "loop_done s l ?n toLedger D D"])
    show "\<exists>a. r = Inr a \<and> loop_done s l ?n toLedger D D a w'"
      if "in_tx D D w" "historyRange_loop s toLedger ?n l [] w = (r, w')" for w r w'
      using triple_use [OF historyRange_loop_live [OF calm l(3) fresh no_batch, of "[]" 0 l ?n, simplified]] that
      by (simp add: range_list_def)
  qed (rule loop_done_end, rule last)
  show ?thesis
    unfolding historyRange_run_def orElse_def if_not_P [OF g(1)] if_not_P [OF g(2)]
    by (intro triple_if triple_return live [OF calm] triple_deferRollback live_db(3) [OF calm D(1)] loop) (use D(2) in simp)
qed

section \<open>Progress\<close>

definition leads_to :: "('m, 'h, 's, 'r) system \<Rightarrow> node \<Rightarrow> ('s, 'r) db \<Rightarrow> (node \<Rightarrow> ('s, 'r) db \<Rightarrow> bool) \<Rightarrow> bool" where
  "leads_to s n D P \<longleftrightarrow>
     (\<forall>w. idle D w \<longrightarrow> (\<exists>fuel n' w'. runStateMachine s fuel n w = (Running n', w') \<and> tx w' = None \<and> P n' (stored w')))"

lemma leads_now: "P n D \<Longrightarrow> leads_to s n D P"
  unfolding leads_to_def by (intro allI impI exI [of _ 0]) (simp add: idle_def)

lemma leads_step:
  assumes "triple (idle D) (run s n) (\<lambda>r w. next_node (fst r) = n' \<and> ended R w)" "calm s c" "n' \<noteq> stopState"
    and "\<And>d. R d \<Longrightarrow> leads_to s n' d P"
  shows "leads_to s n D P"
  unfolding leads_to_def
proof (intro allI impI)
  fix w
  assume w: "idle D w"
  obtain t e w1 where 1: "run s n w = ((t, e), w1)" by (metis prod.collapse)
  from triple_use [OF assms(1) w 1] have n': "next_node t = n'" and w1: "tx w1 = None" "R (stored w1)" by (simp_all add: ended_def)
  then have "idle (stored w1) w1" by (simp add: idle_def)
  with assms(4) [OF w1(2)] obtain fuel m w' where "runStateMachine s fuel n' w1 = (Running m, w')" "tx w' = None" "P m (stored w')"
    unfolding leads_to_def by blast
  then show "\<exists>fuel n' w'. runStateMachine s fuel n w = (Running n', w') \<and> tx w' = None \<and> P n' (stored w')"
    using 1 n' w assms(3) calmD(3) [OF assms(2)]
    by (intro exI [of _ "Suc fuel"]) (auto simp: idle_def GetTx_def)
qed

definition ready :: "(uint32 \<Rightarrow> 's) \<Rightarrow> uint32 \<Rightarrow> ('s, 'r) db \<Rightarrow> bool" where
  "ready S l d \<longleftrightarrow> good S d \<and> last_ingested d = Some l \<and> version_of d = Some CurrentVersion
     \<and> (latest_history d = 0 \<or> latest_history d = l)"

lemma latest_history_append:
  "sequences d' = sequences d @ [l] \<Longrightarrow> latest_history d \<le> l \<Longrightarrow> latest_history d' = l"
  by (simp add: latest_history_def)

lemma ready_next:
  assumes ok: "runner_ok s S" and D: "ready S l D" and l: "l \<noteq> 0" "l + 1 \<noteq> 0" and d: "ingest_ledger s (l + 1) D d"
  shows "ready S (l + 1) d"
proof -
  obtain n d1 rows where 1: "RunAllProcessorsOnLedger s (ledgerCloseMeta s (l + 1)) n D = (d1, None)"
    and d1: "d = (set_last (l + 1) d1)\<lparr>history_rows := rows\<rparr>" using d unfolding ingest_ledger_def by blast
  have law: "ledger_law s S" using ok by (simp add: runner_ok_def)
  have post: "resume_post s l D d" using D d l by (auto simp: resume_post_def ready_def)
  have st: "state_tables D = S (l + 1 - 1)" using D l by (simp add: ready_def good_def consistent_def)
  note r = ledger_lawD [OF law 1 st]
  have "l \<le> l + 1" using l(2) unatSuc [of l] by (simp add: add.commute word_le_nat_alt)
  then have "latest_history D \<le> l + 1" using D by (auto simp: ready_def)
  moreover have "sequences d = sequences D @ [l + 1]"
    using sequences_rows [OF r(3)] by (simp add: d1 sequences_def)
  ultimately have "latest_history d = l + 1" by (rule latest_history_append [rotated])
  moreover have "last_ingested d = Some (l + 1)" by (simp add: d1 last_ingested_def set_last_def)
  moreover have "version_of d = version_of d1"
    by (simp add: d1 version_of_def set_last_def key_defs)
  ultimately show ?thesis
    using good_resume [OF _ post law] D same_keys_read(2) [OF r(2)] by (simp add: ready_def)
qed

lemma resume_leads:
  assumes calm: "calm s c" and ok: "runner_ok s S"
  shows "ready S l D \<Longrightarrow> l \<noteq> 0 \<Longrightarrow> unat l + k < 2 ^ 31 - 1 \<Longrightarrow>
    leads_to s (resumeState l) D (\<lambda>n d. n = resumeState (l + of_nat k) \<and> ready S (l + of_nat k) d)"
proof (induction k arbitrary: l D)
  case (Suc k)
  have "unat (l + of_nat 1) = unat l + 1" by (rule unat_add_nat) (use Suc.prems(3) in simp)
  then have l1: "l + 1 \<noteq> 0" "unat (l + 1) + k < 2 ^ 31 - 1" "l + 1 < 2 ^ 31 - 1" using Suc.prems(3) by (auto simp: word_less_nat_alt)
  have shift: "l + of_nat (Suc k) = (l + 1) + of_nat k" by simp
  have "triple (idle D) (run s (resumeState l)) (\<lambda>r w. next_node (fst r) = resumeState (l + 1) \<and> ended (ingest_ledger s (l + 1) D) w)"
    using resume_live [OF calm, of D l S] Suc.prems(1,2) l1(1,3) ok
    by (auto simp: ready_def good_def contiguous_def consistent_def runner_ok_def resumeImmediately_def elim!: triple_post)
  then show ?case
    unfolding shift by (rule leads_step [OF _ calm]) (use Suc.IH [OF ready_next [OF ok Suc.prems(1,2) l1(1)] l1(1,2)] in auto)
qed (simp add: leads_now)

abbreviation arrived :: "(uint32 \<Rightarrow> 's) \<Rightarrow> uint32 \<Rightarrow> node \<Rightarrow> ('s, 'r) db \<Rightarrow> bool" where
  "arrived S m \<equiv> \<lambda>n d. n = resumeState m \<and> ready S m d"

lemma resume_arrives:
  assumes "calm s c" "runner_ok s S" "ready S l D" "l \<noteq> 0" "l \<le> m" "m < 2 ^ 31 - 1"
  shows "leads_to s (resumeState l) D (arrived S m)"
proof -
  have "unat m < 2 ^ 31 - 1" using assms(6) by (simp add: word_less_nat_alt)
  moreover have "unat l + (unat m - unat l) = unat m" using assms(5) by (simp add: word_le_nat_alt)
  moreover from calculation have "unat (l + of_nat (unat m - unat l)) = unat m" by (subst unat_add_nat) auto
  then have "l + of_nat (unat m - unat l) = m" by (simp add: word_unat_eq_iff)
  ultimately show ?thesis using resume_leads [OF assms(1-4), of "unat m - unat l"] by simp
qed

text \<open>The start state once history and state agree: resume, or build the state at the checkpoint.\<close>

lemma start_resumes:
  assumes "calm s c" "runner_ok s S" "ready S l D" "l \<noteq> 0" "l \<le> m" "m < 2 ^ 31 - 1"
  shows "leads_to s (startState 0) D (arrived S m)"
proof (rule leads_step [OF _ assms(1)])
  show "triple (idle D) (run s (startState 0)) (\<lambda>r w. next_node (fst r) = resumeState l \<and> ended (\<lambda>d. d = D) w)"
  proof -
    have D: "last_ingested D = Some l" "version_of D = Some CurrentVersion"
        "\<not> l < latest_history D" "\<not> (latest_history D \<noteq> 0 \<and> latest_history D < l)"
      using assms(3) by (auto simp: ready_def)
    show ?thesis
      unfolding run.simps
      by (rule triple_post [OF start_live [OF assms(1) D(1,2) order_refl]])
         (use D(3,4) assms(4) in \<open>simp add: resume_def idle_def ended_def\<close>)
  qed
qed (use resume_arrives [OF assms] in auto)

lemma start_builds:
  assumes calm: "calm s c" and ok: "runner_ok s S" and D: "good S D" "last_ingested D = Some l" "version_of D = Some v"
      "v \<le> CurrentVersion" "v \<noteq> CurrentVersion \<or> l = 0" "latest_history D = 0 \<or> latest_history D = c"
    and m: "c \<noteq> 0" "c \<le> m" "m < 2 ^ 31 - 1"
  shows "leads_to s (startState 0) D (arrived S m)"
proof (rule leads_step [OF _ calm])
  show "triple (idle D) (run s (startState 0)) (\<lambda>r w. next_node (fst r) = buildState c False False \<and> ended (\<lambda>d. d = D) w)"
    unfolding run.simps by (rule triple_post [OF start_live [OF calm D(2,3,4)]]) (use D(5,6) in \<open>auto simp: rebuild_def idle_def ended_def\<close>)
  have "leads_to s (buildState c False False) D (arrived S m)"
  proof (rule leads_step [OF _ calm])
    show "triple (idle D) (run s (buildState c False False)) (\<lambda>r w. next_node (fst r) = resumeState c \<and> ended (archive_state s c D) w)"
      using build_live [OF calm D(2,3,5) m(1)] by (auto simp: resume_def elim!: triple_post)
    fix d
    assume d: "archive_state s c D d"
    have law: "archive_law s S" using ok by (simp add: runner_ok_def)
    have "good S d" by (rule good_build [where c = c, OF D(1) _ law]) (use d m in \<open>simp add: build_post_def\<close>)
    moreover from d archive_lawD(3) [OF law] have "sequences d = sequences D"
      unfolding archive_state_def sequences_def by force
    ultimately have "ready S c d"
      using D(6) d by (auto simp: ready_def latest_history_def archive_state_def)
    then show "leads_to s (resumeState c) d (arrived S m)" by (rule resume_arrives [OF calm ok _ m])
  qed simp
  then show "leads_to s (buildState c False False) d (arrived S m)" if "d = D" for d using that by simp
qed simp

text \<open>Catching up the history up to the ledger \<open>x\<close>.\<close>

lemma historyRange_leads:
  assumes calm: "calm s c" and ok: "runner_ok s S" and D: "good S D" "last_ingested D = Some l" "latest_history D \<noteq> 0"
      "latest_history D < x" and x: "x < 2 ^ 31"
    and next_start: "\<And>d. good S d \<Longrightarrow> last_ingested d = last_ingested D \<Longrightarrow> version_of d = version_of D \<Longrightarrow> latest_history d = x
      \<Longrightarrow> leads_to s (startState 0) d P"
  shows "leads_to s (historyRangeState (latest_history D + 1) x) D P"
proof (rule leads_step [OF _ calm])
  let ?l = "latest_history D + 1"
  have "unat (latest_history D + of_nat 1) = unat (latest_history D) + 1"
    by (rule unat_add_nat) (use D(4) unat32 [of x] in \<open>simp add: word_less_nat_alt\<close>)
  then have l: "?l \<noteq> 0" "?l \<le> x" "latest_history D < ?l" using D(4) by (auto simp: word_le_nat_alt word_less_nat_alt)
  have "unat (x + of_nat 1) = unat x + 1" by (rule unat_add_nat) (use x in \<open>simp add: word_less_nat_alt\<close>)
  then have wrap: "x + 1 \<noteq> 0" by auto
  have law: "transaction_law s" using ok by (simp add: runner_ok_def)
  have k: "unat ?l + range_fuel ?l x \<le> 2 ^ 32" using l(2) unat32 [of x] by (simp add: range_fuel_def word_le_nat_alt)
  have "y < ?l" if "y \<in> set (sequences D)" for y
    using latest_history_ge [OF that] l(3) by (rule order_le_less_trans)
  then have "set (sequences D) \<inter> set (range_list ?l (range_fuel ?l x)) = {}"
    unfolding set_range_list [OF k] by (blast dest: leD)
  moreover have "distinct (sequences D)" using D(1) by (simp add: good_def contiguous_def)
  ultimately have fresh: "fresh s ?l x D"
    using l(2) law x distinct_range_list [OF k] by (simp add: fresh_def)
  show "triple (idle D) (run s (historyRangeState ?l x)) (\<lambda>r w. next_node (fst r) = startState 0
      \<and> ended (batches s D (range_list ?l (range_fuel ?l x))) w)"
    using historyRange_live [OF calm D(2) _ l(1,2) wrap fresh] by (auto simp: start_def elim!: triple_post)
  fix d
  assume d: "batches s D (range_list ?l (range_fuel ?l x)) d"
  note b = batches_ok [OF d law distinct_range_list [OF k]]
  have "good S d"
    by (rule good_historyRange [OF D(1) _ law, of ?l x])
       (use d l in \<open>auto simp: historyRange_post_def prefix_ingested_def\<close>)
  moreover have "latest_history d = x"
  proof -
    have seqs: "sequences d = sequences D @ range_list ?l (range_fuel ?l x)" using b sequences_rows by blast
    have "x \<in> set (sequences d)"
      using l(2) unfolding seqs set_append set_range_list [OF k] by (simp add: range_fuel_def word_le_nat_alt)
    moreover have "y \<le> x" if "y \<in> set (sequences d)" for y
      using that latest_history_ge [of y D] D(4) unfolding seqs set_append set_range_list [OF k]
      by (auto simp: range_fuel_def word_le_nat_alt word_less_nat_alt)
    ultimately show ?thesis
      unfolding latest_history_Max by (intro Max_eqI) auto
  qed
  ultimately show "leads_to s (startState 0) d P" using b same_keys_read [of D d] by (intro next_start) auto
qed simp

lemma leads_step_eq:
  assumes "triple (idle D) (run s n) (\<lambda>r w. next_node (fst r) = n' \<and> idle E w)" "calm s c" "n' \<noteq> stopState" "leads_to s n' E P"
  shows "leads_to s n D P"
proof (rule leads_step [OF _ assms(2,3)])
  show "triple (idle D) (run s n) (\<lambda>r w. next_node (fst r) = n' \<and> ended (\<lambda>d. d = E) w)"
    using assms(1) by (rule triple_post) (simp add: idle_def ended_def)
qed (use assms(4) in simp)

lemma start_arrives:
  assumes calm: "calm s c" and ok: "runner_ok s S" and D: "good S D" "last_ingested D = Some l" "version_of D = Some v"
      "v \<le> CurrentVersion" "latest_history D \<le> c"
    and m: "c \<noteq> 0" "c \<le> m" "l \<le> m" "m < 2 ^ 31 - 1"
  shows "leads_to s (startState 0) D (arrived S m)"
proof -
  have "m < 2 ^ 31" using m(4) by (rule order_less_trans) simp
  then have small: "x < 2 ^ 31" if "x \<le> m" for x using that by (rule order_le_less_trans [rotated])
  have from_checkpoint: "leads_to s (startState 0) E (arrived S m)"
    if E: "good S E" "last_ingested E = Some l'" "version_of E = Some v" "v \<noteq> CurrentVersion \<or> l' = 0" "latest_history E \<le> c" for E l'
  proof (cases "latest_history E = 0 \<or> latest_history E = c")
    case True
    show ?thesis by (rule start_builds [OF calm ok E(1,2,3) D(4) E(4) True m(1,2,4)])
  next
    case False
    have L: "leads_to s (historyRangeState (latest_history E + 1) c) E (arrived S m)"
      by (rule historyRange_leads [OF calm ok E(1,2)])
         (use False E small [OF m(2)] in \<open>auto intro!: start_builds [OF calm ok _ _ _ D(4) E(4) _ m(1,2,4)]\<close>)
    have t: "triple (idle E) (run s (startState 0)) (\<lambda>r w. next_node (fst r) = historyRangeState (latest_history E + 1) c \<and> idle (E) w)"
      unfolding run.simps by (rule triple_post [OF start_live [OF calm E(2,3) D(4)]]) (use False E(4) leD [OF E(5)] in \<open>simp add: historyRange_def\<close>)
    show ?thesis by (rule leads_step_eq [OF t calm _ L]) simp
  qed
  consider (rebuild) "v \<noteq> CurrentVersion \<or> l = 0"
    | (reset) "v = CurrentVersion" "l \<noteq> 0" "latest_history D > l"
    | (catchup) "v = CurrentVersion" "l \<noteq> 0" "latest_history D \<noteq> 0" "latest_history D < l"
    | (resume) "v = CurrentVersion" "l \<noteq> 0" "latest_history D = 0 \<or> latest_history D = l"
    by (metis linorder_neqE)
  then show ?thesis
  proof cases
    case rebuild
    then show ?thesis using D by (intro from_checkpoint)
  next
    case reset
    have "good S (set_last 0 D)" using D(1) good_start [of S D undefined "set_last 0 D"] by (simp add: start_post_def)
    moreover have "latest_history (set_last 0 D) = latest_history D" by (simp add: latest_history_def)
    ultimately have L: "leads_to s (startState 0) (set_last 0 D) (arrived S m)"
      using D by (intro from_checkpoint [where l' = 0]) simp_all
    have t: "triple (idle D) (run s (startState 0)) (\<lambda>r w. next_node (fst r) = startState 0 \<and> idle (set_last 0 D) w)"
      unfolding run.simps by (rule triple_post [OF start_live [OF calm D(2,3,4)]]) (use reset in \<open>simp add: start_def\<close>)
    show ?thesis by (rule leads_step_eq [OF t calm _ L]) simp
  next
    case catchup
    have L: "leads_to s (historyRangeState (latest_history D + 1) l) D (arrived S m)"
    proof (rule historyRange_leads [OF calm ok D(1,2) catchup(3,4) small [OF m(3)]], goal_cases)
      case (1 d)
      then have "ready S l d" using D catchup(1) by (simp add: ready_def)
      then show ?case by (rule start_resumes [OF calm ok _ catchup(2) m(3,4)])
    qed
    have t: "triple (idle D) (run s (startState 0)) (\<lambda>r w. next_node (fst r) = historyRangeState (latest_history D + 1) l \<and> idle (D) w)"
      unfolding run.simps by (rule triple_post [OF start_live [OF calm D(2,3,4)]]) (use catchup leD [OF less_imp_le [OF catchup(4)]] in \<open>simp add: historyRange_def\<close>)
    show ?thesis by (rule leads_step_eq [OF t calm _ L]) simp
  next
    case resume
    then have "ready S l D" using D by (simp add: ready_def)
    then show ?thesis by (rule start_resumes [OF calm ok _ resume(2) m(3,4)])
  qed
qed

end
