(* ===== verification/Reingest.thy ===== *)
theory Reingest
  imports IngestCluster
begin

text \<open>
  What reingestion does to the history (\<^verbatim>\<open>ReingestRange\<close> of \<^verbatim>\<open>main.go\<close> and \<^verbatim>\<open>reingestHistoryRangeState\<close>): the rows of
  the range are replaced by newly ingested ones, everything else stays, and the range is refused when the live
  ingestion works on it.
\<close>

section \<open>The rows of a range\<close>

text \<open>The ID of a row is the total order ID of its ledger.\<close>

definition rows_ok :: "('s, 'r) db \<Rightarrow> bool" where
  "rows_ok d \<longleftrightarrow> (\<forall>r \<in> set (history_ledgers d). r = ledger_row (snd r) \<and> snd r < 2 ^ 31)"

lemma LedgerRangeInclusive_bounds:
  assumes "LedgerRangeInclusive l toLedger = Inr (i, j)" "l \<noteq> 1"
  shows "l < 2 ^ 31" "l \<noteq> 0" "l \<le> toLedger" "toLedger + 1 < 2 ^ 31" "toLedger < toLedger + 1"
    and "sint i = uint l * 2 ^ 32" "sint j = (uint toLedger + 1) * 2 ^ 32"
proof -
  have pos: "0 < sint l" "sint l \<le> sint toLedger"
    and i: "ToInt64 (toid_New l 0 0) = Inr i" and j: "ToInt64 (toid_New (toLedger + 1) 0 0) = Inr j"
    using assms by (auto simp: LedgerRangeInclusive_def split: if_splits sum.splits)
  show l: "l < 2 ^ 31" "l \<noteq> 0" using sint_pos_small [of l] pos by auto
  have to: "toLedger < 2 ^ 31" using sint_pos_small [of toLedger] pos by simp
  show "l \<le> toLedger" using pos(2) sint_small [OF l(1)] sint_small [OF to] by (simp add: word_le_def)
  show to1: "toLedger + 1 < 2 ^ 31"
    by (rule sint_pos_small) (use j in \<open>auto simp: ToInt64_def toid_New_def split: if_splits\<close>)
  have "unat (toLedger + of_nat 1) = unat toLedger + 1" by (rule unat_add_nat) (use to in \<open>simp add: word_less_nat_alt\<close>)
  then have "int (unat (toLedger + 1)) = int (unat toLedger + 1)" by simp
  then have u: "uint (toLedger + 1) = uint toLedger + 1" by simp
  then show "toLedger < toLedger + 1" by (simp add: word_less_def)
  show "sint i = uint l * 2 ^ 32"
    using sint_ToInt64 [OF toid_wf_ledger_start i] pos(1) sint_small [OF l(1)] by (simp add: toid_value_ledger_start)
  show "sint j = (uint toLedger + 1) * 2 ^ 32"
    using sint_ToInt64 [OF toid_wf_ledger_start j] sint_small [OF to1] by (simp add: toid_value_ledger_start u)
qed

lemma delete_all_fields:
  "history_ledgers (delete_all i j d) = filter (\<lambda>(x, _). \<not> (i \<le> x \<and> x < j)) (history_ledgers d)"
  "state_tables (delete_all i j d) = state_tables d" "key_value_store (delete_all i j d) = key_value_store d"
  by (simp_all add: delete_all_def history_tables_def delete_rows_def)

definition in_range :: "uint32 \<Rightarrow> uint32 \<Rightarrow> uint32 \<Rightarrow> bool" where
  "in_range l toLedger q \<longleftrightarrow> l \<le> q \<and> q \<le> toLedger"

lemma set_range_list_to:
  assumes "l \<le> toLedger"
  shows "set (range_list l (range_fuel l toLedger)) = {q. in_range l toLedger q}" "distinct (range_list l (range_fuel l toLedger))"
proof -
  have k: "unat l + range_fuel l toLedger \<le> 2 ^ 32"
    using assms unat32 [of toLedger] by (simp add: range_fuel_def word_le_nat_alt)
  show "set (range_list l (range_fuel l toLedger)) = {q. in_range l toLedger q}"
    using assms unfolding set_range_list [OF k] by (auto simp: in_range_def range_fuel_def word_le_nat_alt)
  show "distinct (range_list l (range_fuel l toLedger))" by (rule distinct_range_list [OF k])
qed

text \<open>The deletion takes exactly the rows of the ledgers of the range.\<close>

lemma delete_range_rows:
  assumes "LedgerRangeInclusive l toLedger = Inr (i, j)" "l \<noteq> 1" "rows_ok D"
  shows "history_ledgers (delete_all (sint i) (sint j) D) = filter (\<lambda>r. \<not> in_range l toLedger (snd r)) (history_ledgers D)"
proof -
  note b = LedgerRangeInclusive_bounds [OF assms(1,2)]
  have "(case r of (x, _) \<Rightarrow> sint i \<le> x \<and> x < sint j) \<longleftrightarrow> in_range l toLedger (snd r)" if "r \<in> set (history_ledgers D)" for r
  proof -
    have q: "fst r = uint (snd r) * 2 ^ 32"
      using assms(3) that ledger_row_id [of "snd r"] by (metis rows_ok_def)
    have "sint i \<le> fst r \<longleftrightarrow> uint l \<le> uint (snd r)" "fst r < sint j \<longleftrightarrow> uint (snd r) \<le> uint toLedger"
      unfolding b(6,7) q by auto
    then show ?thesis by (simp add: case_prod_beta in_range_def word_le_def)
  qed
  then show ?thesis by (auto simp: delete_all_fields intro!: filter_cong)
qed

section \<open>The effect of reingestion\<close>

definition replaced :: "uint32 \<Rightarrow> uint32 \<Rightarrow> ('s, 'r) db \<Rightarrow> ('s, 'r) db \<Rightarrow> bool" where
  "replaced l toLedger D d \<longleftrightarrow>
     history_ledgers d = filter (\<lambda>r. \<not> in_range l toLedger (snd r)) (history_ledgers D)
       @ map ledger_row (range_list l (range_fuel l toLedger))
     \<and> state_tables d = state_tables D \<and> same_keys D d"

lemma reingested_replaced:
  assumes "reingested s l toLedger D d" "transaction_law s" "rows_ok D" "l \<noteq> 1"
  shows "replaced l toLedger D d" "rows_ok d" "l \<le> toLedger"
proof -
  obtain i j where ij: "LedgerRangeInclusive l toLedger = Inr (i, j)"
    and b: "batches s (delete_all (sint i) (sint j) D) (range_list l (range_fuel l toLedger)) d"
    using assms(1) unfolding reingested_def by blast
  note bd = LedgerRangeInclusive_bounds [OF ij assms(4)]
  show "l \<le> toLedger" by (rule bd(3))
  have keys: "same_keys D (delete_all (sint i) (sint j) D)" by (simp add: same_keys_def delete_all_fields)
  from batches_ok [OF b assms(2) set_range_list_to(2) [OF bd(3)]] keys
  show r: "replaced l toLedger D d"
    by (auto simp: replaced_def delete_all_fields(2) delete_range_rows [OF ij assms(4,3)] intro: same_keys_trans)
  have "q < 2 ^ 31" if "in_range l toLedger q" for q
    using that bd(4,5) by (auto simp: in_range_def)
  then show "rows_ok d"
    using r assms(3) set_range_list_to(1) [OF bd(3)]
    by (auto simp: replaced_def rows_ok_def ledger_row_def)
qed


text \<open>
  Without force, an attempt on a range keeps every ledger of the history and adds ledgers of the range only, each
  once; when it succeeds it has added them all.
\<close>

definition range_ledgers :: "LedgerRange \<Rightarrow> uint32 set" where
  "range_ledgers cur = {q. in_range (if StartSequence cur = 1 then 2 else StartSequence cur) (EndSequence cur) q}"

definition grows :: "uint32 set \<Rightarrow> ('s, 'r) db \<Rightarrow> ('s, 'r) db \<Rightarrow> bool" where
  "grows added D d \<longleftrightarrow>
     set (sequences D) \<subseteq> set (sequences d) \<and> set (sequences d) \<subseteq> set (sequences D) \<union> added
     \<and> (distinct (sequences D) \<longrightarrow> distinct (sequences d)) \<and> rows_ok d \<and> state_tables d = state_tables D \<and> same_keys D d"

lemma grows_refl: "rows_ok D \<Longrightarrow> grows A D D"
  by (simp add: grows_def)

lemma grows_trans: "grows A D E \<Longrightarrow> grows B E F \<Longrightarrow> grows (A \<union> B) D F"
  by (auto simp: grows_def intro: same_keys_trans)

lemma grows_rows: "grows A D d \<Longrightarrow> rows_ok d"
  by (simp add: grows_def)

lemma replaced_grows:
  assumes "replaced l toLedger D d" "rows_ok d" "l \<le> toLedger"
  shows "grows {q. in_range l toLedger q} D d" "{q. in_range l toLedger q} \<subseteq> set (sequences d)"
proof -
  have s: "sequences d = filter (\<lambda>q. \<not> in_range l toLedger q) (sequences D) @ range_list l (range_fuel l toLedger)"
    using assms(1) by (simp add: replaced_def sequences_def ledger_row_def comp_def filter_map)
  note r = set_range_list_to [OF assms(3)]
  show "{q. in_range l toLedger q} \<subseteq> set (sequences d)" unfolding s using r(1) by auto
  show "grows {q. in_range l toLedger q} D d"
    using assms(1,2) r unfolding grows_def s by (auto simp: replaced_def)
qed

lemma reingest_once_grows:
  assumes "reingest_once s cur False w = (r, w')" "tx w = None" "transaction_law s" "rows_ok (stored w)"
  shows "tx w' = None \<and> grows (range_ledgers cur) (stored w) (stored w')
    \<and> (r = None \<longrightarrow> range_ledgers cur \<subseteq> set (sequences (stored w'))
         \<and> (\<forall>x. last_ingested (stored w) = Some x \<longrightarrow> x = 0 \<or> EndSequence cur < x))"
proof -
  let ?l = "if StartSequence cur = 1 then 2 else StartSequence cur"
  obtain t e w1 where 1: "reingest_run s (StartSequence cur) (EndSequence cur) False w = ((t, e), w1)" by (metis surj_pair)
  have "idle (stored w) w" using assms(2) by (simp add: idle_def)
  from triple_use [OF reingest_triple this 1]
  have post: "tx w1 = None" "t = stop" "reingest_post s ?l (EndSequence cur) False (stored w) (t, e) (stored w1)"
    by (auto simp: ended_def reingest_post_def)
  then have w': "w' = w1" "r = e"
    using assms(1,2) 1 by (simp_all add: reingest_once_def GetTx_def stop_def)
  have l: "?l \<noteq> 1" by simp
  note R = reingested_replaced [OF _ assms(3,4) l]
  have G: "grows (range_ledgers cur) (stored w) (stored w1)" "range_ledgers cur \<subseteq> set (sequences (stored w1))"
    if "reingested s ?l (EndSequence cur) (stored w) (stored w1)"
    using replaced_grows [OF R [OF that]] by (simp_all add: range_ledgers_def)
  show ?thesis
  proof (cases e)
    case None
    with post(3) G show ?thesis by (auto simp: w' reingest_post_def post(1))
  next
    case (Some x)
    with post(3) G(1) assms(4) show ?thesis by (auto simp: w' reingest_post_def post(1) grows_refl)
  qed
qed

lemma reingest_retry_grows:
  assumes "reingest_retry s cur False k (r0, w0) = (r, w')" "transaction_law s" "rows_ok D" "tx w0 = None"
    and "grows (range_ledgers cur) D (stored w0)"
    and "r0 = None \<longrightarrow> range_ledgers cur \<subseteq> set (sequences (stored w0)) \<and> (\<forall>x. last_ingested D = Some x \<longrightarrow> x = 0 \<or> EndSequence cur < x)"
  shows "tx w' = None \<and> grows (range_ledgers cur) D (stored w')
    \<and> (r = None \<longrightarrow> range_ledgers cur \<subseteq> set (sequences (stored w')) \<and> (\<forall>x. last_ingested D = Some x \<longrightarrow> x = 0 \<or> EndSequence cur < x))"
  using assms
proof (induction k arbitrary: r0 w0)
  case (Suc k)
  show ?case
  proof (cases r0)
    case (Some e)
    obtain r1 w1 where 1: "reingest_once s cur False w0 = (r1, w1)" by (metis surj_pair)
    note oc = reingest_once_grows [OF 1 Suc.prems(4,2) grows_rows [OF Suc.prems(5)]]
    have "last_ingested (stored w0) = last_ingested D" using Suc.prems(5) by (simp add: grows_def same_keys_read)
    moreover have "grows (range_ledgers cur) D (stored w1)"
      using grows_trans [OF Suc.prems(5), of "range_ledgers cur" "stored w1"] oc by simp
    ultimately show ?thesis
      using Suc.IH [of r1 w1] Suc.prems(1-3) 1 Some oc by simp
  qed (use Suc.prems in simp)
qed simp

definition all_ledgers :: "LedgerRange list \<Rightarrow> uint32 set" where
  "all_ledgers ranges = (\<Union>cur \<in> set ranges. range_ledgers cur)"

lemma RebuildTradeAggregationBuckets_outside:
  fixes w :: "('s, 'r) world"
  assumes "tx w = None" "RebuildTradeAggregationBuckets s a b w = (r, w')"
  shows "tx w' = None \<and> (\<exists>rows. stored w' = (stored w)\<lparr>history_rows := rows\<rparr>)"
proof -
  define same where "same v \<longleftrightarrow> tx v = None \<and> (\<exists>rows. stored v = (stored w)\<lparr>history_rows := rows\<rparr>)" for v :: "('s, 'r) world"
  have row: "triple same (check (GetRow s f) fail rest) (\<lambda>_. same)"
    if "\<And>e. triple same (fail e) (\<lambda>_. same)" "\<And>x. triple same (rest x) (\<lambda>_. same)" for f :: "_ \<Rightarrow> int option"
      and fail and rest :: "int \<Rightarrow> _ \<Rightarrow> (go_error + unit) \<times> _"
    by (rule triple_check [of _ _ "\<lambda>_. same" "\<lambda>_. same", OF tripleI])
       (use that in \<open>auto simp: same_def GetRow_def GetRaw_def conn_stmt_def check_def return_def Let_def split: option.splits\<close>)
  have exec: "triple same (check (ExecRaw s (\<lambda>d. d\<lparr>history_rows := f d\<rparr>)) fail rest) (\<lambda>_. same)"
    if "\<And>e. triple same (fail e) (\<lambda>_. same)" "\<And>x. triple same (rest x) (\<lambda>_. same)" for f
      and fail and rest :: "unit \<Rightarrow> _ \<Rightarrow> (go_error + unit) \<times> _"
    by (rule triple_check [of _ _ "\<lambda>_. same" "\<lambda>_. same", OF tripleI])
       (use that in \<open>auto simp: same_def ExecRaw_def conn_stmt_def Let_def split: option.splits\<close>)
  have "triple same (RebuildTradeAggregationTimes s x y) (\<lambda>_. same)" for x y
    unfolding RebuildTradeAggregationTimes_def Let_def try_wrap_def by (intro exec triple_return)
  then have "triple same (RebuildTradeAggregationBuckets s a b) (\<lambda>_. same)"
    unfolding RebuildTradeAggregationBuckets_def Let_def try_wrap_def
    by (auto intro!: row triple_return split: sum.split)
  moreover have "same w" using assms(1) unfolding same_def by (metis db.surjective db.update_convs(3))
  ultimately have "same w'" using assms(2) by (rule triple_use)
  then show ?thesis by (simp add: same_def)
qed

lemma rebuild_grows:
  assumes "RebuildTradeAggregationBuckets s a b w = (r, w')" "tx w = None" "rows_ok (stored w)"
  shows "tx w' = None \<and> grows {} (stored w) (stored w') \<and> sequences (stored w') = sequences (stored w)"
proof -
  have "\<exists>rows. stored w' = (stored w)\<lparr>history_rows := rows\<rparr>" "tx w' = None"
    using RebuildTradeAggregationBuckets_outside [OF assms(2,1)] by blast+
  then show ?thesis using assms(3) by (auto simp: grows_def rows_ok_def sequences_def same_keys_def)
qed

lemma ReingestRange_loop_grows:
  assumes "ReingestRange_loop s False agg ranges w = (r, w')" "tx w = None" "transaction_law s" "rows_ok (stored w)"
  shows "tx w' = None \<and> grows (all_ledgers ranges) (stored w) (stored w')
    \<and> (r = None \<longrightarrow> all_ledgers ranges \<subseteq> set (sequences (stored w'))
         \<and> (\<forall>cur \<in> set ranges. \<forall>x. last_ingested (stored w) = Some x \<longrightarrow> x = 0 \<or> EndSequence cur < x))"
  using assms
proof (induction ranges arbitrary: w)
  case (Cons cur rest)
  obtain r0 w0 where 0: "reingest_once s cur False w = (r0, w0)" by (metis surj_pair)
  obtain r1 w1 where 1: "reingest_retry s cur False (maxReingestRetries s) (r0, w0) = (r1, w1)" by (metis surj_pair)
  note oc = reingest_once_grows [OF 0 Cons.prems(2-4)]
  have g: "tx w1 = None" "grows (range_ledgers cur) (stored w) (stored w1)"
    "r1 = None \<longrightarrow> range_ledgers cur \<subseteq> set (sequences (stored w1)) \<and> (\<forall>x. last_ingested (stored w) = Some x \<longrightarrow> x = 0 \<or> EndSequence cur < x)"
    using reingest_retry_grows [OF 1 Cons.prems(3,4)] oc by simp_all
  have widen: "grows (all_ledgers (cur # rest)) (stored w) (stored w2)"
    if "grows (range_ledgers cur) (stored w) (stored w2)" for w2
    using that by (auto simp: grows_def all_ledgers_def)
  have continue: "tx w' = None \<and> grows (all_ledgers (cur # rest)) (stored w) (stored w')
    \<and> (r = None \<longrightarrow> all_ledgers (cur # rest) \<subseteq> set (sequences (stored w'))
         \<and> (\<forall>cur \<in> set (cur # rest). \<forall>x. last_ingested (stored w) = Some x \<longrightarrow> x = 0 \<or> EndSequence cur < x))"
    if "r1 = None" "ReingestRange_loop s False agg rest w2 = (r, w')" "tx w2 = None" "grows {} (stored w1) (stored w2)" for w2
  proof -
    have g2: "grows (range_ledgers cur) (stored w) (stored w2)" using grows_trans [OF g(2) that(4)] by simp
    note ih = Cons.IH [OF that(2,3) Cons.prems(3) grows_rows [OF g2]]
    have "grows (all_ledgers (cur # rest)) (stored w) (stored w')"
      using grows_trans [OF g2, of "all_ledgers rest" "stored w'"] ih by (simp add: all_ledgers_def)
    moreover have "last_ingested (stored w2) = last_ingested (stored w)" using g2 by (simp add: grows_def same_keys_read)
    moreover have "range_ledgers cur \<subseteq> set (sequences (stored w'))"
      using g(3) that(1,4) ih by (auto simp: grows_def)
    ultimately show ?thesis using ih g(3) that(1) by (auto simp: all_ledgers_def)
  qed
  show ?case
  proof (cases r1)
    case (Some e)
    with Cons.prems(1) 0 1 have "w' = w1" "r \<noteq> None" by auto
    with g(1) widen [OF g(2)] show ?thesis by auto
  next
    case None
    show ?thesis
    proof (cases agg)
      case False
      with Cons.prems(1) 0 1 None g show ?thesis by (intro continue [of w1]) (auto intro: grows_refl grows_rows)
    next
      case True
      obtain r2 w2 where 2: "RebuildTradeAggregationBuckets s (StartSequence cur) (EndSequence cur) w1 = (r2, w2)" by (metis surj_pair)
      note b = rebuild_grows [OF 2 g(1) grows_rows [OF g(2)]]
      show ?thesis
      proof (cases r2)
        case (Inr u)
        with Cons.prems(1) 0 1 2 None True have "ReingestRange_loop s False agg rest w2 = (r, w')" by (simp add: check_def)
        with b None show ?thesis by (intro continue [of w2]) auto
      next
        case (Inl e)
        with Cons.prems(1) 0 1 2 None True have "w' = w2" "r \<noteq> None" by (auto simp: check_def return_def)
        with b widen [of w2] grows_trans [OF g(2), of "{}" "stored w2"] show ?thesis by auto
      qed
    qed
  qed
qed (simp add: all_ledgers_def grows_refl)



section \<open>A forced reingestion that fails\<close>

lemma LedgerRangeInclusive_ex:
  assumes "2 \<le> l" "l \<le> toLedger" "toLedger < 2 ^ 31 - 1"
  shows "\<exists>i j. LedgerRangeInclusive l toLedger = Inr (i, j)"
proof -
  have lt: "l < 2 ^ 31" "toLedger < 2 ^ 31" "toLedger + 1 < 2 ^ 31"
    using assms unat_add_nat [of toLedger 1] by (auto simp: word_less_nat_alt word_le_nat_alt)
  have s: "0 < sint l" "sint l \<le> sint toLedger" "0 \<le> sint (toLedger + 1)" "l \<noteq> 1"
    using assms(1,2) sint_small [OF lt(1)] sint_small [OF lt(2)] sint_small [OF lt(3)] by (auto simp: word_le_def)
  have "\<exists>i. ToInt64 (toid_New l 0 0) = Inr i" "\<exists>j. ToInt64 (toid_New (toLedger + 1) 0 0) = Inr j"
    using ToInt64_value [OF toid_wf_ledger_start] s by fastforce+
  with s show ?thesis by (auto simp: LedgerRangeInclusive_def)
qed

lemma DeleteRange_tables_value:
  assumes "tx w = Some t" "\<not> tx_aborted t" "\<And>k. k < length ts \<Longrightarrow> fails s (calls w + k) = None"
  shows "DeleteRange_tables s i j ts w =
    (Inr (), w\<lparr>calls := calls w + length ts, tx := Some (t\<lparr>tx_db := fold (delete_rows i j) ts (tx_db t)\<rparr>)\<rparr>)"
  using assms
proof (induction ts arbitrary: w t)
  case (Cons table ts)
  let ?w = "w\<lparr>calls := calls w + 1, tx := Some (t\<lparr>tx_db := delete_rows i j table (tx_db t)\<rparr>)\<rparr>"
  have 1: "DeleteRange s i j table w = (Inr (), ?w)"
    using Cons.prems(1,2) Cons.prems(3) [of 0] by (simp add: DeleteRange_def ExecRaw_def conn_stmt_def Let_def)
  have "fails s (calls ?w + k) = None" if "k < length ts" for k
    using Cons.prems(3) [of "Suc k"] that by simp
  from Cons.IH [of ?w "t\<lparr>tx_db := delete_rows i j table (tx_db t)\<rparr>", OF _ _ this] 1 Cons.prems(1,2) show ?case
    by (simp add: try_wrap_def check_def)
qed (simp add: return_def)

text \<open>The range is deleted, its first ledger cannot be fetched, and the deletion is committed.\<close>

lemma forced_reingest_gap:
  assumes w: "tx w = None" "last_ingested (stored w) = Some x" "rows_ok (stored w)"
    and r: "2 \<le> l" "l \<le> toLedger" "toLedger < 2 ^ 31 - 1"
    and s: "1 \<le> maxLedgerPerFlush s" "\<And>n. fails s n = (if n = calls w + 15 then Some e else None)"
  shows "\<exists>err w'. reingest_once s \<lparr>StartSequence = l, EndSequence = toLedger\<rparr> True w = (Some err, w')
     \<and> history_ledgers (stored w') = filter (\<lambda>r. \<not> in_range l toLedger (snd r)) (history_ledgers (stored w))"
proof -
  obtain i j where ij: "LedgerRangeInclusive l toLedger = Inr (i, j)" using LedgerRangeInclusive_ex [OF r] by blast
  have l: "l \<noteq> 0" "l \<noteq> 1" "\<not> toLedger < l" "toLedger \<noteq> 0" using r(1,2) by (auto simp: word_le_nat_alt word_less_nat_alt)
  let ?d = "stored w" and ?n = "calls w"
  let ?t = "\<lparr>tx_db = ?d, tx_aborted = False\<rparr>"
  let ?w3 = "w\<lparr>calls := ?n + 3, tx := Some ?t\<rparr>"
  let ?w15 = "?w3\<lparr>calls := ?n + 15, tx := Some \<lparr>tx_db = delete_all (sint i) (sint j) ?d, tx_aborted = False\<rparr>\<rparr>"
  have prep: "reingest_prepareRange s l toLedger w = (Inr (), w\<lparr>calls := ?n + 1\<rparr>)"
    using s(2) by (simp add: reingest_prepareRange_def try_wrap_def check_def PrepareRange_def outside_call_def return_def Let_def)
  have beg: "Begin s (w\<lparr>calls := ?n + 1\<rparr>) = (Inr (), w\<lparr>calls := ?n + 2, tx := Some ?t\<rparr>)"
    using s(2) w(1) by (simp add: Begin_def Let_def)
  have get: "GetLastLedgerIngest s (w\<lparr>calls := ?n + 2, tx := Some ?t\<rparr>) = (Inr x, ?w3)"
    using s(2) w(2) by (auto simp: GetLastLedgerIngest_def getValueFromStore_def try_wrap_def check_def GetRaw_def
        conn_stmt_def return_def parse_ledger_def last_ingested_def ParseUint32_def Let_def split: option.splits if_splits)
  have del: "DeleteRangeAll s (sint i) (sint j) ?w3 = (Inr (), ?w15)"
    using DeleteRange_tables_value [of ?w3 ?t history_tables s "sint i" "sint j"] s(2)
    by (simp add: DeleteRangeAll_def delete_all_def history_tables_def)
  have fuel: "range_fuel l toLedger = Suc (range_fuel l toLedger - 1)" using r(2) by (simp add: range_fuel_def word_le_nat_alt)
  have loop: "ingestRange_loop s toLedger (range_fuel l toLedger) l [] ?w15 = (Inl (Wrapped ''error getting ledger'' e), ?w15\<lparr>calls := ?n + 16\<rparr>)"
    using s(2) r(2) by (subst fuel) (simp add: try_wrap_def check_def GetLedger_def outside_call_def return_def Let_def)
  have range: "ingestRange s l toLedger ?w3 = (Inl (Wrapped ''error getting ledger'' e), ?w15\<lparr>calls := ?n + 16\<rparr>)"
    using ij s(1) del loop by (simp add: ingestRange_def GetTx_def try_wrap_def check_def return_def linorder_not_less [symmetric])
  let ?w17 = "?w15\<lparr>calls := ?n + 17, tx := None, stored := delete_all (sint i) (sint j) ?d\<rparr>"
  have com: "Commit s (?w15\<lparr>calls := ?n + 16\<rparr>) = (Inr (), ?w17)"
    using s(2) by (simp add: Commit_def Let_def)
  have "reingest_run s l toLedger True w = ((stop, Some (Wrapped ''error getting ledger'' e)), ?w17)"
    using l prep beg get range com
    by (simp add: reingest_run_def Let_def orElse_def check_def return_def deferRollback_def Rollback_def)
  then show ?thesis
    using delete_range_rows [OF ij l(2) w(3)] w(1) by (auto simp: reingest_once_def GetTx_def stop_def)
qed


section \<open>Ledger 1\<close>

text \<open>The range that has ledger 1 only is refused: \<^verbatim>\<open>fromLedger\<close> becomes 2 and lies behind \<^verbatim>\<open>toLedger\<close>.\<close>

abbreviation genesis_range :: LedgerRange where
  "genesis_range \<equiv> \<lparr>StartSequence = 1, EndSequence = 1\<rparr>"

lemma genesis_range_once: "tx w = None \<Longrightarrow> reingest_once s genesis_range force w = (r, w') \<Longrightarrow> r \<noteq> None"
proof -
  assume w: "tx w = None" and r: "reingest_once s genesis_range force w = (r, w')"
  obtain t e w1 where 1: "reingest_run s 1 1 force w = ((t, e), w1)" by (metis surj_pair)
  have "idle (stored w) w" using w by (simp add: idle_def)
  from triple_use [OF reingest_triple this 1] have post: "reingest_post s 2 1 force (stored w) (t, e) (stored w1)" "t = stop"
    by (auto simp: ended_def reingest_post_def)
  have "\<not> reingested s 2 1 (stored w) (stored w1)"
    using LedgerRangeInclusive_bounds(3) [of 2 1] by (auto simp: reingested_def word_le_nat_alt)
  with post(1) have "e \<noteq> None" by (cases e) (simp_all add: reingest_post_def)
  with 1 post(2) r w show "r \<noteq> None" by (simp add: reingest_once_def GetTx_def stop_def)
qed

lemma genesis_range_retry:
  assumes "reingest_retry s genesis_range False k (r0, w0) = (r, w')" "r0 \<noteq> None" "tx w0 = None" "rows_ok (stored w0)" "transaction_law s"
  shows "r \<noteq> None"
  using assms
proof (induction k arbitrary: r0 w0)
  case (Suc k)
  obtain r1 w1 where 1: "reingest_once s genesis_range False w0 = (r1, w1)" by (metis surj_pair)
  have "r1 \<noteq> None" by (rule genesis_range_once [OF Suc.prems(3) 1])
  moreover have "tx w1 = None" "rows_ok (stored w1)" using reingest_once_grows [OF 1 Suc.prems(3,5,4)] by (simp_all add: grows_def)
  ultimately show ?case using Suc.IH [of r1 w1] Suc.prems(1,2,5) 1 by auto
qed simp

lemma genesis_range_blocks:
  assumes "tx w = None" "rows_ok (stored w)" "transaction_law s"
  shows "\<exists>e w'. ReingestRange_loop s False agg (genesis_range # rest) w = (Some e, w') \<and> set (sequences (stored w')) = set (sequences (stored w))"
proof -
  obtain r0 w0 where 0: "reingest_once s genesis_range False w = (r0, w0)" by (metis surj_pair)
  obtain r1 w1 where 1: "reingest_retry s genesis_range False (maxReingestRetries s) (r0, w0) = (r1, w1)" by (metis surj_pair)
  note g0 = reingest_once_grows [OF 0 assms(1,3,2)]
  have r0: "r0 \<noteq> None" by (rule genesis_range_once [OF assms(1) 0])
  have "rows_ok (stored w0)" using g0 by (simp add: grows_def)
  then have "r1 \<noteq> None" using genesis_range_retry [OF 1 r0 conjunct1 [OF g0]] assms(3) by blast
  moreover have "range_ledgers genesis_range = {}" by (auto simp: range_ledgers_def in_range_def word_le_nat_alt)
  then have "set (sequences (stored w1)) = set (sequences (stored w))"
    using reingest_retry_grows [OF 1 assms(3,2)] g0 r0 by (auto simp: grows_def)
  ultimately show ?thesis using 0 1 by auto
qed

end
