(* ===== verification/ReingestLive.thy ===== *)
theory ReingestLive
  imports IngestLive Reingest
begin

text \<open>
  Reingestion of a range succeeds when no call fails, the range is below the last ledger of the live ingestion and the
  history has no ledger twice.
\<close>

lemma live_NonBlocking:
  assumes "calm s c" "last_ingested D = Some x" "triple (idle D) (rest x) Q"
  shows "triple (idle D) (check (GetLastLedgerIngestNonBlocking s) fail rest) Q"
  by (rule live_value [where v = x and rest = rest, OF _ assms(3)])
     (use assms(2) in \<open>auto simp: idle_def GetLastLedgerIngestNonBlocking_def getValueFromStore_def try_wrap_def check_def GetRaw_def
       conn_stmt_def return_def parse_ledger_def calmD(1) [OF assms(1)] last_ingested_def ParseUint32_def split: option.splits if_splits\<close>)

lemma live_reingest_prepareRange:
  assumes "calm s c" "triple (idle D) (rest ()) Q"
  shows "triple (idle D) (check (reingest_prepareRange s l toLedger) fail rest) Q"
  by (rule live_check [where PA = "\<lambda>_. idle D"])
     (use assms(2) in \<open>auto simp: idle_def reingest_prepareRange_def try_wrap_def check_def outside_call_def PrepareRange_def return_def
       calmD(1) [OF assms(1)]\<close>)

lemma live_DeleteRangeAll:
  assumes "calm s c" "triple (in_tx D (delete_all i j E)) (rest ()) Q"
  shows "triple (in_tx D E) (check (DeleteRangeAll s i j) fail rest) Q"
proof (rule live_value [where v = "()" and rest = rest, OF _ assms(2)])
  fix w r w'
  assume w: "in_tx D E w" and r: "DeleteRangeAll s i j w = (r, w')"
  let ?t = "\<lparr>tx_db = E, tx_aborted = False\<rparr>"
  from w have t: "tx w = Some ?t" "\<not> tx_aborted ?t" "stored w = D" by (simp_all add: in_tx_def)
  from DeleteRange_tables_value [OF t(1,2), of history_tables s i j] r calmD(1) [OF assms(1)] t
  show "r = Inr () \<and> in_tx D (delete_all i j E) w'" by (auto simp: DeleteRangeAll_def delete_all_def in_tx_def)
qed

lemma ingestRange_loop_live:
  assumes calm: "calm s c" and "toLedger + 1 \<noteq> 0" and fresh: "fresh s l toLedger B"
    and "batches s B ls E" "ls @ ls' = range_list l k" "cur = l + of_nat k" "k + fuel = range_fuel l toLedger"
  shows "triple (in_tx D E) (ingestRange_loop s toLedger fuel cur (map (ledgerCloseMeta s) ls'))
     (\<lambda>r w. \<exists>ledgers. r = Inr ledgers \<and> loop_done s l (range_fuel l toLedger) toLedger D B ledgers w)"
  using assms(4-7)
proof (induction fuel arbitrary: ls E ls' k cur)
  case 0
  have "\<not> cur \<le> toLedger" using range_end [OF assms(2), of l] fresh 0 by (simp add: fresh_def)
  with 0 show ?case by (auto intro!: triple_return intro: loop_doneI)
next
  case (Suc fuel)
  let ?post = "\<lambda>r w. \<exists>ledgers. r = Inr ledgers \<and> loop_done s l (range_fuel l toLedger) toLedger D B ledgers w"
  have nxt: "ls @ ls' @ [cur] = range_list l (Suc k)" "cur + 1 = l + of_nat (Suc k)" "Suc k + fuel = range_fuel l toLedger"
    using Suc.prems by (simp_all add: range_list_Suc flip: append_assoc)
  have flush: "triple (in_tx D d') (ingestRange_loop s toLedger fuel (cur + 1) []) ?post"
    if "RunTransactionProcessorsOnLedgers s (map (ledgerCloseMeta s) (ls' @ [cur])) m E = (d', None)" for m d'
    using Suc.IH [OF a_batch [OF Suc.prems(1) that] _ nxt(2,3), of "[]"] nxt(1) by simp
  have keep: "triple (in_tx D E) (ingestRange_loop s toLedger fuel (cur + 1) (map (ledgerCloseMeta s) (ls' @ [cur]))) ?post"
    by (rule Suc.IH [OF Suc.prems(1) nxt(1) nxt(2,3)])
  have batch: "distinct (sequences E @ ls' @ [cur])" "\<And>q. q \<in> set (ls' @ [cur]) \<Longrightarrow> q < 2 ^ 31"
    using fresh_batch [OF fresh Suc.prems(1) nxt(1)] nxt(3) by auto
  note process = live_process_batch [OF calm batch(2,1), unfolded map_append list.map]
  show ?case
    unfolding ingestRange_loop.simps Let_def try_wrap_def
    using flush keep Suc.prems
    by (intro triple_if triple_return live [OF calm] process) (auto intro: loop_doneI)
qed

lemma ingestRange_live:
  assumes calm: "calm s c" and ij: "LedgerRangeInclusive l toLedger = Inr (i, j)" and wrap: "toLedger + 1 \<noteq> 0"
    and fresh: "fresh s l toLedger (delete_all (sint i) (sint j) E)"
  shows "triple (in_tx D E) (ingestRange s l toLedger) (\<lambda>r w. r = Inr () \<and> (\<exists>d. in_tx D d w))"
proof -
  let ?n = "range_fuel l toLedger" and ?B = "delete_all (sint i) (sint j) E" and ?post = "\<lambda>r w. r = Inr () \<and> (\<exists>d. in_tx D d w)"
  have last: "triple (in_tx D F) (if length ledgers > 0 then process_batch s ledgers else return (Inr ())) ?post"
    if b: "batches s ?B ls F" "ls @ ls' = range_list l k" and k: "k \<le> ?n" and ledgers: "ledgers = map (ledgerCloseMeta s) ls'" for F ls ls' k ledgers
  proof -
    have "triple (in_tx D F) (check (process_batch s ledgers) (\<lambda>e. return (Inl e)) (\<lambda>_. return (Inr ()))) ?post"
      unfolding ledgers by (rule live_process_batch [OF calm]) (use fresh_batch [OF fresh b k] in \<open>auto intro!: triple_return\<close>)
    then show ?thesis by (simp only: check_return) (auto intro!: triple_if triple_return)
  qed
  have body: "triple (in_tx D E) (check (DeleteRangeAll s (sint i) (sint j)) (\<lambda>e. return (Inl (Wrapped m e))) (\<lambda>_.
      check (ingestRange_loop s toLedger ?n l []) (\<lambda>e. return (Inl e)) (\<lambda>ledgers.
      if length ledgers > 0 then process_batch s ledgers else return (Inr ())))) ?post" for m
  proof (rule live_DeleteRangeAll [OF calm], rule live_check [where PA = "loop_done s l ?n toLedger D ?B"])
    show "\<exists>a. r = Inr a \<and> loop_done s l ?n toLedger D ?B a w'"
      if "in_tx D ?B w" "ingestRange_loop s toLedger ?n l [] w = (r, w')" for w r w'
      using triple_use [OF ingestRange_loop_live [OF calm wrap fresh no_batch, of "[]" 0 l ?n, simplified]] that
      by (simp add: range_list_def)
  qed (rule loop_done_end, rule last)
  show ?thesis
  proof (rule tripleI)
    fix w r w'
    assume w: "in_tx D E w" and r: "ingestRange s l toLedger w = (r, w')"
    have "GetTx w = Some \<lparr>tx_db = E, tx_aborted = False\<rparr>" using w by (simp add: in_tx_def GetTx_def)
    moreover have "\<not> maxLedgerPerFlush s < 1" using calmD(4) [OF calm] by (rule leD)
    ultimately have "check (DeleteRangeAll s (sint i) (sint j)) (\<lambda>e. return (Inl (Wrapped ''error in DeleteRangeAll'' e))) (\<lambda>_.
      check (ingestRange_loop s toLedger ?n l []) (\<lambda>e. return (Inl e)) (\<lambda>ledgers.
      if length ledgers > 0 then process_batch s ledgers else return (Inr ()))) w = (r, w')"
      using r ij unfolding ingestRange_def try_wrap_def by (simp del: length_greater_0_conv)
    from triple_use [OF body w this] show "?post r w'" .
  qed
qed

lemma reingest_succeeds:
  assumes calm: "calm s c" and law: "transaction_law s"
    and D: "tx w = None" "rows_ok (stored w)" "distinct (sequences (stored w))" "last_ingested (stored w) = Some x" "x = 0 \<or> toLedger < x"
    and r: "l \<noteq> 0" "2 \<le> toLedger" "l \<le> toLedger" "toLedger < 2 ^ 31 - 1"
  shows "\<exists>w'. reingest_once s \<lparr>StartSequence = l, EndSequence = toLedger\<rparr> False w = (None, w')"
proof -
  let ?D = "stored w" and ?l = "if l = 1 then 2 else l"
  have l: "2 \<le> ?l" "?l \<le> toLedger" "?l \<noteq> 1"
  proof -
    have "unat l \<noteq> 1" if "l \<noteq> 1" using that by (metis unat_1 word_unat_eq_iff)
    moreover have "unat l \<noteq> 0" using r(1) unat_gt_0 [of l] by simp
    ultimately have "2 \<le> unat l" if "l \<noteq> 1" using that by linarith
    then show "2 \<le> ?l" by (simp add: word_le_nat_alt)
    show "?l \<le> toLedger" "?l \<noteq> 1" using r(2,3) by simp_all
  qed
  obtain i j where ij: "LedgerRangeInclusive ?l toLedger = Inr (i, j)" using LedgerRangeInclusive_ex [OF l(1,2) r(4)] by blast
  note b = LedgerRangeInclusive_bounds [OF ij l(3)]
  have wrap: "toLedger + 1 \<noteq> 0" using b(5) by auto
  have seqs: "sequences (delete_all (sint i) (sint j) ?D) = filter (\<lambda>q. \<not> in_range ?l toLedger q) (sequences ?D)"
    unfolding sequences_def delete_range_rows [OF ij l(3) D(2)] by (simp add: filter_map comp_def)
  have "fresh s ?l toLedger (delete_all (sint i) (sint j) ?D)"
    unfolding fresh_def seqs distinct_append set_range_list_to(1) [OF l(2)]
  proof (intro conjI)
    show "distinct (filter (\<lambda>q. \<not> in_range ?l toLedger q) (sequences ?D))" using D(3) by (rule distinct_filter)
    show "set (filter (\<lambda>q. \<not> in_range ?l toLedger q) (sequences ?D)) \<inter> {q. in_range ?l toLedger q} = {}"
      unfolding set_filter by blast
  qed (fact law set_range_list_to(2) [OF l(2)] l(2) order_less_trans [OF b(5,4)])+
  note range = ingestRange_live [OF calm ij wrap this]
  have run: "triple (idle ?D) (reingest_run s l toLedger False) (\<lambda>r w. r = (stop, None))"
  proof -
    have g: "\<not> (l = 0 \<or> toLedger = 0 \<or> toLedger < l)" "\<not> (0 < x \<and> x \<le> toLedger)"
    proof -
      show "\<not> (l = 0 \<or> toLedger = 0 \<or> toLedger < l)" using r(1,2,3) by (auto dest: leD)
      show "\<not> (0 < x \<and> x \<le> toLedger)" using D(5) by (metis leD less_irrefl)
    qed
    have commit: "triple (\<lambda>w. \<exists>d. in_tx ?D d w) (check (Commit s) (\<lambda>e. return (stop, Some (Wrapped commitErrMsg e))) (\<lambda>_. return (stop, None))) (\<lambda>r w. r = (stop, None))"
      by (rule live_check [where PA = "\<lambda>_ _. True"]) (auto simp: in_tx_def Commit_def calmD(1) [OF calm] intro!: triple_return)
    have body: "triple (in_tx ?D ?D) (check (ingestRange s ?l toLedger) (\<lambda>e. return (stop, Some e)) (\<lambda>_.
        check (Commit s) (\<lambda>e. return (stop, Some (Wrapped commitErrMsg e))) (\<lambda>_. return (stop, None)))) (\<lambda>r w. r = (stop, None))"
      by (rule live_check [where PA = "\<lambda>_ w. \<exists>d. in_tx ?D d w"]) (use triple_use [OF range] commit in blast)+
    show ?thesis
      unfolding reingest_run_def orElse_def Let_def if_not_P [OF g(1)] if_False
      by (intro live_NonBlocking [OF calm D(4)] triple_if triple_return live_reingest_prepareRange [OF calm] live_db(1) [OF calm] triple_deferRollback body)
        (use g(2) in auto)
  qed
  obtain t e w' where 1: "reingest_run s l toLedger False w = ((t, e), w')" by (metis surj_pair)
  have "idle ?D w" using D(1) by (simp add: idle_def)
  from triple_use [OF run this 1] have "t = stop" "e = None" by simp_all
  with 1 D(1) show ?thesis by (simp add: reingest_once_def GetTx_def stop_def)
qed


lemma ReingestRange_loop_succeeds:
  assumes calm: "calm s c" and law: "transaction_law s"
    and "tx w = None" "rows_ok (stored w)" "distinct (sequences (stored w))" "last_ingested (stored w) = Some x"
    and "\<And>cur. cur \<in> set ranges \<Longrightarrow> StartSequence cur \<noteq> 0 \<and> 2 \<le> EndSequence cur \<and> StartSequence cur \<le> EndSequence cur
      \<and> EndSequence cur < 2 ^ 31 - 1 \<and> (x = 0 \<or> EndSequence cur < x)"
  shows "\<exists>w'. ReingestRange_loop s False agg ranges w = (None, w')"
  using assms(3-)
proof (induction ranges arbitrary: w)
  case (Cons cur rest)
  have cur: "\<lparr>StartSequence = StartSequence cur, EndSequence = EndSequence cur\<rparr> = cur" by simp
  obtain w1 where 1: "reingest_once s cur False w = (None, w1)"
    using reingest_succeeds [OF calm law Cons.prems(1-4), of "EndSequence cur" "StartSequence cur"] Cons.prems(5) [of cur]
    by (auto simp: cur)
  have retry: "reingest_retry s cur False k (None, w1) = (None, w1)" for k by (cases k) simp_all
  note g = reingest_once_grows [OF 1 Cons.prems(1) law Cons.prems(2)]
  have next_ok: "tx w2 = None" "rows_ok (stored w2)" "distinct (sequences (stored w2))" "last_ingested (stored w2) = Some x"
    if "tx w2 = None" "grows A (stored w) (stored w2)" for A w2
    using that Cons.prems(3,4) same_keys_read(1) [of "stored w" "stored w2"] by (simp_all add: grows_def)
  have step: "\<exists>w'. ReingestRange_loop s False agg rest w2 = (None, w')" if "tx w2 = None" "grows A (stored w) (stored w2)" for A w2
    by (rule Cons.IH [OF next_ok [OF that]]) (use Cons.prems(5) in auto)
  show ?case
  proof (cases agg)
    case False
    then show ?thesis using step [of w1] g 1 retry by auto
  next
    case True
    obtain r2 w2 where 2: "RebuildTradeAggregationBuckets s (StartSequence cur) (EndSequence cur) w1 = (r2, w2)" by (metis surj_pair)
    have "rows_ok (stored w1)" using g by (simp add: grows_def)
    note b = rebuild_grows [OF 2 conjunct1 [OF g] this]
    have "EndSequence cur \<in> range_ledgers cur" using Cons.prems(5) [of cur] by (auto simp: range_ledgers_def in_range_def)
    then obtain row where "row \<in> set (history_ledgers (stored w1))" "snd row = EndSequence cur"
      using g unfolding sequences_def by fastforce
    with \<open>rows_ok (stored w1)\<close> have "ledger_row (EndSequence cur) \<in> set (history_ledgers (stored w1))"
      unfolding rows_ok_def by metis
    then have "r2 = Inr ()"
      using RebuildTradeAggregationBuckets_ok [OF calm, of w1 "StartSequence cur" "EndSequence cur" "EndSequence cur"] 2 g Cons.prems(5) [of cur]
      by (auto simp: usable_def visible_def)
    moreover have "grows (range_ledgers cur \<union> {}) (stored w) (stored w2)" using grows_trans g b by blast
    ultimately show ?thesis using step [of w2] b 1 2 retry True by (auto simp: check_def)
  qed
qed simp

end
