(* ===== verification/Parallel.thy ===== *)
theory Parallel
  imports Reingest
begin

text \<open>
  Parallel reingestion (\<^verbatim>\<open>services/aurora/internal/ingest/parallel.go\<close>): the ranges are cut into batches, which go through an
  unbuffered channel to workers; each worker reingests one batch after the other with a system of its own. The
  goroutines are a step relation: a send and the receive that takes it are one step, and a \<^verbatim>\<open>select\<close> with several
  cases ready takes any of them. The reingestion of a batch is one step as well: it is a transaction on the
  database, on rows that no other batch touches.
\<close>

section \<open>Batches\<close>

definition historyCheckpointLedgerInterval :: uint32 where "historyCheckpointLedgerInterval = 64"
definition minBatchSize :: uint32 where "minBatchSize = historyCheckpointLedgerInterval"

text \<open>\<open>None\<close>: the division by zero of Go, when the conversion of the worker count to \<^verbatim>\<open>uint32\<close> gives 0.\<close>

definition calculateParallelLedgerBatchSize :: "uint32 \<Rightarrow> uint32 \<Rightarrow> 64 word \<Rightarrow> uint32 option" where
  "calculateParallelLedgerBatchSize rangeSize batchSizeSuggestion workerCount =
     (let workers = ucast workerCount :: uint32; useWorkers = (batchSizeSuggestion = 0 \<or> rangeSize div batchSizeSuggestion < workers) in
      if useWorkers \<and> workers = 0 then None
      else
        (let batchSize = (if useWorkers then rangeSize div workers else batchSizeSuggestion);
             batchSize' = (if batchSize < minBatchSize then minBatchSize else batchSize)
         in Some ((batchSize' div historyCheckpointLedgerInterval) * historyCheckpointLedgerInterval)))"

fun totalRangeSize_from :: "uint32 \<Rightarrow> LedgerRange list \<Rightarrow> uint32" where
  "totalRangeSize_from acc [] = acc"
| "totalRangeSize_from acc (r # rs) = totalRangeSize_from (acc + (EndSequence r - StartSequence r + 1)) rs"

definition totalRangeSize :: "LedgerRange list \<Rightarrow> uint32" where
  "totalRangeSize ledgerRanges = totalRangeSize_from 0 ledgerRanges"

text \<open>
  Where \<^verbatim>\<open>enqueueReingestTasks\<close> stands in its two loops: the ranges from the current one on, with
  \<^verbatim>\<open>subRangeFrom\<close>. \<open>next_job\<close> is the next batch that it offers on the channel, and where it stands after the send.
\<close>

type_synonym position = "LedgerRange list \<times> uint32"

definition first_position :: "LedgerRange list \<Rightarrow> position" where
  "first_position ranges = (ranges, case ranges of [] \<Rightarrow> 0 | cur # _ \<Rightarrow> StartSequence cur)"

fun next_job_from :: "uint32 \<Rightarrow> LedgerRange list \<Rightarrow> uint32 \<Rightarrow> (LedgerRange \<times> position) option" where
  "next_job_from batchSize [] subRangeFrom = None"
| "next_job_from batchSize (cur # rest) subRangeFrom =
     (if subRangeFrom < EndSequence cur then
        (let to0 = subRangeFrom + (batchSize - 1); subRangeTo = (if to0 > EndSequence cur then EndSequence cur else to0)
         in Some (\<lparr>StartSequence = subRangeFrom, EndSequence = subRangeTo\<rparr>, (cur # rest, subRangeTo + 1)))
      else next_job_from batchSize rest (snd (first_position rest)))"

definition next_job :: "uint32 \<Rightarrow> position \<Rightarrow> (LedgerRange \<times> position) option" where
  "next_job batchSize pos = (case pos of (ranges, subRangeFrom) \<Rightarrow> next_job_from batchSize ranges subRangeFrom)"

section \<open>Workers\<close>

definition newParallelSystems :: "64 word \<Rightarrow> go_error + 64 word" where
  "newParallelSystems workerCount =
     (if workerCount < 1 then Inl (Errorf ''workerCount must be > 0'') else Inr workerCount)"

datatype worker = Waiting | Working LedgerRange | Exited

record rangeError =
  re_err :: go_error
  re_ledgerRange :: LedgerRange

definition bounds_text :: "uint32 \<Rightarrow> uint32 \<Rightarrow> string" where
  "bounds_text a b = ''['' @ show_nat (unat a) @ '', '' @ show_nat (unat b) @ '']''"

definition rangeError_Error :: "rangeError \<Rightarrow> go_error" where
  "rangeError_Error e =
     Wrapped (''error when processing '' @ bounds_text (StartSequence (re_ledgerRange e)) (EndSequence (re_ledgerRange e)) @ '' range'') (re_err e)"

definition MaxUint32 :: uint32 where "MaxUint32 = - 1"

text \<open>\<open>stop_closed\<close>: the channel \<^verbatim>\<open>stop\<close> is closed; \<open>enqueued\<close>: \<^verbatim>\<open>enqueueReingestTasks\<close> has returned.\<close>

record ('s, 'r) parallel =
  pos :: position
  lowestLedger :: uint32
  enqueued :: bool
  stop_closed :: bool
  workers :: "nat \<Rightarrow> worker"
  lowestRangeErr :: "rangeError option"
  pdb :: "('s, 'r) db"

definition parallel_init :: "LedgerRange list \<Rightarrow> ('s, 'r) db \<Rightarrow> ('s, 'r) parallel" where
  "parallel_init ledgerRanges d =
     \<lparr>pos = first_position ledgerRanges, lowestLedger = MaxUint32, enqueued = False, stop_closed = False,
      workers = (\<lambda>_. Waiting), lowestRangeErr = None, pdb = d\<rparr>"

definition send_job :: "nat \<Rightarrow> LedgerRange \<Rightarrow> position \<Rightarrow> ('s, 'r) parallel \<Rightarrow> ('s, 'r) parallel" where
  "send_job i job pos' c =
     c\<lparr>pos := pos', workers := (workers c)(i := Working job),
       lowestLedger := (if StartSequence job < lowestLedger c then StartSequence job else lowestLedger c)\<rparr>"

definition record_error :: "go_error \<Rightarrow> LedgerRange \<Rightarrow> rangeError option \<Rightarrow> rangeError option" where
  "record_error e job lowest =
     (case lowest of
        None \<Rightarrow> Some \<lparr>re_err = e, re_ledgerRange = job\<rparr>
      | Some low \<Rightarrow>
          if StartSequence (re_ledgerRange low) > StartSequence job then Some \<lparr>re_err = e, re_ledgerRange = job\<rparr> else Some low)"

inductive parallel_step ::
    "('m, 'h, 's, 'r) system set \<Rightarrow> nat \<Rightarrow> uint32 \<Rightarrow> ('s, 'r) parallel \<Rightarrow> ('s, 'r) parallel \<Rightarrow> bool" for systems n batchSize where
  job_sent: "\<not> enqueued c \<Longrightarrow> next_job batchSize (pos c) = Some (job, pos') \<Longrightarrow> i < n \<Longrightarrow> workers c i = Waiting \<Longrightarrow>
     parallel_step systems n batchSize c (send_job i job pos' c)"
| enqueue_stopped: "\<not> enqueued c \<Longrightarrow> next_job batchSize (pos c) = Some (job, pos') \<Longrightarrow> stop_closed c \<Longrightarrow>
     parallel_step systems n batchSize c (c\<lparr>enqueued := True\<rparr>)"
| enqueue_ended: "\<not> enqueued c \<Longrightarrow> next_job batchSize (pos c) = None \<Longrightarrow>
     parallel_step systems n batchSize c (c\<lparr>enqueued := True, stop_closed := True\<rparr>)"
| worker_stopped: "i < n \<Longrightarrow> workers c i = Waiting \<Longrightarrow> stop_closed c \<Longrightarrow>
     parallel_step systems n batchSize c (c\<lparr>workers := (workers c)(i := Exited)\<rparr>)"
| job_done: "i < n \<Longrightarrow> workers c i = Working job \<Longrightarrow> s \<in> systems \<Longrightarrow> tx w = None \<Longrightarrow> stored w = pdb c \<Longrightarrow>
     ReingestRange s [job] False False w = (None, w') \<Longrightarrow>
     parallel_step systems n batchSize c (c\<lparr>workers := (workers c)(i := Waiting), pdb := stored w'\<rparr>)"
| job_failed: "i < n \<Longrightarrow> workers c i = Working job \<Longrightarrow> s \<in> systems \<Longrightarrow> tx w = None \<Longrightarrow> stored w = pdb c \<Longrightarrow>
     ReingestRange s [job] False False w = (Some e, w') \<Longrightarrow>
     parallel_step systems n batchSize c
       (c\<lparr>workers := (workers c)(i := Exited), lowestRangeErr := record_error e job (lowestRangeErr c),
          stop_closed := True, pdb := stored w'\<rparr>)"

abbreviation parallel_reachable ::
    "('m, 'h, 's, 'r) system set \<Rightarrow> nat \<Rightarrow> uint32 \<Rightarrow> ('s, 'r) parallel \<Rightarrow> ('s, 'r) parallel \<Rightarrow> bool" where
  "parallel_reachable systems n batchSize \<equiv> (parallel_step systems n batchSize)\<^sup>*\<^sup>*"

text \<open>\<^verbatim>\<open>wg.Wait()\<close> is over.\<close>

definition workers_done :: "nat \<Rightarrow> ('s, 'r) parallel \<Rightarrow> bool" where
  "workers_done n c \<longleftrightarrow> enqueued c \<and> (\<forall>i < n. workers c i = Exited)"

section \<open>The command\<close>

fun rebuildTradeAgg_loop :: "('m, 'h, 's, 'r) system \<Rightarrow> LedgerRange list \<Rightarrow> ('s, 'r) world \<Rightarrow> go_error option \<times> ('s, 'r) world" where
  "rebuildTradeAgg_loop s [] = return None"
| "rebuildTradeAgg_loop s (cur # rest) =
     check (RebuildTradeAggregationBuckets s (StartSequence cur) (EndSequence cur))
       (\<lambda>e. return (Some (Wrapped (''Error rebuilding trade aggregations for range start='' @ show_nat (unat (StartSequence cur)) @
          '', stop='' @ show_nat (unat (EndSequence cur))) e)))
       (\<lambda>_. rebuildTradeAgg_loop s rest)"

definition rebuildTradeAggRanges ::
    "(go_error + ('m, 'h, 's, 'r) system) \<Rightarrow> LedgerRange list \<Rightarrow> ('s, 'r) world \<Rightarrow> go_error option \<times> ('s, 'r) world" where
  "rebuildTradeAggRanges systemFactory ledgerRanges =
     (case systemFactory of
        Inl e \<Rightarrow> return (Some e)
      | Inr s \<Rightarrow> rebuildTradeAgg_loop s ledgerRanges)"

text \<open>What is returned when the workers are done. The error of the rebuild is only logged when a batch has failed.\<close>

definition finishReingest ::
    "(go_error + ('m, 'h, 's, 'r) system) \<Rightarrow> LedgerRange list \<Rightarrow> uint32 \<Rightarrow> rangeError option \<Rightarrow> ('s, 'r) world \<Rightarrow> go_error option \<times> ('s, 'r) world" where
  "finishReingest systemFactory ledgerRanges lowest lowestErr w =
     (case lowestErr of
        Some low \<Rightarrow>
          (case rebuildTradeAggRanges systemFactory [\<lparr>StartSequence = lowest, EndSequence = StartSequence (re_ledgerRange low)\<rparr>] w of
             (_, w') \<Rightarrow>
               (Some (Wrapped (''job failed, recommended restart range: '' @
                  bounds_text (StartSequence (re_ledgerRange low)) (EndSequence (last ledgerRanges))) (rangeError_Error low)), w'))
      | None \<Rightarrow> rebuildTradeAggRanges systemFactory ledgerRanges w)"


section \<open>The batches of the ranges\<close>

text \<open>The first \<open>k\<close> batches from a position on, and the position after them.\<close>

fun job_list :: "uint32 \<Rightarrow> nat \<Rightarrow> position \<Rightarrow> LedgerRange list" where
  "job_list b 0 p = []"
| "job_list b (Suc k) p = (case next_job b p of None \<Rightarrow> [] | Some (job, p') \<Rightarrow> job # job_list b k p')"

fun job_position :: "uint32 \<Rightarrow> nat \<Rightarrow> position \<Rightarrow> position" where
  "job_position b 0 p = p"
| "job_position b (Suc k) p = (case next_job b p of None \<Rightarrow> p | Some (job, p') \<Rightarrow> job_position b k p')"

lemma job_list_add:
  "job_list b (j + k) p = job_list b j p @ job_list b k (job_position b j p)"
  "job_position b (j + k) p = job_position b k (job_position b j p)"
proof -
  have none: "job_list b k q = [] \<and> job_position b k q = q" if "next_job b q = None" for k q using that by (cases k) auto
  show "job_list b (j + k) p = job_list b j p @ job_list b k (job_position b j p)"
    by (induction j arbitrary: p) (auto split: option.splits simp: none)
  show "job_position b (j + k) p = job_position b k (job_position b j p)"
    by (induction j arbitrary: p) (auto split: option.splits simp: none)
qed

lemma job_list_cong:
  "next_job b p = next_job b q \<Longrightarrow> job_list b k p = job_list b k q"
  "next_job b p = next_job b q \<Longrightarrow> next_job b (job_position b k p) = next_job b (job_position b k q)"
  by (cases k; simp split: option.splits)+

lemma job_list_end: "next_job b (job_position b k p) = None \<Longrightarrow> set (job_list b j p) \<subseteq> set (job_list b k p)"
proof (cases "j \<le> k")
  case True
  then show ?thesis using job_list_add(1) [of b j "k - j" p] by simp
next
  case False
  assume "next_job b (job_position b k p) = None"
  then have "job_list b (j - k) (job_position b k p) = []" by (cases "j - k") auto
  then show ?thesis using job_list_add(1) [of b k "j - k" p] False by simp
qed

text \<open>Ranges one after the other, from ledger \<open>lo\<close> on.\<close>

fun ordered :: "nat \<Rightarrow> LedgerRange list \<Rightarrow> bool" where
  "ordered lo [] = True"
| "ordered lo (r # rs) = (lo \<le> unat (StartSequence r) \<and> StartSequence r \<le> EndSequence r \<and> ordered (unat (EndSequence r) + 1) rs)"

fun end_of :: "nat \<Rightarrow> LedgerRange list \<Rightarrow> nat" where
  "end_of lo [] = lo"
| "end_of lo (r # rs) = end_of (unat (EndSequence r) + 1) rs"

lemma ordered_append: "ordered lo (rs @ rs') \<longleftrightarrow> ordered lo rs \<and> ordered (end_of lo rs) rs'"
  by (induction rs arbitrary: lo) auto

lemma ordered_mono: "ordered lo rs \<Longrightarrow> lo' \<le> lo \<Longrightarrow> ordered lo' rs"
  by (cases rs) auto

lemma ordered_ge: "ordered lo rs \<Longrightarrow> r \<in> set rs \<Longrightarrow> lo \<le> unat (StartSequence r)"
proof (induction rs arbitrary: lo)
  case (Cons x rs)
  then show ?case using Cons.IH [of "unat (EndSequence x) + 1"] by (fastforce simp: word_le_nat_alt)
qed simp

lemma validateRanges_ordered:
  "validateRanges ranges = None \<longleftrightarrow> ordered 1 ranges"
proof -
  have pos: "q = 0 \<longleftrightarrow> \<not> Suc 0 \<le> unat q" for q :: uint32 using unat_gt_0 [of q] by auto
  have step: "validateRanges_from (Some p) rs = None \<longleftrightarrow> ordered (unat (EndSequence p) + 1) rs" for p rs
    by (induction rs arbitrary: p) (auto simp: word_le_nat_alt word_less_nat_alt pos)
  show ?thesis
    by (cases ranges) (auto simp: validateRanges_def step pos word_le_nat_alt word_less_nat_alt)
qed

definition span :: "LedgerRange \<Rightarrow> uint32 set" where
  "span r = {q. StartSequence r \<le> q \<and> q \<le> EndSequence r}"

definition spans :: "LedgerRange list \<Rightarrow> uint32 set" where
  "spans rs = (\<Union>r \<in> set rs. span r)"

text \<open>What the loop over a range leaves out: its last ledger, when that would be a batch of its own.\<close>

definition skipped_from :: "nat \<Rightarrow> nat \<Rightarrow> uint32 \<Rightarrow> uint32 set" where
  "skipped_from b x e = (if x \<le> unat e \<and> (unat e - x) mod b = 0 then {e} else {})"

definition skipped :: "uint32 \<Rightarrow> LedgerRange \<Rightarrow> uint32 set" where
  "skipped b r = skipped_from (unat b) (unat (StartSequence r)) (EndSequence r)"

lemma unat_add_small: "unat x + unat y < 2 ^ 32 \<Longrightarrow> unat (x + y :: uint32) = unat x + unat y"
  using unat_add_nat [of x "unat y"] by simp

lemma cover_step:
  fixes f t t1 e :: uint32
  assumes "unat t1 = unat t + 1" "f \<le> t" "t \<le> e" "K \<subseteq> {e}" "K \<noteq> {} \<Longrightarrow> t1 \<le> e"
  shows "{q. f \<le> q \<and> q \<le> t} \<union> ({q. t1 \<le> q \<and> q \<le> e} - K) = {q. f \<le> q \<and> q \<le> e} - K"
proof -
  have split: "t1 \<le> q \<longleftrightarrow> \<not> q \<le> t" for q using assms(1) by (auto simp: word_le_nat_alt)
  have K: "q \<notin> K" if "q \<le> t" for q using assms(4,5) that split by blast
  show ?thesis
    unfolding split using assms(2,3) K by (auto intro: order_trans)
qed

lemma range_loop:
  assumes b: "b \<noteq> 0" and e: "unat (EndSequence cur) + unat b < 2 ^ 32"
  shows "unat f \<le> unat (EndSequence cur) + 1 \<Longrightarrow>
    \<exists>k f'. job_position b k (cur # rest, f) = (cur # rest, f') \<and> \<not> f' < EndSequence cur \<and>
      (let js = job_list b k (cur # rest, f) in
        ordered (unat f) js \<and> end_of (unat f) js \<le> unat (EndSequence cur) + 1 \<and> (\<forall>j \<in> set js. EndSequence j \<le> EndSequence cur) \<and>
        spans js = {q. f \<le> q \<and> q \<le> EndSequence cur} - skipped_from (unat b) (unat f) (EndSequence cur))"
proof (induction "unat (EndSequence cur) + 1 - unat f" arbitrary: f rule: less_induct)
  case less
  let ?e = "EndSequence cur"
  have b1: "unat b \<ge> 1" using b unat_gt_0 [of b] by simp
  show ?case
  proof (cases "f < ?e")
    case False
    have "{q. f \<le> q \<and> q \<le> ?e} = skipped_from (unat b) (unat f) ?e"
      using False less.prems by (auto simp: skipped_from_def word_less_nat_alt word_le_nat_alt word_unat_eq_iff)
    with False less.prems show ?thesis by (intro exI [of _ 0] exI [of _ f]) (simp add: spans_def)
  next
    case True
    then have fe: "unat f < unat ?e" by (simp add: word_less_nat_alt)
    let ?t0 = "f + (b - 1)"
    have "unat (b - 1) = unat b - 1" using b by (rule unat_minus_one)
    then have t0: "unat ?t0 = unat f + (unat b - 1)" using fe e unat_add_small [of f "b - 1"] by simp
    let ?t = "if ?t0 > ?e then ?e else ?t0"
    have t: "unat ?t = min (unat ?e) (unat f + (unat b - 1))" using t0 by (auto simp: word_less_nat_alt)
    have t1: "unat (?t + 1) = unat ?t + 1" using unat_add_small [of ?t 1] t e b1 by (auto simp: min_def split: if_splits)
    let ?j = "\<lparr>StartSequence = f, EndSequence = ?t\<rparr>"
    have nj: "next_job b (cur # rest, f) = Some (?j, (cur # rest, ?t + 1))" using True by (simp add: next_job_def Let_def)
    have "unat ?e + 1 - unat (?t + 1) < unat ?e + 1 - unat f" "unat (?t + 1) \<le> unat ?e + 1"
      unfolding t1 using t fe by auto
    from less.hyps [OF this] obtain k f' where k:
      "job_position b k (cur # rest, ?t + 1) = (cur # rest, f')" "\<not> f' < ?e"
      "let js = job_list b k (cur # rest, ?t + 1) in
        ordered (unat (?t + 1)) js \<and> end_of (unat (?t + 1)) js \<le> unat ?e + 1 \<and> (\<forall>j \<in> set js. EndSequence j \<le> ?e) \<and>
        spans js = {q. ?t + 1 \<le> q \<and> q \<le> ?e} - skipped_from (unat b) (unat (?t + 1)) ?e" by blast
    let ?js = "job_list b k (cur # rest, ?t + 1)"
    have te: "f \<le> ?t" "?t \<le> ?e" using t fe by (auto simp: word_le_nat_alt)
    have skip: "skipped_from (unat b) (unat (?t + 1)) ?e = skipped_from (unat b) (unat f) ?e"
    proof (cases "unat f + (unat b - 1) < unat ?e")
      case True
      then have "unat (?t + 1) = unat f + unat b" using t1 t b1 by simp
      moreover have "(unat ?e - (unat f + unat b)) mod unat b = (unat ?e - unat f) mod unat b"
        using le_mod_geq [of "unat b" "unat ?e - unat f"] True b1 by (simp add: diff_diff_left)
      moreover have "unat f + unat b \<le> unat ?e" using True b1 by linarith
      ultimately show ?thesis using fe by (simp add: skipped_from_def)
    next
      case False
      then have "unat (?t + 1) = unat ?e + 1" using t1 t by simp
      moreover have "(unat ?e - unat f) mod unat b \<noteq> 0"
        using False fe b1 by (subst mod_less) auto
      ultimately show ?thesis by (simp add: skipped_from_def)
    qed
    have cover: "spans (?j # ?js) = {q. f \<le> q \<and> q \<le> ?e} - skipped_from (unat b) (unat f) ?e"
    proof -
      have "spans (?j # ?js) = {q. f \<le> q \<and> q \<le> ?t} \<union> spans ?js" by (auto simp: spans_def span_def)
      moreover have "spans ?js = {q. ?t + 1 \<le> q \<and> q \<le> ?e} - skipped_from (unat b) (unat f) ?e"
        using k(3) by (simp only: Let_def skip)
      moreover have "?t + 1 \<le> ?e" if "skipped_from (unat b) (unat f) ?e \<noteq> {}"
        using that unfolding skip [symmetric] by (auto simp: skipped_from_def word_le_nat_alt split: if_splits)
      moreover have "skipped_from (unat b) (unat f) ?e \<subseteq> {?e}" by (simp add: skipped_from_def)
      ultimately show ?thesis using cover_step [OF t1 te] by simp
    qed
    show ?thesis
      by (intro exI [of _ "Suc k"] exI [of _ f']) (use nj k te cover t1 in \<open>simp add: Let_def\<close>)
  qed
qed


lemma end_of_le: "lo \<le> x \<Longrightarrow> end_of x js \<le> y \<Longrightarrow> end_of lo js \<le> y"
  by (cases js) auto

lemma enqueue_all:
  assumes "b \<noteq> 0" "ordered lo ranges" "\<And>r. r \<in> set ranges \<Longrightarrow> unat (EndSequence r) + unat b < 2 ^ 32"
  shows "\<exists>k. next_job b (job_position b k (first_position ranges)) = None \<and> ordered lo (job_list b k (first_position ranges))
    \<and> spans (job_list b k (first_position ranges)) = (\<Union>r \<in> set ranges. span r - skipped b r)"
  using assms(2,3)
proof (induction ranges arbitrary: lo)
  case Nil
  show ?case by (intro exI [of _ 0]) (simp add: first_position_def next_job_def spans_def)
next
  case (Cons cur rest)
  let ?p = "first_position (cur # rest)" and ?f = "StartSequence cur"
  have p: "?p = (cur # rest, ?f)" by (simp add: first_position_def)
  have f: "unat ?f \<le> unat (EndSequence cur) + 1" "lo \<le> unat ?f" using Cons.prems(1) by (auto simp: word_le_nat_alt)
  obtain k f' where k: "job_position b k ?p = (cur # rest, f')" "\<not> f' < EndSequence cur"
    and js: "ordered (unat ?f) (job_list b k ?p)" "end_of (unat ?f) (job_list b k ?p) \<le> unat (EndSequence cur) + 1"
      "spans (job_list b k ?p) = span cur - skipped b cur"
    using range_loop [OF assms(1) Cons.prems(2), of cur ?f rest] f(1) by (auto simp: p Let_def span_def skipped_def)
  have same: "next_job b (cur # rest, f') = next_job b (first_position rest)"
    using k(2) by (simp add: next_job_def first_position_def)
  obtain k2 where k2: "next_job b (job_position b k2 (first_position rest)) = None"
    "ordered (unat (EndSequence cur) + 1) (job_list b k2 (first_position rest))"
    "spans (job_list b k2 (first_position rest)) = (\<Union>r \<in> set rest. span r - skipped b r)"
    using Cons.IH [of "unat (EndSequence cur) + 1"] Cons.prems by auto
  have list: "job_list b (k + k2) ?p = job_list b k ?p @ job_list b k2 (first_position rest)"
    using job_list_add(1) [of b k k2 ?p] job_list_cong(1) [OF same] k(1) by simp
  have "next_job b (job_position b (k + k2) ?p) = None"
    using job_list_add(2) [of b k k2 ?p] job_list_cong(2) [OF same] k(1) k2(1) by simp
  moreover have "ordered lo (job_list b (k + k2) ?p)"
    unfolding list ordered_append
    using ordered_mono [OF js(1) f(2)] ordered_mono [OF k2(2) end_of_le [OF f(2) js(2)]] by simp
  moreover have "spans (job_list b (k + k2) ?p) = (\<Union>r \<in> set (cur # rest). span r - skipped b r)"
    unfolding list using js(3) k2(3) by (simp add: spans_def)
  ultimately show ?case by blast
qed

section \<open>The workers\<close>

text \<open>A batch that was sent is being worked on, is in the history, or lies behind the recorded error.\<close>

definition accounted :: "nat \<Rightarrow> ('s, 'r) parallel \<Rightarrow> LedgerRange \<Rightarrow> bool" where
  "accounted n c job \<longleftrightarrow>
     (\<exists>i < n. workers c i = Working job) \<or> range_ledgers job \<subseteq> set (sequences (pdb c))
     \<or> (\<exists>low. lowestRangeErr c = Some low \<and> StartSequence (re_ledgerRange low) \<le> StartSequence job)"

definition par_inv :: "('s, 'r) db \<Rightarrow> nat \<Rightarrow> uint32 \<Rightarrow> position \<Rightarrow> nat \<Rightarrow> ('s, 'r) parallel \<Rightarrow> bool" where
  "par_inv d0 n b p0 k c \<longleftrightarrow>
     pos c = job_position b k p0 \<and> grows (all_ledgers (job_list b k p0)) d0 (pdb c)
     \<and> (\<forall>job \<in> set (job_list b k p0). accounted n c job)
     \<and> (\<forall>i < n. \<forall>job. workers c i = Working job \<longrightarrow> job \<in> set (job_list b k p0))
     \<and> (\<forall>low. lowestRangeErr c = Some low \<longrightarrow> re_ledgerRange low \<in> set (job_list b k p0) \<and> stop_closed c)
     \<and> (lowestRangeErr c = None \<longrightarrow> (stop_closed c \<longrightarrow> enqueued c) \<and> (enqueued c \<longrightarrow> next_job b (pos c) = None))
     \<and> (enqueued c \<longrightarrow> stop_closed c) \<and> (\<forall>i < n. workers c i = Exited \<longrightarrow> stop_closed c)"

lemma accounted_step:
  assumes "accounted n c job" "set (sequences (pdb c)) \<subseteq> set (sequences (pdb c'))"
    and "\<And>i. i < n \<Longrightarrow> workers c i = Working job \<Longrightarrow> workers c' i = Working job \<or> accounted n c' job"
    and "\<And>low. lowestRangeErr c = Some low \<Longrightarrow> \<exists>low'. lowestRangeErr c' = Some low' \<and> StartSequence (re_ledgerRange low') \<le> StartSequence (re_ledgerRange low)"
  shows "accounted n c' job"
  using assms unfolding accounted_def by (meson order_trans subset_trans)

lemma record_error_low:
  "\<exists>low'. record_error e job lowest = Some low' \<and> StartSequence (re_ledgerRange low') \<le> StartSequence job"
  "lowest = Some low \<Longrightarrow> \<exists>low'. record_error e job lowest = Some low' \<and> StartSequence (re_ledgerRange low') \<le> StartSequence (re_ledgerRange low)"
  "record_error e job lowest = Some low' \<Longrightarrow> re_ledgerRange low' = job \<or> lowest = Some low'"
  by (auto simp: record_error_def split: option.splits if_splits)

lemma par_inv_init: "rows_ok d \<Longrightarrow> par_inv d n b (first_position ranges) 0 (parallel_init ranges d)"
  by (simp add: par_inv_def parallel_init_def grows_refl)

lemma job_list_Suc: "next_job b (job_position b k p) = Some (job, p') \<Longrightarrow>
    job_list b (Suc k) p = job_list b k p @ [job] \<and> job_position b (Suc k) p = p'"
  using job_list_add [of b k 1 p] by simp

lemma grows_more: "grows A D d \<Longrightarrow> A \<subseteq> B \<Longrightarrow> grows B D d"
  by (auto simp: grows_def)

lemma job_grows:
  assumes "ReingestRange s [job] False False w = (r, w')" "tx w = None" "stored w = d" "rows_ok d" "transaction_law s"
  shows "grows (range_ledgers job) d (stored w') \<and> (r = None \<longrightarrow> range_ledgers job \<subseteq> set (sequences (stored w')))"
proof (cases "validateRanges [job]")
  case None
  with assms(1) have "ReingestRange_loop s False False [job] w = (r, w')" by (simp add: ReingestRange_def)
  from ReingestRange_loop_grows [OF this assms(2,5)] assms(3,4) show ?thesis by (simp add: all_ledgers_def)
next
  case (Some e)
  with assms show ?thesis by (auto simp: ReingestRange_def grows_refl)
qed

lemma par_inv_step:
  assumes "parallel_step systems n b c c'" "par_inv d0 n b p0 k c" "\<And>s. s \<in> systems \<Longrightarrow> transaction_law s"
  shows "\<exists>k'. par_inv d0 n b p0 k' c'"
  using assms
proof (induction rule: parallel_step.induct)
  case (job_sent c job pos' i)
  have nxt: "job_list b (Suc k) p0 = job_list b k p0 @ [job]" "job_position b (Suc k) p0 = pos'"
    using job_list_Suc [of b k p0 job pos'] job_sent by (auto simp: par_inv_def)
  let ?c = "send_job i job pos' c"
  have "accounted n ?c job" using job_sent(3) by (auto simp: accounted_def send_job_def)
  moreover have "accounted n ?c job'" if "accounted n c job'" for job'
    by (rule accounted_step [OF that]) (use job_sent(4) in \<open>auto simp: send_job_def\<close>)
  moreover have "grows (all_ledgers (job_list b (Suc k) p0)) d0 (pdb c)"
    using job_sent nxt by (auto simp: par_inv_def all_ledgers_def intro: grows_more)
  ultimately have "par_inv d0 n b p0 (Suc k) ?c"
    using job_sent unfolding par_inv_def nxt by (auto simp: send_job_def)
  then show ?case by blast
next
  case (worker_stopped i c)
  let ?c = "c\<lparr>workers := (workers c)(i := Exited)\<rparr>"
  have "accounted n ?c job" if "accounted n c job" for job
    by (rule accounted_step [OF that]) (use worker_stopped(2) in auto)
  then have "par_inv d0 n b p0 k ?c" using worker_stopped unfolding par_inv_def by auto
  then show ?case by blast
next
  case (job_done i c job s w w')
  let ?c = "c\<lparr>workers := (workers c)(i := Waiting), pdb := stored w'\<rparr>"
  from job_done have job: "job \<in> set (job_list b k p0)" and rows: "rows_ok (pdb c)" by (auto simp: par_inv_def grows_def)
  note g = job_grows [OF job_done(6,4,5) rows job_done(8) [OF job_done(3)]]
  have "grows (all_ledgers (job_list b k p0)) d0 (stored w')"
    using grows_trans [of "all_ledgers (job_list b k p0)" d0 "pdb c" "range_ledgers job" "stored w'"] g job job_done(7)
    by (auto simp: par_inv_def all_ledgers_def intro: grows_more)
  moreover have "accounted n ?c job'" if "accounted n c job'" for job'
  proof (rule accounted_step [OF that])
    show "workers ?c i' = Working job' \<or> accounted n ?c job'" if "workers c i' = Working job'" for i'
      using that g job_done(2) by (cases "i' = i") (auto simp: accounted_def)
  qed (use g in \<open>auto simp: grows_def\<close>)
  ultimately have "par_inv d0 n b p0 k ?c"
    using job_done(7) unfolding par_inv_def by auto
  then show ?case by blast
next
  case (job_failed i c job s w e w')
  let ?c = "c\<lparr>workers := (workers c)(i := Exited), lowestRangeErr := record_error e job (lowestRangeErr c),
     stop_closed := True, pdb := stored w'\<rparr>"
  from job_failed have job: "job \<in> set (job_list b k p0)" and rows: "rows_ok (pdb c)" by (auto simp: par_inv_def grows_def)
  note g = job_grows [OF job_failed(6,4,5) rows job_failed(8) [OF job_failed(3)]]
  have "grows (all_ledgers (job_list b k p0)) d0 (stored w')"
    using grows_trans [of "all_ledgers (job_list b k p0)" d0 "pdb c" "range_ledgers job" "stored w'"] g job job_failed(7)
    by (auto simp: par_inv_def all_ledgers_def intro: grows_more)
  moreover have "accounted n ?c job'" if "accounted n c job'" for job'
  proof (rule accounted_step [OF that])
    show "workers ?c i' = Working job' \<or> accounted n ?c job'" if "workers c i' = Working job'" for i'
      using that job_failed(2) record_error_low(1) [of e job "lowestRangeErr c"]
      by (cases "i' = i") (auto simp: accounted_def)
  qed (use g record_error_low(2) [of "lowestRangeErr c" _ e job] in \<open>auto simp: grows_def\<close>)
  moreover have "re_ledgerRange low \<in> set (job_list b k p0)" if "record_error e job (lowestRangeErr c) = Some low" for low
    using record_error_low(3) [OF that] job job_failed(7) by (auto simp: par_inv_def)
  moreover have "record_error e job (lowestRangeErr c) \<noteq> None" using record_error_low(1) [of e job "lowestRangeErr c"] by auto
  ultimately have "par_inv d0 n b p0 k ?c"
    using job_failed(7) unfolding par_inv_def by auto
  then show ?case by blast
qed (auto simp: par_inv_def accounted_def)

lemma parallel_step_mono: "parallel_step systems n b c c' \<Longrightarrow> systems \<subseteq> systems' \<Longrightarrow> parallel_step systems' n b c c'"
  by (induction rule: parallel_step.induct) (auto intro: parallel_step.intros)

interpretation parallel: step_invariant
  "parallel_step {s :: ('m, 'h, 's, 'r) system. transaction_law s} n b" "\<lambda>c. \<exists>k. par_inv d n b p0 k c" for n b d p0
  by unfold_locales (blast dest: par_inv_step)

lemma par_inv_reachable:
  assumes "parallel_reachable systems n b (parallel_init ranges d) c" "\<And>s. s \<in> systems \<Longrightarrow> transaction_law s" "rows_ok d"
  shows "\<exists>k. par_inv d n b (first_position ranges) k c"
proof -
  have "systems \<subseteq> {s. transaction_law s}" (is "_ \<subseteq> ?ok") using assms(2) by blast
  then have step: "parallel_step ?ok n b x y" if "parallel_step systems n b x y" for x y
    using that by (rule parallel_step_mono [rotated])
  have init: "\<exists>k. par_inv d n b (first_position ranges) k (parallel_init ranges d)" using par_inv_init [OF assms(3)] by blast
  show ?thesis by (rule parallel.restricted_inv [OF assms(1) _ init]) (rule step)
qed

text \<open>When the workers are done, only the recorded error can keep a batch from being in the history.\<close>

lemma par_inv_done:
  assumes "par_inv d n b p0 k c" "workers_done n c"
  shows "lowestRangeErr c = None \<Longrightarrow> next_job b (job_position b k p0) = None \<and> all_ledgers (job_list b k p0) \<subseteq> set (sequences (pdb c))"
    and "lowestRangeErr c = Some low \<Longrightarrow> re_ledgerRange low \<in> set (job_list b k p0)
      \<and> (\<forall>job \<in> set (job_list b k p0). StartSequence job < StartSequence (re_ledgerRange low) \<longrightarrow> range_ledgers job \<subseteq> set (sequences (pdb c)))"
  using assms unfolding par_inv_def workers_done_def accounted_def all_ledgers_def
  by (force simp: linorder_not_le)+


section \<open>Progress\<close>

text \<open>Exactly \<open>m\<close> more batches follow.\<close>

definition jobs_left :: "uint32 \<Rightarrow> position \<Rightarrow> nat \<Rightarrow> bool" where
  "jobs_left b p m \<longleftrightarrow> next_job b (job_position b m p) = None \<and> length (job_list b m p) = m"

lemma jobs_left_ex: "next_job b (job_position b k p) = None \<Longrightarrow> \<exists>m. jobs_left b p m"
proof (induction k arbitrary: p)
  case 0
  then show ?case by (intro exI [of _ 0]) (simp add: jobs_left_def)
next
  case (Suc k)
  show ?case
  proof (cases "next_job b p")
    case None
    then show ?thesis by (intro exI [of _ 0]) (simp add: jobs_left_def)
  next
    case (Some x)
    obtain job p' where x: "x = (job, p')" by (metis surj_pair)
    have "next_job b (job_position b k p') = None" using Suc.prems Some x by simp
    from Suc.IH [OF this] obtain m where "jobs_left b p' m" by blast
    with Some x show ?thesis by (intro exI [of _ "Suc m"]) (simp add: jobs_left_def)
  qed
qed

lemma jobs_left_next: "jobs_left b p m \<Longrightarrow> next_job b p = Some (job, p') \<Longrightarrow> \<exists>m'. m = Suc m' \<and> jobs_left b p' m'"
  by (cases m) (auto simp: jobs_left_def)

fun weight :: "worker \<Rightarrow> nat" where
  "weight Waiting = 1"
| "weight (Working _) = 2"
| "weight Exited = 0"

definition work :: "nat \<Rightarrow> nat \<Rightarrow> ('s, 'r) parallel \<Rightarrow> nat" where
  "work n m c = 3 * m + (\<Sum>i<n. weight (workers c i)) + (if enqueued c then 0 else 1)"

lemma sum_weight:
  fixes i n :: nat
  assumes "i < n"
  shows "(\<Sum>j<n. weight ((f(i := x)) j)) + weight (f i) = (\<Sum>j<n. weight (f j)) + weight x"
proof -
  have "(\<Sum>j<n. g j) = g i + (\<Sum>j \<in> {..<n} - {i}. g j)" for g :: "nat \<Rightarrow> nat"
    by (rule sum.remove) (use assms in auto)
  moreover have "(\<Sum>j \<in> {..<n} - {i}. weight ((f(i := x)) j)) = (\<Sum>j \<in> {..<n} - {i}. weight (f j))"
    by (rule sum.cong) auto
  ultimately show ?thesis by (simp del: fun_upd_apply) (simp add: fun_upd_same)
qed

lemma parallel_step_work:
  assumes "parallel_step systems n b c c'" "jobs_left b (pos c) m"
  shows "\<exists>m'. jobs_left b (pos c') m' \<and> work n m' c' < work n m c"
  using assms
proof (induction rule: parallel_step.induct)
  case (job_sent c job pos' i)
  then obtain m' where m: "m = Suc m'" "jobs_left b pos' m'" using jobs_left_next by blast
  have "work n m' (send_job i job pos' c) < work n m c"
    using sum_weight [OF job_sent(3), of "workers c" "Working job"] job_sent(4) m(1) by (simp add: work_def send_job_def)
  with m(2) show ?case by (auto simp: send_job_def)
next
  case (worker_stopped i c)
  then show ?case
    using sum_weight [of i n "workers c" Exited] by (intro exI [of _ m]) (simp add: work_def)
next
  case (job_done i c job s w w')
  then show ?case
    using sum_weight [of i n "workers c" Waiting] by (intro exI [of _ m]) (simp add: work_def)
next
  case (job_failed i c job s w e w')
  then show ?case
    using sum_weight [of i n "workers c" Exited] by (intro exI [of _ m]) (simp add: work_def)
qed (auto simp: work_def)

lemma parallel_bounded:
  assumes "(parallel_step systems n b ^^ k) c c'" "jobs_left b (pos c) m"
  shows "k \<le> work n m c"
proof -
  have "\<exists>m'. jobs_left b (pos c') m' \<and> k + work n m' c' \<le> work n m c"
    using assms(1)
  proof (induction k arbitrary: c')
    case 0
    then show ?case using assms(2) by auto
  next
    case (Suc k)
    then obtain c1 where 1: "(parallel_step systems n b ^^ k) c c1" "parallel_step systems n b c1 c'" by auto
    from Suc.IH [OF 1(1)] obtain m1 where m1: "jobs_left b (pos c1) m1" "k + work n m1 c1 \<le> work n m c" by blast
    from parallel_step_work [OF 1(2) m1(1)] m1(2) show ?case by fastforce
  qed
  then show ?thesis by auto
qed

lemma parallel_not_stuck:
  assumes "par_inv d n b p0 k c" "\<not> workers_done n c" "1 \<le> n" "s \<in> systems"
  shows "\<exists>c'. parallel_step systems n b c c'"
proof (cases "\<exists>i < n. \<exists>job. workers c i = Working job")
  case True
  then obtain i job where i: "i < n" "workers c i = Working job" by blast
  let ?w = "\<lparr>stored = pdb c, tx = None, calls = 0, verifications = []\<rparr>"
  obtain r w' where r: "ReingestRange s [job] False False ?w = (r, w')" by (metis surj_pair)
  then show ?thesis
    using job_done [OF i assms(4) _ _] job_failed [OF i assms(4) _ _] by (cases r) (metis select_convs(1,2) world.select_convs)+
next
  case False
  then have idle: "workers c i = Waiting \<or> workers c i = Exited" if "i < n" for i using that by (cases "workers c i") auto
  show ?thesis
  proof (cases "enqueued c")
    case True
    then obtain i where "i < n" "workers c i = Waiting" using assms(2) idle by (auto simp: workers_done_def)
    with True assms(1) show ?thesis by (auto simp: par_inv_def intro: worker_stopped)
  next
    case enq: False
    show ?thesis
    proof (cases "next_job b (pos c)")
      case None
      with enq show ?thesis by (blast intro: enqueue_ended)
    next
      case (Some x)
      then obtain job pos' where x: "next_job b (pos c) = Some (job, pos')" by (cases x) auto
      from idle [of 0] assms(3) consider "workers c 0 = Waiting" | "workers c 0 = Exited" by auto
      then show ?thesis
      proof cases
        case 1
        with enq x assms(3) show ?thesis using job_sent [of c b job pos' 0 n systems] by auto
      next
        case 2
        with assms(1,3) have "stop_closed c" by (auto simp: par_inv_def)
        with enq x show ?thesis by (blast intro: enqueue_stopped)
      qed
    qed
  qed
qed


section \<open>The outcome\<close>

text \<open>Ranges that pass the validation, and a batch size for which \<^verbatim>\<open>subRangeTo\<close> does not wrap around.\<close>

definition cuttable :: "uint32 \<Rightarrow> LedgerRange list \<Rightarrow> bool" where
  "cuttable b ranges \<longleftrightarrow> b \<noteq> 0 \<and> validateRanges ranges = None \<and> (\<forall>r \<in> set ranges. unat (EndSequence r) + unat b < 2 ^ 32)"

lemma range_ledgers_span: "StartSequence r \<noteq> 0 \<Longrightarrow> range_ledgers r = span r - {1}"
proof -
  assume "StartSequence r \<noteq> 0"
  then have pos: "1 \<le> unat (StartSequence r)" using unat_gt_0 [of "StartSequence r"] by simp
  have two: "2 \<le> q \<longleftrightarrow> 1 \<le> q \<and> q \<noteq> 1" for q :: uint32 by (auto simp: word_le_nat_alt word_unat_eq_iff)
  have "q \<noteq> 1" if "StartSequence r \<le> q" "StartSequence r \<noteq> 1" for q
    using that pos by (auto simp: word_le_nat_alt word_unat_eq_iff)
  then show ?thesis by (auto simp: range_ledgers_def in_range_def span_def two)
qed

lemma all_ledgers_spans: "ordered 1 js \<Longrightarrow> all_ledgers js = spans js - {1}"
proof -
  assume o: "ordered 1 js"
  have "StartSequence r \<noteq> 0" if "r \<in> set js" for r using ordered_ge [OF o that] by auto
  then show ?thesis by (auto simp: all_ledgers_def spans_def range_ledgers_span)
qed

lemma cuttable_jobs:
  assumes "cuttable b ranges"
  obtains k where "next_job b (job_position b k (first_position ranges)) = None" "ordered 1 (job_list b k (first_position ranges))"
    "spans (job_list b k (first_position ranges)) = (\<Union>r \<in> set ranges. span r - skipped b r)"
  using enqueue_all [of b 1 ranges] assms by (auto simp: cuttable_def validateRanges_ordered)

lemma job_list_complete:
  assumes "next_job b (job_position b j p) = None" "next_job b (job_position b k p) = None"
  shows "job_list b j p = job_list b k p"
proof -
  have eq: "job_list b j p = job_list b k p" if "next_job b (job_position b j p) = None" "j \<le> k" for j k
  proof -
    have "job_list b (k - j) (job_position b j p) = []" using that(1) by (cases "k - j") auto
    then show ?thesis using job_list_add(1) [of b j "k - j" p] that(2) by simp
  qed
  show ?thesis
  proof (cases "j \<le> k")
    case True
    then show ?thesis by (rule eq [OF assms(1)])
  next
    case False
    then show ?thesis by (intro eq [OF assms(2), symmetric]) simp
  qed
qed

text \<open>Batches are sent in ascending order: one that starts before a batch already sent was sent before it.\<close>

lemma end_of_lo: "ordered lo js \<Longrightarrow> lo \<le> end_of lo js"
proof (induction js arbitrary: lo)
  case (Cons x js)
  then have "lo \<le> unat (EndSequence x) + 1" by (auto simp: word_le_nat_alt)
  also have "\<dots> \<le> end_of (unat (EndSequence x) + 1) js" using Cons by simp
  finally show ?case by simp
qed simp

lemma end_of_ge: "ordered lo js \<Longrightarrow> job \<in> set js \<Longrightarrow> unat (EndSequence job) < end_of lo js"
proof (induction js arbitrary: lo)
  case (Cons x js)
  then show ?case using Cons.IH [of "unat (EndSequence x) + 1"] end_of_lo [of "unat (EndSequence x) + 1" js] by auto
qed simp

lemma sent_before:
  assumes "ordered 1 (job_list b k p)" "next_job b (job_position b k p) = None" "job \<in> set (job_list b k p)"
    "low \<in> set (job_list b j p)" "StartSequence job < StartSequence low"
  shows "job \<in> set (job_list b j p)"
proof (cases "j \<le> k")
  case True
  let ?js = "job_list b (k - j) (job_position b j p)"
  have list: "job_list b k p = job_list b j p @ ?js" using job_list_add(1) [of b j "k - j" p] True by simp
  have "job \<notin> set ?js"
  proof
    assume "job \<in> set ?js"
    then have "end_of 1 (job_list b j p) \<le> unat (StartSequence job)"
      using assms(1) ordered_ge unfolding list ordered_append by blast
    moreover have o: "ordered 1 (job_list b j p)" using assms(1) unfolding list ordered_append by simp
    ultimately have "unat (EndSequence low) < unat (StartSequence job)" using end_of_ge [OF o assms(4)] by simp
    moreover have "StartSequence low \<le> EndSequence low"
    proof -
      have "r \<in> set rs \<Longrightarrow> ordered lo rs \<Longrightarrow> StartSequence r \<le> EndSequence r" for r rs lo
        by (induction rs arbitrary: lo) auto
      with o assms(4) show ?thesis by blast
    qed
    ultimately show False using assms(5) by (simp add: word_less_nat_alt word_le_nat_alt)
  qed
  with assms(3) list show ?thesis by auto
next
  case False
  then show ?thesis using assms(3) job_list_add(1) [of b k "j - k" p] by simp
qed

lemma parallel_outcome:
  assumes b: "cuttable b ranges" and inv: "par_inv d n b (first_position ranges) k c" and fin: "workers_done n c"
  shows "set (sequences d) \<subseteq> set (sequences (pdb c))" "set (sequences (pdb c)) \<subseteq> set (sequences d) \<union> spans ranges"
    and "distinct (sequences d) \<Longrightarrow> distinct (sequences (pdb c))"
    and "r \<in> set ranges \<Longrightarrow> q \<in> span r - skipped b r - {1} \<Longrightarrow>
      (case lowestRangeErr c of None \<Rightarrow> True | Some low \<Rightarrow> q < StartSequence (re_ledgerRange low)) \<Longrightarrow> q \<in> set (sequences (pdb c))"
proof -
  let ?p = "first_position ranges"
  obtain K where K: "next_job b (job_position b K ?p) = None" "ordered 1 (job_list b K ?p)"
    "spans (job_list b K ?p) = (\<Union>r \<in> set ranges. span r - skipped b r)" using cuttable_jobs [OF b] by blast
  have sub: "all_ledgers (job_list b k ?p) \<subseteq> spans ranges"
  proof -
    have "all_ledgers (job_list b k ?p) \<subseteq> all_ledgers (job_list b K ?p)"
      using job_list_end [OF K(1), of k] unfolding all_ledgers_def by blast
    also have "\<dots> \<subseteq> spans ranges" unfolding all_ledgers_spans [OF K(2)] K(3) by (auto simp: spans_def)
    finally show ?thesis .
  qed
  show "set (sequences d) \<subseteq> set (sequences (pdb c))" "set (sequences (pdb c)) \<subseteq> set (sequences d) \<union> spans ranges"
    "distinct (sequences d) \<Longrightarrow> distinct (sequences (pdb c))"
    using inv sub by (auto simp: par_inv_def grows_def)
  assume q: "r \<in> set ranges" "q \<in> span r - skipped b r - {1}"
    and low: "case lowestRangeErr c of None \<Rightarrow> True | Some low \<Rightarrow> q < StartSequence (re_ledgerRange low)"
  then have "q \<in> all_ledgers (job_list b K ?p)" unfolding all_ledgers_spans [OF K(2)] K(3) by blast
  then obtain job where job: "job \<in> set (job_list b K ?p)" "q \<in> range_ledgers job" by (auto simp: all_ledgers_def)
  show "q \<in> set (sequences (pdb c))"
  proof (cases "lowestRangeErr c")
    case None
    note f = par_inv_done(1) [OF inv fin None]
    then have "job \<in> set (job_list b k ?p)" using job_list_complete [OF _ K(1), of k] job(1) by simp
    with f job(2) show ?thesis by (auto simp: all_ledgers_def)
  next
    case (Some low')
    note f = par_inv_done(2) [OF inv fin Some]
    have "StartSequence job \<noteq> 0" using ordered_ge [OF K(2) job(1)] by auto
    then have "StartSequence job \<le> q" using job(2) by (simp add: range_ledgers_span span_def)
    then have lt: "StartSequence job < StartSequence (re_ledgerRange low')" using low Some by (simp add: order_le_less_trans)
    then have "job \<in> set (job_list b k ?p)" using sent_before [OF K(2,1) job(1)] f by blast
    with f lt job(2) show ?thesis by blast
  qed
qed

text \<open>The batch size: a multiple of 64 and at least 64.\<close>

lemma batch_size_ok:
  assumes "calculateParallelLedgerBatchSize rangeSize suggestion n = Some b"
  shows "64 \<le> b" "unat b mod 64 = 0"
proof -
  define c where "c \<longleftrightarrow> suggestion = 0 \<or> rangeSize div suggestion < ucast n"
  define y where "y = (if c then rangeSize div ucast n else suggestion)"
  define x where "x = (if y < 64 then 64 else y)"
  have "b = (x div 64) * 64"
    using assms unfolding calculateParallelLedgerBatchSize_def Let_def minBatchSize_def historyCheckpointLedgerInterval_def
      c_def [symmetric] y_def [symmetric] x_def [symmetric]
    by (metis option.distinct(1) option.inject)
  moreover have x64: "64 \<le> unat x" by (auto simp: x_def word_less_nat_alt)
  moreover have "unat (x div 64) * unat (64 :: uint32) < 2 ^ LENGTH(32)"
    using unat32 [of x] div_times_less_eq_dividend [of "unat x" 64] by (simp add: unat_div)
  ultimately have u: "unat b = (unat x div 64) * 64" by (simp add: unat_mult_lem [THEN iffD1] unat_div)
  then show "unat b mod 64 = 0" by simp
  have "1 \<le> unat x div 64" using x64 by linarith
  with u show "64 \<le> b" by (simp add: word_le_nat_alt)
qed

text \<open>What follows the workers leaves the ledgers alone, and reports every batch that failed.\<close>

lemma rebuildTradeAggRanges_ledgers:
  assumes "rebuildTradeAggRanges systemFactory ranges w = (r, w')" "tx w = None"
  shows "history_ledgers (stored w') = history_ledgers (stored w)"
proof -
  have "tx w' = None \<and> history_ledgers (stored w') = history_ledgers (stored w)"
    if "rebuildTradeAgg_loop s ranges w = (r, w')" "tx w = None" for s w
    using that
  proof (induction ranges arbitrary: w)
    case (Cons cur rest)
    obtain x w1 where 1: "RebuildTradeAggregationBuckets s (StartSequence cur) (EndSequence cur) w = (x, w1)" by (metis surj_pair)
    from RebuildTradeAggregationBuckets_outside [OF Cons.prems(2) 1]
    have "tx w1 = None" "history_ledgers (stored w1) = history_ledgers (stored w)" by auto
    with Cons 1 show ?case by (cases x) (auto simp: check_def return_def)
  qed (simp add: return_def)
  with assms show ?thesis by (auto simp: rebuildTradeAggRanges_def return_def split: sum.splits)
qed

lemma finishReingest_ledgers:
  assumes "finishReingest systemFactory ranges lowest err w = (r, w')" "tx w = None"
  shows "history_ledgers (stored w') = history_ledgers (stored w)" "r = None \<Longrightarrow> err = None"
  using assms rebuildTradeAggRanges_ledgers by (fastforce simp: finishReingest_def split: option.splits prod.splits)+

end
