(* ===== verification/LedgerGaps.thy ===== *)
theory LedgerGaps
  imports Parallel
begin

text \<open>
  \<^verbatim>\<open>GetLedgerGapsInRange\<close> (\<^verbatim>\<open>db2/history/ledger.go\<close>): the ranges it reports are exactly the ledgers that the history misses, in
  the form in which \<^verbatim>\<open>ReingestRange\<close> accepts them.
\<close>

lemma word_succ_le: "q < (z :: uint32) \<Longrightarrow> q + 1 \<le> x \<longleftrightarrow> q < x"
  and word_le_pred: "(z :: uint32) \<noteq> 0 \<Longrightarrow> x \<le> z - 1 \<longleftrightarrow> x < z"
  and unat_succ: "q < (z :: uint32) \<Longrightarrow> unat (q + 1) = unat q + 1"
proof -
  show u: "unat (q + 1) = unat q + 1" if "q < z" for q z :: uint32
    using that unat_add_nat [of q 1] unat32 [of z] by (simp add: word_less_nat_alt)
  show "q + 1 \<le> x \<longleftrightarrow> q < x" if "q < z" for q z x :: uint32
    using u [OF that] by (auto simp: word_le_nat_alt word_less_nat_alt)
  show "x \<le> z - 1 \<longleftrightarrow> x < z" if "z \<noteq> 0" for x z :: uint32
    using unat_minus_one [OF that] unat_gt_0 [of z] that by (auto simp: word_le_nat_alt word_less_nat_alt)
qed

lemma spans_simps [simp]: "spans [] = {}" "spans (r # rs) = span r \<union> spans rs" "spans (rs @ rs') = spans rs \<union> spans rs'"
  by (auto simp: spans_def)

section \<open>The window query\<close>

lemma window_gaps_exact:
  "sorted qs \<Longrightarrow> distinct qs \<Longrightarrow> qs \<noteq> [] \<Longrightarrow>
   ordered (unat (hd qs) + 1) (window_gaps qs) \<and> spans (window_gaps qs) = {x. hd qs \<le> x \<and> x \<le> last qs} - set qs"
proof (induction qs rule: window_gaps.induct)
  case (1 q z qs)
  then have qz: "q < z" by auto
  have ih: "ordered (unat z + 1) (window_gaps (z # qs))" "spans (window_gaps (z # qs)) = {x. z \<le> x \<and> x \<le> last (z # qs)} - set (z # qs)"
    using 1 by auto
  have last: "z \<le> last (z # qs)" using 1(2) by (cases "qs = []") auto
  have z0: "z \<noteq> 0" using qz by auto
  have u: "unat (q + 1) = unat q + 1" "unat (z - 1) = unat z - 1" using unat_succ [OF qz] unat_minus_one [OF z0] by auto
  have above: "z \<le> x" if "x \<in> set (z # qs)" for x using 1(2) that by auto
  show ?case
  proof (cases "q + 1 = z")
    case True
    have zx: "z \<le> x \<longleftrightarrow> q < x" for x using word_succ_le [OF qz, of x] unfolding True .
    have "ordered (unat q + 1) (window_gaps (z # qs))"
      by (rule ordered_mono [OF ih(1)]) (use qz in \<open>simp add: word_less_nat_alt\<close>)
    moreover have "{x. z \<le> x \<and> x \<le> last (z # qs)} - set (z # qs) = {x. q \<le> x \<and> x \<le> last (z # qs)} - set (q # z # qs)"
      unfolding zx by (auto simp: order_less_le)
    moreover have "window_gaps (q # z # qs) = window_gaps (z # qs)" using True by simp
    ultimately show ?thesis using ih(2) by (simp only: list.sel last_ConsR list.distinct simp_thms not_False_eq_True)
  next
    case False
    let ?g = "\<lparr>StartSequence = q + 1, EndSequence = z - 1\<rparr>"
    have "q + 1 < z" using False word_succ_le [OF qz, of z] qz by (simp add: order_less_le)
    then have lt: "unat q + 1 < unat z" using u(1) by (simp add: word_less_nat_alt)
    have g: "span ?g = {x. q < x \<and> x < z}" using word_succ_le [OF qz] word_le_pred [OF z0] by (simp add: span_def)
    have "window_gaps (q # z # qs) = ?g # window_gaps (z # qs)" using False by simp
    moreover have "ordered (unat q + 1) (?g # window_gaps (z # qs))"
      using lt u ih(1) by (auto simp: word_le_nat_alt intro: ordered_mono)
    moreover have "spans (?g # window_gaps (z # qs)) = {x. q \<le> x \<and> x \<le> last (z # qs)} - set (q # z # qs)"
    proof -
      have "{x. q \<le> x \<and> x \<le> last (z # qs)} - set (q # z # qs) = {x. q < x \<and> x < z} \<union> ({x. z \<le> x \<and> x \<le> last (z # qs)} - set (z # qs))"
      proof (intro set_eqI iffI)
        fix x
        assume "x \<in> {x. q < x \<and> x < z} \<union> ({x. z \<le> x \<and> x \<le> last (z # qs)} - set (z # qs))"
        then show "x \<in> {x. q \<le> x \<and> x \<le> last (z # qs)} - set (q # z # qs)"
          using last qz above [of x] by (auto simp del: last.simps dest: leD)
      qed (auto simp: linorder_not_less [symmetric] simp del: last.simps)
      then show ?thesis using ih(2) g by simp
    qed
    ultimately show ?thesis by (simp only: list.sel last_ConsR list.distinct simp_thms not_False_eq_True)
  qed
qed auto

lemma sort_ordered: "ordered lo rs \<Longrightarrow> sort_key StartSequence rs = rs"
proof (rule sort_key_id_if_sorted)
  show "ordered lo rs \<Longrightarrow> sorted (map StartSequence rs)"
  proof (induction rs arbitrary: lo)
    case (Cons r rs)
    then have "unat (EndSequence r) + 1 \<le> unat (StartSequence x)" if "x \<in> set rs" for x
      using that ordered_ge [of "unat (EndSequence r) + 1" rs x] by simp
    then have "StartSequence r \<le> StartSequence x" if "x \<in> set rs" for x
      using that Cons.prems by (fastforce simp: word_le_nat_alt)
    then show ?case using Cons.IH [of "unat (EndSequence r) + 1"] Cons.prems by simp
  qed simp
qed

section \<open>Clipping\<close>

lemma clip_gaps_acc: "clip_gaps a b gaps result = result @ clip_gaps a b gaps []"
proof (induction gaps arbitrary: result)
  case (Cons g gaps)
  let ?r = "[\<lparr>StartSequence = max (StartSequence g) a, EndSequence = min (EndSequence g) b\<rparr>]"
  from Cons [of "result @ ?r"] Cons [of ?r] Cons [of result] show ?case by simp
qed simp

lemma clip_gaps_exact:
  assumes "ordered lo gaps" "a \<le> b"
  shows "ordered (max lo (unat a)) (clip_gaps a b gaps [])" "spans (clip_gaps a b gaps []) = spans gaps \<inter> {x. a \<le> x \<and> x \<le> b}"
proof -
  have "ordered (max lo (unat a)) (clip_gaps a b gaps []) \<and> spans (clip_gaps a b gaps []) = spans gaps \<inter> {x. a \<le> x \<and> x \<le> b}"
    using assms(1)
  proof (induction gaps arbitrary: lo)
    case (Cons g gaps)
    let ?r = "\<lparr>StartSequence = max (StartSequence g) a, EndSequence = min (EndSequence g) b\<rparr>"
    have g: "lo \<le> unat (StartSequence g)" "StartSequence g \<le> EndSequence g" and o: "ordered (unat (EndSequence g) + 1) gaps"
      using Cons.prems by auto
    note ih = Cons.IH [OF o]
    show ?case
    proof (cases "EndSequence g < a")
      case True
      then have "span g \<inter> {x. a \<le> x \<and> x \<le> b} = {}" by (auto simp: span_def)
      moreover have "max lo (unat a) \<le> max (unat (EndSequence g) + 1) (unat a)" using g by (auto simp: word_le_nat_alt)
      ultimately show ?thesis using ih True by (auto intro: ordered_mono)
    next
      case False
      show ?thesis
      proof (cases "StartSequence g > b")
        case True
        have "b < StartSequence x" if "x \<in> set (g # gaps)" for x
          using that True g(2) ordered_ge [OF o, of x] by (auto simp: word_le_nat_alt word_less_nat_alt)
        then have "spans (g # gaps) \<inter> {x. a \<le> x \<and> x \<le> b} = {}" by (force simp: spans_def span_def)
        with True False show ?thesis by simp
      next
        case F: False
        have le: "max (StartSequence g) a \<le> min (EndSequence g) b" using F False g(2) assms(2) by auto
        have clip: "clip_gaps a b (g # gaps) [] = ?r # clip_gaps a b gaps []"
          using F False clip_gaps_acc [of a b gaps "[?r]"] by simp
        have "unat (min (EndSequence g) b) + 1 \<le> max (unat (EndSequence g) + 1) (unat a)" by (auto simp: word_le_nat_alt min_def)
        then have "ordered (unat (min (EndSequence g) b) + 1) (clip_gaps a b gaps [])" using ih by (blast intro: ordered_mono)
        moreover have "max lo (unat a) \<le> unat (max (StartSequence g) a)" using g(1) by (auto simp: max_def word_le_nat_alt)
        moreover have "span ?r = span g \<inter> {x. a \<le> x \<and> x \<le> b}" by (auto simp: span_def)
        ultimately show ?thesis unfolding clip using ih le by (auto simp: Int_Un_distrib2)
      qed
    qed
  qed simp
  then show "ordered (max lo (unat a)) (clip_gaps a b gaps [])" "spans (clip_gaps a b gaps []) = spans gaps \<inter> {x. a \<le> x \<and> x \<le> b}" by auto
qed


section \<open>The query\<close>

definition oldest :: "('s, 'r) db \<Rightarrow> uint32" where
  "oldest d = (case sequences d of [] \<Rightarrow> 0 | q # qs \<Rightarrow> fold min qs q)"

definition gaps_in_range :: "uint32 \<Rightarrow> uint32 \<Rightarrow> ('s, 'r) db \<Rightarrow> LedgerRange list" where
  "gaps_in_range a b d =
     (let old = oldest d; latest = latest_history d;
          before = (if a < old then [\<lparr>StartSequence = a, EndSequence = min b (old - 1)\<rparr>] else [])
      in if old = 0 then [\<lparr>StartSequence = a, EndSequence = b\<rparr>]
         else if b \<le> old then before
         else before @ clip_gaps a b (sort_key StartSequence (window_gaps (sort (sequences d)))) []
           @ (if latest < b then [\<lparr>StartSequence = max (latest + 1) a, EndSequence = b\<rparr>] else []))"

lemma GetLedgerGapsInRange_value:
  assumes "\<And>n. fails s n = None" "tx w = None"
  shows "\<exists>w'. GetLedgerGapsInRange s a b w = (Inr (gaps_in_range a b (stored w)), w') \<and> stored w' = stored w \<and> tx w' = None"
  unfolding GetLedgerGapsInRange_def ElderLedger_def LatestLedger_def GetLedgerGaps_def
  using assms
  by (auto simp: try_wrap_def check_def GetRaw_def SelectRaw_def conn_stmt_def return_def Let_def gaps_in_range_def oldest_def latest_history_def
      clip_gaps_acc [of a b _ "[_]"] split: list.splits)

lemma hd_last_sort:
  assumes "q \<in> set qs"
  shows "hd (sort qs) \<in> set qs" "last (sort qs) \<in> set qs" "hd (sort qs) \<le> q" "q \<le> last (sort qs)"
proof -
  have ne: "sort qs \<noteq> []" using assms by (metis length_sort length_pos_if_in_set length_greater_0_conv)
  show "hd (sort qs) \<in> set qs" "last (sort qs) \<in> set qs" using ne hd_in_set [OF ne] last_in_set [OF ne] by auto
  have q: "q \<in> set (sort qs)" using assms by simp
  obtain x xs where 1: "sort qs = x # xs" using ne by (cases "sort qs") auto
  show "hd (sort qs) \<le> q" using q sorted_sort [of qs] unfolding 1 by auto
  obtain ys y where 2: "sort qs = ys @ [y]" using ne by (metis rev_exhaust)
  show "q \<le> last (sort qs)" using q sorted_sort [of qs] unfolding 2 by (auto simp: sorted_append)
qed

lemma oldest_hd: "sequences d \<noteq> [] \<Longrightarrow> oldest d = hd (sort (sequences d))"
proof -
  assume ne: "sequences d \<noteq> []"
  then obtain q qs where s: "sequences d = q # qs" by (cases "sequences d") auto
  have "oldest d = Min (set (sequences d))" by (simp add: oldest_def s flip: Min.set_eq_fold)
  moreover have "Min (set (sequences d)) = hd (sort (sequences d))"
    by (rule Min_eqI) (use ne hd_last_sort [of _ "sequences d"] in \<open>auto, (metis hd_in_set)+\<close>)
  ultimately show ?thesis by simp
qed

lemma latest_last: "sequences d \<noteq> [] \<Longrightarrow> latest_history d = last (sort (sequences d))"
proof -
  assume ne: "sequences d \<noteq> []"
  then obtain q where q: "q \<in> set (sequences d)" by (cases "sequences d") auto
  show ?thesis unfolding latest_history_Max by (rule Max_eqI) (use q hd_last_sort [of _ "sequences d"] in auto)
qed

lemma ordered_le: "ordered lo rs \<Longrightarrow> r \<in> set rs \<Longrightarrow> StartSequence r \<le> EndSequence r"
  by (induction rs arbitrary: lo) auto

lemma end_of_bound: "lo \<le> x + 1 \<Longrightarrow> (\<And>r. r \<in> set rs \<Longrightarrow> unat (EndSequence r) \<le> x) \<Longrightarrow> end_of lo rs \<le> x + 1"
  by (induction rs arbitrary: lo) auto

lemma gaps_in_range_exact:
  assumes d: "distinct (sequences d)" "0 \<notin> set (sequences d)" and a: "a \<noteq> 0" "a \<le> b"
  shows "ordered 1 (gaps_in_range a b d) \<and> spans (gaps_in_range a b d) = {q. a \<le> q \<and> q \<le> b} - set (sequences d)"
proof (cases "sequences d = []")
  case True
  have "1 \<le> unat a" using a(1) unat_gt_0 [of a] by simp
  with True a(2) show ?thesis by (simp add: gaps_in_range_def oldest_def span_def)
next
  case False
  let ?qs = "sort (sequences d)" and ?old = "oldest d" and ?new = "latest_history d"
  have a1: "1 \<le> unat a" using a(1) unat_gt_0 [of a] by simp
  obtain q0 where q0: "q0 \<in> set (sequences d)" using False by (cases "sequences d") auto
  have old_hd: "?old = hd ?qs" and new_last: "?new = last ?qs" using oldest_hd latest_last False by blast+
  have old: "?old \<in> set (sequences d)" unfolding old_hd by (rule hd_last_sort(1) [OF q0])
  have new: "?new \<in> set (sequences d)" unfolding new_last by (rule hd_last_sort(2) [OF q0])
  have old0: "?old \<noteq> 0" using old d(2) by metis
  have low: "?old \<le> q" and high: "q \<le> ?new" if "q \<in> set (sequences d)" for q
    unfolding old_hd new_last using hd_last_sort(3,4) [OF that] by blast+
  let ?g = "window_gaps ?qs"
  have "?qs \<noteq> []" using q0 by (metis empty_iff list.set(1) set_sort)
  from window_gaps_exact [OF sorted_sort _ this]
  have w: "ordered (unat ?old + 1) ?g" "spans ?g = {x. ?old \<le> x \<and> x \<le> ?new} - set (sequences d)"
    using d(1) unfolding old_hd new_last by simp_all
  let ?before = "if a < ?old then [\<lparr>StartSequence = a, EndSequence = min b (?old - 1)\<rparr>] else []"
  let ?after = "if ?new < b then [\<lparr>StartSequence = max (?new + 1) a, EndSequence = b\<rparr>] else []"
  let ?mid = "clip_gaps a b ?g []"
  have before: "spans ?before = {q. a \<le> q \<and> q \<le> b \<and> q < ?old}" "ordered 1 ?before"
  proof -
    have le_min: "x \<le> min b (?old - 1) \<longleftrightarrow> x \<le> b \<and> x < ?old" for x using word_le_pred [OF old0, of x] by simp
    have sp: "span \<lparr>StartSequence = a, EndSequence = min b (?old - 1)\<rparr> = {q. a \<le> q \<and> q \<le> b \<and> q < ?old}"
      and le: "a < ?old \<Longrightarrow> a \<le> min b (?old - 1)" using a(2) le_min by (simp_all add: span_def del: min.bounded_iff)
    show "spans ?before = {q. a \<le> q \<and> q \<le> b \<and> q < ?old}"
      using sp by (cases "a < ?old") (simp, auto dest: order_le_less_trans)
    show "ordered 1 ?before" using le a1 by (cases "a < ?old") simp_all
  qed
  note m = clip_gaps_exact [OF w(1) a(2)]
  show ?thesis
  proof (cases "b \<le> ?old")
    case True
    have "{q. a \<le> q \<and> q \<le> b \<and> q < ?old} = {q. a \<le> q \<and> q \<le> b} - set (sequences d)"
    proof -
      have "q < ?old \<longleftrightarrow> q \<notin> set (sequences d)" if "q \<le> b" for q
        using low [of q] old order_trans [OF that True] by (metis leD order_less_le)
      then show ?thesis by blast
    qed
    with True before old0 show ?thesis by (simp add: gaps_in_range_def Let_def)
  next
    case ob: False
    have g: "gaps_in_range a b d = ?before @ ?mid @ ?after"
      using ob old0 sort_ordered [OF w(1)] by (simp add: gaps_in_range_def Let_def)
    have after: "spans ?after = {q. a \<le> q \<and> q \<le> b \<and> ?new < q}"
    proof (cases "?new < b")
      case True
      then have "x \<ge> max (?new + 1) a \<longleftrightarrow> ?new < x \<and> a \<le> x" for x using word_succ_le [OF True, of x] by auto
      with True show ?thesis by (auto simp: span_def)
    next
      case False
      then show ?thesis by (auto dest: order_less_le_trans)
    qed
    have "spans (gaps_in_range a b d) = {q. a \<le> q \<and> q \<le> b} - set (sequences d)"
      unfolding g spans_simps before after m(2) w(2)
    proof -
      have "q < ?old \<or> (?old \<le> q \<and> q \<le> ?new) \<and> q \<notin> set (sequences d) \<or> ?new < q \<longleftrightarrow> q \<notin> set (sequences d)" for q
        using low [of q] high [of q] by (metis leD linorder_not_le)
      then show "{q. a \<le> q \<and> q \<le> b \<and> q < ?old} \<union> (({x. ?old \<le> x \<and> x \<le> ?new} - set (sequences d)) \<inter> {x. a \<le> x \<and> x \<le> b}
          \<union> {q. a \<le> q \<and> q \<le> b \<and> ?new < q}) = {q. a \<le> q \<and> q \<le> b} - set (sequences d)" by blast
    qed
    moreover have "ordered 1 (gaps_in_range a b d)"
    proof -
      let ?e = "end_of 1 ?before"
      have "unat (min b (?old - 1)) + 1 \<le> unat ?old"
        using unat_minus_one [OF old0] unat_gt_0 [of ?old] old0 by (auto simp: min_def word_le_nat_alt)
      then have e: "?e \<le> max (unat ?old + 1) (unat a)" "?e \<le> unat ?new + 1"
        using high [OF old] a1 by (auto simp: word_le_nat_alt)
      have mid: "ordered ?e ?mid" by (rule ordered_mono [OF m(1) e(1)])
      have "EndSequence j \<in> spans ?mid" if "j \<in> set ?mid" for j
        using ordered_le [OF mid that] that by (auto simp: spans_def span_def)
      then have "EndSequence j \<le> ?new" if "j \<in> set ?mid" for j using that unfolding m(2) w(2) by blast
      then have "end_of ?e ?mid \<le> unat ?new + 1" by (intro end_of_bound e(2)) (simp add: word_le_nat_alt)
      then have "ordered (end_of ?e ?mid) ?after"
        using word_succ_le [of ?new b b] unat_succ [of ?new b] a(2) by (auto simp: max_def word_le_nat_alt)
      with before(2) mid show ?thesis unfolding g ordered_append by blast
    qed
    ultimately show ?thesis by blast
  qed
qed

end
