(* ===== verification/IngestDemo.thy ===== *)
theory IngestDemo
  imports ReingestLive ProcessorRunner LedgerGaps
begin

text \<open>
  A small network on which the contracts of the ingestion system hold. The state of the ledger is one counter; every
  ledger has one change, which adds 1 to it, and two transactions, one of which fails. The archive of ledger \<open>l\<close> has
  one entry, the value \<open>l\<close>. The runner is the modelled one, with a change processor that collects
  the changes and adds them to the counter when it commits.
\<close>

definition adder :: "(uint32, uint32, uint32, unit) changeProcessor" where
  "adder = \<lparr>cp_Name = ''adder'', cp_ProcessChange = (\<lambda>c (p, d). ((p + c, d), None)),
     cp_Commit = (\<lambda>(p, d). ((p, d\<lparr>state_tables := state_tables d + p\<rparr>), None))\<rparr>"

definition demo_runner :: "(uint32, uint32, bool, unit, uint32, uint32, unit) processorRunner" where
  "demo_runner =
     \<lparr>pr_ProtocolVersion = (\<lambda>_. 20), pr_LedgerSequence = (\<lambda>m. m), changeReader = (\<lambda>_. Inr [Inr 1]),
      transactionReader = (\<lambda>_. Inr [Inr True, Inr False]), archiveReader = (\<lambda>l. Inr [Inr l]), archiveBucketListHash = (\<lambda>_. Inr ()),
      genesisChange = 1, initialState = 0, changeProcessors = (\<lambda>_ _ _. [adder]), processorsBefore = (\<lambda>_. []),
      processorsAfter = (\<lambda>_. []), lazyLoaders = (\<lambda>_. []), configuredFilters = (\<lambda>_. []), filteredTmpProcessors = (\<lambda>_. []),
      deleteFilteredTmp = (\<lambda>_ d. d), ledgersExecError = (\<lambda>_. None), tx_opCount = (\<lambda>_. 1), tx_Successful = (\<lambda>t. t),
      EnableIngestionFiltering = False\<rparr>"

definition demo_system :: "(nat \<Rightarrow> go_error option) \<Rightarrow> (uint32, unit, uint32, unit) system" where
  "demo_system f = with_runner
     \<lparr>fails = f, commitApplied = (\<lambda>_. False), knownError = (\<lambda>_. False), isPrepared = (\<lambda>_ _. True), latestCheckpoint = (\<lambda>_. 63), latestLedger = (\<lambda>_. 100),
      ledgerCloseMeta = (\<lambda>l. l), lcm_ProtocolVersion = (\<lambda>_. 20), lcm_BucketListHash = (\<lambda>_. ()), lcm_LedgerSequence = (\<lambda>m. m),
      zeroHash = (), emptyStateTables = 0, RunHistoryArchiveIngestion = (\<lambda>_ _ _ _ _ d. (d, None)),
      RunAllProcessorsOnLedger = (\<lambda>_ _ d. (d, None)), RunTransactionProcessorsOnLedgers = (\<lambda>_ _ d. (d, None)),
      closedAt = (\<lambda>l. 5000 * uint l), bucketTimestamp = (\<lambda>_. 0), tradeBuckets = (\<lambda>_ _ _ _. []), RoundingSlippageFilter = 0,
      ReapLookupTables = (\<lambda>_ rows. rows), verifyState = (\<lambda>_. None),
      runStateVerificationOnLedger = (\<lambda>_. False), disableStateVerification = True, EnableReapLookupTables = False,
      ctxDone = (\<lambda>_. False), maxLedgerPerFlush = 20, maxReingestRetries = 0\<rparr> demo_runner"

definition fresh_db :: "(uint32, unit) db" where
  "fresh_db = \<lparr>key_value_store = [lastLedgerKey \<mapsto> ''0''], history_ledgers = [], history_rows = [], state_tables = 0\<rparr>"

lemma demo_fields [simp]:
  "fails (demo_system f) = f" "ledgerCloseMeta (demo_system f) = (\<lambda>l. l)" "emptyStateTables (demo_system f) = 0"
  "ctxDone (demo_system f) n = False" "maxLedgerPerFlush (demo_system f) = 20" "latestCheckpoint (demo_system f) n = 63"
  "maxReingestRetries (demo_system f) = 0"
  by (simp_all add: demo_system_def with_runner_def)

lemma demo_frames: "frames_ok demo_runner"
  by (auto simp: frames_ok_def demo_runner_def adder_def frame_def keeps_history_def same_keys_def keeps_all_def)

lemma demo_changes:
  "ledgerCloseMeta s = (\<lambda>l. l) \<Longrightarrow> ledger_changes_ok s demo_runner (\<lambda>l. l)"
  "emptyStateTables s = 0 \<Longrightarrow> archive_changes_ok s demo_runner (\<lambda>l. l)"
proof -
  show "ledgerCloseMeta s = (\<lambda>l. l) \<Longrightarrow> ledger_changes_ok s demo_runner (\<lambda>l. l)"
    unfolding ledger_changes_ok_def
    by (intro conjI allI impI) (auto simp: demo_runner_def adder_def group_ProcessChange_def group_Commit_def)
  show "emptyStateTables s = 0 \<Longrightarrow> archive_changes_ok s demo_runner (\<lambda>l. l)"
    unfolding archive_changes_ok_def
    by (intro allI impI) (auto simp: demo_runner_def adder_def group_ProcessChange_def group_Commit_def split: if_splits)
qed

lemma row_id_small: "q < 2 ^ 31 \<Longrightarrow> row_id q \<noteq> None"
  using ToInt64_value [OF toid_wf_ledger_start, of q] uint_ge_0 [of q] by (simp add: row_id_def sint_small)

lemma demo_flush:
  assumes "collected ledgers" "\<And>q. q \<in> fst ` set ledgers \<Longrightarrow> q < 2 ^ 31" "distinct (map fst ledgers @ sequences d)"
  shows "\<exists>st. flushProcessors demo_runner n (buildFilteredOutProcessor demo_runner n) (buildTransactionProcessor demo_runner n) ledgers (p, d) = (st, None)"
proof -
  have seqs: "map (\<lambda>(_, entry). header_LedgerSeq entry) ledgers = map fst ledgers"
    using assms(1) by (auto simp: collected_def intro!: map_cong)
  have "\<not> (\<exists>q \<in> set (map fst ledgers). row_id q = None)" using assms(2) row_id_small by auto
  then have "\<exists>d'. ledgers_Flush None ledgers d = (d', None)"
    using assms(3) by (auto simp: ledgers_Flush_def Let_def seqs)
  then show ?thesis
    by (auto simp: flushProcessors_def buildTransactionProcessor_def group_Flush_def demo_runner_def)
qed

lemma demo_streamLedger:
  "\<exists>ledgers' p'. streamLedger demo_runner (buildTransactionFilterer demo_runner n) (buildFilteredOutProcessor demo_runner n)
     (buildTransactionProcessor demo_runner n) m (ledgers, p) = ((ledgers', p'), None)"
  by (simp add: streamLedger_def demo_runner_def checkIfProtocolVersionSupported_def MaxSupportedProtocolVersion_def
      buildTransactionFilterer_def buildTransactionProcessor_def)

lemma demo_stream_batch:
  "\<exists>ledgers' p'. stream_batch demo_runner (buildTransactionFilterer demo_runner n) (buildFilteredOutProcessor demo_runner n)
     (buildTransactionProcessor demo_runner n) ls (ledgers, p) = ((ledgers', p'), None)"
proof (induction ls arbitrary: ledgers p)
  case (Cons l ls)
  obtain ledgers1 p1 where 1: "streamLedger demo_runner (buildTransactionFilterer demo_runner n) (buildFilteredOutProcessor demo_runner n)
     (buildTransactionProcessor demo_runner n) l (ProcessLedger (pr_LedgerSequence demo_runner l) ledgers, p) = ((ledgers1, p1), None)"
    using demo_streamLedger by blast
  then show ?case using Cons [of ledgers1 p1] by simp
qed simp

lemma demo_register: "register [] [cp_Name adder] = Inr [''adder'']"
  by (simp add: adder_def)

lemma demo_archive:
  "\<exists>d'. runner_RunHistoryArchiveIngestion demo_runner 1 False 0 () n d = (d', None)"
  "\<exists>d'. runner_RunHistoryArchiveIngestion demo_runner l False 20 () n d = (d', None)"
  by (simp_all add: runner_RunHistoryArchiveIngestion_def Let_def demo_runner_def adder_def group_ProcessChange_def group_Commit_def
      with_state_def checkIfProtocolVersionSupported_def MaxSupportedProtocolVersion_def validateBucketList_def)

lemma demo_transactions:
  assumes "\<And>q. q \<in> set ls \<Longrightarrow> q < 2 ^ 31" "distinct (sequences d @ ls)"
  shows "\<exists>d'. runner_RunTransactionProcessorsOnLedgers demo_runner ls n d = (d', None)"
proof -
  obtain ledgers p where 1: "stream_batch demo_runner (buildTransactionFilterer demo_runner n) (buildFilteredOutProcessor demo_runner n)
     (buildTransactionProcessor demo_runner n) ls ([], initialState demo_runner) = ((ledgers, p), None)"
    using demo_stream_batch by blast
  have "collected ledgers" "map fst ledgers = ls"
    using stream_batch_collected [of demo_runner _ _ _ "\<lambda>l. l" ls "[]"] 1 assms(2)
    by (auto simp: collected_def demo_runner_def)
  moreover then have "fst ` set ledgers = set ls" by (metis list.set_map)
  ultimately obtain st where "flushProcessors demo_runner n (buildFilteredOutProcessor demo_runner n) (buildTransactionProcessor demo_runner n) ledgers (p, d) = (st, None)"
    using demo_flush [of ledgers d n p] assms by (auto simp: Int_commute)
  with 1 show ?thesis by (auto simp: runner_RunTransactionProcessorsOnLedgers_def Let_def with_state_def split: prod.splits)
qed

lemma demo_ledger:
  assumes "l < 2 ^ 31" "distinct (sequences d @ [l])"
  shows "\<exists>d'. runner_RunAllProcessorsOnLedger demo_runner l n d = (d', None)"
proof -
  let ?d = "d\<lparr>state_tables := state_tables d + 1\<rparr>"
  have ch: "runChangeProcessorOnLedger demo_runner [adder] l d = (?d, None)"
    by (simp add: runChangeProcessorOnLedger_def demo_runner_def adder_def group_ProcessChange_def group_Commit_def with_state_def)
  let ?ls = "ProcessLedger l []"
  obtain ledgers p where 1: "streamLedger demo_runner (buildTransactionFilterer demo_runner n) (buildFilteredOutProcessor demo_runner n)
     (buildTransactionProcessor demo_runner n) l (?ls, initialState demo_runner) = ((ledgers, p), None)"
    using demo_streamLedger by blast
  have c: "collected ?ls" "map fst ?ls = [l]" "pr_LedgerSequence demo_runner l = l" "l \<in> fst ` set ?ls"
    by (simp_all add: ProcessLedger_def collected_def demo_runner_def)
  have k: "collected ledgers" "map fst ledgers = [l]" using streamLedger_collected [OF 1 c(1)] c(2-4) by simp_all
  then have "fst ` set ledgers = {l}" by (metis list.set_map list.simps(15) empty_set)
  then obtain st where 2: "flushProcessors demo_runner n (buildFilteredOutProcessor demo_runner n) (buildTransactionProcessor demo_runner n) ledgers (p, ?d) = (st, None)"
    using demo_flush [OF k(1), of ?d n p] k(2) assms by (auto simp: sequences_def)
  have reg: "\<exists>r. register [''adder''] (map f_Name (buildTransactionFilterer demo_runner n) @ map member_Name (buildTransactionProcessor demo_runner n)
      @ map ll_Name (lazyLoaders demo_runner n) @ map member_Name (buildFilteredOutProcessor demo_runner n)) = Inr r"
    by (simp add: demo_runner_def buildTransactionFilterer_def buildTransactionProcessor_def buildFilteredOutProcessor_def)
  have ps: "changeProcessors demo_runner n False l = [adder]" "checkIfProtocolVersionSupported (pr_ProtocolVersion demo_runner l) = None"
    by (simp_all add: demo_runner_def checkIfProtocolVersionSupported_def MaxSupportedProtocolVersion_def)
  have "\<exists>d'. runTransactionProcessorsOnLedger demo_runner [''adder''] l n ?d = (d', None)"
    using 1 2 reg c(3) by (auto simp: runTransactionProcessorsOnLedger_def Let_def with_state_def split: prod.splits)
  then show ?thesis
    using ch ps c(3) demo_register by (auto simp: runner_RunAllProcessorsOnLedger_def Let_def)
qed

lemma demo_calm: "calm (demo_system (\<lambda>_. None)) 63"
  unfolding calm_def using demo_archive demo_ledger demo_transactions
  by (simp add: demo_system_def with_runner_def)

end
