(* ===== verification/Spec2Isabelle.thy ===== *)
theory Spec2Isabelle
  imports Toid Amount SearchProof StreamProof IngestDemo
begin

text \<open>
  Verification of the core of the Hcnet Go monorepo: the integers and strings that identify things on the ledger, the order book
  with its path search, the changes of ledger entries, and the ingestion system of Aurora, which copies the ledger into a database.

  \<^bold>\<open>Parts of the program and the theories that model them\<close> (paths are under \<^verbatim>\<open>src/\<close>)

  \<^item> \<open>Prelude\<close>: machine integers, the parts of Go's standard library that several components use, shared lemmas, and the locales
    \<open>codec\<close>, \<open>canonical_codec\<close> (an encoder with its decoder) and \<open>step_invariant\<close> (a step relation with an invariant).
  \<^item> \<open>Toid\<close>: \<^verbatim>\<open>toid/main.go\<close>, the total order IDs, which are the IDs of all rows of the history.
  \<^item> \<open>Decimal\<close>, \<open>Amount\<close>, \<open>Price\<close>: \<^verbatim>\<open>amount/main.go\<close>, \<^verbatim>\<open>price/main.go\<close>, \<^verbatim>\<open>xdr/price.go\<close>, \<^verbatim>\<open>support/ordered\<close>; fixed-point amounts, prices
    as fractions, and the conversions between them that trading uses.
  \<^item> \<open>Crc16\<close>, \<open>Strkey\<close>: \<^verbatim>\<open>strkey/\<close>, the textual form of keys, with its checksum.
  \<^item> \<open>XdrAsset\<close>, \<open>ScVal\<close>, \<open>LedgerKey\<close>: \<^verbatim>\<open>xdr/\<close>; assets, contract values, ledger entries and their keys. The types are those of
    \<^verbatim>\<open>xdr_generated.go\<close>, the functions those of the files written by hand.
  \<^item> \<open>Pools\<close>, \<open>Edges\<close>, \<open>OrderBook\<close>, \<open>OrderBookInv\<close>, \<open>Search\<close>, \<open>SearchProof\<close>: \<^verbatim>\<open>exp/orderbook/\<close>; liquidity pools, the sets of
    trading venues, the graph with its batches of updates, and the search for payment paths. The state is the record
    \<open>OrderBookGraph\<close>, every method a function on it; the path search keeps its nodes in an explicit heap.
  \<^item> \<open>Changes\<close>: \<^verbatim>\<open>ingest/change.go\<close> and \<^verbatim>\<open>ingest/change_compactor.go\<close>.
  \<^item> \<open>IngestDb\<close>: \<^verbatim>\<open>support/db/session.go\<close> and the parts of \<^verbatim>\<open>services/aurora/internal/db2/history/\<close> that ingestion uses. The record
    \<open>world\<close> is the stored database, the open transaction with its working copy, and the number of calls made so far.
  \<^item> \<open>IngestFsm\<close>: \<^verbatim>\<open>services/aurora/internal/ingest/\<close>, the state machine (\<^verbatim>\<open>fsm.go\<close> and the two files of range states) and the
    commands of \<^verbatim>\<open>main.go\<close>. A state is a constructor of \<open>node\<close> and its \<^verbatim>\<open>run\<close> method a function of the system and the world.
  \<^item> \<open>ProcessorRunner\<close>: \<^verbatim>\<open>processor_runner.go\<close>, \<^verbatim>\<open>group_processors.go\<close> and the processor of ledgers.
  \<^item> \<open>OfferTables\<close>, \<open>OrderBookStream\<close>: the tables of offers and pools (\<^verbatim>\<open>db2/history/offers.go\<close>, \<^verbatim>\<open>liquidity_pools.go\<close>), the two
    processors that write them, and \<^verbatim>\<open>ingest/orderbook.go\<close>, the stream that keeps an order book equal to them.
  \<^item> \<open>Parallel\<close>: \<^verbatim>\<open>parallel.go\<close>, the reingestion by several workers, as a step relation on the goroutines and the queue.
  \<^item> \<open>IngestProof\<close>, \<open>IngestCluster\<close>, \<open>IngestLive\<close>, \<open>Reingest\<close>, \<open>ReingestLive\<close>, \<open>LedgerGaps\<close>: proofs about the ingestion system;
    \<open>StreamProof\<close>: proofs about the order book stream, with the locale \<open>followed_table\<close>;
    \<open>IngestDemo\<close>: a small network on which all contracts hold, for the witnesses.

  \<^bold>\<open>How the parts interact\<close>

  The search trusts the invariant of the graph, which the batches keep. The state machine calls the processor runner inside a
  database transaction; it relies on the contract \<open>runner_ok\<close> (a checkpoint or ledger leads to its state and its ledger row), and the
  runner is shown to keep it. Instances of a cluster share the database, take turns by the lock on the last ingested ledger, and
  may fail anywhere. The commands for gaps and reingestion work on the same history, the parallel one with several systems at once. The order
  book stream connects the two halves: it polls the tables that the processors write and applies what has changed to the graph.

  \<^bold>\<open>What the lemmas show\<close>

  \<^item> Codecs: IDs, amounts, prices, strkeys, keys and assets round trip, and their decoders accept canonical forms only; where they do not,
    the divergence is a theorem.
  \<^item> Arithmetic: conversions of trades are exact roundings, bounded to 64 bits, and report overflow; pool trades keep the product.
  \<^item> Order book: an invariant over all sequences of batches, a refinement to sets of offers and pools, soundness and termination of the
    two searches, and the selection of the best paths.
  \<^item> Changes: the meta of a transaction is read back, or panics exactly if a state is missing; the compactor refines the sequence of
    changes on a database; its errors are characterised.
  \<^item> Ingestion: Hoare triples for every state on every branch, failed calls included (\<open>IngestProof\<close>); the invariant of a cluster by
    rule induction, and the transitions that each state allows (\<open>IngestCluster\<close>); progress of an instance from any consistent database (\<open>IngestLive\<close>).
  \<^item> Reingestion: what is kept and what is lost with and without force, exactness of the gaps, filling them, and for the parallel
    command safety for every interleaving, absence of deadlocks and a bound on the steps.
  \<^item> Order book stream: the rows of offers and pools round trip; what the processors write for a ledger; when a poll resets the graph; and
    that after a successful poll the graph holds exactly the rows that are not deleted, whatever ledgers, failures and resets came
    before, unless the state was rebuilt since the last reset and the poll does not reset. That exception occurs (\<open>rebuilt_state_unnoticed\<close>).

  \<^bold>\<open>Fuel and bounds\<close>

  \<^item> Loops over ledgers count \<^verbatim>\<open>uint32\<close> up to an inclusive bound; \<open>range_fuel\<close> is the length of the range. The fuel runs out only if
    the counter wraps around, which the result \<open>Diverges\<close> shows; the progress theorems prove that it does not happen.
  \<^item> \<open>runStateMachine\<close> has fuel because an instance runs for ever: \<open>Running\<close> is the state after so many transitions, and theorems
    quantify over the fuel (safety) or give it (progress). One unit is enough for a command, which is proved.
  \<^item> The walks along the path nodes of a search have the length of the heap as fuel; nodes point to earlier nodes only.
  \<^item> \<open>StreamAllOffers_loop\<close> has the number of rows plus one as fuel, which is proved to be enough.
  \<^item> Ledgers of the progress theorems are below \<open>2 ^ 31 - 1\<close>: beyond, total order IDs panic. The tables that the order book stream polls are
    ingested up to ledger \<open>2 ^ 31\<close>, beyond which the recorded ledgers of compactions do not parse.

  \<^bold>\<open>Parameters\<close>

  What is not in the repository, or only calls a service, is an argument with its documented behaviour as a hypothesis: 256-bit
  integers, \<^verbatim>\<open>sort.Sort\<close> (any stable or unstable sort), the XDR library, contexts (the sequence of their answers), the
  ledger backend and the history archive, which outside call fails and with what error, what PostgreSQL does with an aborted
  transaction, and the processors other than those of ledgers, offers and pools (which tables they write).

  \<^bold>\<open>Not modelled\<close>

  \<^item> Generated code (\<^verbatim>\<open>xdr_generated.go\<close> apart from the types used, \<^verbatim>\<open>gxdr\<close>, the database schema).
  \<^item> The processors that turn transactions into rows (effects, operations, trades, asset statistics) and the state verifier: mappings
    into SQL tables. \<^verbatim>\<open>ReapLookupTables\<close> is an arbitrary change of rows other than ledgers.
  \<^item> The hourly verification of the order book (\<^verbatim>\<open>OrderBookGraph.Verify\<close> and the two comparisons of \<^verbatim>\<open>orderbook.go\<close>): only what it changes, the
    reset of the stream, is modelled.
  \<^item> The HTTP API of Aurora, clients and protocols, transaction building and signing, archives, ledger backends, the other services
    and tools: input and output around the parts above.
  \<^item> Metrics, logging, statistics and the pause between states, of which the transition only holds the duration; \<^verbatim>\<open>StressTest\<close>, which installs a generator of random ledgers.
\<close>

section \<open>The ingestion system\<close>

definition idle_world :: "('s, 'r) db \<Rightarrow> ('s, 'r) world" where
  "idle_world d = \<lparr>stored = d, tx = None, calls = 0, verifications = []\<rparr>"

lemma idle_world_fields [simp]: "stored (idle_world d) = d" "tx (idle_world d) = None"
  by (simp_all add: idle_world_def)

lemma fresh_db_fields:
  "last_ingested fresh_db = Some 0" "version_of fresh_db = Some 0" "sequences fresh_db = []" "latest_history fresh_db = 0" "rows_ok fresh_db"
  by (simp_all add: fresh_db_def last_ingested_def version_of_def sequences_def latest_history_def rows_ok_def ParseUint32_def key_defs is_digit_def)

lemma fresh_db_good: "consistent S fresh_db" "contiguous fresh_db"
  by (simp_all add: consistent_def contiguous_def fresh_db_fields)

lemma demo_runner_ok: "runner_ok (demo_system f) (\<lambda>l. l)"
  unfolding demo_system_def by (rule runner_contract [OF demo_frames demo_changes]) simp_all

lemma demo_transaction_law: "transaction_law (demo_system f)"
  using demo_runner_ok [of f] by (simp add: runner_ok_def)

text \<open>
  C1. The invariant of the ingestion system. Any number of instances share one database; each runs the state
  machine, may crash and start again at any time, and any call to the database, the ledger backend or the
  archive may fail, a commit also with an unknown outcome. In every reachable database the state tables are those of the last
  ingested ledger, unless the database itself says that they have to be rebuilt, and the history has neither gaps nor duplicates.
\<close>

theorem ingestion_invariant:
  assumes "\<forall>s \<in> systems. runner_ok s S" "consistent S d" "contiguous d" "\<forall>i. instance_node (ns i)"
    and "cluster_reachable systems (d, ns) (d', ns')"
  shows "consistent S d' \<and> contiguous d'"
  using cluster_good [OF assms(5), of S] assms(1-4) by (simp add: good_def)

theorem ingestion_invariant_witness:
  "\<exists>d' ns'. cluster_reachable (range demo_system) (fresh_db, \<lambda>_. startState 0) (d', ns')
     \<and> ns' 0 = buildState 63 False False \<and> consistent (\<lambda>l. l) d' \<and> contiguous d'"
proof -
  let ?s = "demo_system (\<lambda>_. None)" and ?w = "idle_world fresh_db"
  obtain t e w' where 1: "run ?s (startState 0) ?w = ((t, e), w')" by (metis surj_pair)
  have "idle fresh_db ?w" by (simp add: idle_def)
  from triple_use [OF start_live [OF demo_calm fresh_db_fields(1,2)] this] 1
  have t: "next_node t = buildState 63 False False"
    by (auto simp: fresh_db_fields CurrentVersion_def rebuild_def)
  have "cluster_step (range demo_system) (stored ?w, \<lambda>_. startState 0) (stored w', (\<lambda>_. startState 0)(0 := next_node t))"
    by (rule instance_runs [where s = ?s]) (use 1 in simp_all)
  then have r: "cluster_reachable (range demo_system) (fresh_db, \<lambda>_. startState 0) (stored w', (\<lambda>_. startState 0)(0 := next_node t))"
    by simp
  from ingestion_invariant [OF _ fresh_db_good _ r, of "\<lambda>l. l"] demo_runner_ok r t show ?thesis by fastforce
qed



text \<open>
  C7. The processor runner keeps the contract that the state machine relies on. If change processors write the state tables only,
  transaction processors and loaders leave the ledgers and the keys alone, and the changes of a ledger and of a checkpoint have
  the effect they describe, then ingesting a checkpoint, a ledger or a batch of ledgers leads to the right state and adds each
  ledger to the history exactly once; a failed batch changes neither the state nor the keys.
\<close>

theorem runner_keeps_contract:
  assumes "frames_ok pr" "ledger_changes_ok s pr S" "archive_changes_ok s pr S"
  shows "runner_ok (with_runner s pr) S"
  by (rule runner_contract [OF assms])

theorem runner_keeps_contract_witness:
  "runner_ok (demo_system (\<lambda>_. None)) (\<lambda>l. l)
   \<and> (\<exists>d'. runner_RunAllProcessorsOnLedger demo_runner 7 0 (fresh_db\<lparr>state_tables := 6\<rparr>) = (d', None)
       \<and> state_tables d' = 7 \<and> history_ledgers d' = [(7 * 2 ^ 32, 7)])"
proof -
  let ?s = "demo_system (\<lambda>_. None)" and ?d = "fresh_db\<lparr>state_tables := 6\<rparr>"
  have ok: "runner_ok ?s (\<lambda>l. l)"
    unfolding demo_system_def by (rule runner_keeps_contract [OF demo_frames demo_changes]) simp_all
  obtain d' where 1: "runner_RunAllProcessorsOnLedger demo_runner 7 0 ?d = (d', None)"
    using demo_ledger [of 7 ?d 0] by (auto simp: sequences_def fresh_db_def)
  then have 2: "RunAllProcessorsOnLedger ?s (ledgerCloseMeta ?s 7) 0 ?d = (d', None)"
    by (simp add: demo_system_def with_runner_def)
  have "ledger_law ?s (\<lambda>l. l)" using ok by (simp add: runner_ok_def)
  from ledger_lawD [OF this 2] ledger_row_id [of 7] have "state_tables d' = 7 \<and> history_ledgers d' = [(7 * 2 ^ 32, 7)]"
    by (simp add: fresh_db_def ledger_row_def)
  with ok 1 show ?thesis by blast
qed

text \<open>
  C16. Every state leaves no database transaction open, whatever fails in it: the check at the start of the loop of the state
  machine, which panics on an open transaction, never fires, and the machine returns outside a transaction.
\<close>

theorem state_machine_transactions:
  assumes "tx w = None" "runStateMachine s fuel n w = (r, w')"
  shows "tx w' = None \<and> r \<noteq> UnexpectedTransaction"
  using assms by (rule machine_tx_None)

theorem state_machine_transactions_witness:
  "\<exists>r w'. Run (demo_system (\<lambda>n. if n = 5 then Some (Errorf ''connection lost'') else None)) 9 (idle_world fresh_db) = (r, w')
     \<and> tx w' = None \<and> r \<noteq> UnexpectedTransaction"
  using state_machine_transactions [of "idle_world fresh_db"] unfolding Run_def by (metis idle_world_fields(2) surj_pair)

section \<open>Reingestion\<close>

text \<open>
  C11. \<^verbatim>\<open>ReingestRange\<close> without force never loses a ledger of the history, whatever fails on the way: it adds ledgers of
  the given ranges only, none twice, and leaves the state and the keys of the live ingestion alone. When
  it returns no error, every ledger of the ranges is in the history (ledger 1 cannot be ingested and is
  skipped), and no range reached the last ledger that the live ingestion had ingested.
\<close>

theorem ReingestRange_unforced:
  assumes "transaction_law s" "tx w = None" "rows_ok (stored w)"
    and "ReingestRange s ranges False rebuildTradeAgg w = (err, w')"
  shows "tx w' = None \<and> set (sequences (stored w)) \<subseteq> set (sequences (stored w'))
    \<and> set (sequences (stored w')) \<subseteq> set (sequences (stored w)) \<union> all_ledgers ranges
    \<and> (distinct (sequences (stored w)) \<longrightarrow> distinct (sequences (stored w')))
    \<and> state_tables (stored w') = state_tables (stored w) \<and> same_keys (stored w) (stored w')
    \<and> (err = None \<longrightarrow> all_ledgers ranges \<subseteq> set (sequences (stored w'))
         \<and> (\<forall>cur \<in> set ranges. \<forall>x. last_ingested (stored w) = Some x \<longrightarrow> x = 0 \<or> EndSequence cur < x))"
proof (cases "validateRanges ranges")
  case None
  with assms(4) have "ReingestRange_loop s False rebuildTradeAgg ranges w = (err, w')" by (simp add: ReingestRange_def)
  from ReingestRange_loop_grows [OF this assms(2,1,3)] show ?thesis by (simp add: grows_def)
next
  case (Some e)
  with assms show ?thesis by (auto simp: ReingestRange_def)
qed

theorem ReingestRange_unforced_witness:
  "\<exists>err w'. ReingestRange (demo_system (\<lambda>n. if n = 20 then Some (Errorf ''timeout'') else None)) [\<lparr>StartSequence = 3, EndSequence = 5\<rparr>] False True (idle_world fresh_db) = (err, w')
     \<and> set (sequences (stored w')) \<subseteq> {3, 4, 5} \<and> (err = None \<longrightarrow> {3, 4, 5} \<subseteq> set (sequences (stored w')))"
proof -
  let ?s = "demo_system (\<lambda>n. if n = 20 then Some (Errorf ''timeout'') else None)" and ?w = "idle_world fresh_db" and ?r = "\<lparr>StartSequence = 3, EndSequence = 5\<rparr> :: LedgerRange"
  obtain err w' where 1: "ReingestRange ?s [?r] False True ?w = (err, w')" by (metis surj_pair)
  have "q = 3 \<or> q = 4 \<or> q = 5" if "3 \<le> q" "q \<le> 5" for q :: uint32
  proof -
    have "unat q = 3 \<or> unat q = 4 \<or> unat q = 5" using that by (auto simp: word_le_nat_alt)
    then show ?thesis by (simp add: word_unat_eq_iff)
  qed
  then have "all_ledgers [?r] = {3, 4, 5}" by (auto simp: all_ledgers_def range_ledgers_def in_range_def)
  then show ?thesis
    using ReingestRange_unforced [OF demo_transaction_law _ _ 1] 1 by (simp add: fresh_db_fields)
qed

text \<open>
  \<^verbatim>\<open>ReingestRange\<close> completes: while no call fails, valid ranges below the last ledger of the live ingestion are reingested
  without an error, and all their ledgers are in the history afterwards. The range that ends at ledger 1 is excluded; it
  is refused, because ledger 1 is replaced by ledger 2 and the range is then empty.
\<close>

lemma ReingestRange_completes:
  assumes "calm s c" "transaction_law s" "tx w = None" "rows_ok (stored w)" "distinct (sequences (stored w))" "last_ingested (stored w) = Some x"
    and "validateRanges ranges = None" "\<forall>cur \<in> set ranges. 2 \<le> EndSequence cur \<and> EndSequence cur < 2 ^ 31 - 1 \<and> (x = 0 \<or> EndSequence cur < x)"
  shows "\<exists>w'. ReingestRange s ranges False rebuildTradeAgg w = (None, w') \<and> all_ledgers ranges \<subseteq> set (sequences (stored w'))"
proof -
  have o: "ordered 1 ranges" using assms(7) by (simp add: validateRanges_ordered)
  have "StartSequence cur \<noteq> 0 \<and> StartSequence cur \<le> EndSequence cur" if "cur \<in> set ranges" for cur
    using ordered_ge [OF o that] ordered_le [OF o that] by auto
  then obtain w' where 1: "ReingestRange_loop s False rebuildTradeAgg ranges w = (None, w')"
    using ReingestRange_loop_succeeds [OF assms(1-6), of ranges rebuildTradeAgg] assms(8) by blast
  moreover have "all_ledgers ranges \<subseteq> set (sequences (stored w'))"
    using ReingestRange_loop_grows [OF 1 assms(3,2,4)] by simp
  ultimately show ?thesis using assms(7) by (simp add: ReingestRange_def)
qed

text \<open>
  C18. With force, a failure loses history: if the first ledger of the range cannot be fetched, the error is returned, but the transaction that has
  deleted the range is committed all the same, and the ledgers of the range are gone.
\<close>

theorem forced_reingest_loses_ledgers:
  assumes "tx w = None" "last_ingested (stored w) = Some x" "rows_ok (stored w)" "2 \<le> l" "l \<le> toLedger" "toLedger < 2 ^ 31 - 1"
    and "1 \<le> maxLedgerPerFlush s" "maxReingestRetries s = 0" "\<forall>n. fails s n = (if n = calls w + 15 then Some e else None)"
  shows "\<exists>err w'. ReingestRange s [\<lparr>StartSequence = l, EndSequence = toLedger\<rparr>] True rebuildTradeAgg w = (Some err, w')
     \<and> sequences (stored w') = filter (\<lambda>q. \<not> (l \<le> q \<and> q \<le> toLedger)) (sequences (stored w))"
proof -
  let ?r = "\<lparr>StartSequence = l, EndSequence = toLedger\<rparr>"
  obtain err w' where 1: "reingest_once s ?r True w = (Some err, w')"
    "history_ledgers (stored w') = filter (\<lambda>r. \<not> in_range l toLedger (snd r)) (history_ledgers (stored w))"
    using forced_reingest_gap [OF assms(1-7), of e] assms(9) by blast
  have "validateRanges [?r] = None" using assms(4,5) by (auto simp: validateRanges_def linorder_not_less [symmetric])
  with 1 assms(8) show ?thesis
    by (simp add: ReingestRange_def sequences_def filter_map comp_def in_range_def)
qed

theorem forced_reingest_loses_ledgers_witness:
  "\<exists>err w'. ReingestRange (demo_system (\<lambda>n. if n = 15 then Some (Errorf ''backend'') else None)) [\<lparr>StartSequence = 5, EndSequence = 6\<rparr>] True False
      (idle_world (fresh_db\<lparr>history_ledgers := map ledger_row [4, 5, 6, 7]\<rparr>)) = (Some err, w') \<and> sequences (stored w') = [4, 7]"
proof -
  let ?d = "fresh_db\<lparr>history_ledgers := map ledger_row [4, 5, 6, 7]\<rparr>"
  have "last_ingested ?d = Some 0" "rows_ok ?d" "sequences ?d = [4, 5, 6, 7]" "calls (idle_world ?d) = 0"
    using fresh_db_fields(1) by (simp_all add: last_ingested_def rows_ok_def ledger_row_def sequences_def idle_world_def)
  then show ?thesis
    using forced_reingest_loses_ledgers [of "idle_world ?d" 0 5 6 "demo_system (\<lambda>n. if n = 15 then Some (Errorf ''backend'') else None)" "Errorf ''backend''" False]
    by simp
qed

text \<open>
  C14. \<^verbatim>\<open>GetLedgerGapsInRange\<close> returns exactly the ledgers of the range that the history does not have, as ranges in the
  order that \<^verbatim>\<open>ReingestRange\<close> demands: none overlap and none is empty. It does not change the database.
\<close>

theorem GetLedgerGapsInRange_exact:
  assumes "\<forall>n. fails s n = None" "tx w = None" "distinct (sequences (stored w))" "0 \<notin> set (sequences (stored w))" "a \<noteq> 0" "a \<le> b"
  shows "\<exists>gaps w'. GetLedgerGapsInRange s a b w = (Inr gaps, w') \<and> stored w' = stored w
    \<and> validateRanges gaps = None \<and> spans gaps = {q. a \<le> q \<and> q \<le> b} - set (sequences (stored w))"
proof -
  obtain w' where "GetLedgerGapsInRange s a b w = (Inr (gaps_in_range a b (stored w)), w')" "stored w' = stored w"
    using GetLedgerGapsInRange_value [of s w a b] assms(1,2) by blast
  then show ?thesis
    using gaps_in_range_exact [OF assms(3-6)] by (simp add: validateRanges_ordered)
qed

theorem GetLedgerGapsInRange_exact_witness:
  "\<exists>gaps w'. GetLedgerGapsInRange (demo_system (\<lambda>_. None)) 2 9 (idle_world (fresh_db\<lparr>history_ledgers := map ledger_row [4, 5, 7]\<rparr>)) = (Inr gaps, w')
     \<and> validateRanges gaps = None \<and> spans gaps = {q. 2 \<le> q \<and> q \<le> 9} - {4, 5, 7}"
proof -
  let ?d = "fresh_db\<lparr>history_ledgers := map ledger_row [4, 5, 7]\<rparr>"
  have "sequences ?d = [4, 5, 7]" by (simp add: sequences_def ledger_row_def)
  then show ?thesis using GetLedgerGapsInRange_exact [of "demo_system (\<lambda>_. None)" "idle_world ?d" 2 9] by simp blast
qed

text \<open>
  C13. Filling the gaps of a range that starts at ledger 2 or later (\<^verbatim>\<open>aurora db fill-gaps\<close>: \<^verbatim>\<open>GetLedgerGapsInRange\<close>, then \<^verbatim>\<open>ReingestRange\<close>
  on what it returned) leaves a history that has every ledger of the range, while no call fails and the range lies below the last ledger of the live
  ingestion. From ledger 1 on it fails, as shown next.
\<close>

theorem fill_gaps:
  assumes "calm s c" "transaction_law s" "tx w = None" "rows_ok (stored w)" "distinct (sequences (stored w))" "0 \<notin> set (sequences (stored w))"
    and "last_ingested (stored w) = Some x" "2 \<le> a" "a \<le> b" "b < 2 ^ 31 - 1" "x = 0 \<or> b < x"
  shows "\<exists>gaps w1 w2. GetLedgerGapsInRange s a b w = (Inr gaps, w1) \<and> ReingestRange s gaps False rebuildTradeAgg w1 = (None, w2)
    \<and> {q. a \<le> q \<and> q \<le> b} \<subseteq> set (sequences (stored w2)) \<and> set (sequences (stored w)) \<subseteq> set (sequences (stored w2))"
proof -
  let ?g = "gaps_in_range a b (stored w)"
  have a0: "a \<noteq> 0" using assms(8) by auto
  obtain w1 where 1: "GetLedgerGapsInRange s a b w = (Inr ?g, w1)" "stored w1 = stored w" "tx w1 = None"
    using GetLedgerGapsInRange_value [OF calmD(1) [OF assms(1)] assms(3)] by blast
  have g: "ordered 1 ?g" "spans ?g = {q. a \<le> q \<and> q \<le> b} - set (sequences (stored w))"
    using gaps_in_range_exact [OF assms(5,6) a0 assms(9)] by blast+
  have "2 \<le> EndSequence r \<and> EndSequence r < 2 ^ 31 - 1 \<and> (x = 0 \<or> EndSequence r < x)" if "r \<in> set ?g" for r
  proof -
    have "EndSequence r \<in> spans ?g" using ordered_le [OF g(1) that] that by (auto simp: spans_def span_def)
    then have "a \<le> EndSequence r" "EndSequence r \<le> b" unfolding g(2) by simp_all
    then show ?thesis
      using order_trans [OF assms(8)] order_le_less_trans [OF _ assms(10)] order_le_less_trans [of "EndSequence r" b x] assms(11) by blast
  qed
  then obtain w2 where 2: "ReingestRange s ?g False rebuildTradeAgg w1 = (None, w2)" "all_ledgers ?g \<subseteq> set (sequences (stored w2))"
    using ReingestRange_completes [of s c w1 x ?g rebuildTradeAgg] assms 1 g(1) by (auto simp: validateRanges_ordered)
  have "validateRanges ?g = None" using g(1) by (simp add: validateRanges_ordered)
  with 2(1) have "ReingestRange_loop s False rebuildTradeAgg ?g w1 = (None, w2)" by (simp add: ReingestRange_def)
  from ReingestRange_loop_grows [OF this] have "set (sequences (stored w)) \<subseteq> set (sequences (stored w2))"
    using assms(2,4) 1 by (simp add: grows_def)
  moreover have "{q. a \<le> q \<and> q \<le> b} - set (sequences (stored w)) \<subseteq> all_ledgers ?g"
  proof -
    have "q \<noteq> 1" if "a \<le> q" for q using order_trans [OF assms(8) that] by (auto simp: word_le_nat_alt)
    then show ?thesis unfolding all_ledgers_spans [OF g(1)] g(2) by blast
  qed
  ultimately show ?thesis using 1(1) 2 by blast
qed

theorem fill_gaps_witness:
  "\<exists>gaps w1 w2. GetLedgerGapsInRange (demo_system (\<lambda>_. None)) 2 9 (idle_world (fresh_db\<lparr>history_ledgers := map ledger_row [4, 5, 7]\<rparr>)) = (Inr gaps, w1)
     \<and> ReingestRange (demo_system (\<lambda>_. None)) gaps False True w1 = (None, w2) \<and> {q. 2 \<le> q \<and> q \<le> 9} \<subseteq> set (sequences (stored w2))"
proof -
  let ?d = "fresh_db\<lparr>history_ledgers := map ledger_row [4, 5, 7]\<rparr>"
  have "sequences ?d = [4, 5, 7]" "rows_ok ?d" "last_ingested ?d = Some 0"
    using fresh_db_fields(1) by (simp_all add: sequences_def ledger_row_def rows_ok_def last_ingested_def)
  then show ?thesis using fill_gaps [OF demo_calm demo_transaction_law, of "idle_world ?d" 0 2 9 True] by simp blast
qed

text \<open>
  C19. Filling the gaps from ledger 1 on fails when the history starts at ledger 2, as it does after a full ingestion: the first gap is ledger 1
  alone, its reingestion is refused in every attempt, and no later gap is filled.
\<close>

theorem fill_gaps_from_genesis:
  assumes "\<forall>n. fails s n = None" "tx w = None" "transaction_law s" "rows_ok (stored w)" "distinct (sequences (stored w))"
    and "0 \<notin> set (sequences (stored w))" "1 \<notin> set (sequences (stored w))" "2 \<in> set (sequences (stored w))" "2 < b"
  shows "\<exists>gaps w1 err w2. GetLedgerGapsInRange s 1 b w = (Inr gaps, w1) \<and> ReingestRange s gaps False rebuildTradeAgg w1 = (Some err, w2)
    \<and> set (sequences (stored w2)) = set (sequences (stored w))"
proof -
  let ?g = "gaps_in_range 1 b (stored w)" and ?r = "\<lparr>StartSequence = 1, EndSequence = 1\<rparr> :: LedgerRange"
  obtain w1 where 1: "GetLedgerGapsInRange s 1 b w = (Inr ?g, w1)" "stored w1 = stored w" "tx w1 = None"
    using GetLedgerGapsInRange_value [of s w 1 b] assms(1,2) by blast
  have ne: "sequences (stored w) \<noteq> []" using assms(8) by auto
  have "oldest (stored w) = 2"
  proof -
    have "hd (sort (sequences (stored w))) \<in> set (sequences (stored w))" "hd (sort (sequences (stored w))) \<le> 2"
      using hd_last_sort [OF assms(8)] by blast+
    moreover have "q = 2" if "q \<in> set (sequences (stored w))" "q \<le> 2" for q
    proof -
      have "unat q \<le> 2" using that(2) by (simp add: word_le_nat_alt)
      moreover have "unat q \<noteq> 0" "unat q \<noteq> 1" using that(1) assms(6,7) by (metis unat_0 unat_1 word_unat_eq_iff)+
      ultimately have "unat q = 2" by linarith
      then show ?thesis by (simp add: word_unat_eq_iff)
    qed
    ultimately show ?thesis unfolding oldest_hd [OF ne] by blast
  qed
  then obtain rest where g: "?g = ?r # rest"
    using assms(9) by (auto simp: gaps_in_range_def Let_def min_def linorder_not_le word_le_nat_alt word_less_nat_alt split: if_splits)
  have valid: "validateRanges ?g = None"
    using gaps_in_range_exact [OF assms(5,6), of 1 b] assms(9) by (auto simp: validateRanges_ordered word_le_nat_alt word_less_nat_alt)
  obtain err w2 where "ReingestRange_loop s False rebuildTradeAgg ?g w1 = (Some err, w2)" "set (sequences (stored w2)) = set (sequences (stored w))"
    using genesis_range_blocks [of w1 s rebuildTradeAgg rest] assms(3,4) 1(2,3) unfolding g by auto
  with valid have "ReingestRange s ?g False rebuildTradeAgg w1 = (Some err, w2)" "set (sequences (stored w2)) = set (sequences (stored w))"
    by (simp_all add: ReingestRange_def)
  with 1 show ?thesis by blast
qed

theorem fill_gaps_from_genesis_witness:
  "\<exists>gaps w1 err w2. GetLedgerGapsInRange (demo_system (\<lambda>_. None)) 1 9 (idle_world (fresh_db\<lparr>history_ledgers := map ledger_row [2, 3, 7]\<rparr>)) = (Inr gaps, w1)
     \<and> ReingestRange (demo_system (\<lambda>_. None)) gaps False True w1 = (Some err, w2) \<and> set (sequences (stored w2)) = {2, 3, 7}"
proof -
  let ?d = "fresh_db\<lparr>history_ledgers := map ledger_row [2, 3, 7]\<rparr>"
  have "sequences ?d = [2, 3, 7]" "rows_ok ?d" by (simp_all add: sequences_def ledger_row_def rows_ok_def)
  then show ?thesis
    using fill_gaps_from_genesis [of "demo_system (\<lambda>_. None)" "idle_world ?d" 9 True] demo_transaction_law [of "\<lambda>_. None"] by simp
qed

section \<open>Parallel reingestion\<close>

text \<open>
  C20. What \<^verbatim>\<open>enqueueReingestTasks\<close> puts on the queue, for ranges that pass the validation and a batch size that does not wrap around: finitely many
  batches, in ascending order and without overlaps, which cover each range except for its last ledger when that would have been a batch of its own.
  So a range of a single ledger, as a gap often is, gives no batch at all.
\<close>

theorem enqueueReingestTasks_batches:
  assumes "batchSize \<noteq> 0" "validateRanges ranges = None" "\<forall>r \<in> set ranges. unat (EndSequence r) + unat batchSize < 2 ^ 32"
  shows "\<exists>k. next_job batchSize (job_position batchSize k (first_position ranges)) = None
    \<and> validateRanges (job_list batchSize k (first_position ranges)) = None
    \<and> spans (job_list batchSize k (first_position ranges)) =
        (\<Union>r \<in> set ranges. {q. StartSequence r \<le> q \<and> q \<le> EndSequence r}
           - (if (unat (EndSequence r) - unat (StartSequence r)) mod unat batchSize = 0 then {EndSequence r} else {}))"
proof -
  have o: "ordered 1 ranges" using assms(2) by (simp add: validateRanges_ordered)
  obtain k where k: "next_job batchSize (job_position batchSize k (first_position ranges)) = None"
    "ordered 1 (job_list batchSize k (first_position ranges))"
    "spans (job_list batchSize k (first_position ranges)) = (\<Union>r \<in> set ranges. span r - skipped batchSize r)"
    using enqueue_all [OF assms(1) o] assms(3) by blast
  have "span r - skipped batchSize r = {q. StartSequence r \<le> q \<and> q \<le> EndSequence r}
      - (if (unat (EndSequence r) - unat (StartSequence r)) mod unat batchSize = 0 then {EndSequence r} else {})" if "r \<in> set ranges" for r
    using ordered_le [OF o that] by (auto simp: span_def skipped_def skipped_from_def word_le_nat_alt)
  then have "(\<Union>r \<in> set ranges. span r - skipped batchSize r) = (\<Union>r \<in> set ranges. {q. StartSequence r \<le> q \<and> q \<le> EndSequence r}
      - (if (unat (EndSequence r) - unat (StartSequence r)) mod unat batchSize = 0 then {EndSequence r} else {}))" by (rule SUP_cong [OF refl])
  with k show ?thesis unfolding validateRanges_ordered by metis
qed

theorem enqueueReingestTasks_batches_witness:
  "\<exists>k. next_job 64 (job_position 64 k (first_position [\<lparr>StartSequence = 7, EndSequence = 7\<rparr>, \<lparr>StartSequence = 64, EndSequence = 128\<rparr>])) = None
    \<and> spans (job_list 64 k (first_position [\<lparr>StartSequence = 7, EndSequence = 7\<rparr>, \<lparr>StartSequence = 64, EndSequence = 128\<rparr>]))
      = {q. 64 \<le> q \<and> q \<le> 128} - {128}"
proof -
  let ?rs = "[\<lparr>StartSequence = 7, EndSequence = 7\<rparr>, \<lparr>StartSequence = 64, EndSequence = 128\<rparr>] :: LedgerRange list"
  have "{q. 7 \<le> q \<and> q \<le> 7} - {7} = ({} :: uint32 set)" by auto
  then show ?thesis
    using enqueueReingestTasks_batches [of 64 ?rs] by (simp add: validateRanges_def) blast
qed

text \<open>
  C6. Parallel reingestion, for any number of workers, any interleaving of them and any failures: when all workers have exited, no ledger of the history is lost and none
  is there twice. Without an error, every ledger of the ranges is in the history, but for ledger 1 and the last ledgers that were never queued.
  With an error, the same holds for the ledgers below the start of the range that the error names, so it is safe to start again from there. What the command does after that leaves the ledgers alone, and it reports an error if a batch failed.
\<close>

theorem parallel_reingest_outcome:
  fixes systems :: "('m, 'h, 's, 'r) system set"
  assumes "\<forall>s \<in> systems. transaction_law s" "rows_ok d" "calculateParallelLedgerBatchSize (totalRangeSize ranges) suggestion workerCount = Some b"
    and "validateRanges ranges = None" "\<forall>r \<in> set ranges. unat (EndSequence r) + unat b < 2 ^ 32"
    and "parallel_reachable systems (unat workerCount) b (parallel_init ranges d) c" "workers_done (unat workerCount) c"
  shows "set (sequences d) \<subseteq> set (sequences (pdb c)) \<and> set (sequences (pdb c)) \<subseteq> set (sequences d) \<union> spans ranges
    \<and> (distinct (sequences d) \<longrightarrow> distinct (sequences (pdb c)))
    \<and> (\<forall>r \<in> set ranges. \<forall>q \<in> span r - skipped b r - {1}.
         (case lowestRangeErr c of None \<Rightarrow> True | Some low \<Rightarrow> q < StartSequence (re_ledgerRange low)) \<longrightarrow> q \<in> set (sequences (pdb c)))
    \<and> (\<forall>(systemFactory :: go_error + ('m, 'h, 's, 'r) system) w r w'. tx w = None \<and> stored w = pdb c \<and> finishReingest systemFactory ranges (lowestLedger c) (lowestRangeErr c) w = (r, w') \<longrightarrow>
         history_ledgers (stored w') = history_ledgers (pdb c) \<and> (r = None \<longrightarrow> lowestRangeErr c = None))"
proof -
  have "b \<noteq> 0" using batch_size_ok(1) [OF assms(3)] by auto
  then have cut: "cuttable b ranges" using assms(4,5) by (simp add: cuttable_def)
  obtain k where inv: "par_inv d (unat workerCount) b (first_position ranges) k c"
    using par_inv_reachable [OF assms(6) _ assms(2)] assms(1) by blast
  have "history_ledgers (stored w') = history_ledgers (pdb c) \<and> (r = None \<longrightarrow> lowestRangeErr c = None)"
    if "tx w = None" "stored w = pdb c" "finishReingest systemFactory ranges (lowestLedger c) (lowestRangeErr c) w = (r, w')"
    for w r w' and systemFactory :: "go_error + ('m, 'h, 's, 'r) system"
    using finishReingest_ledgers [OF that(3,1)] that(2) by simp
  then show ?thesis using parallel_outcome [OF cut inv assms(7)] by blast
qed

lemma demo_parallel_run:
  fixes ranges :: "LedgerRange list"
  defines "ranges \<equiv> [\<lparr>StartSequence = 2, EndSequence = 3\<rparr>]"
  shows "\<exists>c. parallel_reachable (range demo_system) 1 64 (parallel_init ranges fresh_db) c \<and> workers_done 1 c \<and> lowestRangeErr c = None"
proof -
  let ?job = "\<lparr>StartSequence = 2, EndSequence = 3\<rparr> :: LedgerRange" and ?p = "(ranges, 4) :: position" and ?s = "demo_system (\<lambda>_. None)"
  let ?step = "parallel_step (range demo_system) 1 64" and ?c0 = "parallel_init ranges fresh_db"
  have job: "next_job 64 (first_position ranges) = Some (?job, ?p)" "next_job 64 ?p = None"
    by (simp_all add: ranges_def first_position_def next_job_def)
  obtain w' where w': "ReingestRange ?s [?job] False False (idle_world fresh_db) = (None, w')"
    using ReingestRange_completes [OF demo_calm demo_transaction_law, of "idle_world fresh_db" 0 "[?job]" False]
    by (auto simp: fresh_db_fields validateRanges_def)
  let ?c1 = "send_job 0 ?job ?p ?c0"
  have 1: "?step ?c0 ?c1" by (rule job_sent) (simp_all add: parallel_init_def job)
  let ?c2 = "?c1\<lparr>workers := (workers ?c1)(0 := Waiting), pdb := stored w'\<rparr>"
  have 2: "?step ?c1 ?c2"
    by (rule job_done [where s = ?s and w = "idle_world fresh_db" and job = ?job])
       (use w' in \<open>simp_all add: send_job_def parallel_init_def\<close>)
  let ?c3 = "?c2\<lparr>enqueued := True, stop_closed := True\<rparr>"
  have 3: "?step ?c2 ?c3" by (rule enqueue_ended) (simp_all add: send_job_def parallel_init_def job)
  let ?c4 = "?c3\<lparr>workers := (workers ?c3)(0 := Exited)\<rparr>"
  have 4: "?step ?c3 ?c4" by (rule worker_stopped) simp_all
  have "parallel_reachable (range demo_system) 1 64 ?c0 ?c4" using 1 2 3 4 by (meson converse_rtranclp_into_rtranclp rtranclp.rtrancl_refl)
  moreover have "workers_done 1 ?c4" "lowestRangeErr ?c4 = None" by (simp_all add: workers_done_def send_job_def parallel_init_def)
  ultimately show ?thesis by blast
qed

theorem parallel_reingest_outcome_witness:
  "\<exists>c :: (uint32, unit) parallel. parallel_reachable (range demo_system) 1 64 (parallel_init [\<lparr>StartSequence = 2, EndSequence = 3\<rparr>] fresh_db) c \<and> workers_done 1 c
     \<and> lowestRangeErr c = None \<and> 3 \<in> set (sequences (pdb c))"
proof -
  let ?rs = "[\<lparr>StartSequence = 2, EndSequence = 3\<rparr>] :: LedgerRange list"
  obtain c where c: "parallel_reachable (range demo_system) 1 64 (parallel_init ?rs fresh_db) c" "workers_done 1 c" "lowestRangeErr c = None"
    using demo_parallel_run by blast
  have size: "calculateParallelLedgerBatchSize (totalRangeSize ?rs) 0 1 = Some 64"
    by (simp add: calculateParallelLedgerBatchSize_def totalRangeSize_def minBatchSize_def historyCheckpointLedgerInterval_def)
  have "\<forall>q \<in> {q. 2 \<le> q \<and> q \<le> 3} - {1}. q \<in> set (sequences (pdb c))"
    using parallel_reingest_outcome [OF _ fresh_db_fields(5) size, of "range demo_system" c] c demo_transaction_law
    by (simp add: validateRanges_def span_def skipped_def skipped_from_def)
  then have "3 \<in> set (sequences (pdb c))" by simp
  with c show ?thesis by blast
qed

text \<open>
  C15. Parallel reingestion always ends: with at least one worker no reachable state in which a worker is left is stuck, so neither a failed worker nor the
  closed stop channel can leave the enqueuing goroutine or a worker waiting for ever, and every run has at most a fixed number of steps, three
  for each batch, one for each worker and one more.
\<close>

theorem parallel_reingest_ends:
  assumes "\<forall>s \<in> systems. transaction_law s" "systems \<noteq> {}" "rows_ok d" "newParallelSystems workerCount = Inr n"
    and "calculateParallelLedgerBatchSize (totalRangeSize ranges) suggestion workerCount = Some b"
    and "validateRanges ranges = None" "\<forall>r \<in> set ranges. unat (EndSequence r) + unat b < 2 ^ 32"
  shows "(\<forall>c. parallel_reachable systems (unat n) b (parallel_init ranges d) c \<longrightarrow> \<not> workers_done (unat n) c \<longrightarrow> (\<exists>c'. parallel_step systems (unat n) b c c'))
    \<and> (\<exists>m. jobs_left b (first_position ranges) m
         \<and> (\<forall>k c. (parallel_step systems (unat n) b ^^ k) (parallel_init ranges d) c \<longrightarrow> k \<le> 3 * m + unat n + 1))"
proof -
  have "n \<noteq> 0" using assms(4) by (auto simp: newParallelSystems_def split: if_splits)
  then have n: "1 \<le> unat n" using unat_gt_0 [of n] by simp
  have "b \<noteq> 0" using batch_size_ok(1) [OF assms(5)] by auto
  then have cut: "cuttable b ranges" using assms(6,7) by (simp add: cuttable_def)
  obtain s where s: "s \<in> systems" using assms(2) by blast
  have "\<exists>c'. parallel_step systems (unat n) b c c'"
    if "parallel_reachable systems (unat n) b (parallel_init ranges d) c" "\<not> workers_done (unat n) c" for c
    using par_inv_reachable [OF that(1) _ assms(3)] parallel_not_stuck [OF _ that(2) n s] assms(1) by blast
  moreover obtain m where m: "jobs_left b (first_position ranges) m" using cuttable_jobs [OF cut] jobs_left_ex by metis
  moreover have "k \<le> 3 * m + unat n + 1" if "(parallel_step systems (unat n) b ^^ k) (parallel_init ranges d) c" for k c
  proof -
    have "jobs_left b (pos (parallel_init ranges d)) m" using m by (simp add: parallel_init_def)
    from parallel_bounded [OF that this] show ?thesis by (simp add: work_def parallel_init_def)
  qed
  ultimately show ?thesis by blast
qed

theorem parallel_reingest_ends_witness:
  "\<exists>m. jobs_left 64 (first_position [\<lparr>StartSequence = 2, EndSequence = 3\<rparr>]) m
     \<and> (\<forall>k c. (parallel_step (range demo_system) 1 64 ^^ k) (parallel_init [\<lparr>StartSequence = 2, EndSequence = 3\<rparr>] fresh_db) c \<longrightarrow> k \<le> 3 * m + 2)"
proof -
  let ?rs = "[\<lparr>StartSequence = 2, EndSequence = 3\<rparr>] :: LedgerRange list"
  have size: "calculateParallelLedgerBatchSize (totalRangeSize ?rs) 0 1 = Some 64"
    by (simp add: calculateParallelLedgerBatchSize_def totalRangeSize_def minBatchSize_def historyCheckpointLedgerInterval_def)
  show ?thesis
    using parallel_reingest_ends [OF _ _ fresh_db_fields(5) _ size, of "range demo_system" 1] demo_transaction_law
    by (simp add: validateRanges_def newParallelSystems_def)
qed

section \<open>The states of the machine\<close>

text \<open>
  C17. A state leads only to the transitions that the code names for it, whatever its calls return: \<open>successor\<close> lists them per state with
  their targets, their pauses and whether they come with an error. The start state alone chooses between stopping, waiting, rebuilding (at the suggested
  checkpoint, if there is one), ingesting a proper range of history and resuming at a ledger other than 0; a resume state repeats its ledger after an error
  and otherwise goes on with a later one, or back to the start. The commands, building the state with \<^verbatim>\<open>stop\<close> set, the stress test, the verification
  and the reingestion of a range, end the machine after their first state, with its error; all other states stay among those of an instance.
\<close>

theorem state_machine_typed:
  assumes "tx w = None" "run s n w = ((t, err), w')"
  shows "successor n t err \<and> (instance_node n \<longrightarrow> instance_node (next_node t))
    \<and> (one_shot n \<longrightarrow> runStateMachine s (Suc fuel) n w = (Returned err, w'))"
proof (intro conjI impI)
  show succ: "successor n t err" by (rule run_successor [OF assms(2)])
  show "instance_node (next_node t)" if "instance_node n" using instance_node_closed [OF that assms(2)] .
  show "runStateMachine s (Suc fuel) n w = (Returned err, w')" if "one_shot n"
    using one_shot_successor [OF that succ] assms by (simp add: GetTx_def stop_def)
qed

theorem state_machine_typed_witness:
  "\<exists>err w'. runStateMachine (demo_system (\<lambda>_. None)) 3 (buildState 64 False True) (idle_world fresh_db) = (Returned err, w')"
proof -
  obtain t err w' where "run (demo_system (\<lambda>_. None)) (buildState 64 False True) (idle_world fresh_db) = ((t, err), w')" by (metis surj_pair)
  from state_machine_typed [OF _ this, of 2] show ?thesis by (auto simp: idle_world_def numeral_3_eq_3 numeral_2_eq_2)
qed

end
